(* ===== verification/Prelude.thy ===== *)
theory Prelude
  imports Main "HOL-Library.Word" "HOL-Library.Monad_Syntax" "HOL-Library.List_Lexorder"
begin

text \<open>
  Shared vocabulary of the development: the C integer types at their widths, blocks of memory
  cells with checked reads and writes, the library functions of C that the runtime calls on them
  (\<open>memcpy\<close>, \<open>memmove\<close>, \<open>memset\<close>, \<open>memcmp\<close>, \<open>strlen\<close>), and the
  lemma collections that the component theories use.

  A function that touches memory returns an \<open>option\<close>: \<open>None\<close> is an access outside a
  block, or a read of a cell that nothing has written since its allocation. A theorem
  \<open>f x = Some y\<close> therefore also says that \<open>f\<close> makes no such access on \<open>x\<close>.
\<close>

unbundle bit_operations_syntax

section \<open>Integer types of the C code\<close>

text \<open>The runtime is modelled for a 64-bit little-endian target whose \<open>char\<close> is signed.\<close>

type_synonym u8 = "8 word"
type_synonym u16 = "16 word"
type_synonym c_int = "32 word"
type_synonym c_long = "64 word"

text \<open>The number of tag bits of a pointer.\<close>

definition PTR_ALIGNMENT :: nat where "PTR_ALIGNMENT = 3"

text \<open>\<open>(long)c\<close> for a signed \<open>char\<close> and \<open>(unsigned char)c\<close> for any integer.\<close>

definition char_to_long :: "u8 \<Rightarrow> c_long" where
  "char_to_long c = scast c"

definition to_uchar :: "'a::len word \<Rightarrow> u8" where
  "to_uchar w = ucast w"

text \<open>
  The quotient and remainder of C on signed operands truncate towards zero. Both trap on a zero
  divisor, and on the most negative value divided by minus one (the quotient does not fit); a trap
  is \<open>None\<close>.
\<close>

definition c_div :: "'a::len word \<Rightarrow> 'a word \<Rightarrow> 'a word option" where
  "c_div x y =
     (if y = 0 \<or> (sint x = - (2 ^ (LENGTH('a) - 1)) \<and> y = -1) then None
      else Some (word_of_int (sgn (sint x) * sgn (sint y) * (\<bar>sint x\<bar> div \<bar>sint y\<bar>))))"

definition c_mod :: "'a::len word \<Rightarrow> 'a word \<Rightarrow> 'a word option" where
  "c_mod x y =
     (if y = 0 \<or> (sint x = - (2 ^ (LENGTH('a) - 1)) \<and> y = -1) then None
      else Some (word_of_int (sgn (sint x) * (\<bar>sint x\<bar> mod \<bar>sint y\<bar>))))"

section \<open>Blocks of memory cells\<close>

text \<open>A cell is \<open>None\<close> from its allocation until its first write.\<close>

type_synonym 'a cells = "'a option list"

definition gc_malloc :: "nat \<Rightarrow> 'a cells" where
  "gc_malloc n = replicate n None"

definition rd :: "'a cells \<Rightarrow> nat \<Rightarrow> 'a option" where
  "rd m i = (if i < length m then m ! i else None)"

definition wr :: "'a cells \<Rightarrow> nat \<Rightarrow> 'a \<Rightarrow> 'a cells option" where
  "wr m i v = (if i < length m then Some (m[i := Some v]) else None)"

text \<open>
  \<open>blit dst di src si n\<close> is \<open>memcpy(&dst[di], &src[si], n)\<close> between two blocks, and also
  \<open>memmove\<close> inside one block (\<open>dst = src\<close>): the value copied is the old one.
  \<open>blit_within\<close> is \<open>memcpy\<close> inside one block, which is undefined when the areas overlap.
\<close>

definition blit :: "'a cells \<Rightarrow> nat \<Rightarrow> 'a cells \<Rightarrow> nat \<Rightarrow> nat \<Rightarrow> 'a cells option" where
  "blit dst di src si n =
     (if di + n \<le> length dst \<and> si + n \<le> length src
      then Some (take di dst @ take n (drop si src) @ drop (di + n) dst) else None)"

definition blit_within :: "'a cells \<Rightarrow> nat \<Rightarrow> nat \<Rightarrow> nat \<Rightarrow> 'a cells option" where
  "blit_within m di si n =
     (if si + n \<le> di \<or> di + n \<le> si then blit m di m si n else None)"

definition memset :: "'a cells \<Rightarrow> nat \<Rightarrow> 'a \<Rightarrow> nat \<Rightarrow> 'a cells option" where
  "memset m i v n =
     (if i + n \<le> length m then Some (take i m @ replicate n (Some v) @ drop (i + n) m) else None)"

text \<open>\<open>rds m i n\<close> reads \<open>n\<close> cells; \<open>memcmp_eq\<close> is \<open>!memcmp(&a[i], &b[j], n)\<close>.\<close>

fun rds :: "'a cells \<Rightarrow> nat \<Rightarrow> nat \<Rightarrow> 'a list option" where
  "rds m i 0 = Some []"
| "rds m i (Suc n) = do { c \<leftarrow> rd m i; cs \<leftarrow> rds m (Suc i) n; Some (c # cs) }"

definition memcmp_eq :: "'a cells \<Rightarrow> nat \<Rightarrow> 'a cells \<Rightarrow> nat \<Rightarrow> nat \<Rightarrow> bool option" where
  "memcmp_eq a i b j n = do { x \<leftarrow> rds a i n; y \<leftarrow> rds b j n; Some (x = y) }"

text \<open>\<open>strlen\<close> from a position: the distance to the first zero cell of the block.\<close>

function strlen_from :: "'a::zero cells \<Rightarrow> nat \<Rightarrow> nat option" where
  "strlen_from m i =
     (if i < length m
      then do { c \<leftarrow> rd m i; if c = 0 then Some 0 else map_option Suc (strlen_from m (Suc i)) }
      else None)"
  by pat_completeness auto
termination
  by (relation "measure (\<lambda>(m, i). length m - i)") auto

declare strlen_from.simps [simp del]

text \<open>A \<open>long\<close> used as an offset or a length: negative is out of range.\<close>

definition idx :: "int \<Rightarrow> nat option" where
  "idx i = (if 0 \<le> i then Some (nat i) else None)"

text \<open>\<open>((long *)m)[i]\<close>: eight bytes, the first one least significant.\<close>

definition rd_long :: "u8 cells \<Rightarrow> nat \<Rightarrow> c_long option" where
  "rd_long m i = map_option (\<lambda>bs. foldr (\<lambda>b w. push_bit 8 w OR ucast b) bs 0) (rds m (8 * i) 8)"

text \<open>The terminated C string of some characters.\<close>

definition c_string :: "'a::zero list \<Rightarrow> 'a cells" where
  "c_string xs = map Some (xs @ [0])"

text \<open>The bytes of a string literal.\<close>

definition bytes :: "string \<Rightarrow> u8 list" where
  "bytes s = map of_char s"

text \<open>Conversion of a \<open>long\<close> to an \<open>int\<close>.\<close>

definition int32 :: "int \<Rightarrow> int" where
  "int32 i = signed_take_bit 31 i"

section \<open>Counted loops\<close>

text \<open>\<open>for_up a b body s\<close> is \<open>for( i = a; i < b; i++ ) body\<close> over the variables
  \<open>s\<close> that the body assigns.\<close>

function for_up :: "int \<Rightarrow> int \<Rightarrow> (int \<Rightarrow> 's \<Rightarrow> 's option) \<Rightarrow> 's \<Rightarrow> 's option" where
  "for_up i n body s =
     (if i < n then do { s' \<leftarrow> body i s; for_up (i + 1) n body s' } else Some s)"
  by pat_completeness auto
termination
  by (relation "measure (\<lambda>(i, n, body, s). nat (n - i))") auto

declare for_up.simps [simp del]

section \<open>Errors raised to Scheme\<close>

text \<open>
  \<open>C_FAILURE(proc, msg, obj)\<close> and \<open>C_SYSTEM_FAILURE(err, proc, msg, obj)\<close> leave the
  function through a Scheme exception. A function that may raise returns a sum in its option.
\<close>

datatype io_error =
    BGL_IO_PORT_ERROR | BGL_IO_READ_ERROR | BGL_IO_WRITE_ERROR | BGL_IO_CLOSED_ERROR
  | BGL_IO_CONNECTION_ERROR | BGL_IO_SIGPIPE_ERROR | BGL_IO_TIMEOUT_ERROR | BGL_IO_ERROR | BGL_ERROR

datatype failure =
    C_Failure string string int
  | C_System_Failure io_error string string

section \<open>Lemma collections\<close>

named_theorems mem_simps "evaluation of memory operations on initialised blocks"

named_theorems bstr "evaluation of the string operations on initialised strings"

lemma idx_int [simp]: "idx (int n) = Some n"
  by (simp add: idx_def)

lemma idx_diff [simp]: "n \<le> m \<Longrightarrow> idx (int m - int n) = Some (m - n)"
  by (simp add: idx_def nat_diff_distrib)

lemma idx_zero [simp]: "idx 0 = Some 0" and idx_one [simp]: "idx 1 = Some 1"
  and idx_numeral [simp]: "idx (numeral k) = Some (numeral k)"
  by (simp_all add: idx_def)

lemma length_gc_malloc [simp]: "length (gc_malloc n) = n"
  by (simp add: gc_malloc_def)

lemma rd_map_Some [mem_simps]: "rd (map Some xs) i = (if i < length xs then Some (xs ! i) else None)"
  by (simp add: rd_def)

lemma rd_append [mem_simps]:
  "rd (xs @ ys) i = (if i < length xs then rd xs i else rd ys (i - length xs))"
  by (auto simp: rd_def nth_append)

lemma rd_Cons_0 [mem_simps]: "rd (c # m) 0 = c"
  and rd_Cons_Suc [mem_simps]: "rd (c # m) (Suc i) = rd m i"
  by (simp_all add: rd_def)

lemma wr_Some_conv: "wr m i v = Some m' \<longleftrightarrow> i < length m \<and> m' = m[i := Some v]"
  by (auto simp: wr_def)

lemma wr_in [simp]: "i < length m \<Longrightarrow> wr m i v = Some (m[i := Some v])"
  by (simp add: wr_def)

lemma length_blit: "blit d di s si n = Some m \<Longrightarrow> length m = length d"
  by (auto simp: blit_def split: if_splits)

lemma rds_map_Some [mem_simps]:
  "i + n \<le> length xs \<Longrightarrow> rds (map Some xs) i n = Some (take n (drop i xs))"
proof (induction n arbitrary: i)
  case 0
  then show ?case by simp
next
  case (Suc n)
  then have "i < length xs" by simp
  then have "drop i xs = xs ! i # drop (Suc i) xs"
    by (simp add: Cons_nth_drop_Suc)
  with Suc show ?case by (simp add: mem_simps)
qed

lemma rds_add: "rds m i (a + b) = do { x \<leftarrow> rds m i a; y \<leftarrow> rds m (i + a) b; Some (x @ y) }"
  by (induction a arbitrary: i) (auto split: Option.bind_splits)

lemma rds_append_left [mem_simps]:
  "i + n \<le> length xs \<Longrightarrow> rds (xs @ ys) i n = rds xs i n"
  by (induction n arbitrary: i) (simp_all add: mem_simps)

lemma length_rds: "rds m i n = Some xs \<Longrightarrow> length xs = n"
  by (induction n arbitrary: i xs) (auto split: Option.bind_splits)

lemma strlen_from_zero:
  assumes "n < length m" and "i \<le> n" and "rd m n = Some 0"
    and "\<And>k. i \<le> k \<Longrightarrow> k < n \<Longrightarrow> \<exists>c. rd m k = Some c \<and> c \<noteq> 0"
  shows "strlen_from m i = Some (n - i)"
  using assms
proof (induction "n - i" arbitrary: i)
  case 0
  then have "i = n" by simp
  with 0 show ?case by (simp add: strlen_from.simps [of m n])
next
  case (Suc d)
  then have "i < n" by simp
  with Suc.prems obtain c where c: "rd m i = Some c" "c \<noteq> 0" by blast
  have "strlen_from m (Suc i) = Some (n - Suc i)"
    using Suc \<open>i < n\<close> by (intro Suc.hyps) auto
  with c \<open>i < n\<close> Suc.prems(1) show ?case
    by (simp add: strlen_from.simps [of m i] Suc_diff_Suc)
qed

lemma length_c_string [simp]: "length (c_string xs) = Suc (length xs)"
  by (simp add: c_string_def)

lemma rd_c_string [mem_simps]:
  "rd (c_string xs) i = (if i < length xs then Some (xs ! i) else if i = length xs then Some 0 else None)"
  by (simp add: c_string_def rd_def nth_append del: map_append)

lemma strlen_c_string [mem_simps]:
  assumes "0 \<notin> set xs"
  shows "strlen_from (c_string xs) 0 = Some (length xs)"
proof -
  have "xs ! k \<noteq> 0" if "k < length xs" for k
    using assms that by (metis nth_mem)
  then show ?thesis
    using strlen_from_zero [of "length xs" "c_string xs" 0] by (simp add: rd_c_string)
qed

lemma take_drop_c_string [mem_simps]:
  "i + n \<le> Suc (length xs) \<Longrightarrow>
   take n (drop i (c_string xs @ sl)) = map Some (take n (drop i (xs @ [0])))"
  by (simp add: c_string_def take_map drop_map del: map_append)

lemma int32_le: "int32 (int n) \<le> int n"
  unfolding int32_def by (rule signed_take_bit_int_less_eq_self_iff [THEN iffD2]) simp

lemma int32_small [simp]: "- (2 ^ 31) \<le> i \<Longrightarrow> i < 2 ^ 31 \<Longrightarrow> int32 i = i"
  by (simp add: int32_def signed_take_bit_int_eq_self)

text \<open>A counted loop over the elements of a list is a fold.\<close>

lemma for_up_fold:
  assumes "a \<le> b" and "b \<le> length xs"
    and "\<And>k s. a \<le> k \<Longrightarrow> k < b \<Longrightarrow> body (int k) s = Some (g (xs ! k) s)"
  shows "for_up (int a) (int b) body s = Some (fold g (take (b - a) (drop a xs)) s)"
  using assms
proof (induction "b - a" arbitrary: a s)
  case 0
  then show ?case by (simp add: for_up.simps)
next
  case (Suc n)
  then have lt: "a < b" "a < length xs" by simp_all
  have IH: "for_up (int (Suc a)) (int b) body t = Some (fold g (take (b - Suc a) (drop (Suc a) xs)) t)" for t
    using Suc by (intro Suc.hyps) auto
  have "take (b - a) (drop a xs) = xs ! a # take (b - Suc a) (drop (Suc a) xs)"
    using lt by (metis Cons_nth_drop_Suc Suc_diff_Suc take_Suc_Cons)
  with IH lt Suc.prems show ?case
    by (subst for_up.simps) (simp add: add.commute)
qed

text \<open>Two counted loops whose bodies correspond through a function have corresponding results.\<close>

lemma for_up_map:
  assumes "\<And>i s. body' i (f s) = map_option f (body i s)"
  shows "for_up a b body' (f s) = map_option f (for_up a b body s)"
proof (induction "nat (b - a)" arbitrary: a s)
  case 0
  then show ?case by (simp add: for_up.simps)
next
  case (Suc n)
  then have "a < b" and "n = nat (b - (a + 1))" by simp_all
  with Suc.hyps(1) show ?case
    by (subst (1 2) for_up.simps) (auto simp: assms split: Option.bind_splits)
qed

lemma rds_c_string [mem_simps]:
  "i + n \<le> length xs \<Longrightarrow> rds (c_string xs) i n = Some (take n (drop i xs))"
  unfolding c_string_def by (subst rds_map_Some) auto

lemma take_append_drop_update:
  "i < length xs \<Longrightarrow> take i xs @ x # drop (Suc i) xs = xs[i := x]"
  by (simp add: upd_conv_take_nth_drop)

lemma replicate_take_nth_update:
  assumes "i < n"
  shows "(map f [0..<i] @ replicate (n - i) z)[i := f i] = map f [0..<Suc i] @ replicate (n - Suc i) z"
proof -
  have "n - i = Suc (n - Suc i)" using assms by simp
  then have "replicate (n - i) z = z # replicate (n - Suc i) z" by (simp only: replicate_Suc)
  then show ?thesis by (simp add: list_update_append)
qed

lemma ucast_int_add: "(ucast (a + b :: c_long) :: c_int) = ucast a + ucast b"
proof (transfer, goal_cases)
  case (1 a b)
  have "take_bit 32 (a + b) = take_bit 32 (take_bit 32 (take_bit 64 a) + take_bit 32 (take_bit 64 b))"
    by (simp add: take_bit_add)
  also have "\<dots> = take_bit 32 (take_bit 64 a + take_bit 64 b)" by (rule take_bit_add)
  finally show ?case by simp
qed

lemma ucast_int_push_bit: "(ucast (push_bit n (a :: c_long)) :: c_int) = push_bit n (ucast a)"
  by (rule bit_word_eqI) (auto simp: bit_simps)

lemma ucast_scast_int [simp]: "(ucast (scast (r :: c_int) :: c_long) :: c_int) = r"
  by (rule bit_word_eqI) (auto simp: bit_simps)

section \<open>C integers as mathematical integers\<close>

lemma sint_bounds: "- (2 ^ (LENGTH('a) - 1)) \<le> sint (x :: 'a::len word) \<and> sint x < 2 ^ (LENGTH('a) - 1)"
  using sint_range_size [of x] by (simp add: word_size)

lemma sint_eq_iff: "sint x = sint y \<longleftrightarrow> (x :: 'a::len word) = y"
  by (auto intro: signed_word_eqI)

lemma sint_word_of_int_in:
  assumes "- (2 ^ (LENGTH('a) - 1)) \<le> i" and "i < 2 ^ (LENGTH('a::len) - 1)"
  shows "sint (word_of_int i :: 'a word) = i"
  using assms by (simp add: sint_sbintrunc' signed_take_bit_int_eq_self)

lemma sint_cong: "\<exists>k. sint (word_of_int i :: 'a::len word) = i + k * 2 ^ LENGTH('a)"
proof -
  let ?h = "2 ^ (LENGTH('a) - 1) :: int" and ?m = "2 ^ LENGTH('a) :: int"
  have "sint (word_of_int i :: 'a word) = (i + ?h) mod ?m - ?h"
    by (rule int_word_sint)
  also have "\<dots> = i + (- ((i + ?h) div ?m)) * ?m"
    by (simp add: minus_div_mult_eq_mod [symmetric])
  finally show ?thesis by blast
qed

lemma unat_drop_bit_less:
  assumes "0 < i"
  shows "unat (drop_bit (Suc n) i) < unat (i :: 'a::len word)"
proof -
  have "0 < unat i" using assms by (simp add: unat_gt_0)
  moreover have "(1::nat) < 2 ^ Suc n" by (rule one_less_power) simp_all
  ultimately have "unat i div 2 ^ Suc n < unat i" by (rule div_less_dividend [rotated])
  then show ?thesis by (simp only: unat_drop_bit_eq drop_bit_eq_div [where ?'a = nat])
qed

lemma xor_right_cancel [simp]: "a XOR c = b XOR c \<longleftrightarrow> a = (b :: 'a::len word)"
  by (metis xor.assoc xor_self_eq xor.right_neutral)

end
