(* ===== verification/Fixnum.thy ===== *)
theory Fixnum
  imports Prelude
begin

text \<open>
  Fixnums: the tagged integers of \<open>runtime/Include/bigloo_int.h\<close> (the branch for
  \<open>TAG_INT == 0\<close> and \<open>PTR_ALIGNMENT == 3\<close>, so 61-bit fixnums in a 64-bit word), and the
  overflow tests of \<open>runtime/Clib/coverflow.c\<close> and of the portable macros of that header.
  The overflow tests are shown equal to exact arithmetic on the integers, at both widths.
\<close>

section \<open>Tagging\<close>

type_synonym obj = c_long

definition TAG_SHIFT :: nat where "TAG_SHIFT = 3"
definition TAG_INT :: c_long where "TAG_INT = 0"
definition TAG_MASK :: c_long where "TAG_MASK = 7"

definition TAG :: "c_long \<Rightarrow> nat \<Rightarrow> c_long \<Rightarrow> c_long" where
  "TAG v shift tag = push_bit shift v OR tag"

definition UNTAG :: "c_long \<Rightarrow> nat \<Rightarrow> c_long \<Rightarrow> c_long" where
  "UNTAG v shift tag = signed_drop_bit shift v"

definition BINT :: "c_long \<Rightarrow> obj" where "BINT i = TAG i TAG_SHIFT TAG_INT"
definition CINT :: "obj \<Rightarrow> c_long" where "CINT i = UNTAG i TAG_SHIFT TAG_INT"

definition INTEGERP :: "obj \<Rightarrow> bool" where
  "INTEGERP i \<longleftrightarrow> i AND TAG_MASK = TAG_INT"

definition INTEGERSP :: "obj \<Rightarrow> obj \<Rightarrow> bool" where
  "INTEGERSP i p \<longleftrightarrow> ((i - TAG_INT) OR (p - TAG_INT)) AND TAG_MASK = 0"

definition ADDFX :: "obj \<Rightarrow> obj \<Rightarrow> obj" where "ADDFX x y = x + y - TAG_INT"
definition SUBFX :: "obj \<Rightarrow> obj \<Rightarrow> obj" where "SUBFX x y = x - y + TAG_INT"
definition LTFX :: "obj \<Rightarrow> obj \<Rightarrow> bool" where "LTFX x y \<longleftrightarrow> x <s y"
definition LEFX :: "obj \<Rightarrow> obj \<Rightarrow> bool" where "LEFX x y \<longleftrightarrow> x \<le>s y"

definition LONG_MIN :: c_long where "LONG_MIN = 0x8000000000000000"
definition LONG_MAX :: c_long where "LONG_MAX = 0x7FFFFFFFFFFFFFFF"
definition BGL_LONG_MIN :: c_long where "BGL_LONG_MIN = signed_drop_bit TAG_SHIFT LONG_MIN"
definition BGL_LONG_MAX :: c_long where "BGL_LONG_MAX = signed_drop_bit TAG_SHIFT LONG_MAX"

section \<open>Overflow tests\<close>

text \<open>\<open>Overflow\<close> is the return of 1; \<open>Fits z\<close> is the return of 0 with \<open>*res = z\<close>.\<close>

datatype 'a ov = Overflow | Fits 'a

text \<open>
  The masks that \<open>autoconf/signbit\<close> computes, for a pointer alignment of 3 bits: the first two are the
  sign bits of integers that lose three bits to the tag, the third is that of a whole \<open>long\<close>.
\<close>

definition C_INT_SIGN_BIT :: c_int where "C_INT_SIGN_BIT = push_bit (32 - 1 - PTR_ALIGNMENT) 1"
definition C_LONG_SIGN_BIT :: c_long where "C_LONG_SIGN_BIT = push_bit (64 - 1 - PTR_ALIGNMENT) 1"
definition C_ELONG_SIGN_BIT :: c_long where "C_ELONG_SIGN_BIT = push_bit (64 - 1) 1"

definition bgl_sadd_overflow :: "c_int \<Rightarrow> c_int \<Rightarrow> c_int ov" where
  "bgl_sadd_overflow x y =
     (let z = x + y in
      if x AND C_INT_SIGN_BIT = y AND C_INT_SIGN_BIT \<and> z AND C_INT_SIGN_BIT \<noteq> x AND C_INT_SIGN_BIT
      then Overflow else Fits z)"

definition bgl_sub_overflow :: "c_int \<Rightarrow> c_int \<Rightarrow> c_int ov" where
  "bgl_sub_overflow x y =
     (let z = x - y in
      if x AND C_INT_SIGN_BIT \<noteq> y AND C_INT_SIGN_BIT \<and> z AND C_INT_SIGN_BIT \<noteq> x AND C_INT_SIGN_BIT
      then Overflow else Fits z)"

text \<open>The product wraps; \<open>BINT(z)\<close> is a 64-bit value that the store to an \<open>int\<close> truncates.\<close>

definition bgl_mul_overflow :: "c_int \<Rightarrow> c_int \<Rightarrow> c_int ov option" where
  "bgl_mul_overflow x y =
     (if y = 0 \<or> x = 0 then Some (Fits 0)
      else let z = x * y in
        do { q \<leftarrow> c_div z y;
             if q = x
             then do { r \<leftarrow> c_mod z y; Some (if r = 0 then Fits (ucast (BINT (scast z))) else Overflow) }
             else Some Overflow })"

definition bgl_saddl_overflow :: "c_long \<Rightarrow> c_long \<Rightarrow> c_long ov" where
  "bgl_saddl_overflow x y =
     (let z = x + y in
      if x AND C_LONG_SIGN_BIT = y AND C_LONG_SIGN_BIT \<and> z AND C_LONG_SIGN_BIT \<noteq> x AND C_LONG_SIGN_BIT
      then Overflow else Fits z)"

definition bgl_subl_overflow :: "c_long \<Rightarrow> c_long \<Rightarrow> c_long ov" where
  "bgl_subl_overflow x y =
     (let z = x - y in
      if x AND C_LONG_SIGN_BIT \<noteq> y AND C_LONG_SIGN_BIT \<and> z AND C_LONG_SIGN_BIT \<noteq> x AND C_LONG_SIGN_BIT
      then Overflow else Fits z)"

definition bgl_mull_overflow :: "c_long \<Rightarrow> c_long \<Rightarrow> c_long ov option" where
  "bgl_mull_overflow x y =
     (if y = 0 \<or> x = 0 then Some (Fits 0)
      else let z = x * y in
        do { q \<leftarrow> c_div z y;
             if q = x
             then do { r \<leftarrow> c_mod z y; Some (if r = 0 then Fits (BINT z) else Overflow) }
             else Some Overflow })"

text \<open>The tests of \<open>bigloo_int.h\<close>, after Hacker's Delight, and the macros on tagged values.\<close>

definition builtin_saddl_overflow :: "c_long \<Rightarrow> c_long \<Rightarrow> c_long ov" where
  "builtin_saddl_overflow x y =
     (let z = NOT (x XOR y) AND 0x8000000000000000 in
      if z AND NOT (((x XOR z) + y) XOR y) \<noteq> 0 then Overflow else Fits (x + y))"

definition builtin_ssubl_overflow :: "c_long \<Rightarrow> c_long \<Rightarrow> c_long ov" where
  "builtin_ssubl_overflow x y =
     (let z = (x XOR y) AND 0x8000000000000000 in
      if z AND (((x XOR z) - y) XOR y) \<noteq> 0 then Overflow else Fits (x - y))"

definition BGL_ADDFX_OV :: "obj \<Rightarrow> obj \<Rightarrow> obj ov" where
  "BGL_ADDFX_OV x y = builtin_saddl_overflow x y"

definition BGL_SUBFX_OV :: "obj \<Rightarrow> obj \<Rightarrow> obj ov" where
  "BGL_SUBFX_OV x y = builtin_ssubl_overflow x y"

section \<open>Exact arithmetic\<close>

text \<open>The contract of a checked operation: the exact result when it fits in the signed width.\<close>

definition checked :: "int \<Rightarrow> 'a::len word ov" where
  "checked i =
     (if - (2 ^ (LENGTH('a) - 1)) \<le> i \<and> i < 2 ^ (LENGTH('a) - 1) then Fits (word_of_int i) else Overflow)"

definition fixnum :: "int \<Rightarrow> bool" where
  "fixnum i \<longleftrightarrow> - (2 ^ 60) \<le> i \<and> i < 2 ^ 60"

definition sign_bit :: "'a::len word" where
  "sign_bit = push_bit (LENGTH('a) - 1) 1"

lemma sign_bits: "C_ELONG_SIGN_BIT = sign_bit" "(0x8000000000000000 :: c_long) = sign_bit"
  by (simp_all add: C_ELONG_SIGN_BIT_def sign_bit_def)

lemma and_sign_bit:
  "x AND sign_bit = (if sint (x :: 'a::len word) < 0 then sign_bit else 0)"
  by (rule bit_word_eqI) (auto simp: bit_simps sign_bit_def simp flip: bit_last_iff)

lemma sign_bit_nonzero [simp]: "(sign_bit :: 'a::len word) \<noteq> 0"
  by (simp add: sign_bit_def)

lemma two_pow_length: "(2::int) ^ LENGTH('a::len) = 2 * 2 ^ (LENGTH('a) - 1)"
  by (metis len_gt_0 power_eq_if not_gr_zero)

text \<open>The value of a wrapped sum or difference of two signed operands.\<close>

lemma mod_wrap:
  fixes i h :: int
  assumes "0 < h" and "- (2 * h) \<le> i" and "i < 2 * h"
  shows "(i + h) mod (2 * h) = (if i < - h then i + 3 * h else if i < h then i + h else i - h)"
proof -
  consider "i < - h" | "- h \<le> i" "i < h" | "h \<le> i" by linarith
  then show ?thesis
  proof cases
    case 1
    then have "(i + h + 2 * h) mod (2 * h) = i + h + 2 * h"
      using assms by (intro mod_pos_pos_trivial) auto
    moreover have "(i + h) mod (2 * h) = (i + h + 2 * h) mod (2 * h)" by (simp only: mod_add_self2)
    ultimately show ?thesis using 1 by simp
  next
    case 2
    then show ?thesis by (simp add: mod_pos_pos_trivial)
  next
    case 3
    then have "(i - h) mod (2 * h) = i - h"
      using assms by (intro mod_pos_pos_trivial) auto
    moreover have "i + h = i - h + 2 * h" by simp
    then have "(i + h) mod (2 * h) = (i - h) mod (2 * h)" by (simp only: mod_add_self2)
    ultimately show ?thesis using 3 assms by simp
  qed
qed

lemma sint_wrap:
  fixes i :: int
  assumes "- (2 * 2 ^ (LENGTH('a::len) - 1)) \<le> i" and "i < 2 * 2 ^ (LENGTH('a) - 1)"
  shows "sint (word_of_int i :: 'a word) =
    (if i < - (2 ^ (LENGTH('a) - 1)) then i + 2 * 2 ^ (LENGTH('a) - 1)
     else if i < 2 ^ (LENGTH('a) - 1) then i else i - 2 * 2 ^ (LENGTH('a) - 1))"
  using mod_wrap [OF _ assms] by (simp add: int_word_sint two_pow_length)

lemma add_overflow_iff:
  fixes x y :: "'a::len word"
  shows "(x AND sign_bit = y AND sign_bit \<and> (x + y) AND sign_bit \<noteq> x AND sign_bit) \<longleftrightarrow>
    \<not> (- (2 ^ (LENGTH('a) - 1)) \<le> sint x + sint y \<and> sint x + sint y < 2 ^ (LENGTH('a) - 1))"
proof -
  have "sint (x + y) = sint (word_of_int (sint x + sint y) :: 'a word)" by simp
  then show ?thesis
    using sint_bounds [of x] sint_bounds [of y]
    by (subst (asm) sint_wrap) (auto simp: and_sign_bit split: if_splits)
qed

lemma sub_overflow_iff:
  fixes x y :: "'a::len word"
  shows "(x AND sign_bit \<noteq> y AND sign_bit \<and> (x - y) AND sign_bit \<noteq> x AND sign_bit) \<longleftrightarrow>
    \<not> (- (2 ^ (LENGTH('a) - 1)) \<le> sint x - sint y \<and> sint x - sint y < 2 ^ (LENGTH('a) - 1))"
proof -
  have "sint (x - y) = sint (word_of_int (sint x - sint y) :: 'a word)" by simp
  then show ?thesis
    using sint_bounds [of x] sint_bounds [of y]
    by (subst (asm) sint_wrap) (auto simp: and_sign_bit split: if_splits)
qed

lemma xor_sign_bit: "x XOR sign_bit = x + (sign_bit :: 'a::len word)"
proof (cases "bit x (LENGTH('a) - 1)")
  case False
  then have "x AND sign_bit = 0"
    by (auto simp: sign_bit_def intro!: bit_word_eqI simp: bit_simps)
  then show ?thesis by (simp add: disjunctive_xor_eq_or disjunctive_add_eq_or)
next
  case True
  let ?y = "x AND NOT sign_bit"
  have split: "x = ?y OR sign_bit" and xor: "x XOR sign_bit = ?y"
    using True by (auto simp: sign_bit_def intro!: bit_word_eqI simp: bit_simps)
  have "?y AND sign_bit = 0" by (rule bit_word_eqI) (auto simp: bit_simps)
  then have "x = ?y + sign_bit" using split by (metis disjunctive_add_eq_or)
  then have "x + sign_bit = ?y + (sign_bit + sign_bit)" by (metis add.assoc)
  also have "sign_bit + sign_bit = (0 :: 'a word)"
    by (simp add: sign_bit_def flip: mult_2 power_Suc)
  finally show ?thesis using xor by simp
qed

lemma sign_xor: "(a XOR b) AND sign_bit = 0 \<longleftrightarrow> (sint (a :: 'a::len word) < 0 \<longleftrightarrow> sint b < 0)"
proof -
  have "(a XOR b) AND sign_bit = (a AND sign_bit) XOR (b AND sign_bit)"
    by (rule bit_word_eqI) (auto simp: bit_simps)
  then show ?thesis by (simp add: and_sign_bit)
qed

lemma sign_add_sign_bit: "sint (x + sign_bit :: 'a::len word) < 0 \<longleftrightarrow> \<not> sint x < 0"
proof -
  have "bit (x XOR sign_bit) (LENGTH('a) - 1) \<longleftrightarrow> \<not> bit x (LENGTH('a) - 1)"
    by (simp add: sign_bit_def bit_simps)
  then show ?thesis by (simp add: bit_last_iff xor_sign_bit)
qed

lemma sint_not_neg: "sint (NOT a :: 'a::len word) < 0 \<longleftrightarrow> \<not> sint a < 0"
  by (simp add: bit_simps flip: bit_last_iff)

lemma sign_xor_val:
  fixes a b :: "'a::len word"
  shows "(a XOR b) AND sign_bit = (if (sint a < 0) = (sint b < 0) then 0 else sign_bit)"
    and "NOT (a XOR b) AND sign_bit = (if (sint a < 0) = (sint b < 0) then sign_bit else 0)"
proof -
  show *: "(a XOR b) AND sign_bit = (if (sint a < 0) = (sint b < 0) then 0 else sign_bit)"
    for a b :: "'a word"
    using sign_xor [of a b] and_sign_bit [of "a XOR b"] by (auto split: if_splits)
  have "NOT (a XOR b) = NOT a XOR b" by (rule bit_word_eqI) (auto simp: bit_simps)
  then show "NOT (a XOR b) AND sign_bit = (if (sint a < 0) = (sint b < 0) then sign_bit else 0)"
    using * [of "NOT a" b] by (simp add: sint_not_neg)
qed

lemma builtin_saddl_exact: "builtin_saddl_overflow x y = checked (sint x + sint y)"
proof -
  have eq: "(x XOR sign_bit) + y = (x + y) + sign_bit"
    unfolding xor_sign_bit by (simp add: add_ac)
  show ?thesis
    using add_overflow_iff [of x y]
    by (auto simp: builtin_saddl_overflow_def checked_def sign_bits sign_xor_val
        and.commute [of sign_bit] eq sign_add_sign_bit Let_def
        and_sign_bit [of x] and_sign_bit [of y] and_sign_bit [of "x + y"] split: if_splits)
qed

lemma builtin_ssubl_exact: "builtin_ssubl_overflow x y = checked (sint x - sint y)"
proof -
  have eq: "(x XOR sign_bit) - y = (x - y) + sign_bit" by (simp add: xor_sign_bit)
  show ?thesis
    using sub_overflow_iff [of x y]
    by (auto simp: builtin_ssubl_overflow_def checked_def sign_bits sign_xor_val
        and.commute [of sign_bit] eq sign_add_sign_bit Let_def
        and_sign_bit [of x] and_sign_bit [of y] and_sign_bit [of "x - y"] split: if_splits)
qed

section \<open>Integers shorter than their word\<close>

text \<open>The test on bit \<open>n\<close> of a word, for operands that are integers of \<open>n + 1\<close> bits.\<close>

definition short :: "nat \<Rightarrow> int \<Rightarrow> bool" where
  "short n i \<longleftrightarrow> - (2 ^ n) \<le> i \<and> i < 2 ^ n"

definition short_checked :: "nat \<Rightarrow> int \<Rightarrow> 'a::len word ov" where
  "short_checked n i = (if short n i then Fits (word_of_int i) else Overflow)"

lemma and_push_bit: "x AND push_bit n 1 = (if bit x n then push_bit n 1 else (0 :: 'a::len word))"
  by (rule bit_word_eqI) (auto simp: bit_simps)

lemma bit_short:
  assumes "n < LENGTH('a)" and "- (2 * 2 ^ n) \<le> sint x" and "sint x < 2 * 2 ^ n"
  shows "bit (x :: 'a::len word) n \<longleftrightarrow> (if sint x < 0 then - (2 ^ n) \<le> sint x else 2 ^ n \<le> sint x)"
proof -
  define p where "p = (2 ^ n :: int)"
  have p: "0 < p" "- (2 * p) \<le> sint x" "sint x < 2 * p" using assms(2,3) by (simp_all add: p_def)
  have "sint x div p = q" if "sint x = p * q + (sint x - p * q)" "0 \<le> sint x - p * q" "sint x - p * q < p" for q
    using that by (rule int_div_pos_eq)
  from this [of "-2"] this [of "-1"] this [of 0] this [of 1]
  have "sint x div p = (if sint x < - p then -2 else if sint x < 0 then -1 else if sint x < p then 0 else 1)"
    using p by auto
  moreover have "bit x n \<longleftrightarrow> odd (sint x div p)"
    using assms(1) by (simp add: p_def bit_sint_iff flip: bit_iff_odd)
  ultimately show ?thesis using p unfolding p_def [symmetric] by (auto split: if_splits)
qed

lemma sint_add_short:
  fixes x y :: "'a::len word"
  assumes "Suc n < LENGTH('a)" and "short n (sint x)" and "short n (sint y)"
  shows "sint (x + y) = sint x + sint y" and "sint (x - y) = sint x - sint y"
proof -
  have "(2::int) ^ Suc n \<le> 2 ^ (LENGTH('a) - 1)" using assms(1) by (intro power_increasing) auto
  then have "sint (word_of_int (sint x + sint y) :: 'a word) = sint x + sint y"
    "sint (word_of_int (sint x - sint y) :: 'a word) = sint x - sint y"
    using assms(2,3) by (intro sint_word_of_int_in; simp add: short_def)+
  then show "sint (x + y) = sint x + sint y" and "sint (x - y) = sint x - sint y" by simp_all
qed

lemma short_tests:
  fixes x y :: "'a::len word"
  assumes "Suc n < LENGTH('a)" and "short n (sint x)" and "short n (sint y)"
  shows "(x AND push_bit n 1 = y AND push_bit n 1 \<and> (x + y) AND push_bit n 1 \<noteq> x AND push_bit n 1) \<longleftrightarrow>
      \<not> short n (sint x + sint y)"
    and "(x AND push_bit n 1 \<noteq> y AND push_bit n 1 \<and> (x - y) AND push_bit n 1 \<noteq> x AND push_bit n 1) \<longleftrightarrow>
      \<not> short n (sint x - sint y)"
proof -
  have n: "n < LENGTH('a)" and nz: "push_bit n (1 :: 'a word) \<noteq> 0" using assms(1) by simp_all
  have b: "bit x n \<longleftrightarrow> sint x < 0" "bit y n \<longleftrightarrow> sint y < 0"
    using bit_short [OF n, of x] bit_short [OF n, of y] assms(2,3) by (simp_all add: short_def)
  have "bit (x + y) n \<longleftrightarrow> (if sint x + sint y < 0 then - (2 ^ n) \<le> sint x + sint y else 2 ^ n \<le> sint x + sint y)"
    "bit (x - y) n \<longleftrightarrow> (if sint x - sint y < 0 then - (2 ^ n) \<le> sint x - sint y else 2 ^ n \<le> sint x - sint y)"
    using bit_short [OF n, of "x + y"] bit_short [OF n, of "x - y"] sint_add_short [OF assms] assms(2,3)
    by (simp_all add: short_def)
  then show "(x AND push_bit n 1 = y AND push_bit n 1 \<and> (x + y) AND push_bit n 1 \<noteq> x AND push_bit n 1) \<longleftrightarrow>
      \<not> short n (sint x + sint y)"
    and "(x AND push_bit n 1 \<noteq> y AND push_bit n 1 \<and> (x - y) AND push_bit n 1 \<noteq> x AND push_bit n 1) \<longleftrightarrow>
      \<not> short n (sint x - sint y)"
    unfolding and_push_bit using assms(2,3) b nz by (auto simp: short_def)
qed

lemma saddl_short:
  "short 60 (sint x) \<Longrightarrow> short 60 (sint y) \<Longrightarrow> bgl_saddl_overflow x y = short_checked 60 (sint x + sint y)"
  using short_tests(1) [of 60 x y]
  by (simp only: bgl_saddl_overflow_def short_checked_def C_LONG_SIGN_BIT_def PTR_ALIGNMENT_def Let_def) simp

lemma subl_short:
  "short 60 (sint x) \<Longrightarrow> short 60 (sint y) \<Longrightarrow> bgl_subl_overflow x y = short_checked 60 (sint x - sint y)"
  using short_tests(2) [of 60 x y]
  by (simp only: bgl_subl_overflow_def short_checked_def C_LONG_SIGN_BIT_def PTR_ALIGNMENT_def Let_def) simp

text \<open>C31: the overflow tests of coverflow.c for addition and subtraction are the tests of fixnums: for
  operands that are integers of 61 bits (or of 29 bits, on \<open>int\<close>) they compute the exact sum or difference
  when it is such an integer too, and report an overflow otherwise.\<close>

theorem overflow_tests_exact:
  assumes "short 28 (sint i)" and "short 28 (sint j)" and "short 60 (sint x)" and "short 60 (sint y)"
  shows "bgl_sadd_overflow i j = short_checked 28 (sint i + sint j) \<and>
   bgl_sub_overflow i j = short_checked 28 (sint i - sint j) \<and>
   bgl_saddl_overflow x y = short_checked 60 (sint x + sint y) \<and>
   bgl_subl_overflow x y = short_checked 60 (sint x - sint y)"
  using short_tests [of 28 i j] saddl_short [of x y] subl_short [of x y] assms
  by (simp only: bgl_sadd_overflow_def bgl_sub_overflow_def short_checked_def C_INT_SIGN_BIT_def PTR_ALIGNMENT_def Let_def) simp

lemma overflow_tests_exact_witness:
  "bgl_saddl_overflow (2 ^ 60 - 1) 1 = Overflow \<and> bgl_subl_overflow (2 ^ 60 - 1) 1 = Fits (2 ^ 60 - 2) \<and>
   bgl_sadd_overflow (2 ^ 28 - 1) 1 = Overflow"
  using overflow_tests_exact [of "2 ^ 28 - 1" 1 "2 ^ 60 - 1" 1] by (simp add: short_def short_checked_def)

section \<open>Products\<close>

text \<open>The division test of the product: exact, except where the division itself traps.\<close>

definition mul_test :: "'a::len word \<Rightarrow> 'a word \<Rightarrow> bool option" where
  "mul_test x y = (let z = x * y in do { q \<leftarrow> c_div z y;
     if q = x then do { r \<leftarrow> c_mod z y; Some (r = 0) } else Some False })"

lemma c_div_exact:
  fixes x y z :: "'a::len word"
  assumes "sint z = sint x * sint y" and "y \<noteq> 0"
    and "\<not> (sint z = - (2 ^ (LENGTH('a) - 1)) \<and> y = -1)"
  shows "c_div z y = Some x" and "c_mod z y = Some 0"
proof -
  have y: "sint y \<noteq> 0" using assms(2) sint_eq_iff [of y 0] by simp
  have "sgn (sint z) * sgn (sint y) * (\<bar>sint z\<bar> div \<bar>sint y\<bar>) = sint x"
    using y by (simp add: assms(1) sgn_mult abs_mult mult_sgn_abs mult.assoc)
  then show "c_div z y = Some x"
    using assms by (simp add: c_div_def)
  have "\<bar>sint z\<bar> mod \<bar>sint y\<bar> = 0" by (simp add: assms(1) abs_mult)
  then show "c_mod z y = Some 0"
    using assms(2,3) by (simp add: c_mod_def)
qed

lemma c_div_mod_mult:
  fixes x y z :: "'a::len word"
  assumes "c_div z y = Some x" and "c_mod z y = Some 0"
  shows "sint z = sint x * sint y"
proof -
  define h where "h = (2::int) ^ (LENGTH('a) - 1)"
  define a b where "a = sint z" and "b = sint y"
  define q r where "q = \<bar>a\<bar> div \<bar>b\<bar>" and "r = \<bar>a\<bar> mod \<bar>b\<bar>"
  have trap: "y \<noteq> 0" "\<not> (a = - h \<and> y = -1)"
    and x: "x = word_of_int (sgn a * sgn b * q)" and r0: "word_of_int (sgn a * r) = (0 :: 'a word)"
    using assms unfolding c_div_def c_mod_def h_def a_def b_def q_def r_def
    by (auto split: if_splits)
  have b: "b \<noteq> 0" "b = -1 \<Longrightarrow> y = -1"
    using trap sint_eq_iff [of y 0] sint_eq_iff [of y "-1"] by (auto simp: b_def)
  have bounds: "- h \<le> a" "a < h" "- h \<le> b" "b < h"
    using sint_bounds [of z] sint_bounds [of y] by (auto simp: a_def b_def h_def)
  have r: "0 \<le> r" "r < \<bar>b\<bar>" using b by (simp_all add: r_def)
  have q: "0 \<le> q" "\<bar>a\<bar> = q * \<bar>b\<bar> + r"
    using b by (simp_all add: q_def r_def pos_imp_zdiv_nonneg_iff)
  have "q * 1 \<le> q * \<bar>b\<bar>" using q(1) b by (intro mult_left_mono) auto
  then have q_le: "q \<le> \<bar>a\<bar>" using q r by simp
  have "- h \<le> sgn a * r" "sgn a * r < h"
    using r bounds by (auto simp: sgn_if)
  then have "sgn a * r = 0"
    using r0 sint_word_of_int_in [where 'a='a, of "sgn a * r"] by (simp add: h_def)
  then have "a = sgn a * sgn b * q * b"
    using q(2) b by (auto simp: sgn_if abs_if split: if_splits)
  moreover have "- h \<le> sgn a * sgn b * q"
    using q(1) q_le bounds by (auto simp: sgn_if)
  moreover have "sgn a * sgn b * q < h"
  proof (rule ccontr)
    assume "\<not> ?thesis"
    then have *: "h \<le> sgn a * sgn b * q" by simp
    then have "a = - h" "sgn b = -1" "q = h"
      using q(1) q_le bounds by (auto simp: sgn_if split: if_splits)
    moreover have "0 < h" by (simp add: h_def)
    moreover from calculation have "h = h * \<bar>b\<bar> + r" using q(2) by simp
    then have "h * \<bar>b\<bar> \<le> h * 1" using r by linarith
    ultimately have "\<bar>b\<bar> \<le> 1" by (simp only: mult_le_cancel_left_pos)
    then have "b = -1" using b(1) \<open>sgn b = -1\<close> by (auto simp: sgn_if split: if_splits)
    with \<open>a = - h\<close> trap b show False by simp
  qed
  ultimately show ?thesis
    using x sint_word_of_int_in [where 'a='a, of "sgn a * sgn b * q"] by (simp add: h_def a_def b_def)
qed

lemma sint_minus_min:
  fixes x :: "'a::len word"
  assumes "sint x = - (2 ^ (LENGTH('a) - 1))"
  shows "sint (- x) = - (2 ^ (LENGTH('a) - 1))"
proof -
  have "sint (- x) = sint (word_of_int (- sint x) :: 'a word)" by simp
  also have "\<dots> = - (2 ^ (LENGTH('a) - 1))"
    using assms by (subst sint_wrap) auto
  finally show ?thesis .
qed

lemma mul_test_exact:
  fixes x y :: "'a::len word"
  assumes "y \<noteq> 0"
  shows "mul_test x y =
    (if sint x = - (2 ^ (LENGTH('a) - 1)) \<and> y = -1 then None
     else Some (- (2 ^ (LENGTH('a) - 1)) \<le> sint x * sint y \<and> sint x * sint y < 2 ^ (LENGTH('a) - 1)))"
proof -
  let ?z = "x * y"
  have trap: "sint ?z = - (2 ^ (LENGTH('a) - 1)) \<and> y = -1 \<longleftrightarrow>
      sint x = - (2 ^ (LENGTH('a) - 1)) \<and> y = -1"
    using sint_minus_min [of x] sint_minus_min [of "- x"] by auto
  show ?thesis
  proof (cases "sint x = - (2 ^ (LENGTH('a) - 1)) \<and> y = -1")
    case True
    then have "c_div ?z y = None" using trap by (simp only: c_div_def) simp
    with True show ?thesis by (simp add: mul_test_def)
  next
    case False
    then obtain q r where qr: "c_div ?z y = Some q" "c_mod ?z y = Some r"
      using trap assms by (simp add: c_div_def c_mod_def)
    have z: "sint ?z = sint (word_of_int (sint x * sint y) :: 'a word)" by simp
    show ?thesis
    proof (cases "- (2 ^ (LENGTH('a) - 1)) \<le> sint x * sint y \<and> sint x * sint y < 2 ^ (LENGTH('a) - 1)")
      case True
      then have "sint ?z = sint x * sint y" unfolding z by (intro sint_word_of_int_in) auto
      then have "q = x" "r = 0"
        using c_div_exact [of ?z x y] assms False trap qr by auto
      with True False qr show ?thesis by (auto simp: mul_test_def)
    next
      case out: False
      have "\<not> (q = x \<and> r = 0)"
        using c_div_mod_mult [of ?z y x] qr sint_bounds [of ?z] out by auto
      with out False qr show ?thesis by (auto simp: mul_test_def)
    qed
  qed
qed

lemma bgl_mull_test:
  "bgl_mull_overflow x y =
    (if y = 0 \<or> x = 0 then Some (Fits 0)
     else map_option (\<lambda>ok. if ok then Fits (BINT (x * y)) else Overflow) (mul_test x y))"
  by (auto simp: bgl_mull_overflow_def mul_test_def Let_def split: Option.bind_splits)

lemma bgl_mul_test:
  "bgl_mul_overflow x y =
    (if y = 0 \<or> x = 0 then Some (Fits 0)
     else map_option (\<lambda>ok. if ok then Fits (ucast (BINT (scast (x * y)))) else Overflow) (mul_test x y))"
  by (auto simp: bgl_mul_overflow_def mul_test_def Let_def split: Option.bind_splits)

lemma BINT_0: "BINT 0 = 0"
  by (simp add: BINT_def TAG_def TAG_INT_def)

text \<open>The overflow tests of coverflow.c for multiplication report an overflow exactly when
  the product does not fit, but the value they store for a product that fits is the fixnum
  \<open>BINT(x * y)\<close> (truncated to the width of the result), not \<open>x * y\<close> as the tests for
  addition and subtraction do; and for the most negative operand times minus one they do not
  report an overflow, they execute a division that traps.\<close>

theorem mul_overflow_tests:
  "bgl_mull_overflow x y =
     (if sint x = - (2 ^ 63) \<and> y = -1 then None
      else Some (map_ov BINT (checked (sint x * sint y)))) \<and>
   bgl_mul_overflow i j =
     (if sint i = - (2 ^ 31) \<and> j = -1 then None
      else Some (map_ov (\<lambda>z. ucast (BINT (scast z))) (checked (sint i * sint j) :: c_int ov)))"
proof (rule conjI)
  show "bgl_mull_overflow x y = (if sint x = - (2 ^ 63) \<and> y = -1 then None
      else Some (map_ov BINT (checked (sint x * sint y))))"
    by (cases "x = 0 \<or> y = 0") (auto simp: bgl_mull_test mul_test_exact checked_def BINT_0)
  show "bgl_mul_overflow i j = (if sint i = - (2 ^ 31) \<and> j = -1 then None
      else Some (map_ov (\<lambda>z. ucast (BINT (scast z))) (checked (sint i * sint j) :: c_int ov)))"
    by (cases "i = 0 \<or> j = 0") (auto simp: bgl_mul_test mul_test_exact checked_def BINT_0)
qed

section \<open>Fixnums\<close>

lemma BINT_mult: "BINT x = x * 8"
  by (simp add: BINT_def TAG_def TAG_INT_def TAG_SHIFT_def push_bit_eq_mult)

lemma sint_BINT: "fixnum i \<Longrightarrow> sint (BINT (word_of_int i)) = i * 8"
  using sint_word_of_int_in [where 'a=64, of "i * 8"] by (simp add: fixnum_def BINT_mult)

lemma CINT_BINT:
  assumes "fixnum i"
  shows "CINT (BINT (word_of_int i)) = word_of_int i"
proof -
  have "sint (word_of_int i :: c_long) = i"
    using assms by (intro sint_word_of_int_in) (simp_all add: fixnum_def)
  moreover have "sint (CINT (BINT (word_of_int i))) = drop_bit 3 (i * 8)"
    unfolding CINT_def UNTAG_def TAG_SHIFT_def using assms
    by (simp add: sint_signed_drop_bit_eq sint_BINT)
  ultimately show ?thesis
    by (simp add: drop_bit_eq_div flip: sint_eq_iff)
qed

lemma INTEGERSP_BINT: "INTEGERSP (BINT x) (BINT y)" and INTEGERP_BINT: "INTEGERP (BINT x)"
proof -
  have "\<And>x. BINT x AND mask 3 = 0"
    by (rule bit_word_eqI) (auto simp: BINT_def TAG_def TAG_INT_def TAG_SHIFT_def bit_simps)
  then have *: "\<And>x. BINT x AND 7 = 0" by (simp add: mask_eq_exp_minus_1)
  then show "INTEGERSP (BINT x) (BINT y)" "INTEGERP (BINT x)"
    by (simp_all add: INTEGERSP_def INTEGERP_def TAG_INT_def TAG_MASK_def bit.conj_disj_distrib2)
qed

lemma fixnum_checked:
  assumes "fixnum i" and "fixnum j"
  shows "checked (i * 8 + j * 8) = (if fixnum (i + j) then Fits (BINT (word_of_int (i + j))) else Overflow)"
    and "checked (i * 8 - j * 8) = (if fixnum (i - j) then Fits (BINT (word_of_int (i - j))) else Overflow)"
  using assms by (auto simp: checked_def BINT_mult fixnum_def algebra_simps)

text \<open>On fixnums the representation and its operations are exact: a 61-bit integer survives
  tagging, carries the integer tag, the tagged comparisons are those of the integers, and the
  portable overflow macros on tagged operands return the tagged sum or difference when it is a
  fixnum and report an overflow otherwise.\<close>

theorem fixnum_arithmetic:
  assumes "fixnum i" and "fixnum j"
  shows "CINT (BINT (word_of_int i)) = word_of_int i \<and>
    INTEGERSP (BINT (word_of_int i)) (BINT (word_of_int j)) \<and>
    (LTFX (BINT (word_of_int i)) (BINT (word_of_int j)) \<longleftrightarrow> i < j) \<and>
    (LEFX (BINT (word_of_int i)) (BINT (word_of_int j)) \<longleftrightarrow> i \<le> j) \<and>
    BGL_ADDFX_OV (BINT (word_of_int i)) (BINT (word_of_int j)) =
      (if fixnum (i + j) then Fits (BINT (word_of_int (i + j))) else Overflow) \<and>
    BGL_SUBFX_OV (BINT (word_of_int i)) (BINT (word_of_int j)) =
      (if fixnum (i - j) then Fits (BINT (word_of_int (i - j))) else Overflow)"
  using assms fixnum_checked [OF assms]
  by (auto simp: CINT_BINT INTEGERSP_BINT LTFX_def LEFX_def word_sless_alt word_sle_eq sint_BINT
      BGL_ADDFX_OV_def BGL_SUBFX_OV_def builtin_saddl_exact builtin_ssubl_exact)

lemma fixnum_arithmetic_witness:
  "CINT (BINT (word_of_int (2 ^ 60 - 1))) = word_of_int (2 ^ 60 - 1) \<and>
   BGL_ADDFX_OV (BINT (word_of_int (2 ^ 60 - 1))) (BINT (word_of_int 1)) = Overflow"
  using fixnum_arithmetic [of "2 ^ 60 - 1" 1] by (simp add: fixnum_def)

end
