(* ===== verification/Hash.thy ===== *)
theory Hash
  imports Prelude
begin

text \<open>
  The hash functions of \<open>runtime/Clib/chash.c\<close> on C strings, machine integers and addresses.
  Overflow of the signed accumulators wraps, as the compilers used for the runtime do.
\<close>

section \<open>The random table\<close>

definition hash_random_table :: "u8 list" where
  "hash_random_table = [
     1, 14, 110, 25, 97, 174, 132, 119, 138, 170, 125, 118, 27, 233, 140, 51,
     87, 197, 177, 107, 234, 169, 56, 68, 30, 7, 173, 73, 188, 40, 36, 65,
     49, 213, 104, 190, 57, 211, 148, 223, 48, 115, 15, 2, 67, 186, 210, 28,
     12, 181, 103, 70, 22, 58, 75, 78, 183, 167, 238, 157, 124, 147, 172, 144,
     176, 161, 141, 86, 60, 66, 128, 83, 156, 241, 79, 46, 168, 198, 41, 254,
     178, 85, 253, 237, 250, 154, 133, 88, 35, 206, 95, 116, 252, 192, 54, 221,
     102, 218, 255, 240, 82, 106, 158, 201, 61, 3, 89, 9, 42, 155, 159, 93,
     166, 80, 50, 34, 175, 195, 100, 99, 26, 150, 16, 145, 4, 33, 8, 189,
     121, 64, 77, 72, 208, 245, 130, 122, 143, 55, 105, 134, 29, 164, 185, 194,
     193, 239, 101, 242, 5, 171, 126, 11, 74, 59, 137, 228, 108, 191, 232, 139,
     6, 24, 81, 20, 127, 17, 91, 92, 251, 151, 225, 207, 21, 98, 113, 112,
     84, 226, 18, 214, 199, 187, 13, 32, 94, 220, 224, 212, 247, 204, 196, 43,
     249, 236, 45, 244, 111, 182, 153, 136, 129, 90, 217, 202, 19, 165, 231, 71,
     230, 142, 96, 227, 62, 179, 246, 114, 162, 53, 160, 215, 205, 180, 47, 109,
     44, 38, 31, 149, 135, 0, 216, 52, 63, 23, 37, 69, 39, 117, 146, 184,
     163, 200, 222, 235, 248, 243, 219, 10, 152, 131, 123, 229, 203, 76, 120, 209]"

text \<open>\<open>hash = hash_random_table[ hash ^ (unsigned char)c ]\<close>, with \<open>hash\<close> an \<open>unsigned char\<close>.\<close>

definition hash_step :: "u8 \<Rightarrow> u8 \<Rightarrow> u8" where
  "hash_step c hash = hash_random_table ! unat (hash XOR c)"

section \<open>Hash functions\<close>

function get_hash_number_loop :: "u8 cells \<Rightarrow> nat \<Rightarrow> u8 \<Rightarrow> u8 option" where
  "get_hash_number_loop string i hash =
     (if i < length string
      then do { c \<leftarrow> rd string i;
                if c = 0 then Some hash else get_hash_number_loop string (Suc i) (hash_step c hash) }
      else None)"
  by pat_completeness auto
termination
  by (relation "measure (\<lambda>(s, i, h). length s - i)") auto

definition get_hash_number :: "u8 cells \<Rightarrow> u8 option" where
  "get_hash_number string = get_hash_number_loop string 0 0"

text \<open>The index variable of the loop only counts: the characters are read from the start of
  the string (\<open>*string++\<close>), wherever the count starts.\<close>

definition bgl_get_hash_number_len :: "u8 cells \<Rightarrow> int \<Rightarrow> int \<Rightarrow> u8 option" where
  "bgl_get_hash_number_len string start len =
     map_option fst (for_up start len
       (\<lambda>i (hash, p). do { c \<leftarrow> rd string p; Some (hash_step c hash, Suc p) }) (0, 0))"

text \<open>\<open>result & ((1 << pw) - 1)\<close>: the constant is an \<open>int\<close>, so a shift by 31 or more
  is undefined.\<close>

definition power_mask :: "c_long \<Rightarrow> nat \<Rightarrow> c_long option" where
  "power_mask result pw =
     (if pw < 31 then Some (result AND (push_bit pw 1 - 1)) else None)"

function get_hash_power_number_loop :: "u8 cells \<Rightarrow> nat \<Rightarrow> c_long \<Rightarrow> c_long option" where
  "get_hash_power_number_loop string i result =
     (if i < length string
      then do { c \<leftarrow> rd string i;
                if c = 0 then Some result
                else get_hash_power_number_loop string (Suc i)
                       (result + (push_bit 3 result + char_to_long c)) }
      else None)"
  by pat_completeness auto
termination
  by (relation "measure (\<lambda>(s, i, h). length s - i)") auto

definition get_hash_power_number :: "u8 cells \<Rightarrow> nat \<Rightarrow> c_long option" where
  "get_hash_power_number string pw =
     do { result \<leftarrow> get_hash_power_number_loop string 0 0; power_mask result pw }"

text \<open>\<open>while( len-- )\<close> stops at zero only: a negative length runs off the string.\<close>

function get_hash_power_number_len_loop :: "u8 cells \<Rightarrow> nat \<Rightarrow> int \<Rightarrow> c_long \<Rightarrow> c_long option" where
  "get_hash_power_number_len_loop string i len result =
     (if len = 0 then Some result
      else if i < length string
      then do { c \<leftarrow> rd string i;
                get_hash_power_number_len_loop string (Suc i) (len - 1)
                  (result + (push_bit 3 result + char_to_long c)) }
      else None)"
  by pat_completeness auto
termination
  by (relation "measure (\<lambda>(s, i, l, h). length s - i)") auto

definition get_hash_power_number_len :: "u8 cells \<Rightarrow> nat \<Rightarrow> int \<Rightarrow> c_long option" where
  "get_hash_power_number_len string pw len =
     do { result \<leftarrow> get_hash_power_number_len_loop string 0 len 0; power_mask result pw }"

function get_hash_number_from_int_loop :: "c_long \<Rightarrow> u8 \<Rightarrow> u8" where
  "get_hash_number_from_int_loop i hash =
     (if 0 < i then get_hash_number_from_int_loop (drop_bit 8 i) (hash_step (to_uchar (i AND 255)) hash)
      else hash)"
  by pat_completeness auto
termination
  by (relation "measure (\<lambda>(i, h). unat i)") (auto simp: unat_drop_bit_less [where n = 7, simplified])

definition get_hash_number_from_int :: "c_long \<Rightarrow> c_long" where
  "get_hash_number_from_int i = ucast (get_hash_number_from_int_loop i 0)"

definition get_hash_number_from_pointer :: "c_long \<Rightarrow> c_long" where
  "get_hash_number_from_pointer i = get_hash_number_from_int i"

function get_hash_power_number_from_int_loop :: "c_long \<Rightarrow> c_long \<Rightarrow> c_long" where
  "get_hash_power_number_from_int_loop i result =
     (if 0 < i then get_hash_power_number_from_int_loop (drop_bit 8 i) (result + (push_bit 3 result + (i AND 255)))
      else result)"
  by pat_completeness auto
termination
  by (relation "measure (\<lambda>(i, h). unat i)") (auto simp: unat_drop_bit_less [where n = 7, simplified])

definition get_hash_power_number_from_int :: "c_long \<Rightarrow> nat \<Rightarrow> c_long option" where
  "get_hash_power_number_from_int i pw = power_mask (get_hash_power_number_from_int_loop i 0) pw"

definition bgl_pointer_hashnumber :: "c_long \<Rightarrow> nat \<Rightarrow> c_long option" where
  "bgl_pointer_hashnumber i pw = get_hash_power_number_from_int i pw"

declare get_hash_number_loop.simps [simp del] get_hash_power_number_loop.simps [simp del]
  get_hash_power_number_len_loop.simps [simp del] get_hash_number_from_int_loop.simps [simp del]
  get_hash_power_number_from_int_loop.simps [simp del]

section \<open>String hashing\<close>

definition LONG_HALF_SIZE :: int where "LONG_HALF_SIZE = 16"

definition hash_char :: "u8 cells \<Rightarrow> int \<Rightarrow> c_long \<Rightarrow> c_long option" where
  "hash_char string i result =
     do { k \<leftarrow> idx i; c \<leftarrow> rd string k; Some (result + (push_bit 5 result + char_to_long c)) }"

definition hash_long :: "u8 cells \<Rightarrow> int \<Rightarrow> c_long \<Rightarrow> c_long option" where
  "hash_long string i result =
     do { k \<leftarrow> idx i; w \<leftarrow> rd_long string k; Some (result + (push_bit 5 result + w)) }"

definition bgl_string_hash :: "u8 cells \<Rightarrow> int \<Rightarrow> int \<Rightarrow> c_long option" where
  "bgl_string_hash string start end1 =
     (if end1 - start > LONG_HALF_SIZE * 4
      then let bufstart = drop_bit PTR_ALIGNMENT LONG_HALF_SIZE;
               bufend = drop_bit PTR_ALIGNMENT (end1 - LONG_HALF_SIZE)
        in do {
          result \<leftarrow> for_up start (start + LONG_HALF_SIZE) (hash_char string) 5381;
          result \<leftarrow> for_up bufstart bufend (hash_long string) result;
          result \<leftarrow> for_up (end1 - LONG_HALF_SIZE) end1 (hash_char string) result;
          Some ((result + word_of_int (end1 - start)) AND (push_bit 29 1 - 1)) }
      else do {
        result \<leftarrow> for_up start end1 (hash_char string) 5381;
        Some (result AND (push_bit 29 1 - 1)) })"

definition hash_char_persistent :: "u8 cells \<Rightarrow> int \<Rightarrow> c_int \<Rightarrow> c_int option" where
  "hash_char_persistent string i result =
     do { k \<leftarrow> idx i; c \<leftarrow> rd string k;
          Some (ucast (scast result + (scast (push_bit 5 result) + char_to_long c) :: c_long)) }"

definition bgl_string_hash_persistent :: "u8 cells \<Rightarrow> int \<Rightarrow> int \<Rightarrow> c_long option" where
  "bgl_string_hash_persistent string start end1 =
     do { result \<leftarrow> for_up start end1 (hash_char_persistent string) 5381;
          Some (scast (result AND (push_bit 29 1 - 1))) }"

section \<open>The random table is a permutation\<close>

lemma length_table: "length hash_random_table = 256"
  by (simp add: hash_random_table_def)

lemma distinct_unat: "distinct (map unat hash_random_table)"
  unfolding hash_random_table_def by (simp only: list.map unat_numeral) simp

lemma distinct_table: "distinct hash_random_table"
  using distinct_unat by (simp add: distinct_map)

lemma hash_step_inj: "hash_step c h = hash_step c' h' \<longleftrightarrow> h XOR c = h' XOR c'"
proof -
  have lt: "unat (w :: u8) < length hash_random_table" for w
    using unsigned_less [of w] by (simp add: length_table)
  have "hash_random_table ! i = hash_random_table ! j \<longleftrightarrow> i = j"
    if "i < length hash_random_table" "j < length hash_random_table" for i j
    using that by (simp add: nth_eq_iff_index_eq distinct_table)
  then show ?thesis by (simp add: hash_step_def lt word_unat_eq_iff)
qed

lemma fold_hash_step_inj: "fold hash_step vs h = fold hash_step vs h' \<longleftrightarrow> h = h'"
  by (induction vs arbitrary: h h') (auto simp: hash_step_inj)

lemma get_hash_number_loop_string:
  assumes "0 \<notin> set xs" and "i \<le> length xs"
  shows "get_hash_number_loop (c_string xs) i h = Some (fold hash_step (drop i xs) h)"
  using assms(2)
proof (induction "length xs - i" arbitrary: i h)
  case 0
  then show ?case by (simp add: get_hash_number_loop.simps [of _ i] rd_c_string)
next
  case (Suc n)
  then have lt: "i < length xs" by simp
  then have "xs ! i \<noteq> 0" using assms(1) by (metis nth_mem)
  moreover have "get_hash_number_loop (c_string xs) (Suc i) t = Some (fold hash_step (drop (Suc i) xs) t)" for t
    using Suc by simp
  ultimately show ?case
    using lt by (simp add: get_hash_number_loop.simps [of _ i] rd_c_string flip: Cons_nth_drop_Suc)
qed

lemma get_hash_number_string:
  "0 \<notin> set xs \<Longrightarrow> get_hash_number (c_string xs) = Some (fold hash_step xs 0)"
  using get_hash_number_loop_string [of xs 0 0] by (simp add: get_hash_number_def)

lemma bgl_get_hash_number_len_string:
  assumes "n \<le> length xs"
  shows "bgl_get_hash_number_len (c_string xs) 0 (int n) = Some (fold hash_step (take n xs) 0)"
proof -
  have "for_up (int k) (int n) (\<lambda>i (hash, p). do { c \<leftarrow> rd (c_string xs) p; Some (hash_step c hash, Suc p) }) (h, k)
      = Some (fold hash_step (take (n - k) (drop k xs)) h, n)" if "k \<le> n" for k h
    using that
  proof (induction "n - k" arbitrary: k h)
    case 0
    then show ?case by (simp add: for_up.simps)
  next
    case (Suc m)
    then have lt: "k < n" "k < length xs" using assms by simp_all
    have IH: "for_up (int (Suc k)) (int n) (\<lambda>i (hash, p). do { c \<leftarrow> rd (c_string xs) p; Some (hash_step c hash, Suc p) }) (t, Suc k)
      = Some (fold hash_step (take (n - Suc k) (drop (Suc k) xs)) t, n)" for t
      using Suc by (intro Suc.hyps) auto
    have "take (n - k) (drop k xs) = xs ! k # take (n - Suc k) (drop (Suc k) xs)"
      using lt by (metis Cons_nth_drop_Suc Suc_diff_Suc take_Suc_Cons)
    with IH lt show ?case by (subst for_up.simps) (simp add: rd_c_string add.commute)
  qed
  from this [of 0 0] show ?thesis by (simp add: bgl_get_hash_number_len_def)
qed

text \<open>The string hash of \<open>get_hash_number\<close> reads a terminated string to its end and never
  past it, agrees with the variant that is given the length, and separates any two strings that
  differ in a single character.\<close>

theorem get_hash_number_separates:
  assumes "0 \<notin> set (us @ a # vs)" and "0 \<notin> set (us @ b # vs)" and "a \<noteq> b"
  shows "\<exists>h h'. get_hash_number (c_string (us @ a # vs)) = Some h \<and>
    bgl_get_hash_number_len (c_string (us @ a # vs)) 0 (int (length (us @ a # vs))) = Some h \<and>
    get_hash_number (c_string (us @ b # vs)) = Some h' \<and> h \<noteq> h'"
proof -
  have "fold hash_step (us @ a # vs) 0 \<noteq> fold hash_step (us @ b # vs) 0"
    using assms(3) by (auto simp: fold_hash_step_inj hash_step_inj xor.commute)
  then show ?thesis
    using get_hash_number_string [OF assms(1)] get_hash_number_string [OF assms(2)]
      bgl_get_hash_number_len_string [OF order_refl, of "us @ a # vs"] by simp
qed

lemma get_hash_number_separates_witness:
  "\<exists>h h'. get_hash_number (c_string [97, 98, 99]) = Some h \<and>
    get_hash_number (c_string [97, 120, 99]) = Some h' \<and> h \<noteq> h'"
  using get_hash_number_separates [of "[97]" 98 "[99]" 120] by auto

section \<open>Power hashes\<close>

definition power_step :: "u8 \<Rightarrow> c_long \<Rightarrow> c_long" where
  "power_step c result = result + (push_bit 3 result + char_to_long c)"

lemma get_hash_power_number_len_loop_string:
  "k + n \<le> length xs \<Longrightarrow>
   get_hash_power_number_len_loop (c_string xs @ sl) k (int n) r = Some (fold power_step (take n (drop k xs)) r)"
proof (induction n arbitrary: k r)
  case 0
  then show ?case by (simp add: get_hash_power_number_len_loop.simps)
next
  case (Suc n)
  then have "take (Suc n) (drop k xs) = xs ! k # take n (drop (Suc k) xs)"
    by (metis Cons_nth_drop_Suc add_Suc_right less_add_Suc1 less_le_trans take_Suc_Cons)
  with Suc show ?case
    by (subst get_hash_power_number_len_loop.simps) (simp add: mem_simps flip: power_step_def)
qed

lemma get_hash_power_number_loop_string:
  assumes "0 \<notin> set xs" and "i \<le> length xs"
  shows "get_hash_power_number_loop (c_string xs @ sl) i r = Some (fold power_step (drop i xs) r)"
  using assms(2)
proof (induction "length xs - i" arbitrary: i r)
  case 0
  then show ?case by (simp add: get_hash_power_number_loop.simps [of _ i] mem_simps)
next
  case (Suc n)
  then have lt: "i < length xs" by simp
  then have "xs ! i \<noteq> 0" using assms(1) by (metis nth_mem)
  moreover have "get_hash_power_number_loop (c_string xs @ sl) (Suc i) t = Some (fold power_step (drop (Suc i) xs) t)" for t
    using Suc by simp
  ultimately show ?case
    using lt by (simp add: get_hash_power_number_loop.simps [of _ i] mem_simps power_step_def flip: Cons_nth_drop_Suc)
qed

lemma power_mask_less:
  assumes "pw < 31"
  shows "\<exists>h. power_mask r pw = Some h \<and> unat h < 2 ^ pw"
proof -
  have "unat (take_bit pw r) < 2 ^ pw"
    by (simp only: unsigned_take_bit_eq take_bit_nat_less_exp)
  then show ?thesis using assms
    by (simp add: power_mask_def take_bit_eq_mask mask_eq_exp_minus_1)
qed

text \<open>For a table of \<open>2 ^ pw\<close> buckets, the hash that interns symbols and keywords is
  defined on every string without null character, is the index of a bucket, and is the same whether the
  length is given or found by scanning.\<close>

theorem get_hash_power_number_bucket:
  assumes "0 \<notin> set xs" and "pw < 31"
  shows "\<exists>h. get_hash_power_number (c_string xs) pw = Some h \<and>
    get_hash_power_number_len (c_string xs) pw (int (length xs)) = Some h \<and> unat h < 2 ^ pw"
  using get_hash_power_number_loop_string [OF assms(1), of 0 "[]" 0] power_mask_less [OF assms(2)]
    get_hash_power_number_len_loop_string [of 0 "length xs" xs "[]" 0]
  by (simp add: get_hash_power_number_def get_hash_power_number_len_def)

lemma get_hash_power_number_bucket_witness:
  "\<exists>h. get_hash_power_number (c_string [99, 97, 114]) 12 = Some h \<and> unat h < 2 ^ 12"
  using get_hash_power_number_bucket [of "[99, 97, 114]" 12] by auto

section \<open>The hash of Scheme strings\<close>

text \<open>The textbook function the code computes: multiply by 33, add the signed character.\<close>

definition djb2 :: "u8 list \<Rightarrow> c_long" where
  "djb2 xs = fold (\<lambda>c r. r * 33 + char_to_long c) xs 5381"

definition hash_bits :: "c_long \<Rightarrow> c_long" where
  "hash_bits r = r AND 0x1FFFFFFF"

definition le_word :: "u8 list \<Rightarrow> c_long" where
  "le_word bs = foldr (\<lambda>b w. push_bit 8 w OR ucast b) bs 0"

lemma djb2_step: "r + (push_bit 5 r + c) = r * 33 + (c :: 'a::len word)"
  by (simp add: push_bit_eq_mult algebra_simps)

lemma mask_29: "(0x1FFFFFFF :: 'a::len word) = mask 29"
  by (simp add: mask_eq_exp_minus_1)

lemma hash_char_string:
  "k < length xs \<Longrightarrow> hash_char (c_string xs) (int k) r = Some (r * 33 + char_to_long (xs ! k))"
  by (simp add: hash_char_def rd_c_string djb2_step)

lemma hash_chars_string:
  assumes "s \<le> e" and "e \<le> length xs"
  shows "for_up (int s) (int e) (hash_char (c_string xs)) r =
    Some (fold (\<lambda>c r. r * 33 + char_to_long c) (take (e - s) (drop s xs)) r)"
  using assms by (intro for_up_fold) (simp_all add: hash_char_string)

lemma persistent_step:
  "hash_char_persistent string i (ucast (r :: c_long)) = map_option ucast (hash_char string i r)"
  by (auto simp: hash_char_persistent_def hash_char_def ucast_int_add ucast_int_push_bit
      split: Option.bind_splits)

lemma scast_hash_bits: "scast (ucast (r :: c_long) AND 0x1FFFFFFF :: c_int) = hash_bits r"
  unfolding mask_29 hash_bits_def by (rule bit_word_eqI) (auto simp: bit_simps)

lemma bgl_string_hash_persistent_string:
  assumes "s \<le> e" and "e \<le> length xs"
  shows "bgl_string_hash_persistent (c_string xs) (int s) (int e) =
    Some (hash_bits (djb2 (take (e - s) (drop s xs))))"
proof -
  have "for_up (int s) (int e) (hash_char_persistent (c_string xs)) (ucast (5381 :: c_long)) =
      map_option ucast (for_up (int s) (int e) (hash_char (c_string xs)) 5381)"
    by (rule for_up_map) (rule persistent_step)
  then show ?thesis
    using hash_chars_string [OF assms, of 5381]
    by (simp add: bgl_string_hash_persistent_def scast_hash_bits djb2_def)
qed

definition long_words :: "u8 list \<Rightarrow> nat \<Rightarrow> nat \<Rightarrow> c_long list" where
  "long_words xs a b = map (\<lambda>k. le_word (take 8 (drop (8 * k) xs))) [a..<b]"

lemma hash_longs_string:
  assumes "a \<le> b" and "8 * b \<le> length xs"
  shows "for_up (int a) (int b) (hash_long (c_string xs)) r =
    Some (fold (\<lambda>w r. r * 33 + w) (long_words xs a b) r)"
proof -
  let ?ws = "long_words xs 0 b"
  have "hash_long (c_string xs) (int k) r = Some (r * 33 + ?ws ! k)" if "k < b" for k r
    using that assms(2)
    by (simp add: hash_long_def rd_long_def rds_c_string djb2_step long_words_def le_word_def)
  then have "for_up (int a) (int b) (hash_long (c_string xs)) r =
      Some (fold (\<lambda>w r. r * 33 + w) (take (b - a) (drop a ?ws)) r)"
    using assms(1) by (intro for_up_fold) (simp_all add: long_words_def)
  then show ?thesis
    using assms(1) by (simp add: long_words_def take_map drop_map)
qed

definition string_hash_long :: "u8 list \<Rightarrow> nat \<Rightarrow> nat \<Rightarrow> c_long" where
  "string_hash_long xs s e =
     fold (\<lambda>c r. r * 33 + char_to_long c) (take 16 (drop (e - 16) xs))
       (fold (\<lambda>w r. r * 33 + w) (long_words xs 2 ((e - 16) div 8))
         (djb2 (take 16 (drop s xs)))) + of_nat (e - s)"

lemma bgl_string_hash_string:
  assumes "s \<le> e" and "e \<le> length xs"
  shows "bgl_string_hash (c_string xs) (int s) (int e) =
    Some (hash_bits (if e - s \<le> 64 then djb2 (take (e - s) (drop s xs)) else string_hash_long xs s e))"
proof (cases "e - s \<le> 64")
  case True
  then show ?thesis
    using assms hash_chars_string [OF assms, of 5381]
    by (auto simp: bgl_string_hash_def LONG_HALF_SIZE_def hash_bits_def djb2_def)
next
  case False
  then have len: "s + 64 < e" by simp
  have long: "64 < e - s" using len by simp
  have ints: "int s + 16 = int (s + 16)" "int e - 16 = int (e - 16)" "int e - int s = int (e - s)"
    using len by simp_all
  have ends: "drop_bit 3 (int (e - 16)) = int ((e - 16) div 8)" "drop_bit 3 (16::int) = 2"
    by (simp_all add: drop_bit_eq_div zdiv_int)
  have loops: "for_up (int s) (int (s + 16)) (hash_char (c_string xs)) r =
      Some (fold (\<lambda>c r. r * 33 + char_to_long c) (take 16 (drop s xs)) r)"
    "for_up 2 (int ((e - 16) div 8)) (hash_long (c_string xs)) r =
      Some (fold (\<lambda>w r. r * 33 + w) (long_words xs 2 ((e - 16) div 8)) r)"
    "for_up (int (e - 16)) (int e) (hash_char (c_string xs)) r =
      Some (fold (\<lambda>c r. r * 33 + char_to_long c) (take 16 (drop (e - 16) xs)) r)" for r
    using len assms hash_chars_string [of s "s + 16" xs r] hash_chars_string [of "e - 16" e xs r]
      hash_longs_string [of 2 "(e - 16) div 8" xs r]
    by auto
  show ?thesis
    using long unfolding bgl_string_hash_def LONG_HALF_SIZE_def PTR_ALIGNMENT_def Let_def
    by (simp add: ints ends loops hash_bits_def string_hash_long_def djb2_def
        del: of_nat_diff of_nat_add of_nat_numeral)
qed

lemma hash_bits_bounds: "0 \<le> sint (hash_bits r) \<and> sint (hash_bits r) < 2 ^ 29"
proof -
  have "hash_bits r = take_bit 29 r"
    by (simp add: hash_bits_def mask_29 take_bit_eq_mask)
  moreover have "sint (take_bit 29 r) = take_bit 29 (sint r)"
    by (rule bit_eqI) (auto simp: bit_simps)
  ultimately show ?thesis using take_bit_int_less_exp [of 29 "sint r"] by simp
qed

text \<open>C32: hashing any slice of a string reads only the string, yields a number between 0 and
  \<open>2 ^ 29\<close> (excluded), and is the 33-multiplicative hash of the slice, truncated, for slices of at
  most 64 characters; the persistent variant is that function for every length, although it computes in 32
  bits, so both variants agree on slices of at most 64 characters.\<close>

theorem bgl_string_hash_slice:
  assumes "s \<le> e" and "e \<le> length xs"
  shows "\<exists>h p. bgl_string_hash (c_string xs) (int s) (int e) = Some h \<and> 0 \<le> sint h \<and> sint h < 2 ^ 29 \<and>
    bgl_string_hash_persistent (c_string xs) (int s) (int e) = Some p \<and>
    p = hash_bits (djb2 (take (e - s) (drop s xs))) \<and> (e - s \<le> 64 \<longrightarrow> h = p)"
  using bgl_string_hash_string [OF assms] bgl_string_hash_persistent_string [OF assms] hash_bits_bounds
  by simp

lemma bgl_string_hash_slice_witness:
  "\<exists>h. bgl_string_hash (c_string [1, 2, 3]) 1 3 = Some h \<and>
       bgl_string_hash_persistent (c_string [1, 2, 3]) 1 3 = Some h"
  using bgl_string_hash_slice [of 1 3 "[1, 2, 3]"] by auto

text \<open>The hash of a slice of more than 64 characters is not a function of the slice: the
  middle part is read word by word from byte 16 of the whole string, wherever the slice starts, so that
  equal slices at different offsets hash differently.\<close>

theorem bgl_string_hash_offset:
  "\<exists>ps xs. bgl_string_hash (c_string (ps @ xs)) (int (length ps)) (int (length (ps @ xs))) \<noteq>
           bgl_string_hash (c_string xs) 0 (int (length xs))"
proof (intro exI)
  let ?xs = "replicate 16 0 @ 1 # replicate 48 0 :: u8 list"
  have "hash_bits (string_hash_long (1 # ?xs) 1 66) \<noteq> hash_bits (string_hash_long ?xs 0 65)"
    by code_simp
  then show "bgl_string_hash (c_string ([1] @ ?xs)) (int (length [1])) (int (length ([1] @ ?xs))) \<noteq>
      bgl_string_hash (c_string ?xs) 0 (int (length ?xs))"
    using bgl_string_hash_string [of 1 66 "1 # ?xs"] bgl_string_hash_string [of 0 65 ?xs] by simp
qed

end
