(* ===== verification/Bstring.thy ===== *)
theory Bstring
  imports Prelude
begin

text \<open>
  Scheme strings: \<open>struct bgl_string\<close> of \<open>runtime/Include/bigloo_string.h\<close> and the
  operations of \<open>runtime/Clib/cstring.c\<close> that build, copy and compare them. The UCS-2 strings of
  \<open>cunicode.c\<close> have the same layout over another character type, so the record and the
  comparison loops are polymorphic in the character.

  \<open>str_rep xs sl\<close> is a string object whose characters are \<open>xs\<close>, followed by the null
  character and by whatever cells \<open>sl\<close> the block has left (a shrunk string keeps its block).
\<close>

section \<open>String objects\<close>

record 'c bgl_str =
  str_length :: nat
  char0 :: "'c cells"

type_synonym bgl_string = "u8 bgl_str"

definition str_rep :: "'c::zero list \<Rightarrow> 'c cells \<Rightarrow> 'c bgl_str" where
  "str_rep xs sl = \<lparr>str_length = length xs, char0 = c_string xs @ sl\<rparr>"

abbreviation bstring_of :: "'c::zero list \<Rightarrow> 'c bgl_str" where
  "bstring_of xs \<equiv> str_rep xs []"

lemma str_length_rep [simp]: "str_length (str_rep xs sl) = length xs"
  and char0_rep [simp]: "char0 (str_rep xs sl) = c_string xs @ sl"
  by (simp_all add: str_rep_def)

section \<open>Construction\<close>

text \<open>The parameter \<open>len\<close> is an \<open>int\<close>: what a caller passes is narrowed.\<close>

definition string_to_bstring_len :: "u8 cells option \<Rightarrow> int \<Rightarrow> bgl_string option" where
  "string_to_bstring_len s len = do {
     n \<leftarrow> idx (int32 len);
     let src = (case s of None \<Rightarrow> c_string [] | Some m \<Rightarrow> m);
     m \<leftarrow> blit (gc_malloc (n + 1)) 0 src 0 n;
     m \<leftarrow> wr m n 0;
     Some \<lparr>str_length = n, char0 = m\<rparr> }"

definition string_to_bstring :: "u8 cells option \<Rightarrow> bgl_string option" where
  "string_to_bstring s =
     (case s of None \<Rightarrow> string_to_bstring_len s 0
      | Some m \<Rightarrow> do { n \<leftarrow> strlen_from m 0; string_to_bstring_len s (int n) })"

definition c_constant_string_to_string :: "u8 cells option \<Rightarrow> bgl_string option" where
  "c_constant_string_to_string s = string_to_bstring s"

definition make_string :: "int \<Rightarrow> u8 \<Rightarrow> (failure + bgl_string) option" where
  "make_string len c =
     (if len < 0 then Some (Inl (C_Failure ''make-string'' ''Illegal string size'' len))
      else do {
        n \<leftarrow> idx len;
        m \<leftarrow> memset (gc_malloc (n + 1)) 0 c n;
        m \<leftarrow> wr m n 0;
        Some (Inr \<lparr>str_length = n, char0 = m\<rparr>) })"

definition make_string_sans_fill :: "int \<Rightarrow> bgl_string option" where
  "make_string_sans_fill len = do {
     n \<leftarrow> idx len;
     m \<leftarrow> wr (gc_malloc (n + 1)) n 0;
     Some \<lparr>str_length = n, char0 = m\<rparr> }"

text \<open>The lengths are \<open>int\<close> variables here, although the length field is a \<open>long\<close>.\<close>

definition string_append :: "bgl_string \<Rightarrow> bgl_string \<Rightarrow> bgl_string option" where
  "string_append s1 s2 = do {
     let l1 = int32 (int (str_length s1));
     let l2 = int32 (int (str_length s2));
     l12 \<leftarrow> idx (int32 (l1 + l2));
     n1 \<leftarrow> idx l1; n2 \<leftarrow> idx (l2 + 1);
     m \<leftarrow> blit (gc_malloc (l12 + 1)) 0 (char0 s1) 0 n1;
     m \<leftarrow> blit m n1 (char0 s2) 0 n2;
     Some \<lparr>str_length = l12, char0 = m\<rparr> }"

definition string_append_3 :: "bgl_string \<Rightarrow> bgl_string \<Rightarrow> bgl_string \<Rightarrow> bgl_string option" where
  "string_append_3 s1 s2 s3 = do {
     let l1 = int32 (int (str_length s1));
     let l2 = int32 (int (str_length s2));
     let l3 = int32 (int (str_length s3));
     l123 \<leftarrow> idx (int32 (l1 + l2 + l3));
     n1 \<leftarrow> idx l1; n2 \<leftarrow> idx l2; n12 \<leftarrow> idx (l1 + l2); n3 \<leftarrow> idx (l3 + 1);
     m \<leftarrow> blit (gc_malloc (l123 + 1)) 0 (char0 s1) 0 n1;
     m \<leftarrow> blit m n1 (char0 s2) 0 n2;
     m \<leftarrow> blit m n12 (char0 s3) 0 n3;
     Some \<lparr>str_length = l123, char0 = m\<rparr> }"

definition c_substring :: "bgl_string \<Rightarrow> int \<Rightarrow> int \<Rightarrow> bgl_string option" where
  "c_substring src mn mx = do {
     len \<leftarrow> idx (mx - mn);
     mn \<leftarrow> idx mn;
     m \<leftarrow> blit (gc_malloc (len + 1)) 0 (char0 src) mn len;
     m \<leftarrow> wr m len 0;
     Some \<lparr>str_length = len, char0 = m\<rparr> }"

text \<open>
  \<open>blit_string\<close> writes into an existing object, which may be the source: the objects live in a
  store. Blocks of different objects never overlap, so the address test distinguishes the offsets only when the
  object is the same.
\<close>

type_synonym store = "nat \<rightharpoonup> bgl_string"

definition blit_string :: "store \<Rightarrow> nat \<Rightarrow> int \<Rightarrow> nat \<Rightarrow> int \<Rightarrow> int \<Rightarrow> store option" where
  "blit_string h s1 offset1 s2 offset2 len = do {
     o1 \<leftarrow> h s1; o2 \<leftarrow> h s2;
     i1 \<leftarrow> idx offset1; i2 \<leftarrow> idx offset2; n \<leftarrow> idx len;
     m \<leftarrow> (if s1 = s2
           then if i1 + n \<le> i2 \<or> i2 + n \<le> i1
                then blit_within (char0 o2) i2 i1 n
                else blit (char0 o2) i2 (char0 o2) i1 n
           else blit (char0 o2) i2 (char0 o1) i1 n);
     Some (h(s2 \<mapsto> o2\<lparr>char0 := m\<rparr>)) }"

definition bgl_string_shrink :: "bgl_string \<Rightarrow> int \<Rightarrow> bgl_string option" where
  "bgl_string_shrink s nlen =
     (if nlen < int (str_length s)
      then do { n \<leftarrow> idx nlen; m \<leftarrow> wr (char0 s) n 0; Some (s\<lparr>str_length := n, char0 := m\<rparr>) }
      else Some s)"

section \<open>What the constructors build\<close>

lemma gc_malloc_parts [simp]: "take n (gc_malloc m) = gc_malloc (min n m)"
  "drop n (gc_malloc m) = gc_malloc (m - n)" "gc_malloc 0 = []"
  by (simp_all add: gc_malloc_def min_def)

lemma gc_malloc_1 [simp]: "gc_malloc (Suc 0) = [None]"
  by (simp add: gc_malloc_def)

lemma blit_fresh [mem_simps]:
  "si + n \<le> Suc (length xs) \<Longrightarrow> n \<le> k \<Longrightarrow>
   blit (gc_malloc k) 0 (c_string xs @ sl) si n =
     Some (map Some (take n (drop si (xs @ [0]))) @ gc_malloc (k - n))"
  by (simp add: blit_def take_drop_c_string del: drop_append take_append)

lemma blit_next [mem_simps]:
  assumes "si + n \<le> Suc (length ys)" and "n \<le> k" and "di = length xs"
  shows "blit (map Some xs @ gc_malloc k) di (c_string ys @ sl) si n =
     Some (map Some (xs @ take n (drop si (ys @ [0]))) @ gc_malloc (k - n))"
proof -
  have "take n (drop si (c_string ys @ sl)) = map Some (take n (drop si (ys @ [0])))"
    using assms(1) by (rule take_drop_c_string)
  then show ?thesis using assms by (simp add: blit_def)
qed

lemma terminate_fresh [simp]:
  "n = length xs \<Longrightarrow> (map Some xs @ [None])[n := Some 0] = c_string xs"
  by (simp add: c_string_def list_update_append)

lemma string_append_rep [bstr]:
  assumes "length xs + length ys < 2 ^ 31"
  shows "string_append (str_rep xs sl) (str_rep ys sl') = Some (bstring_of (xs @ ys))"
proof -
  have "idx (int32 (int (length xs) + int (length ys))) = Some (length xs + length ys)"
    using assms by (simp flip: of_nat_add)
  moreover have "idx (int (length ys) + 1) = Some (Suc (length ys))"
    by (simp add: idx_def nat_add_distrib)
  ultimately show ?thesis
    using assms by (simp add: string_append_def mem_simps str_rep_def) (simp add: c_string_def)
qed

lemma string_append_3_rep [bstr]:
  assumes "length xs + length ys + length zs < 2 ^ 31"
  shows "string_append_3 (str_rep xs sl) (str_rep ys sl') (str_rep zs sl'') =
    Some (bstring_of (xs @ ys @ zs))"
proof -
  have "idx (int (length xs) + int (length ys) + int (length zs)) = Some (length xs + length ys + length zs)"
    "idx (int (length xs) + int (length ys)) = Some (length xs + length ys)"
    by (simp_all flip: of_nat_add)
  moreover have "idx (int (length zs) + 1) = Some (Suc (length zs))"
    by (simp add: idx_def nat_add_distrib)
  ultimately show ?thesis
    using assms blit_next [of 0 "Suc (length zs)" zs "Suc (length zs)" "length xs + length ys" "xs @ ys" sl'']
    by (simp add: string_append_3_def mem_simps str_rep_def) (simp add: c_string_def)
qed

lemma c_substring_rep [bstr]:
  assumes "i \<le> j" and "j \<le> length xs"
  shows "c_substring (str_rep xs sl) (int i) (int j) = Some (bstring_of (take (j - i) (drop i xs)))"
  using assms by (simp add: c_substring_def mem_simps str_rep_def)

lemma string_to_bstring_len_rep [bstr]:
  assumes "n \<le> length xs" and "n < 2 ^ 31"
  shows "string_to_bstring_len (Some (c_string xs @ sl)) (int n) = Some (bstring_of (take n xs))"
  using assms by (simp add: string_to_bstring_len_def mem_simps str_rep_def)

lemma strlen_c_string_slack [mem_simps]:
  "0 \<notin> set xs \<Longrightarrow> strlen_from (c_string xs @ sl) 0 = Some (length xs)"
  using strlen_from_zero [of "length xs" "c_string xs @ sl" 0]
  by (auto simp: rd_append rd_c_string) (metis nth_mem)

lemma string_to_bstring_rep [bstr]:
  assumes "0 \<notin> set xs" and "length xs < 2 ^ 31"
  shows "string_to_bstring (Some (c_string xs @ sl)) = Some (bstring_of xs)"
  using assms by (simp add: string_to_bstring_def mem_simps bstr)

lemma make_string_rep [bstr]:
  "make_string (int n) c = Some (Inr (bstring_of (replicate n c)))"
  using terminate_fresh [of n "replicate n c"]
  by (simp add: make_string_def memset_def str_rep_def)

text \<open>The constructors of strings build the string of the expected characters, whose block ends
  with the null character and is written to the end: from a C string (a null pointer gives the empty
  string), and by filling; a negative size raises an error, and nothing else does.\<close>

theorem string_constructors:
  assumes "0 \<notin> set xs" and "length xs < 2 ^ 31" and "n \<le> length xs"
  shows "string_to_bstring (Some (c_string xs @ sl)) = Some (bstring_of xs) \<and>
    string_to_bstring None = Some (bstring_of []) \<and>
    string_to_bstring_len (Some (c_string xs @ sl)) (int n) = Some (bstring_of (take n xs)) \<and>
    make_string len c = Some (if len < 0 then Inl (C_Failure ''make-string'' ''Illegal string size'' len)
      else Inr (bstring_of (replicate (nat len) c)))"
proof -
  have "make_string len c = Some (Inr (bstring_of (replicate (nat len) c)))" if "0 \<le> len"
    using make_string_rep [of "nat len" c] that by simp
  moreover have "string_to_bstring None = Some (bstring_of [])"
    using string_to_bstring_len_rep [of 0 "[]" "[]"]
    by (simp add: string_to_bstring_def string_to_bstring_len_def)
  ultimately show ?thesis
    using assms by (auto simp: bstr make_string_def)
qed

lemma string_constructors_witness:
  "string_to_bstring (Some (c_string [98, 105, 103])) = Some (bstring_of [98, 105, 103]) \<and>
   string_to_bstring_len (Some (c_string [98, 105, 103])) 2 = Some (bstring_of [98, 105])"
  using string_constructors [of "[98, 105, 103]" 2 "[]"] by simp

text \<open>C33: appending and extracting: the operations do not depend on what lies behind the operands'
  null characters, build the concatenation and the slice with a null character of their own, and
  extracting from a concatenation gives the parts back.\<close>

theorem string_append_substring:
  assumes "length xs + length ys + length zs < 2 ^ 31"
  shows "string_append (str_rep xs s1) (str_rep ys s2) = Some (bstring_of (xs @ ys)) \<and>
    string_append_3 (str_rep xs s1) (str_rep ys s2) (str_rep zs s3) = Some (bstring_of (xs @ ys @ zs)) \<and>
    do { s \<leftarrow> string_append (str_rep xs s1) (str_rep ys s2);
         c_substring s (int (length xs)) (int (length xs + length ys)) } = Some (bstring_of ys) \<and>
    (i \<le> j \<and> j \<le> length xs \<longrightarrow>
       c_substring (str_rep xs s1) (int i) (int j) = Some (bstring_of (take (j - i) (drop i xs))))"
  using assms c_substring_rep [of "length xs" "length xs + length ys" "xs @ ys" "[]"] by (simp add: bstr)

lemma string_append_substring_witness:
  "string_append (bstring_of [98]) (bstring_of [103, 108]) = Some (bstring_of [98, 103, 108]) \<and>
   c_substring (bstring_of [98]) 0 1 = Some (bstring_of [98])"
  using string_append_substring [of "[98]" "[103, 108]" "[]" "[]" "[]" "[]" 0 1] by simp

section \<open>Copying inside and between strings\<close>

definition list_blit :: "'a list \<Rightarrow> nat \<Rightarrow> 'a list \<Rightarrow> nat \<Rightarrow> nat \<Rightarrow> 'a list" where
  "list_blit ys j xs i n = take j ys @ take n (drop i xs) @ drop (j + n) ys"

lemma blit_rep:
  assumes "i + n \<le> length xs" and "j + n \<le> length ys"
  shows "blit (c_string ys @ sl') j (c_string xs @ sl) i n = Some (c_string (list_blit ys j xs i n) @ sl')"
  using assms by (simp add: blit_def take_drop_c_string list_blit_def c_string_def take_map drop_map)

text \<open>C24: \<open>blit_string\<close> copies \<open>len\<close> characters between two strings, or inside one string
  whether or not the two areas overlap, as if the source had been read completely before the first write; the
  length of the target, its null character and every other object are unchanged.\<close>

theorem blit_string_copies:
  assumes "h s1 = Some (str_rep xs sl)" and "h s2 = Some (str_rep ys sl')"
    and "i + n \<le> length xs" and "j + n \<le> length ys"
  shows "blit_string h s1 (int i) s2 (int j) (int n) =
    Some (h(s2 \<mapsto> str_rep (list_blit ys j xs i n) sl'))"
proof -
  have len: "length (list_blit ys j xs i n) = length ys"
    using assms(3,4) by (simp add: list_blit_def)
  have *: "blit (c_string ys @ sl') j (c_string xs @ sl) i n = Some (c_string (list_blit ys j xs i n) @ sl')"
    using assms(3,4) by (rule blit_rep)
  show ?thesis
  proof (cases "s1 = s2")
    case True
    then have "c_string xs @ sl = c_string ys @ sl'"
      using assms(1,2) by (auto simp: str_rep_def)
    with True * assms(1,2) len show ?thesis
      by (auto simp: blit_string_def blit_within_def str_rep_def)
  next
    case False
    with * assms(1,2) len show ?thesis by (simp add: blit_string_def str_rep_def)
  qed
qed

lemma blit_string_copies_witness:
  "blit_string [0 \<mapsto> bstring_of [1, 2, 3, 4]] 0 0 0 1 3 = Some [0 \<mapsto> bstring_of [1, 1, 2, 3]]"
  using blit_string_copies [of "[0 \<mapsto> bstring_of [1, 2, 3, 4]]" 0 "[1, 2, 3, 4]" "[]" 0 "[1, 2, 3, 4]" "[]" 0 3 1]
  by (simp add: list_blit_def)

section \<open>Shrinking\<close>

lemma bgl_string_shrink_rep [bstr]:
  "bgl_string_shrink (str_rep xs sl) (int n) =
     Some (str_rep (take n xs) (if n < length xs then map Some (drop (Suc n) xs @ [0]) @ sl else sl))"
proof (cases "n < length xs")
  case True
  have "map Some (xs @ [0]) = map Some (take n xs) @ Some (xs ! n) # map Some (drop (Suc n) xs @ [0])"
    using True by (simp add: id_take_nth_drop [symmetric] flip: map_append list.map(2))
  then have "(c_string xs @ sl)[n := Some 0] = c_string (take n xs) @ map Some (drop (Suc n) xs @ [0]) @ sl"
    using True by (simp add: c_string_def list_update_append)
  with True show ?thesis by (simp add: bgl_string_shrink_def str_rep_def)
next
  case False
  then show ?thesis by (simp add: bgl_string_shrink_def)
qed

end
