(* ===== verification/Strcmp.thy ===== *)
theory Strcmp
  imports Bstring
begin

text \<open>
  The comparisons of \<open>runtime/Clib/cstring.c\<close>: equality, the four orders, their case-insensitive
  forms, and the prefix and substring tests. Their loops are polymorphic in the character (the UCS-2 strings use
  the same ones). Lexicographic order on the lists of characters is the specification, stated as a locale
  that each family of comparisons interprets.
\<close>

section \<open>Characters\<close>

text \<open>\<open>tolower\<close> of the C library, in the C locale.\<close>

definition tolower :: "u8 \<Rightarrow> u8" where
  "tolower c = (if 65 \<le> c \<and> c \<le> 90 then c + 32 else c)"

section \<open>Loops\<close>

text \<open>\<open>for( i = 0; (f(*st1) == f(*st2)) && (i < min); i++, st1++, st2++ );\<close>\<close>

function same_prefix :: "('c \<Rightarrow> 'k) \<Rightarrow> 'c cells \<Rightarrow> 'c cells \<Rightarrow> nat \<Rightarrow> nat \<Rightarrow> nat option" where
  "same_prefix f m1 m2 mn i = do {
     a \<leftarrow> rd m1 i; b \<leftarrow> rd m2 i;
     if f a = f b \<and> i < mn then same_prefix f m1 m2 mn (i + 1) else Some i }"
  by pat_completeness auto
termination
  by (relation "measure (\<lambda>(f, m1, m2, mn, i). mn - i)") auto

text \<open>\<open>for( ; (i < n) && (f(*st1) == f(*st2)); i++, st1++, st2++ );\<close> with \<open>st1\<close> starting
  at \<open>d\<close>.\<close>

function match_count :: "('c \<Rightarrow> 'k) \<Rightarrow> 'c cells \<Rightarrow> nat \<Rightarrow> 'c cells \<Rightarrow> int \<Rightarrow> nat \<Rightarrow> nat option" where
  "match_count f m1 d m2 n i =
     (if int i < n then do {
        a \<leftarrow> rd m1 (d + i); b \<leftarrow> rd m2 i;
        if f a = f b then match_count f m1 d m2 n (i + 1) else Some i }
      else Some i)"
  by pat_completeness auto
termination
  by (relation "measure (\<lambda>(f, m1, d, m2, n, i). nat (n - int i))") auto

declare same_prefix.simps [simp del] match_count.simps [simp del]

text \<open>\<open>for( ; min > 0; min--, st1++, st2++ ) if( f(*st1) != f(*st2) ) return r; return dflt\<close>.\<close>

fun cmp_loop :: "('c \<Rightarrow> 'k) \<Rightarrow> ('k \<Rightarrow> 'k \<Rightarrow> bool) \<Rightarrow> bool \<Rightarrow> 'c cells \<Rightarrow> 'c cells \<Rightarrow> nat \<Rightarrow> nat \<Rightarrow> bool option" where
  "cmp_loop f r dflt m1 m2 p 0 = Some dflt"
| "cmp_loop f r dflt m1 m2 p (Suc mn) = do {
     a \<leftarrow> rd m1 p; b \<leftarrow> rd m2 p;
     if f a \<noteq> f b then Some (r (f a) (f b)) else cmp_loop f r dflt m1 m2 (Suc p) mn }"

section \<open>Equality, prefixes and substrings\<close>

text \<open>The variable \<open>l1\<close> is an \<open>int\<close>, the length of the second string a \<open>long\<close>.\<close>

definition bigloo_strcmp :: "bgl_string \<Rightarrow> bgl_string \<Rightarrow> bool option" where
  "bigloo_strcmp o1 o2 =
     (let l1 = int32 (int (str_length o1)) in
      if l1 = int (str_length o2) then do { n \<leftarrow> idx l1; memcmp_eq (char0 o1) 0 (char0 o2) 0 n } else Some False)"

definition bigloo_strcmp_at :: "bgl_string \<Rightarrow> bgl_string \<Rightarrow> int \<Rightarrow> bool option" where
  "bigloo_strcmp_at o1 o2 d =
     (let l1 = str_length o1; l2 = str_length o2 in
      if 0 \<le> d \<and> int l2 + d \<le> int l1 then memcmp_eq (char0 o1) (nat d) (char0 o2) 0 l2
      else Some False)"

definition bigloo_strcmp_ci_at :: "bgl_string \<Rightarrow> bgl_string \<Rightarrow> int \<Rightarrow> bool option" where
  "bigloo_strcmp_ci_at o1 o2 d =
     (let l1 = str_length o1; l2 = str_length o2 in
      if 0 \<le> d \<and> int l2 + d \<le> int l1
      then do { i \<leftarrow> match_count tolower (char0 o1) (nat d) (char0 o2) (int l2) 0; Some (i = l2) }
      else Some False)"

definition bigloo_strncmp_at :: "bgl_string \<Rightarrow> bgl_string \<Rightarrow> int \<Rightarrow> int \<Rightarrow> bool option" where
  "bigloo_strncmp_at o1 o2 d l3 =
     (let l1 = int (str_length o1); l2 = int (str_length o2);
          l = (if l2 < l3 then l2 else l3) in
      if 0 \<le> d \<and> 0 \<le> l3 \<and> l + d \<le> l1 then memcmp_eq (char0 o1) (nat d) (char0 o2) 0 (nat l)
      else Some False)"

text \<open>The loop bound is \<open>l2\<close>, although the result is compared with \<open>l\<close>.\<close>

definition bigloo_strncmp_ci_at :: "bgl_string \<Rightarrow> bgl_string \<Rightarrow> int \<Rightarrow> int \<Rightarrow> bool option" where
  "bigloo_strncmp_ci_at o1 o2 d l3 =
     (let l1 = int (str_length o1); l2 = int (str_length o2);
          l = (if l2 < l3 then l2 else l3) in
      if 0 \<le> d \<and> 0 \<le> l3 \<and> l + d \<le> l1
      then do { i \<leftarrow> match_count tolower (char0 o1) (nat d) (char0 o2) l2 0; Some (int i = l) }
      else Some False)"

text \<open>\<open>memcmp\<close> with a negative length reads past every block.\<close>

definition bigloo_strncmp :: "bgl_string \<Rightarrow> bgl_string \<Rightarrow> int \<Rightarrow> bool option" where
  "bigloo_strncmp o1 o2 l =
     (if int (str_length o1) \<ge> l \<and> int (str_length o2) \<ge> l
      then do { n \<leftarrow> idx l; memcmp_eq (char0 o1) 0 (char0 o2) 0 n }
      else Some False)"

definition bigloo_strncmp_ci :: "bgl_string \<Rightarrow> bgl_string \<Rightarrow> int \<Rightarrow> bool option" where
  "bigloo_strncmp_ci o1 o2 l =
     (if int (str_length o1) \<ge> l \<and> int (str_length o2) \<ge> l
      then do { i \<leftarrow> match_count tolower (char0 o1) 0 (char0 o2) l 0; Some (int i = l) }
      else Some False)"

definition bigloo_strcicmp :: "bgl_string \<Rightarrow> bgl_string \<Rightarrow> bool option" where
  "bigloo_strcicmp bst1 bst2 =
     (let l1 = str_length bst1 in
      if l1 = str_length bst2
      then cmp_loop tolower (\<lambda>_ _. False) True (char0 bst1) (char0 bst2) 0 l1
      else Some False)"

section \<open>Orders\<close>

definition bigloo_string_lt :: "bgl_string \<Rightarrow> bgl_string \<Rightarrow> bool option" where
  "bigloo_string_lt bst1 bst2 =
     (let l1 = str_length bst1; l2 = str_length bst2; mn = (if l1 < l2 then l1 else l2) in
      do { i \<leftarrow> same_prefix id (char0 bst1) (char0 bst2) mn 0;
           if i < mn then do { a \<leftarrow> rd (char0 bst1) i; b \<leftarrow> rd (char0 bst2) i; Some (a < b) }
           else Some (l1 < l2) })"

definition bigloo_string_le :: "bgl_string \<Rightarrow> bgl_string \<Rightarrow> bool option" where
  "bigloo_string_le bst1 bst2 =
     (let l1 = str_length bst1; l2 = str_length bst2; l1_le = (l1 \<le> l2); mn = (if l1_le then l1 else l2) in
      cmp_loop id (\<le>) l1_le (char0 bst1) (char0 bst2) 0 mn)"

definition bigloo_string_gt :: "bgl_string \<Rightarrow> bgl_string \<Rightarrow> bool option" where
  "bigloo_string_gt bst1 bst2 =
     (let l1 = str_length bst1; l2 = str_length bst2; l1_gt = (l1 > l2); mn = (if l1_gt then l2 else l1) in
      cmp_loop id (>) l1_gt (char0 bst1) (char0 bst2) 0 mn)"

definition bigloo_string_ge :: "bgl_string \<Rightarrow> bgl_string \<Rightarrow> bool option" where
  "bigloo_string_ge bst1 bst2 =
     (let l1 = str_length bst1; l2 = str_length bst2; l1_ge = (l1 \<ge> l2); mn = (if l1_ge then l2 else l1) in
      cmp_loop id (\<ge>) l1_ge (char0 bst1) (char0 bst2) 0 mn)"

definition bigloo_string_cilt :: "bgl_string \<Rightarrow> bgl_string \<Rightarrow> bool option" where
  "bigloo_string_cilt bst1 bst2 =
     (let l1 = str_length bst1; l2 = str_length bst2; l1_lt = (l1 < l2); mn = (if l1_lt then l1 else l2) in
      cmp_loop tolower (<) l1_lt (char0 bst1) (char0 bst2) 0 mn)"

definition bigloo_string_cile :: "bgl_string \<Rightarrow> bgl_string \<Rightarrow> bool option" where
  "bigloo_string_cile bst1 bst2 =
     (let l1 = str_length bst1; l2 = str_length bst2; l1_le = (l1 \<le> l2); mn = (if l1_le then l1 else l2) in
      cmp_loop tolower (\<le>) l1_le (char0 bst1) (char0 bst2) 0 mn)"

definition bigloo_string_cigt :: "bgl_string \<Rightarrow> bgl_string \<Rightarrow> bool option" where
  "bigloo_string_cigt bst1 bst2 =
     (let l1 = str_length bst1; l2 = str_length bst2; l1_gt = (l1 > l2); mn = (if l1_gt then l2 else l1) in
      cmp_loop tolower (>) l1_gt (char0 bst1) (char0 bst2) 0 mn)"

definition bigloo_string_cige :: "bgl_string \<Rightarrow> bgl_string \<Rightarrow> bool option" where
  "bigloo_string_cige bst1 bst2 =
     (let l1 = str_length bst1; l2 = str_length bst2; l1_ge = (l1 \<ge> l2); mn = (if l1_ge then l2 else l1) in
      cmp_loop tolower (\<ge>) l1_ge (char0 bst1) (char0 bst2) 0 mn)"

section \<open>Loops as functions of the characters\<close>

text \<open>The decision of the order loops: the first difference, or the default at the end of the
  shorter string.\<close>

fun cmp_lists :: "('k \<Rightarrow> 'k \<Rightarrow> bool) \<Rightarrow> bool \<Rightarrow> 'k list \<Rightarrow> 'k list \<Rightarrow> bool" where
  "cmp_lists r d (a # as) (b # bs) = (if a \<noteq> b then r a b else cmp_lists r d as bs)"
| "cmp_lists r d _ _ = d"

lemma cmp_lists_orders:
  fixes xs ys :: "'k::linorder list"
  shows "cmp_lists (<) (length xs < length ys) xs ys \<longleftrightarrow> xs < ys"
    and "cmp_lists (\<le>) (length xs \<le> length ys) xs ys \<longleftrightarrow> xs \<le> ys"
    and "cmp_lists (\<lambda>a b. b < a) (length ys < length xs) xs ys \<longleftrightarrow> ys < xs"
    and "cmp_lists (\<lambda>a b. b \<le> a) (length ys \<le> length xs) xs ys \<longleftrightarrow> ys \<le> xs"
    and "cmp_lists (\<lambda>_ _. False) (length xs = length ys) xs ys \<longleftrightarrow> xs = ys"
proof -
  show "cmp_lists (<) (length xs < length ys) xs ys \<longleftrightarrow> xs < ys"
    by (induction xs ys rule: list_induct2') auto
  show "cmp_lists (\<le>) (length xs \<le> length ys) xs ys \<longleftrightarrow> xs \<le> ys"
    by (induction xs ys rule: list_induct2') auto
  show "cmp_lists (\<lambda>a b. b < a) (length ys < length xs) xs ys \<longleftrightarrow> ys < xs"
    by (induction xs ys rule: list_induct2') auto
  show "cmp_lists (\<lambda>a b. b \<le> a) (length ys \<le> length xs) xs ys \<longleftrightarrow> ys \<le> xs"
    by (induction xs ys rule: list_induct2') auto
  show "cmp_lists (\<lambda>_ _. False) (length xs = length ys) xs ys \<longleftrightarrow> xs = ys"
    by (induction xs ys rule: list_induct2') auto
qed

lemma cmp_loop_rep:
  assumes "p + n \<le> length xs" and "p + n \<le> length ys"
  shows "cmp_loop f r d (c_string xs @ sl) (c_string ys @ sl') p n =
    Some (cmp_lists r d (map f (take n (drop p xs))) (map f (take n (drop p ys))))"
  using assms
proof (induction n arbitrary: p)
  case 0
  then show ?case by simp
next
  case (Suc n)
  then have "take (Suc n) (drop p xs) = xs ! p # take n (drop (Suc p) xs)"
    "take (Suc n) (drop p ys) = ys ! p # take n (drop (Suc p) ys)"
    by (simp_all flip: Cons_nth_drop_Suc)
  with Suc show ?case by (simp add: mem_simps)
qed

lemma cmp_lists_min:
  "cmp_lists r d (take (min (length xs) (length ys)) xs) (take (min (length xs) (length ys)) ys) = cmp_lists r d xs ys"
  by (induction r d xs ys rule: cmp_lists.induct) auto

lemma cmp_loop_min:
  assumes "n = min (length xs) (length ys)"
  shows "cmp_loop f r d (c_string xs @ sl) (c_string ys @ sl') 0 n = Some (cmp_lists r d (map f xs) (map f ys))"
  using assms cmp_loop_rep [of 0 n xs ys f r d sl sl'] cmp_lists_min [of r d "map f xs" "map f ys"]
  by (simp add: take_map)

lemma same_prefix_rep:
  assumes "p \<le> n" and "n = min (length xs) (length ys)"
  shows "\<exists>i. same_prefix f (c_string xs @ sl) (c_string ys @ sl') n p = Some i \<and> i \<le> n \<and>
    (if i < n then r (f (xs ! i)) (f (ys ! i)) else d) =
      cmp_lists r d (map f (drop p xs)) (map f (drop p ys))"
  using assms(1)
proof (induction "n - p" arbitrary: p)
  case 0
  then have "p = n" by simp
  then have "drop p xs = [] \<or> drop p ys = []" using assms(2) by (auto simp: min_def)
  then have "cmp_lists r d (map f (drop p xs)) (map f (drop p ys)) = d" by auto
  moreover have "n \<le> length xs" "n \<le> length ys" using assms(2) by simp_all
  then have "same_prefix f (c_string xs @ sl) (c_string ys @ sl') n p = Some n"
    unfolding \<open>p = n\<close> by (subst same_prefix.simps) (simp add: rd_append rd_c_string)
  ultimately show ?case using \<open>p = n\<close> by simp
next
  case (Suc m)
  have "p < n" using Suc.hyps(2) by simp
  then have lt: "p < length xs" "p < length ys" using assms(2) by simp_all
  then have dr: "drop p xs = xs ! p # drop (Suc p) xs" "drop p ys = ys ! p # drop (Suc p) ys"
    by (simp_all add: Cons_nth_drop_Suc)
  have step: "same_prefix f (c_string xs @ sl) (c_string ys @ sl') n p =
      (if f (xs ! p) = f (ys ! p) then same_prefix f (c_string xs @ sl) (c_string ys @ sl') n (Suc p) else Some p)"
    using lt \<open>p < n\<close> by (subst same_prefix.simps) (simp add: rd_append rd_c_string)
  show ?case
  proof (cases "f (xs ! p) = f (ys ! p)")
    case True
    have "m = n - Suc p" "Suc p \<le> n" using Suc.hyps(2) \<open>p < n\<close> by simp_all
    from Suc.hyps(1) [OF this] show ?thesis unfolding step dr using True by simp
  next
    case False
    then show ?thesis unfolding step dr using \<open>p < n\<close> by simp
  qed
qed

lemma match_count_rep:
  assumes "p \<le> n" and "d + n \<le> length xs" and "n \<le> length ys"
  shows "\<exists>i. match_count f (c_string xs @ sl) d (c_string ys @ sl') (int n) p = Some i \<and> i \<le> n \<and>
    (i = n \<longleftrightarrow> map f (take (n - p) (drop (d + p) xs)) = map f (take (n - p) (drop p ys)))"
  using assms(1)
proof (induction "n - p" arbitrary: p)
  case 0
  then show ?case by (simp add: match_count.simps)
next
  case (Suc m)
  then have lt: "d + p < length xs" "p < length ys" "p < n" using assms by simp_all
  then have dr: "take (n - p) (drop (d + p) xs) = xs ! (d + p) # take (n - Suc p) (drop (d + Suc p) xs)"
    "take (n - p) (drop p ys) = ys ! p # take (n - Suc p) (drop (Suc p) ys)"
    by (simp_all add: Suc_diff_Suc [symmetric] flip: Cons_nth_drop_Suc)
  show ?case
  proof (cases "f (xs ! (d + p)) = f (ys ! p)")
    case True
    have "m = n - Suc p" "Suc p \<le> n" using Suc.hyps(2) lt by simp_all
    from Suc.hyps(1) [OF this] lt dr True show ?thesis
      by (subst match_count.simps) (auto simp: mem_simps)
  next
    case False
    with lt dr show ?thesis by (subst match_count.simps) (auto simp: mem_simps)
  qed
qed

text \<open>The order test of \<open>bigloo_string_lt\<close>, and of every UCS-2 comparison.\<close>

definition prefix_test :: "('c \<Rightarrow> 'k) \<Rightarrow> ('k \<Rightarrow> 'k \<Rightarrow> bool) \<Rightarrow> bool \<Rightarrow> 'c cells \<Rightarrow> 'c cells \<Rightarrow> nat \<Rightarrow> bool option" where
  "prefix_test f r d m1 m2 mn =
     do { i \<leftarrow> same_prefix f m1 m2 mn 0;
          if i < mn then do { a \<leftarrow> rd m1 i; b \<leftarrow> rd m2 i; Some (r (f a) (f b)) } else Some d }"

lemma prefix_test_rep:
  assumes "n = min (length xs) (length ys)"
  shows "prefix_test f r d (c_string xs @ sl) (c_string ys @ sl') n = Some (cmp_lists r d (map f xs) (map f ys))"
proof -
  obtain i where i: "same_prefix f (c_string xs @ sl) (c_string ys @ sl') n 0 = Some i" "i \<le> n"
      "(if i < n then r (f (xs ! i)) (f (ys ! i)) else d) = cmp_lists r d (map f xs) (map f ys)"
    using same_prefix_rep [of 0 n xs ys f sl sl' r d] assms by auto
  then show ?thesis
    using assms by (auto simp: prefix_test_def mem_simps split: if_splits)
qed

section \<open>The contract of a family of comparisons\<close>

text \<open>
  \<open>rep\<close> builds an object from its characters and slack cells, \<open>ok\<close> is the range of sizes the
  family is used on, \<open>norm\<close> is what it compares of a character. The laws say that the operations
  compute the lexicographic order of the normalised characters.
\<close>

locale string_order =
  fixes rep :: "'c list \<Rightarrow> 'x \<Rightarrow> 's"
    and ok :: "'c list \<Rightarrow> bool"
    and norm :: "'c \<Rightarrow> 'k::linorder"
    and eq lt le gt ge :: "'s \<Rightarrow> 's \<Rightarrow> bool option"
  assumes eq_rep: "ok xs \<Longrightarrow> ok ys \<Longrightarrow> eq (rep xs s) (rep ys t) = Some (map norm xs = map norm ys)"
    and lt_rep: "ok xs \<Longrightarrow> ok ys \<Longrightarrow> lt (rep xs s) (rep ys t) = Some (map norm xs < map norm ys)"
    and le_rep: "ok xs \<Longrightarrow> ok ys \<Longrightarrow> le (rep xs s) (rep ys t) = Some (map norm xs \<le> map norm ys)"
    and gt_rep: "ok xs \<Longrightarrow> ok ys \<Longrightarrow> gt (rep xs s) (rep ys t) = Some (map norm ys < map norm xs)"
    and ge_rep: "ok xs \<Longrightarrow> ok ys \<Longrightarrow> ge (rep xs s) (rep ys t) = Some (map norm ys \<le> map norm xs)"
begin

lemmas rep_rules = eq_rep lt_rep le_rep gt_rep ge_rep

lemma trichotomy:
  assumes "ok xs" and "ok ys"
  shows "[lt (rep xs s) (rep ys t), eq (rep xs s) (rep ys t), gt (rep xs s) (rep ys t)] \<in>
    {[Some True, Some False, Some False], [Some False, Some True, Some False], [Some False, Some False, Some True]}"
  using assms by (auto simp: rep_rules)

lemma strict_weak:
  assumes "ok xs" and "ok ys"
  shows "le (rep xs s) (rep ys t) = map_option Not (gt (rep xs s) (rep ys t))"
    and "ge (rep xs s) (rep ys t) = map_option Not (lt (rep xs s) (rep ys t))"
    and "gt (rep xs s) (rep ys t) = lt (rep ys t) (rep xs s)"
  using assms by (auto simp: rep_rules not_less)

lemma lt_trans:
  assumes "ok xs" and "ok ys" and "ok zs"
    and "lt (rep xs s) (rep ys t) = Some True" and "lt (rep ys t) (rep zs u) = Some True"
  shows "lt (rep xs s) (rep zs u) = Some True"
  using assms by (auto simp: rep_rules)

lemma prefix_lt:
  assumes "ok xs" and "ok (xs @ y # ys)"
  shows "lt (rep xs s) (rep (xs @ y # ys) t) = Some True"
proof -
  have "map norm xs < map norm xs @ norm y # map norm ys" by (induction xs) auto
  then show ?thesis using assms by (simp add: rep_rules)
qed

end

text \<open>A length of \<open>2 ^ 31\<close> or more is narrowed: a string may then be equal to one of its prefixes.\<close>

lemma bigloo_strcmp_narrow:
  "bigloo_strcmp (str_rep xs s) (str_rep ys t) =
     Some (int32 (int (length xs)) = int (length ys) \<and> take (length ys) xs = ys)"
proof (cases "int32 (int (length xs)) = int (length ys)")
  case True
  have le: "length ys \<le> length xs"
    using True int32_le [of "length xs"] by simp
  with True show ?thesis
    by (auto simp: bigloo_strcmp_def memcmp_eq_def mem_simps Let_def)
qed (simp add: bigloo_strcmp_def)

lemma bigloo_strcmp_rep:
  assumes "length xs < 2 ^ 31"
  shows "bigloo_strcmp (str_rep xs s) (str_rep ys t) = Some (xs = ys)"
  using assms by (auto simp: bigloo_strcmp_narrow)

lemmas order_defs = bigloo_string_lt_def bigloo_string_le_def bigloo_string_gt_def bigloo_string_ge_def
  bigloo_string_cilt_def bigloo_string_cile_def bigloo_string_cigt_def bigloo_string_cige_def
  bigloo_strcicmp_def

lemma lt_prefix_test:
  "bigloo_string_lt a b =
     (let l1 = str_length a; l2 = str_length b in
      prefix_test id (<) (l1 < l2) (char0 a) (char0 b) (if l1 < l2 then l1 else l2))"
  unfolding bigloo_string_lt_def prefix_test_def Let_def id_apply by (rule refl)

lemma order_reps:
  shows "bigloo_string_lt (str_rep xs s) (str_rep ys t) = Some (xs < ys)"
    and "bigloo_string_le (str_rep xs s) (str_rep ys t) = Some (xs \<le> ys)"
    and "bigloo_string_gt (str_rep xs s) (str_rep ys t) = Some (xs > ys)"
    and "bigloo_string_ge (str_rep xs s) (str_rep ys t) = Some (xs \<ge> ys)"
  using cmp_lists_orders(1,2) [of xs ys] cmp_lists_orders(3,4) [of ys xs]
  by (simp_all add: lt_prefix_test prefix_test_rep order_defs cmp_loop_min min_def)

interpretation cs: string_order str_rep "\<lambda>xs. length xs < 2 ^ 31" id bigloo_strcmp
  bigloo_string_lt bigloo_string_le bigloo_string_gt bigloo_string_ge
  by unfold_locales (simp_all add: bigloo_strcmp_rep order_reps)

interpretation ci: string_order str_rep "\<lambda>_. True" tolower bigloo_strcicmp
  bigloo_string_cilt bigloo_string_cile bigloo_string_cigt bigloo_string_cige
proof unfold_locales
  fix xs ys :: "u8 list" and s t :: "u8 cells"
  show "bigloo_strcicmp (str_rep xs s) (str_rep ys t) = Some (map tolower xs = map tolower ys)"
    using cmp_lists_orders(5) [of "map tolower xs" "map tolower ys"]
      map_eq_imp_length_eq [of tolower xs tolower ys]
    by (auto simp: order_defs cmp_loop_min Let_def)
  show "bigloo_string_cilt (str_rep xs s) (str_rep ys t) = Some (map tolower xs < map tolower ys)"
    using cmp_lists_orders(1) [of "map tolower xs" "map tolower ys"]
    by (simp add: order_defs cmp_loop_min min_def)
  show "bigloo_string_cile (str_rep xs s) (str_rep ys t) = Some (map tolower xs \<le> map tolower ys)"
    using cmp_lists_orders(2) [of "map tolower xs" "map tolower ys"]
    by (simp add: order_defs cmp_loop_min min_def)
  show "bigloo_string_cigt (str_rep xs s) (str_rep ys t) = Some (map tolower ys < map tolower xs)"
    using cmp_lists_orders(3) [of "map tolower ys" "map tolower xs"]
    by (simp add: order_defs cmp_loop_min min_def)
  show "bigloo_string_cige (str_rep xs s) (str_rep ys t) = Some (map tolower ys \<le> map tolower xs)"
    using cmp_lists_orders(4) [of "map tolower ys" "map tolower xs"]
    by (simp add: order_defs cmp_loop_min min_def)
qed

text \<open>C18: the comparisons of strings decide the lexicographic order of their bytes, and the
  case-insensitive ones that of their lower-case bytes, without reading past either operand. Equality does so when the
  first string is shorter than \<open>2 ^ 31\<close>; otherwise its length is narrowed to an \<open>int\<close> first, and the string is
  compared with the prefix of this length.\<close>

theorem string_orders_lexicographic:
  "(length xs < 2 ^ 31 \<longrightarrow> bigloo_strcmp (str_rep xs s) (str_rep ys t) = Some (xs = ys)) \<and>
   bigloo_strcmp (str_rep xs s) (str_rep ys t) =
     Some (int32 (int (length xs)) = int (length ys) \<and> take (length ys) xs = ys) \<and>
   bigloo_string_lt (str_rep xs s) (str_rep ys t) = Some (xs < ys) \<and>
   bigloo_string_le (str_rep xs s) (str_rep ys t) = Some (xs \<le> ys) \<and>
   bigloo_string_gt (str_rep xs s) (str_rep ys t) = Some (xs > ys) \<and>
   bigloo_string_ge (str_rep xs s) (str_rep ys t) = Some (xs \<ge> ys) \<and>
   bigloo_strcicmp (str_rep xs s) (str_rep ys t) = Some (map tolower xs = map tolower ys) \<and>
   bigloo_string_cilt (str_rep xs s) (str_rep ys t) = Some (map tolower xs < map tolower ys) \<and>
   bigloo_string_cile (str_rep xs s) (str_rep ys t) = Some (map tolower xs \<le> map tolower ys) \<and>
   bigloo_string_cigt (str_rep xs s) (str_rep ys t) = Some (map tolower xs > map tolower ys) \<and>
   bigloo_string_cige (str_rep xs s) (str_rep ys t) = Some (map tolower xs \<ge> map tolower ys)"
  using ci.rep_rules [where xs = xs and ys = ys and s = s and t = t]
  by (intro conjI impI bigloo_strcmp_rep bigloo_strcmp_narrow order_reps) simp_all

theorem string_orders_lexicographic_witness:
  "bigloo_strcmp (bstring_of (bytes ''abc'')) (bstring_of (bytes ''abd'')) = Some False \<and>
   bigloo_string_lt (bstring_of (bytes ''abc'')) (bstring_of (bytes ''abd'')) = Some True \<and>
   bigloo_string_cilt (bstring_of (bytes ''ABC'')) (bstring_of (bytes ''abd'')) = Some True"
  using string_orders_lexicographic [of "bytes ''abc''" "[]" "bytes ''abd''" "[]"]
    string_orders_lexicographic [of "bytes ''ABC''" "[]" "bytes ''abd''" "[]"]
  by (simp add: bytes_def tolower_def)

text \<open>For any two strings exactly one of \<open>string<?\<close>, \<open>string=?\<close> and
  \<open>string>?\<close> answers true, in the case-sensitive and in the case-insensitive family; and a string is
  less than each of its proper extensions.\<close>

theorem string_orders_trichotomy:
  assumes "length xs < 2 ^ 31" and "length ys < 2 ^ 31"
  shows "[bigloo_string_lt (str_rep xs s) (str_rep ys t), bigloo_strcmp (str_rep xs s) (str_rep ys t),
    bigloo_string_gt (str_rep xs s) (str_rep ys t)] \<in>
      {[Some True, Some False, Some False], [Some False, Some True, Some False], [Some False, Some False, Some True]} \<and>
   [bigloo_string_cilt (str_rep xs s) (str_rep ys t), bigloo_strcicmp (str_rep xs s) (str_rep ys t),
    bigloo_string_cigt (str_rep xs s) (str_rep ys t)] \<in>
      {[Some True, Some False, Some False], [Some False, Some True, Some False], [Some False, Some False, Some True]}"
  by (intro conjI cs.trichotomy ci.trichotomy TrueI assms)

section \<open>Prefix and substring tests\<close>

lemma match_count_eq:
  assumes "d + n \<le> length xs" and "n \<le> length ys"
  shows "do { i \<leftarrow> match_count f (c_string xs @ sl) d (c_string ys @ sl') (int n) 0; Some (i = n) } =
    Some (map f (take n (drop d xs)) = map f (take n ys))"
  using match_count_rep [of 0 n d xs ys f sl sl'] assms by auto

lemma strcmp_at_rep:
  "bigloo_strcmp_at (str_rep xs s) (str_rep ys t) d =
     Some (0 \<le> d \<and> int (length ys) + d \<le> int (length xs) \<and> take (length ys) (drop (nat d) xs) = ys)"
  by (auto simp: bigloo_strcmp_at_def memcmp_eq_def mem_simps Let_def)

lemma strcmp_ci_at_rep:
  "bigloo_strcmp_ci_at (str_rep xs s) (str_rep ys t) d =
     Some (0 \<le> d \<and> int (length ys) + d \<le> int (length xs) \<and>
           map tolower (take (length ys) (drop (nat d) xs)) = map tolower ys)"
  using match_count_eq [of "nat d" "length ys" xs ys tolower s t]
  by (auto simp: bigloo_strcmp_ci_at_def Let_def)

lemma strncmp_at_rep:
  "bigloo_strncmp_at (str_rep xs s) (str_rep ys t) d l3 =
     Some (0 \<le> d \<and> 0 \<le> l3 \<and> min (int (length ys)) l3 + d \<le> int (length xs) \<and>
           take (min (length ys) (nat l3)) (drop (nat d) xs) = take (nat l3) ys)"
proof (cases "0 \<le> d \<and> 0 \<le> l3 \<and> min (int (length ys)) l3 + d \<le> int (length xs)")
  case True
  then obtain i k where i: "d = int i" "l3 = int k" by (metis nonneg_int_cases)
  have n: "min (length ys) k + i \<le> length xs" using True i by (auto simp: min_def split: if_splits)
  have "(if int (length ys) < l3 then int (length ys) else l3) = int (min (length ys) k)"
    using i by simp
  moreover have "take (min (length ys) k) ys = take k ys" by (simp add: min_def)
  ultimately show ?thesis using i n
    by (simp add: bigloo_strncmp_at_def memcmp_eq_def mem_simps Let_def)
next
  case False
  then show ?thesis by (auto simp: bigloo_strncmp_at_def Let_def min_def split: if_splits)
qed

lemma strncmp_rep:
  "0 \<le> l \<Longrightarrow> bigloo_strncmp (str_rep xs s) (str_rep ys t) l =
     Some (l \<le> int (length xs) \<and> l \<le> int (length ys) \<and> take (nat l) xs = take (nat l) ys)"
  by (auto simp: bigloo_strncmp_def memcmp_eq_def mem_simps idx_def)

lemma strncmp_ci_rep:
  assumes "0 \<le> l"
  shows "bigloo_strncmp_ci (str_rep xs s) (str_rep ys t) l =
     Some (l \<le> int (length xs) \<and> l \<le> int (length ys) \<and>
           map tolower (take (nat l) xs) = map tolower (take (nat l) ys))"
proof -
  obtain n where "l = int n" using assms by (metis nonneg_int_cases)
  then show ?thesis
    using match_count_eq [of 0 n xs ys tolower s t] by (auto simp: bigloo_strncmp_ci_def)
qed

text \<open>The prefix and substring tests: each answers whether the characters of the second
  string, or their first \<open>n\<close>, occur in the first one at the given offset, up to the case of the letters in
  the \<open>ci\<close> forms; offsets and lengths out of range are answered by false, not by a read.\<close>

theorem string_prefix_tests:
  assumes "0 \<le> l"
  shows "bigloo_strcmp_at (str_rep xs s) (str_rep ys t) d =
      Some (0 \<le> d \<and> int (length ys) + d \<le> int (length xs) \<and> take (length ys) (drop (nat d) xs) = ys) \<and>
    bigloo_strcmp_ci_at (str_rep xs s) (str_rep ys t) d =
      Some (0 \<le> d \<and> int (length ys) + d \<le> int (length xs) \<and>
            map tolower (take (length ys) (drop (nat d) xs)) = map tolower ys) \<and>
    bigloo_strncmp_at (str_rep xs s) (str_rep ys t) d n =
      Some (0 \<le> d \<and> 0 \<le> n \<and> min (int (length ys)) n + d \<le> int (length xs) \<and>
            take (min (length ys) (nat n)) (drop (nat d) xs) = take (nat n) ys) \<and>
    bigloo_strncmp (str_rep xs s) (str_rep ys t) l =
      Some (l \<le> int (length xs) \<and> l \<le> int (length ys) \<and> take (nat l) xs = take (nat l) ys) \<and>
    bigloo_strncmp_ci (str_rep xs s) (str_rep ys t) l =
      Some (l \<le> int (length xs) \<and> l \<le> int (length ys) \<and>
            map tolower (take (nat l) xs) = map tolower (take (nat l) ys))"
  using assms by (simp add: strcmp_at_rep strcmp_ci_at_rep strncmp_at_rep strncmp_rep strncmp_ci_rep)

lemma string_prefix_tests_witness:
  "bigloo_strncmp_at (bstring_of [97, 98, 99]) (bstring_of [98, 120]) 1 1 = Some True \<and>
   bigloo_strncmp_ci (bstring_of [97, 66]) (bstring_of [65, 98]) 2 = Some True"
  using string_prefix_tests [of 2 "[97, 66]" "[]" "[65, 98]" "[]"]
    string_prefix_tests [of 2 "[97, 98, 99]" "[]" "[98, 120]" "[]" 1 1]
  by (simp add: tolower_def)

text \<open>\<open>bigloo_strncmp_ci_at\<close> is the case-insensitive test only when the given length is
  at least that of the second string. For a shorter length its loop does not stop at that length, so
  that it answers false for a substring that matches beyond it, where the case-sensitive
  \<open>bigloo_strncmp_at\<close> answers true; and when the strings contain null characters it reads past the
  end of the first one.\<close>

theorem strncmp_ci_at_divergence:
  assumes "int (length ys) \<le> n"
  shows "bigloo_strncmp_ci_at (str_rep xs s) (str_rep ys t) d n =
      Some (0 \<le> d \<and> int (length ys) + d \<le> int (length xs) \<and>
            map tolower (take (length ys) (drop (nat d) xs)) = map tolower ys) \<and>
    bigloo_strncmp_ci_at (bstring_of [97, 98, 99]) (bstring_of [97, 98, 99]) 0 2 = Some False \<and>
    bigloo_strncmp_at (bstring_of [97, 98, 99]) (bstring_of [97, 98, 99]) 0 2 = Some True \<and>
    bigloo_strncmp_ci_at (bstring_of [97]) (bstring_of [97, 0, 0]) 0 1 = None"
proof -
  have "(if int (length ys) < n then int (length ys) else n) = int (length ys)" and "0 \<le> n"
    using assms by auto
  then have "bigloo_strncmp_ci_at (str_rep xs s) (str_rep ys t) d n =
      bigloo_strcmp_ci_at (str_rep xs s) (str_rep ys t) d"
    by (simp add: bigloo_strncmp_ci_at_def bigloo_strcmp_ci_at_def Let_def)
  moreover have "bigloo_strncmp_ci_at (bstring_of [97, 98, 99]) (bstring_of [97, 98, 99]) 0 2 = Some False"
    by code_simp
  moreover have "bigloo_strncmp_ci_at (bstring_of [97]) (bstring_of [97, 0, 0]) 0 1 = None"
    by code_simp
  ultimately show ?thesis by (simp add: strcmp_ci_at_rep strncmp_at_rep)
qed

lemma strncmp_ci_at_divergence_witness:
  "bigloo_strncmp_ci_at (bstring_of [97, 98, 99]) (bstring_of [66]) 1 1 = Some True"
  using strncmp_ci_at_divergence [of "[66]" 1 "[97, 98, 99]" "[]" "[]" 1] by (simp add: tolower_def)

end
