(* ===== verification/Strnum.thy ===== *)
theory Strnum
  imports Bstring
begin

text \<open>
  Printing of integers in \<open>runtime/Clib/cstring.c\<close>: \<open>integer_to_string\<close>,
  \<open>unsigned_to_string\<close>, their \<open>llong\<close> variants with a table of sixteen letters, and the padded
  form. The digit loops may not end for a radix below two; they are partial functions, and the theorems show
  that they return for the radixes that the Scheme layer lets through.
\<close>

section \<open>Digit loops\<close>

definition letters :: "u8 cells" where
  "letters = c_string (bytes ''0123456789abcdefghijklmnopqrstuvwxyz'')"

definition llong_letters :: "u8 cells" where
  "llong_letters = c_string (bytes ''0123456789abcdef'')"

text \<open>\<open>for( ax = x; ax != 0; ax /= radix ) bits++;\<close>\<close>

partial_function (option) count_digits :: "c_long \<Rightarrow> c_long \<Rightarrow> nat \<Rightarrow> nat option" where
  "count_digits ax radix bits =
     (if ax \<noteq> 0 then Option.bind (c_div ax radix) (\<lambda>q. count_digits q radix (bits + 1)) else Some bits)"

text \<open>\<open>for( ...; bits > 0; bits--, s--, ax /= radix ) *s = letters[ abs( (int)(ax % radix) ) ];\<close>
  with \<open>s\<close> as an offset in the string. The result also holds the last value of \<open>s\<close>.\<close>

fun store_digits :: "u8 cells \<Rightarrow> c_long \<Rightarrow> nat \<Rightarrow> int \<Rightarrow> c_long \<Rightarrow> u8 cells \<Rightarrow> (u8 cells \<times> int) option" where
  "store_digits tab radix 0 s ax m = Some (m, s)"
| "store_digits tab radix (Suc bits) s ax m = do {
     d \<leftarrow> c_mod ax radix;
     c \<leftarrow> rd tab (nat \<bar>sint (ucast d :: c_int)\<bar>);
     k \<leftarrow> idx s;
     m \<leftarrow> wr m k c;
     ax \<leftarrow> c_div ax radix;
     store_digits tab radix bits (s - 1) ax m }"

definition digits_to_string :: "u8 cells \<Rightarrow> c_long \<Rightarrow> c_long \<Rightarrow> bgl_string option" where
  "digits_to_string tab x radix = do {
     bits \<leftarrow> count_digits x radix (if sint x \<le> 0 then 1 else 0);
     aux \<leftarrow> make_string_sans_fill (int bits);
     m \<leftarrow> wr (char0 aux) bits 0;
     (m, s) \<leftarrow> store_digits tab radix bits (int bits - 1) x m;
     m \<leftarrow> (if sint x < 0 then do { k \<leftarrow> idx (s + 1); wr m k (of_char CHR ''-'') } else Some m);
     Some (aux\<lparr>char0 := m\<rparr>) }"

definition integer_to_string :: "c_long \<Rightarrow> c_long \<Rightarrow> bgl_string option" where
  "integer_to_string x radix = digits_to_string letters x radix"

definition llong_to_string :: "c_long \<Rightarrow> c_long \<Rightarrow> bgl_string option" where
  "llong_to_string x radix = digits_to_string llong_letters x radix"

text \<open>The unsigned variants: \<open>ax\<close> is unsigned, so the radix is converted too.\<close>

definition u_div :: "c_long \<Rightarrow> c_long \<Rightarrow> c_long option" where
  "u_div x y = (if y = 0 then None else Some (x div y))"

definition u_mod :: "c_long \<Rightarrow> c_long \<Rightarrow> c_long option" where
  "u_mod x y = (if y = 0 then None else Some (x mod y))"

partial_function (option) count_udigits :: "c_long \<Rightarrow> c_long \<Rightarrow> nat \<Rightarrow> nat option" where
  "count_udigits ax radix bits =
     (if 0 < ax then Option.bind (u_div ax radix) (\<lambda>q. count_udigits q radix (bits + 1)) else Some bits)"

fun store_udigits :: "u8 cells \<Rightarrow> c_long \<Rightarrow> nat \<Rightarrow> int \<Rightarrow> c_long \<Rightarrow> u8 cells \<Rightarrow> u8 cells option" where
  "store_udigits tab radix 0 s ax m = Some m"
| "store_udigits tab radix (Suc bits) s ax m = do {
     d \<leftarrow> u_mod ax radix;
     c \<leftarrow> rd tab (unat d);
     k \<leftarrow> idx s;
     m \<leftarrow> wr m k c;
     ax \<leftarrow> u_div ax radix;
     store_udigits tab radix bits (s - 1) ax m }"

definition udigits_to_string :: "u8 cells \<Rightarrow> c_long \<Rightarrow> c_long \<Rightarrow> bgl_string option" where
  "udigits_to_string tab x radix = do {
     bits \<leftarrow> count_udigits x radix (if x = 0 then 1 else 0);
     aux \<leftarrow> make_string_sans_fill (int bits);
     m \<leftarrow> wr (char0 aux) bits 0;
     m \<leftarrow> store_udigits tab radix bits (int bits - 1) x m;
     Some (aux\<lparr>char0 := m\<rparr>) }"

definition unsigned_to_string :: "c_long \<Rightarrow> c_long \<Rightarrow> bgl_string option" where
  "unsigned_to_string x radix = udigits_to_string letters x radix"

definition ullong_to_string :: "c_long \<Rightarrow> c_long \<Rightarrow> bgl_string option" where
  "ullong_to_string x radix = udigits_to_string llong_letters x radix"

section \<open>Positional notation\<close>

function radix_digits :: "nat \<Rightarrow> nat \<Rightarrow> nat list" where
  "radix_digits r n = (if n = 0 \<or> r < 2 then [] else radix_digits r (n div r) @ [n mod r])"
  by pat_completeness auto
termination
  by (relation "measure snd") (auto intro: div_less_dividend)

declare radix_digits.simps [simp del]

definition digits_value :: "nat \<Rightarrow> nat list \<Rightarrow> nat" where
  "digits_value r ds = foldl (\<lambda>v d. v * r + d) 0 ds"

fun padded :: "nat \<Rightarrow> nat \<Rightarrow> nat \<Rightarrow> nat list" where
  "padded r 0 n = []"
| "padded r (Suc b) n = padded r b (n div r) @ [n mod r]"

lemma digits_value_snoc [simp]: "digits_value r (ds @ [d]) = digits_value r ds * r + d"
  by (simp add: digits_value_def)

lemma radix_digits_0 [simp]: "radix_digits r 0 = []"
  by (simp add: radix_digits.simps)

lemma radix_digits_value: "2 \<le> r \<Longrightarrow> digits_value r (radix_digits r n) = n"
proof (induction r n rule: radix_digits.induct)
  case (1 r n)
  then show ?case
    by (subst radix_digits.simps) (auto simp: digits_value_def)
qed

lemma radix_digits_less: "2 \<le> r \<Longrightarrow> d \<in> set (radix_digits r n) \<Longrightarrow> d < r"
proof (induction r n rule: radix_digits.induct)
  case (1 r n)
  then show ?case using radix_digits.simps [of r n] by (auto split: if_splits)
qed

lemma radix_digits_hd: "2 \<le> r \<Longrightarrow> 0 < n \<Longrightarrow> radix_digits r n \<noteq> [] \<and> hd (radix_digits r n) \<noteq> 0"
proof (induction r n rule: radix_digits.induct)
  case (1 r n)
  show ?case
  proof (cases "n div r = 0")
    case True
    then have "n mod r = n" using 1 by (auto simp: div_eq_0_iff)
    with 1 True show ?thesis by (subst (1 2) radix_digits.simps) simp
  next
    case False
    then have "radix_digits r (n div r) \<noteq> [] \<and> hd (radix_digits r (n div r)) \<noteq> 0" using 1 by auto
    with 1 show ?thesis by (subst (1 2) radix_digits.simps) simp
  qed
qed

lemma padded_radix_digits:
  "2 \<le> r \<Longrightarrow> padded r (length (radix_digits r n)) n = radix_digits r n"
proof (induction r n rule: radix_digits.induct)
  case (1 r n)
  then show ?case by (subst (1 2) radix_digits.simps) auto
qed

lemma padded_one_more:
  "2 \<le> r \<Longrightarrow> padded r (Suc (length (radix_digits r n))) n = 0 # radix_digits r n"
proof (induction r n rule: radix_digits.induct)
  case (1 r n)
  then show ?case by (subst (1 2) radix_digits.simps) auto
qed

lemma length_padded [simp]: "length (padded r b n) = b"
  by (induction b arbitrary: n) auto

lemma padded_less: "0 < r \<Longrightarrow> d \<in> set (padded r b n) \<Longrightarrow> d < r"
  by (induction b arbitrary: n) auto

section \<open>The loops on machine words\<close>

definition mag :: "c_long \<Rightarrow> nat" where
  "mag x = nat \<bar>sint x\<bar>"

lemma mag_0 [simp]: "mag 0 = 0"
  by (simp add: mag_def)

lemma mag_eq_0: "mag x = 0 \<longleftrightarrow> x = 0"
  using sint_eq_iff [of x 0] by (auto simp: mag_def)

lemma sint_radix: "r < 2 ^ 31 \<Longrightarrow> sint (word_of_nat r :: c_long) = int r"
  using sint_word_of_int_in [where 'a=64, of "int r"] by simp

lemma radix_traps:
  assumes "2 \<le> r" and "r < 2 ^ 31"
  shows "(word_of_nat r :: c_long) \<noteq> 0" and "(word_of_nat r :: c_long) \<noteq> -1"
  using sint_radix [OF assms(2)] assms(1) by auto

lemma trunc_small:
  fixes x :: c_long and k :: int
  assumes "0 \<le> k" and "k \<le> \<bar>sint x\<bar>" and "k \<noteq> 2 ^ 63"
  shows "sint (word_of_int (sgn (sint x) * k) :: c_long) = sgn (sint x) * k"
  using assms sint_bounds [of x] by (intro sint_word_of_int_in) (auto simp: sgn_if)

lemma c_div_radix:
  assumes "2 \<le> r" and "r < 2 ^ 31"
  shows "\<exists>q. c_div ax (word_of_nat r) = Some q \<and> mag q = mag ax div r"
proof -
  let ?k = "\<bar>sint ax\<bar> div int r"
  have "?k = int (mag ax div r)" and "\<bar>sint ax\<bar> = int (mag ax)" by (simp_all add: mag_def zdiv_int)
  then have k: "0 \<le> ?k" "?k \<le> \<bar>sint ax\<bar>" by simp_all
  have "?k \<noteq> 2 ^ 63"
  proof
    assume "?k = 2 ^ 63"
    moreover have "?k * int r \<le> \<bar>sint ax\<bar>"
      using assms by (simp add: minus_mod_eq_div_mult [symmetric])
    moreover have "?k * 2 \<le> ?k * int r" using k assms by (intro mult_left_mono) auto
    ultimately show False using sint_bounds [of ax] by auto
  qed
  with k have "sint (word_of_int (sgn (sint ax) * ?k) :: c_long) = sgn (sint ax) * ?k"
    by (rule trunc_small)
  moreover have "nat \<bar>sgn (sint ax) * ?k\<bar> = mag ax div r"
    using k by (auto simp: mag_def abs_mult sgn_if nat_div_distrib)
  ultimately show ?thesis
    using assms radix_traps [OF assms] sint_radix [OF assms(2)] by (simp add: c_div_def mag_def)
qed

lemma sint_ucast_int:
  assumes "- (2 ^ 31) \<le> sint (d :: c_long)" and "sint d < 2 ^ 31"
  shows "sint (ucast d :: c_int) = sint d"
proof -
  have "(ucast d :: c_int) = word_of_int (sint d)"
    by (rule bit_word_eqI) (auto simp: bit_simps)
  then show ?thesis using assms by (simp add: sint_word_of_int_in del: of_int_sint)
qed

lemma c_mod_radix:
  assumes "2 \<le> r" and "r < 2 ^ 31"
  shows "\<exists>d. c_mod ax (word_of_nat r) = Some d \<and> nat \<bar>sint (ucast d :: c_int)\<bar> = mag ax mod r"
proof -
  let ?k = "\<bar>sint ax\<bar> mod int r"
  have k: "0 \<le> ?k" "?k < int r" using assms by simp_all
  have "int r < 2 ^ 31" using assms(2) by simp
  with k have k31: "?k < 2 ^ 31" by linarith
  then have "?k \<noteq> 2 ^ 63" by auto
  moreover have "?k \<le> \<bar>sint ax\<bar>" by (simp add: zmod_le_nonneg_dividend)
  ultimately have s: "sint (word_of_int (sgn (sint ax) * ?k) :: c_long) = sgn (sint ax) * ?k"
    using k assms by (intro trunc_small) auto
  have "nat \<bar>sgn (sint ax) * ?k\<bar> = mag ax mod r"
    using k by (auto simp: mag_def abs_mult sgn_if nat_mod_distrib)
  moreover have "- (2 ^ 31) \<le> sgn (sint ax) * ?k" "sgn (sint ax) * ?k < 2 ^ 31"
    using k(1) k31 by (auto simp: sgn_if)
  then have "sint (ucast (word_of_int (sgn (sint ax) * ?k) :: c_long) :: c_int) = sgn (sint ax) * ?k"
    using sint_ucast_int [of "word_of_int (sgn (sint ax) * ?k)"] unfolding s by simp
  ultimately have "nat \<bar>sint (ucast (word_of_int (sgn (sint ax) * ?k) :: c_long) :: c_int)\<bar> = mag ax mod r"
    by (simp only:)
  then show ?thesis
    using assms radix_traps [OF assms] sint_radix [OF assms(2)] by (simp add: c_mod_def)
qed

lemma count_digits_radix:
  assumes "2 \<le> r" and "r < 2 ^ 31"
  shows "count_digits ax (word_of_nat r) b = Some (b + length (radix_digits r (mag ax)))"
proof (induction "mag ax" arbitrary: ax b rule: less_induct)
  case less
  show ?case
  proof (cases "ax = 0")
    case True
    then show ?thesis by (subst count_digits.simps) simp
  next
    case False
    then have pos: "0 < mag ax" using mag_eq_0 [of ax] by simp
    obtain q where q: "c_div ax (word_of_nat r) = Some q" "mag q = mag ax div r"
      using c_div_radix [OF assms] by blast
    have "mag q < mag ax" using q pos assms by (simp add: div_less_dividend)
    from less [OF this] q pos assms False show ?thesis
      by (subst count_digits.simps, subst radix_digits.simps) simp
  qed
qed

lemma store_digits_radix:
  assumes "2 \<le> r" and "r < 2 ^ 31" and "\<And>d. d < r \<Longrightarrow> rd tab d = Some (ch d)"
  shows "b \<le> length m \<Longrightarrow> store_digits tab (word_of_nat r) b (int b - 1) ax m =
    Some (map (Some \<circ> ch) (padded r b (mag ax)) @ drop b m, -1)"
proof (induction b arbitrary: ax m)
  case 0
  then show ?case by simp
next
  case (Suc b)
  obtain d q where d: "c_mod ax (word_of_nat r) = Some d" "nat \<bar>sint (ucast d :: c_int)\<bar> = mag ax mod r"
    and q: "c_div ax (word_of_nat r) = Some q" "mag q = mag ax div r"
    using c_div_radix [OF assms(1,2)] c_mod_radix [OF assms(1,2)] by metis
  have "mag ax mod r < r" using assms(1) by simp
  moreover have "drop b (m[b := Some (ch (mag ax mod r))]) = Some (ch (mag ax mod r)) # drop (Suc b) m"
    using Suc.prems by (simp add: drop_update_swap flip: Cons_nth_drop_Suc)
  ultimately show ?case
    using Suc d q assms(3) by simp
qed

lemma count_udigits_radix:
  assumes "2 \<le> r" and "r < 2 ^ 31"
  shows "count_udigits ax (word_of_nat r) b = Some (b + length (radix_digits r (unat ax)))"
proof (induction "unat ax" arbitrary: ax b rule: less_induct)
  case less
  have R: "unat (word_of_nat r :: c_long) = r" using assms by (simp add: unat_of_nat)
  show ?case
  proof (cases "ax = 0")
    case True
    then show ?thesis by (subst count_udigits.simps) simp
  next
    case False
    then have pos: "0 < unat ax" by (simp add: unat_gt_0)
    have q: "unat (ax div word_of_nat r) = unat ax div r" by (simp add: unat_div_distrib R)
    then have "unat (ax div word_of_nat r) < unat ax" using pos assms by (simp add: div_less_dividend)
    from less [OF this] q pos assms False R show ?thesis
      by (subst count_udigits.simps, subst radix_digits.simps) (auto simp: u_div_def word_gt_0)
  qed
qed

lemma store_udigits_radix:
  assumes "2 \<le> r" and "r < 2 ^ 31" and "\<And>d. d < r \<Longrightarrow> rd tab d = Some (ch d)"
  shows "b \<le> length m \<Longrightarrow> store_udigits tab (word_of_nat r) b (int b - 1) ax m =
    Some (map (Some \<circ> ch) (padded r b (unat ax)) @ drop b m)"
proof (induction b arbitrary: ax m)
  case 0
  then show ?case by simp
next
  case (Suc b)
  have R: "unat (word_of_nat r :: c_long) = r" using assms by (simp add: unat_of_nat)
  then have R0: "(word_of_nat r :: c_long) \<noteq> 0" using assms by auto
  have dm: "unat (ax mod word_of_nat r) = unat ax mod r" "unat (ax div word_of_nat r) = unat ax div r"
    by (simp_all add: unat_div_distrib unat_mod_distrib R)
  have "unat ax mod r < r" using assms(1) by simp
  moreover have "drop b (m[b := Some (ch (unat ax mod r))]) = Some (ch (unat ax mod r)) # drop (Suc b) m"
    using Suc.prems by (simp add: drop_update_swap flip: Cons_nth_drop_Suc)
  ultimately show ?case
    using Suc assms(3) by (simp add: u_mod_def u_div_def R0 dm)
qed

section \<open>The printed representation\<close>

text \<open>The digits of a number: a single zero for zero, and no leading zero otherwise.\<close>

definition number_digits :: "nat \<Rightarrow> nat \<Rightarrow> nat list" where
  "number_digits r n = (if n = 0 then [0] else radix_digits r n)"

definition letter :: "nat \<Rightarrow> u8" where
  "letter d = bytes ''0123456789abcdefghijklmnopqrstuvwxyz'' ! d"

lemma number_digits_spec:
  assumes "2 \<le> r"
  shows "digits_value r (number_digits r n) = n" and "d \<in> set (number_digits r n) \<Longrightarrow> d < r"
    and "number_digits r n \<noteq> []" and "hd (number_digits r n) = 0 \<Longrightarrow> n = 0"
  using assms radix_digits_value [OF assms, of n] radix_digits_less [OF assms, of d n] radix_digits_hd [OF assms, of n]
  by (auto simp: number_digits_def digits_value_def split: if_splits)

lemma length_bytes [simp]: "length (bytes cs) = length cs"
  by (simp add: bytes_def)

lemma rd_letters: "d < 36 \<Longrightarrow> rd letters d = Some (letter d)"
  by (simp add: letters_def rd_c_string letter_def)

lemma rd_llong_letters:
  assumes "d < 16"
  shows "rd llong_letters d = Some (letter d)"
proof -
  have "bytes ''0123456789abcdef'' = take 16 (bytes ''0123456789abcdefghijklmnopqrstuvwxyz'')"
    by (simp add: bytes_def)
  then show ?thesis
    using assms by (simp add: llong_letters_def rd_c_string letter_def)
qed

lemma make_string_sans_fill_rep:
  "make_string_sans_fill (int n) = Some \<lparr>str_length = n, char0 = gc_malloc n @ [Some 0]\<rparr>"
  by (simp add: make_string_sans_fill_def gc_malloc_def list_update_append replicate_append_same [symmetric])

lemma digits_to_string_radix:
  assumes "2 \<le> r" and "r < 2 ^ 31" and "\<And>d. d < r \<Longrightarrow> rd tab d = Some (letter d)"
  shows "digits_to_string tab x (word_of_nat r) = Some (bstring_of
    ((if sint x < 0 then [of_char CHR ''-''] else []) @ map letter (number_digits r (mag x))))"
proof -
  let ?ds = "radix_digits r (mag x)"
  define b where "b = (if sint x \<le> 0 then 1 else 0) + length ?ds"
  have pad: "padded r b (mag x) = (if sint x \<le> 0 then [0] else []) @ ?ds"
    using padded_radix_digits [OF assms(1)] padded_one_more [OF assms(1)] by (simp add: b_def)
  have store: "store_digits tab (word_of_nat r) b (int b - 1) x (gc_malloc b @ [Some 0]) =
      Some (map (Some \<circ> letter) (padded r b (mag x)) @ [Some 0], -1)"
    using store_digits_radix [OF assms, of b] by simp
  show ?thesis
    unfolding digits_to_string_def count_digits_radix [OF assms(1,2)] b_def [symmetric]
    by (simp add: make_string_sans_fill_rep list_update_append store pad)
      (auto simp: number_digits_def mag_def str_rep_def c_string_def b_def)
qed

lemma udigits_to_string_radix:
  assumes "2 \<le> r" and "r < 2 ^ 31" and "\<And>d. d < r \<Longrightarrow> rd tab d = Some (letter d)"
  shows "udigits_to_string tab x (word_of_nat r) = Some (bstring_of (map letter (number_digits r (unat x))))"
proof -
  let ?ds = "radix_digits r (unat x)"
  define b where "b = (if x = 0 then 1 else 0) + length ?ds"
  have pad: "padded r b (unat x) = (if x = 0 then [0] else []) @ ?ds"
    using padded_radix_digits [OF assms(1)] by (simp add: b_def)
  have store: "store_udigits tab (word_of_nat r) b (int b - 1) x (gc_malloc b @ [Some 0]) =
      Some (map (Some \<circ> letter) (padded r b (unat x)) @ [Some 0])"
    using store_udigits_radix [OF assms, of b] by simp
  show ?thesis
    unfolding udigits_to_string_def count_udigits_radix [OF assms(1,2)] b_def [symmetric]
    by (simp add: make_string_sans_fill_rep list_update_append store pad)
      (auto simp: number_digits_def str_rep_def c_string_def b_def unat_eq_zero)
qed

text \<open>\<open>ds\<close> is the positional representation of \<open>n\<close> in radix \<open>r\<close>.\<close>

definition positional :: "nat \<Rightarrow> nat \<Rightarrow> nat list \<Rightarrow> bool" where
  "positional r n ds \<longleftrightarrow> (\<forall>d\<in>set ds. d < r) \<and> digits_value r ds = n \<and> ds \<noteq> [] \<and> (hd ds = 0 \<longrightarrow> ds = [0])"

lemma positional_number_digits:
  assumes "2 \<le> r"
  shows "positional r n (number_digits r n)"
proof -
  have "number_digits r n = [0]" if "hd (number_digits r n) = 0"
    using number_digits_spec(4) [OF assms that] by (simp add: number_digits_def)
  then show ?thesis
    unfolding positional_def
    using number_digits_spec(1) [OF assms, of n] number_digits_spec(2) [OF assms, of _ n]
      number_digits_spec(3) [OF assms, of n] by blast
qed

text \<open>C30: printing an integer returns, for every radix between 2 and 36, a sign for a negative
  number followed by its digits in that radix, most significant first: digits below the radix, whose value is
  the magnitude of the number, with no leading zero; the unsigned form prints the same word read as an
  unsigned number. This includes the most negative integer.\<close>

theorem integer_to_string_digits:
  assumes "2 \<le> r" and "r \<le> 36"
  shows "\<exists>ds us. integer_to_string x (word_of_nat r) =
      Some (bstring_of ((if sint x < 0 then bytes ''-'' else []) @ map letter ds)) \<and>
    positional r (nat \<bar>sint x\<bar>) ds \<and>
    unsigned_to_string x (word_of_nat r) = Some (bstring_of (map letter us)) \<and>
    positional r (unat x) us"
proof -
  have tab: "rd letters d = Some (letter d)" if "d < r" for d
    using that assms by (simp add: rd_letters)
  have r: "2 \<le> r" "r < 2 ^ 31" using assms by simp_all
  show ?thesis
    using digits_to_string_radix [OF r tab] udigits_to_string_radix [OF r tab] positional_number_digits [OF r(1)]
    by (intro exI [of _ "number_digits r (mag x)"] exI [of _ "number_digits r (unat x)"])
      (simp add: integer_to_string_def unsigned_to_string_def bytes_def mag_def)
qed

lemma integer_to_string_digits_witness:
  "\<exists>ds. integer_to_string (-255) 16 = Some (bstring_of (bytes ''-'' @ map letter ds)) \<and> positional 16 255 ds"
  using integer_to_string_digits [of 16 "-255"] by auto

text \<open>The printer of long long integers is the same function for the radixes 2 to 16, but its
  table has sixteen letters only, while the callers accept every radix up to 36: printing a digit 16 yields a
  null character inside the string, and a larger digit is read from outside the table.\<close>

theorem llong_to_string_radix:
  assumes "2 \<le> r" and "r \<le> 16"
  shows "llong_to_string x (word_of_nat r) = integer_to_string x (word_of_nat r) \<and>
    ullong_to_string x (word_of_nat r) = unsigned_to_string x (word_of_nat r) \<and>
    llong_to_string 16 36 = Some (bstring_of [0]) \<and> llong_to_string 35 36 = None"
proof -
  have r: "2 \<le> r" "r < 2 ^ 31" using assms by simp_all
  have tabs: "rd letters d = Some (letter d)" "rd llong_letters d = Some (letter d)" if "d < r" for d
    using that assms by (simp_all add: rd_letters rd_llong_letters)
  have "llong_to_string x (word_of_nat r) = integer_to_string x (word_of_nat r)"
    "ullong_to_string x (word_of_nat r) = unsigned_to_string x (word_of_nat r)"
    using digits_to_string_radix [OF r tabs(1)] digits_to_string_radix [OF r tabs(2)]
      udigits_to_string_radix [OF r tabs(1)] udigits_to_string_radix [OF r tabs(2)]
    by (simp_all add: integer_to_string_def llong_to_string_def unsigned_to_string_def ullong_to_string_def)
  moreover have "llong_to_string 16 36 = Some (bstring_of [0])"
    unfolding llong_to_string_def digits_to_string_def
    by (simp add: count_digits.simps c_div_def c_mod_def make_string_sans_fill_def wr_def gc_malloc_def
        llong_letters_def rd_def bytes_def str_rep_def c_string_def)
  moreover have "llong_to_string 35 36 = None"
    unfolding llong_to_string_def digits_to_string_def
    by (simp add: count_digits.simps c_div_def c_mod_def make_string_sans_fill_def wr_def gc_malloc_def
        llong_letters_def rd_def bytes_def str_rep_def c_string_def)
  ultimately show ?thesis by simp
qed

lemma llong_to_string_radix_witness:
  "llong_to_string (-255) 16 = integer_to_string (-255) 16"
  using llong_to_string_radix [of 16 "-255"] by simp

end
