(* ===== verification/Ucs2tab.thy ===== *)
theory Ucs2tab
  imports Prelude
begin

text \<open>
  The Unicode character tables of \<open>runtime/Clib/cucs2.c\<close> and the predicates and case
  conversions that read them. A character selects a block of 64 entries through \<open>X\<close>, an entry of that
  block in \<open>Y\<close> (given here in sixteen parts), and the attributes in \<open>A\<close>.
\<close>

section \<open>Tables\<close>

definition tab_X :: "nat list" where
  "tab_X = [
     0, 1, 2, 3, 4, 5, 6, 7, 8, 9, 10, 11, 12, 13, 14, 15, 16, 17, 18, 19,
     20, 21, 22, 23, 24, 25, 26, 27, 28, 28, 28, 28, 28, 28, 28, 28, 29, 30, 31, 32,
     33, 34, 35, 36, 37, 38, 39, 40, 41, 42, 43, 44, 45, 46, 28, 28, 47, 48, 49, 50,
     51, 52, 53, 28, 28, 28, 54, 55, 56, 57, 58, 59, 28, 28, 28, 28, 28, 28, 28, 28,
     28, 28, 28, 28, 28, 28, 28, 28, 28, 28, 28, 28, 28, 28, 28, 28, 28, 28, 28, 28,
     28, 28, 28, 28, 28, 28, 28, 28, 28, 28, 28, 28, 28, 28, 28, 28, 28, 28, 28, 28,
     60, 60, 61, 62, 63, 64, 65, 66, 67, 68, 69, 70, 71, 72, 73, 74, 75, 75, 75, 76,
     77, 78, 28, 28, 79, 80, 81, 82, 83, 83, 84, 85, 86, 85, 28, 28, 87, 88, 89, 28,
     28, 28, 28, 28, 28, 28, 28, 28, 28, 28, 28, 28, 28, 28, 28, 28, 28, 28, 28, 28,
     28, 28, 28, 28, 28, 28, 28, 28, 28, 28, 28, 28, 90, 91, 92, 93, 94, 56, 95, 28,
     96, 97, 98, 99, 83, 100, 83, 101, 28, 28, 28, 28, 28, 28, 28, 28, 28, 28, 28, 28,
     28, 28, 28, 28, 28, 28, 28, 28, 28, 28, 28, 28, 28, 28, 28, 28, 28, 28, 28, 28,
     28, 28, 28, 28, 28, 28, 28, 28, 28, 28, 28, 28, 28, 28, 28, 28, 28, 28, 28, 28,
     28, 28, 28, 28, 28, 28, 28, 28, 28, 28, 28, 28, 28, 28, 28, 28, 28, 28, 28, 28,
     28, 28, 28, 28, 28, 28, 28, 28, 28, 28, 28, 28, 28, 28, 28, 28, 28, 28, 28, 28,
     28, 28, 28, 28, 28, 28, 28, 28, 28, 28, 28, 28, 56, 56, 56, 56, 56, 56, 56, 56,
     56, 56, 56, 56, 56, 56, 56, 56, 56, 56, 56, 56, 56, 56, 56, 56, 56, 56, 56, 56,
     56, 56, 56, 56, 56, 56, 56, 56, 56, 56, 56, 56, 56, 56, 56, 56, 56, 56, 56, 56,
     56, 56, 56, 56, 56, 56, 56, 56, 56, 56, 56, 56, 56, 56, 56, 56, 56, 56, 56, 56,
     56, 56, 56, 56, 56, 56, 56, 56, 56, 56, 56, 56, 56, 56, 56, 56, 56, 56, 56, 56,
     56, 56, 56, 56, 56, 56, 56, 56, 56, 56, 56, 56, 56, 56, 56, 56, 56, 56, 56, 56,
     56, 56, 56, 56, 56, 56, 56, 56, 56, 56, 56, 56, 56, 56, 56, 56, 56, 56, 56, 56,
     56, 56, 56, 56, 56, 56, 56, 56, 56, 56, 56, 56, 56, 56, 56, 56, 56, 56, 56, 56,
     56, 56, 56, 56, 56, 56, 56, 56, 56, 56, 56, 56, 56, 56, 56, 56, 56, 56, 56, 56,
     56, 56, 56, 56, 56, 56, 56, 56, 56, 56, 56, 56, 56, 56, 56, 56, 56, 56, 56, 56,
     56, 56, 56, 56, 56, 56, 56, 56, 56, 56, 56, 56, 56, 56, 56, 56, 56, 56, 56, 56,
     56, 56, 56, 56, 56, 56, 56, 56, 56, 56, 56, 56, 56, 56, 56, 56, 56, 56, 56, 56,
     56, 56, 56, 56, 56, 56, 56, 56, 56, 56, 56, 56, 56, 56, 56, 56, 56, 56, 56, 56,
     56, 56, 56, 56, 56, 56, 56, 56, 56, 56, 56, 56, 56, 56, 56, 56, 56, 56, 56, 56,
     56, 56, 56, 56, 56, 56, 56, 56, 56, 56, 56, 56, 56, 56, 56, 56, 56, 56, 56, 56,
     56, 56, 56, 56, 56, 56, 56, 56, 56, 56, 56, 56, 56, 56, 56, 56, 56, 56, 56, 56,
     56, 56, 56, 56, 56, 56, 56, 56, 56, 56, 56, 56, 56, 56, 56, 56, 56, 56, 102, 28,
     28, 28, 28, 28, 28, 28, 28, 28, 28, 28, 28, 28, 28, 28, 28, 28, 28, 28, 28, 28,
     28, 28, 28, 28, 28, 28, 28, 28, 28, 28, 28, 28, 28, 28, 28, 28, 28, 28, 28, 28,
     28, 28, 28, 28, 28, 28, 28, 28, 56, 56, 56, 56, 56, 56, 56, 56, 56, 56, 56, 56,
     56, 56, 56, 56, 56, 56, 56, 56, 56, 56, 56, 56, 56, 56, 56, 56, 56, 56, 56, 56,
     56, 56, 56, 56, 56, 56, 56, 56, 56, 56, 56, 56, 56, 56, 56, 56, 56, 56, 56, 56,
     56, 56, 56, 56, 56, 56, 56, 56, 56, 56, 56, 56, 56, 56, 56, 56, 56, 56, 56, 56,
     56, 56, 56, 56, 56, 56, 56, 56, 56, 56, 56, 56, 56, 56, 56, 56, 56, 56, 56, 56,
     56, 56, 56, 56, 56, 56, 56, 56, 56, 56, 56, 56, 56, 56, 56, 56, 56, 56, 56, 56,
     56, 56, 56, 56, 56, 56, 56, 56, 56, 56, 56, 56, 56, 56, 56, 56, 56, 56, 56, 56,
     56, 56, 56, 56, 56, 56, 56, 56, 56, 56, 56, 56, 56, 56, 56, 56, 56, 56, 56, 56,
     56, 56, 56, 56, 56, 56, 56, 56, 56, 56, 56, 56, 56, 56, 56, 56, 56, 56, 56, 56,
     56, 56, 103, 28, 104, 104, 104, 104, 104, 104, 104, 104, 104, 104, 104, 104, 104, 104, 104, 104,
     104, 104, 104, 104, 104, 104, 104, 104, 104, 104, 104, 104, 104, 104, 104, 104, 105, 105, 105, 105,
     105, 105, 105, 105, 105, 105, 105, 105, 105, 105, 105, 105, 105, 105, 105, 105, 105, 105, 105, 105,
     105, 105, 105, 105, 105, 105, 105, 105, 105, 105, 105, 105, 105, 105, 105, 105, 105, 105, 105, 105,
     105, 105, 105, 105, 105, 105, 105, 105, 105, 105, 105, 105, 105, 105, 105, 105, 105, 105, 105, 105,
     105, 105, 105, 105, 105, 105, 105, 105, 105, 105, 105, 105, 105, 105, 105, 105, 105, 105, 105, 105,
     105, 105, 105, 105, 105, 105, 105, 105, 105, 105, 105, 105, 105, 105, 105, 105, 56, 56, 56, 56,
     106, 28, 28, 28, 107, 108, 109, 110, 56, 56, 56, 56, 111, 112, 113, 114, 115, 116, 56, 117,
     118, 119, 120, 121]"

definition tab_Y0 :: "nat list" where
  "tab_Y0 = [
     0, 0, 0, 0, 0, 0, 0, 0, 0, 1, 1, 1, 1, 1, 0, 0, 0, 0, 0, 0,
     0, 0, 0, 0, 0, 0, 0, 0, 1, 1, 1, 1, 2, 3, 3, 3, 4, 3, 3, 3,
     5, 6, 3, 7, 3, 8, 3, 3, 9, 9, 9, 9, 9, 9, 9, 9, 9, 9, 3, 3,
     7, 7, 7, 3, 3, 10, 10, 10, 10, 10, 10, 10, 10, 10, 10, 10, 10, 10, 10, 10,
     10, 10, 10, 10, 10, 10, 10, 10, 10, 10, 10, 5, 3, 6, 11, 12, 11, 13, 13, 13,
     13, 13, 13, 13, 13, 13, 13, 13, 13, 13, 13, 13, 13, 13, 13, 13, 13, 13, 13, 13,
     13, 13, 13, 5, 7, 6, 7, 0, 0, 0, 0, 0, 0, 0, 0, 0, 0, 0, 0, 0,
     0, 0, 0, 0, 0, 0, 0, 0, 0, 0, 0, 0, 0, 0, 0, 0, 0, 0, 0, 0,
     14, 3, 4, 4, 4, 4, 15, 15, 11, 15, 16, 5, 7, 8, 15, 11, 15, 7, 17, 17,
     11, 16, 15, 3, 11, 18, 16, 6, 19, 19, 19, 3, 20, 20, 20, 20, 20, 20, 20, 20,
     20, 20, 20, 20, 20, 20, 20, 20, 20, 20, 20, 20, 20, 20, 20, 7, 20, 20, 20, 20,
     20, 20, 20, 16, 21, 21, 21, 21, 21, 21, 21, 21, 21, 21, 21, 21, 21, 21, 21, 21,
     21, 21, 21, 21, 21, 21, 21, 7, 21, 21, 21, 21, 21, 21, 21, 22, 23, 24, 23, 24,
     23, 24, 23, 24, 23, 24, 23, 24, 23, 24, 23, 24, 23, 24, 23, 24, 23, 24, 23, 24,
     23, 24, 23, 24, 23, 24, 23, 24, 23, 24, 23, 24, 23, 24, 23, 24, 23, 24, 23, 24,
     23, 24, 23, 24, 25, 26, 23, 24, 23, 24, 23, 24, 16, 23, 24, 23, 24, 23, 24, 23,
     24, 23, 24, 23, 24, 23, 24, 23, 24, 16, 23, 24, 23, 24, 23, 24, 23, 24, 23, 24,
     23, 24, 23, 24, 23, 24, 23, 24, 23, 24, 23, 24, 23, 24, 23, 24, 23, 24, 23, 24,
     23, 24, 23, 24, 23, 24, 23, 24, 23, 24, 23, 24, 23, 24, 23, 24, 27, 23, 24, 23,
     24, 23, 24, 28, 16, 29, 23, 24, 23, 24, 30, 23, 24, 31, 31, 23, 24, 16, 32, 32,
     33, 23, 24, 31, 34, 16, 35, 36, 23, 24, 16, 16, 35, 37, 16, 38, 23, 24, 23, 24,
     23, 24, 38, 23, 24, 39, 40, 16, 23, 24, 39, 23, 24, 41, 41, 23, 24, 23, 24, 42,
     23, 24, 16, 40, 23, 24, 40, 40, 40, 40, 40, 40, 43, 44, 45, 43, 44, 45, 43, 44,
     45, 23, 24, 23, 24, 23, 24, 23, 24, 23, 24, 23, 24, 23, 24, 23, 24, 16, 23, 24,
     23, 24, 23, 24, 23, 24, 23, 24]"

definition tab_Y1 :: "nat list" where
  "tab_Y1 = [
     23, 24, 23, 24, 23, 24, 23, 24, 16, 43, 44, 45, 23, 24, 46, 46, 46, 46, 23, 24,
     23, 24, 23, 24, 23, 24, 23, 24, 23, 24, 23, 24, 23, 24, 23, 24, 23, 24, 23, 24,
     23, 24, 23, 24, 23, 24, 23, 24, 46, 46, 46, 46, 46, 46, 46, 46, 46, 46, 46, 46,
     46, 46, 46, 46, 46, 46, 46, 46, 46, 46, 46, 46, 46, 46, 46, 46, 46, 46, 46, 46,
     46, 46, 46, 46, 46, 46, 46, 46, 46, 46, 46, 46, 46, 46, 46, 46, 46, 46, 46, 46,
     46, 46, 46, 46, 16, 16, 16, 47, 48, 16, 49, 49, 50, 50, 16, 51, 16, 16, 16, 16,
     49, 16, 16, 52, 16, 16, 16, 16, 53, 54, 16, 16, 16, 16, 16, 54, 16, 16, 55, 16,
     16, 16, 16, 16, 16, 16, 16, 16, 16, 16, 16, 16, 16, 16, 16, 56, 16, 16, 16, 16,
     56, 16, 57, 57, 16, 16, 16, 16, 16, 16, 58, 16, 16, 16, 16, 16, 16, 16, 16, 16,
     16, 16, 16, 16, 16, 16, 16, 16, 16, 16, 16, 16, 16, 46, 46, 46, 46, 46, 46, 46,
     59, 59, 59, 59, 59, 59, 59, 59, 59, 11, 11, 59, 59, 59, 59, 59, 59, 59, 11, 11,
     11, 11, 11, 11, 11, 11, 11, 11, 11, 11, 11, 11, 59, 59, 11, 11, 11, 11, 11, 11,
     11, 11, 11, 11, 11, 11, 11, 46, 59, 59, 59, 59, 59, 11, 11, 11, 11, 11, 46, 46,
     46, 46, 46, 46, 46, 46, 46, 46, 46, 46, 46, 46, 46, 46, 46, 46, 46, 46, 46, 46,
     60, 60, 60, 60, 60, 60, 60, 60, 60, 60, 60, 60, 60, 60, 60, 60, 60, 60, 60, 60,
     60, 60, 60, 60, 60, 60, 60, 60, 60, 60, 60, 60, 60, 60, 60, 60, 60, 60, 60, 60,
     60, 60, 60, 60, 60, 60, 60, 60, 60, 60, 60, 60, 60, 60, 60, 60, 60, 60, 60, 60,
     60, 60, 60, 60, 60, 60, 60, 60, 60, 60, 46, 46, 46, 46, 46, 46, 46, 46, 46, 46,
     46, 46, 46, 46, 46, 46, 46, 46, 46, 46, 46, 46, 46, 46, 46, 46, 60, 60, 46, 46,
     46, 46, 46, 46, 46, 46, 46, 46, 46, 46, 46, 46, 46, 46, 46, 46, 3, 3, 46, 46,
     46, 46, 59, 46, 46, 46, 3, 46, 46, 46, 46, 46, 11, 11, 61, 3, 62, 62, 62, 46,
     63, 46, 64, 64, 16, 20, 20, 20, 20, 20, 20, 20, 20, 20, 20, 20, 20, 20, 20, 20,
     20, 20, 46, 20, 20, 20, 20, 20, 20, 20, 20, 20, 65, 66, 66, 66, 16, 21, 21, 21,
     21, 21, 21, 21, 21, 21, 21, 21, 21, 21, 21, 21, 21, 21, 16, 21, 21, 21, 21, 21,
     21, 21, 21, 21, 67, 68, 68, 46]"

definition tab_Y2 :: "nat list" where
  "tab_Y2 = [
     69, 70, 38, 38, 38, 71, 72, 46, 46, 46, 38, 46, 38, 46, 38, 46, 38, 46, 23, 24,
     23, 24, 23, 24, 23, 24, 23, 24, 23, 24, 23, 24, 73, 74, 16, 40, 46, 46, 46, 46,
     46, 46, 46, 46, 46, 46, 46, 46, 46, 75, 75, 75, 75, 75, 75, 75, 75, 75, 75, 75,
     75, 46, 75, 75, 20, 20, 20, 20, 20, 20, 20, 20, 20, 20, 20, 20, 20, 20, 20, 20,
     20, 20, 20, 20, 20, 20, 20, 20, 20, 20, 20, 20, 20, 20, 20, 20, 21, 21, 21, 21,
     21, 21, 21, 21, 21, 21, 21, 21, 21, 21, 21, 21, 21, 21, 21, 21, 21, 21, 21, 21,
     21, 21, 21, 21, 21, 21, 21, 21, 46, 74, 74, 74, 74, 74, 74, 74, 74, 74, 74, 74,
     74, 46, 74, 74, 23, 24, 23, 24, 23, 24, 23, 24, 23, 24, 23, 24, 23, 24, 23, 24,
     23, 24, 23, 24, 23, 24, 23, 24, 23, 24, 23, 24, 23, 24, 23, 24, 23, 24, 15, 60,
     60, 60, 60, 46, 46, 46, 46, 46, 46, 46, 46, 46, 23, 24, 23, 24, 23, 24, 23, 24,
     23, 24, 23, 24, 23, 24, 23, 24, 23, 24, 23, 24, 23, 24, 23, 24, 23, 24, 23, 24,
     23, 24, 23, 24, 23, 24, 23, 24, 23, 24, 23, 24, 23, 24, 23, 24, 23, 24, 23, 24,
     40, 23, 24, 23, 24, 46, 46, 23, 24, 46, 46, 23, 24, 46, 46, 46, 23, 24, 23, 24,
     23, 24, 23, 24, 23, 24, 23, 24, 23, 24, 23, 24, 23, 24, 23, 24, 23, 24, 23, 24,
     23, 24, 23, 24, 46, 46, 23, 24, 23, 24, 23, 24, 23, 24, 46, 46, 23, 24, 46, 46,
     46, 46, 46, 46, 46, 46, 46, 46, 46, 46, 46, 46, 46, 46, 46, 46, 46, 46, 46, 46,
     46, 46, 46, 46, 46, 46, 46, 46, 46, 46, 46, 46, 46, 46, 46, 46, 46, 46, 46, 46,
     46, 46, 46, 46, 46, 46, 46, 46, 46, 46, 46, 46, 46, 76, 76, 76, 76, 76, 76, 76,
     76, 76, 76, 76, 76, 76, 76, 76, 76, 76, 76, 76, 76, 76, 76, 76, 76, 76, 76, 76,
     76, 76, 76, 76, 76, 76, 76, 76, 76, 76, 76, 46, 46, 59, 3, 3, 3, 3, 3, 3,
     46, 77, 77, 77, 77, 77, 77, 77, 77, 77, 77, 77, 77, 77, 77, 77, 77, 77, 77, 77,
     77, 77, 77, 77, 77, 77, 77, 77, 77, 77, 77, 77, 77, 77, 77, 77, 77, 77, 77, 16,
     46, 3, 46, 46, 46, 46, 46, 46, 46, 60, 60, 60, 60, 60, 60, 60, 60, 60, 60, 60,
     60, 60, 60, 60, 60, 60, 46, 60, 60, 60, 60, 60, 60, 60, 60, 60, 60, 60, 60, 60,
     60, 60, 60, 60, 60, 60, 60, 60]"

definition tab_Y3 :: "nat list" where
  "tab_Y3 = [
     60, 60, 46, 60, 60, 60, 3, 60, 3, 60, 60, 3, 60, 46, 46, 46, 46, 46, 46, 46,
     46, 46, 46, 46, 40, 40, 40, 40, 40, 40, 40, 40, 40, 40, 40, 40, 40, 40, 40, 40,
     40, 40, 40, 40, 40, 40, 40, 40, 40, 40, 40, 46, 46, 46, 46, 46, 40, 40, 40, 3,
     3, 46, 46, 46, 46, 46, 46, 46, 46, 46, 46, 46, 46, 46, 46, 46, 46, 46, 46, 46,
     46, 46, 46, 46, 3, 46, 46, 46, 46, 46, 46, 46, 46, 46, 46, 46, 46, 46, 46, 3,
     46, 46, 46, 3, 46, 40, 40, 40, 40, 40, 40, 40, 40, 40, 40, 40, 40, 40, 40, 40,
     40, 40, 40, 40, 40, 40, 40, 40, 40, 40, 40, 46, 46, 46, 46, 46, 59, 40, 40, 40,
     40, 40, 40, 40, 40, 40, 40, 60, 60, 60, 60, 60, 60, 60, 60, 46, 46, 46, 46, 46,
     46, 46, 46, 46, 46, 46, 46, 46, 78, 78, 78, 78, 78, 78, 78, 78, 78, 78, 3, 3,
     3, 3, 46, 46, 60, 40, 40, 40, 40, 40, 40, 40, 40, 40, 40, 40, 40, 40, 40, 40,
     40, 40, 40, 40, 40, 40, 40, 40, 40, 40, 40, 40, 40, 40, 40, 40, 40, 40, 40, 40,
     40, 40, 40, 40, 40, 40, 40, 40, 40, 40, 40, 40, 40, 40, 40, 40, 40, 40, 40, 40,
     40, 40, 40, 40, 40, 40, 40, 40, 40, 40, 40, 40, 40, 40, 40, 40, 46, 46, 40, 40,
     40, 40, 40, 46, 40, 40, 40, 40, 40, 40, 40, 40, 40, 40, 40, 40, 40, 40, 40, 46,
     40, 40, 40, 40, 3, 40, 60, 60, 60, 60, 60, 60, 60, 79, 79, 60, 60, 60, 60, 60,
     60, 59, 59, 60, 60, 15, 60, 60, 60, 60, 46, 46, 9, 9, 9, 9, 9, 9, 9, 9,
     9, 9, 46, 46, 46, 46, 46, 46, 46, 46, 46, 46, 46, 46, 46, 46, 46, 46, 46, 46,
     46, 46, 46, 46, 46, 46, 46, 46, 46, 46, 46, 46, 46, 46, 46, 46, 46, 46, 46, 46,
     46, 46, 46, 46, 46, 46, 46, 46, 46, 46, 46, 46, 46, 46, 46, 46, 46, 46, 46, 46,
     46, 46, 46, 46, 46, 46, 46, 46, 46, 46, 46, 46, 46, 60, 60, 80, 46, 40, 40, 40,
     40, 40, 40, 40, 40, 40, 40, 40, 40, 40, 40, 40, 40, 40, 40, 40, 40, 40, 40, 40,
     40, 40, 40, 40, 40, 40, 40, 40, 40, 40, 40, 40, 40, 40, 40, 40, 40, 40, 40, 40,
     40, 40, 40, 40, 40, 40, 40, 40, 40, 40, 46, 46, 60, 40, 80, 80, 80, 60, 60, 60,
     60, 60, 60, 60, 60, 80, 80, 80, 80, 60, 46, 46, 15, 60, 60, 60, 60, 46, 46, 46,
     40, 40, 40, 40, 40, 40, 40, 40]"

definition tab_Y4 :: "nat list" where
  "tab_Y4 = [
     40, 40, 60, 60, 3, 3, 81, 81, 81, 81, 81, 81, 81, 81, 81, 81, 3, 46, 46, 46,
     46, 46, 46, 46, 46, 46, 46, 46, 46, 46, 46, 46, 46, 60, 80, 80, 46, 40, 40, 40,
     40, 40, 40, 40, 40, 46, 46, 40, 40, 46, 46, 40, 40, 40, 40, 40, 40, 40, 40, 40,
     40, 40, 40, 40, 40, 40, 40, 40, 40, 40, 40, 40, 40, 46, 40, 40, 40, 40, 40, 40,
     40, 46, 40, 46, 46, 46, 40, 40, 40, 40, 46, 46, 60, 46, 80, 80, 80, 60, 60, 60,
     60, 46, 46, 80, 80, 46, 46, 80, 80, 60, 46, 46, 46, 46, 46, 46, 46, 46, 46, 80,
     46, 46, 46, 46, 40, 40, 46, 40, 40, 40, 60, 60, 46, 46, 81, 81, 81, 81, 81, 81,
     81, 81, 81, 81, 40, 40, 4, 4, 82, 82, 82, 82, 19, 83, 15, 46, 46, 46, 46, 46,
     46, 46, 60, 46, 46, 40, 40, 40, 40, 40, 40, 46, 46, 46, 46, 40, 40, 46, 46, 40,
     40, 40, 40, 40, 40, 40, 40, 40, 40, 40, 40, 40, 40, 40, 40, 40, 40, 40, 40, 40,
     40, 46, 40, 40, 40, 40, 40, 40, 40, 46, 40, 40, 46, 40, 40, 46, 40, 40, 46, 46,
     60, 46, 80, 80, 80, 60, 60, 46, 46, 46, 46, 60, 60, 46, 46, 60, 60, 60, 46, 46,
     46, 46, 46, 46, 46, 46, 46, 46, 46, 40, 40, 40, 40, 46, 40, 46, 46, 46, 46, 46,
     46, 46, 81, 81, 81, 81, 81, 81, 81, 81, 81, 81, 60, 60, 40, 40, 40, 46, 46, 46,
     46, 46, 46, 46, 46, 46, 46, 46, 46, 60, 60, 80, 46, 40, 40, 40, 40, 40, 40, 40,
     46, 40, 46, 40, 40, 40, 46, 40, 40, 40, 40, 40, 40, 40, 40, 40, 40, 40, 40, 40,
     40, 40, 40, 40, 40, 40, 40, 40, 40, 46, 40, 40, 40, 40, 40, 40, 40, 46, 40, 40,
     46, 40, 40, 40, 40, 40, 46, 46, 60, 40, 80, 80, 80, 60, 60, 60, 60, 60, 46, 60,
     60, 80, 46, 80, 80, 60, 46, 46, 15, 46, 46, 46, 46, 46, 46, 46, 46, 46, 46, 46,
     46, 46, 46, 46, 40, 46, 46, 46, 46, 46, 81, 81, 81, 81, 81, 81, 81, 81, 81, 81,
     46, 46, 46, 46, 46, 46, 46, 46, 46, 46, 46, 46, 46, 46, 46, 46, 46, 60, 80, 80,
     46, 40, 40, 40, 40, 40, 40, 40, 40, 46, 46, 40, 40, 46, 46, 40, 40, 40, 40, 40,
     40, 40, 40, 40, 40, 40, 40, 40, 40, 40, 40, 40, 40, 40, 40, 40, 40, 46, 40, 40,
     40, 40, 40, 40, 40, 46, 40, 40, 46, 46, 40, 40, 40, 40, 46, 46, 60, 40, 80, 60,
     80, 60, 60, 60, 46, 46, 46, 80]"

definition tab_Y5 :: "nat list" where
  "tab_Y5 = [
     80, 46, 46, 80, 80, 60, 46, 46, 46, 46, 46, 46, 46, 46, 60, 80, 46, 46, 46, 46,
     40, 40, 46, 40, 40, 40, 46, 46, 46, 46, 81, 81, 81, 81, 81, 81, 81, 81, 81, 81,
     15, 46, 46, 46, 46, 46, 46, 46, 46, 46, 46, 46, 46, 46, 46, 46, 46, 46, 60, 80,
     46, 40, 40, 40, 40, 40, 40, 46, 46, 46, 40, 40, 40, 46, 40, 40, 40, 40, 46, 46,
     46, 40, 40, 46, 40, 46, 40, 40, 46, 46, 46, 40, 40, 46, 46, 46, 40, 40, 40, 46,
     46, 46, 40, 40, 40, 40, 40, 40, 40, 40, 46, 40, 40, 40, 46, 46, 46, 46, 80, 80,
     60, 80, 80, 46, 46, 46, 80, 80, 80, 46, 80, 80, 80, 60, 46, 46, 46, 46, 46, 46,
     46, 46, 46, 80, 46, 46, 46, 46, 46, 46, 46, 46, 46, 46, 46, 46, 46, 46, 46, 81,
     81, 81, 81, 81, 81, 81, 81, 81, 84, 19, 19, 46, 46, 46, 46, 46, 46, 46, 46, 46,
     46, 46, 46, 46, 46, 80, 80, 80, 46, 40, 40, 40, 40, 40, 40, 40, 40, 46, 40, 40,
     40, 46, 40, 40, 40, 40, 40, 40, 40, 40, 40, 40, 40, 40, 40, 40, 40, 40, 40, 40,
     40, 40, 40, 40, 40, 46, 40, 40, 40, 40, 40, 40, 40, 40, 40, 40, 46, 40, 40, 40,
     40, 40, 46, 46, 46, 46, 60, 60, 60, 80, 80, 80, 80, 46, 60, 60, 60, 46, 60, 60,
     60, 60, 46, 46, 46, 46, 46, 46, 46, 60, 60, 46, 46, 46, 46, 46, 46, 46, 46, 46,
     40, 40, 46, 46, 46, 46, 81, 81, 81, 81, 81, 81, 81, 81, 81, 81, 46, 46, 46, 46,
     46, 46, 46, 46, 46, 46, 46, 46, 46, 46, 46, 46, 46, 46, 80, 80, 46, 40, 40, 40,
     40, 40, 40, 40, 40, 46, 40, 40, 40, 46, 40, 40, 40, 40, 40, 40, 40, 40, 40, 40,
     40, 40, 40, 40, 40, 40, 40, 40, 40, 40, 40, 40, 40, 46, 40, 40, 40, 40, 40, 40,
     40, 40, 40, 40, 46, 40, 40, 40, 40, 40, 46, 46, 46, 46, 80, 60, 80, 80, 80, 80,
     80, 46, 60, 80, 80, 46, 80, 80, 60, 60, 46, 46, 46, 46, 46, 46, 46, 80, 80, 46,
     46, 46, 46, 46, 46, 46, 40, 46, 40, 40, 46, 46, 46, 46, 81, 81, 81, 81, 81, 81,
     81, 81, 81, 81, 46, 46, 46, 46, 46, 46, 46, 46, 46, 46, 46, 46, 46, 46, 46, 46,
     46, 46, 80, 80, 46, 40, 40, 40, 40, 40, 40, 40, 40, 46, 40, 40, 40, 46, 40, 40,
     40, 40, 40, 40, 40, 40, 40, 40, 40, 40, 40, 40, 40, 40, 40, 40, 40, 40, 40, 40,
     40, 46, 40, 40, 40, 40, 40, 40]"

definition tab_Y6 :: "nat list" where
  "tab_Y6 = [
     40, 40, 40, 40, 40, 40, 40, 40, 40, 40, 46, 46, 46, 46, 80, 80, 80, 60, 60, 60,
     46, 46, 80, 80, 80, 46, 80, 80, 80, 60, 46, 46, 46, 46, 46, 46, 46, 46, 46, 80,
     46, 46, 46, 46, 46, 46, 46, 46, 40, 40, 46, 46, 46, 46, 81, 81, 81, 81, 81, 81,
     81, 81, 81, 81, 46, 46, 46, 46, 46, 46, 46, 46, 46, 46, 46, 46, 46, 46, 46, 46,
     46, 40, 40, 40, 40, 40, 40, 40, 40, 40, 40, 40, 40, 40, 40, 40, 40, 40, 40, 40,
     40, 40, 40, 40, 40, 40, 40, 40, 40, 40, 40, 40, 40, 40, 40, 40, 40, 40, 40, 40,
     40, 40, 40, 40, 40, 40, 40, 3, 40, 60, 40, 40, 60, 60, 60, 60, 60, 60, 60, 46,
     46, 46, 46, 4, 40, 40, 40, 40, 40, 40, 59, 60, 60, 60, 60, 60, 60, 60, 60, 15,
     9, 9, 9, 9, 9, 9, 9, 9, 9, 9, 3, 3, 46, 46, 46, 46, 46, 46, 46, 46,
     46, 46, 46, 46, 46, 46, 46, 46, 46, 46, 46, 46, 46, 46, 46, 46, 46, 46, 46, 46,
     46, 46, 46, 46, 46, 46, 46, 46, 46, 40, 40, 46, 40, 46, 46, 40, 40, 46, 40, 46,
     46, 40, 46, 46, 46, 46, 46, 46, 40, 40, 40, 40, 46, 40, 40, 40, 40, 40, 40, 40,
     46, 40, 40, 40, 46, 40, 46, 40, 46, 46, 40, 40, 46, 40, 40, 3, 40, 60, 40, 40,
     60, 60, 60, 60, 60, 60, 46, 60, 60, 40, 46, 46, 40, 40, 40, 40, 40, 46, 59, 46,
     60, 60, 60, 60, 60, 60, 46, 46, 9, 9, 9, 9, 9, 9, 9, 9, 9, 9, 46, 46,
     40, 40, 46, 46, 46, 46, 46, 46, 46, 46, 46, 46, 46, 46, 46, 46, 46, 46, 46, 46,
     46, 46, 46, 46, 46, 46, 46, 46, 46, 46, 46, 46, 46, 46, 46, 46, 15, 15, 15, 15,
     3, 3, 3, 3, 3, 3, 3, 3, 3, 3, 3, 3, 3, 3, 3, 15, 15, 15, 15, 15,
     60, 60, 15, 15, 15, 15, 15, 15, 78, 78, 78, 78, 78, 78, 78, 78, 78, 78, 85, 85,
     85, 85, 85, 85, 85, 85, 85, 85, 15, 60, 15, 60, 15, 60, 5, 6, 5, 6, 80, 80,
     40, 40, 40, 40, 40, 40, 40, 40, 46, 40, 40, 40, 40, 40, 40, 40, 40, 40, 40, 40,
     40, 40, 40, 40, 40, 40, 40, 40, 40, 40, 40, 40, 40, 40, 40, 40, 40, 40, 40, 40,
     40, 40, 46, 46, 46, 46, 46, 46, 46, 60, 60, 60, 60, 60, 60, 60, 60, 60, 60, 60,
     60, 60, 60, 80, 60, 60, 60, 60, 60, 3, 60, 60, 60, 60, 60, 60, 46, 46, 46, 46,
     60, 60, 60, 60, 60, 60, 46, 60]"

definition tab_Y7 :: "nat list" where
  "tab_Y7 = [
     46, 60, 60, 60, 60, 60, 60, 60, 60, 60, 60, 60, 60, 60, 60, 60, 60, 60, 60, 60,
     60, 60, 46, 46, 46, 60, 60, 60, 60, 60, 60, 60, 46, 60, 46, 46, 46, 46, 46, 46,
     46, 46, 46, 46, 46, 46, 46, 46, 46, 46, 46, 46, 46, 46, 46, 46, 46, 46, 46, 46,
     46, 46, 46, 46, 46, 46, 46, 46, 46, 46, 46, 46, 76, 76, 76, 76, 76, 76, 76, 76,
     76, 76, 76, 76, 76, 76, 76, 76, 76, 76, 76, 76, 76, 76, 76, 76, 76, 76, 76, 76,
     76, 76, 76, 76, 76, 76, 76, 76, 76, 76, 46, 46, 46, 46, 46, 46, 46, 46, 46, 46,
     16, 16, 16, 16, 16, 16, 16, 16, 16, 16, 16, 16, 16, 16, 16, 16, 16, 16, 16, 16,
     16, 16, 16, 16, 16, 16, 16, 16, 16, 16, 16, 16, 16, 16, 16, 16, 16, 16, 16, 46,
     46, 46, 46, 3, 46, 46, 46, 46, 40, 40, 40, 40, 40, 40, 40, 40, 40, 40, 40, 40,
     40, 40, 40, 40, 40, 40, 40, 40, 40, 40, 40, 40, 40, 40, 40, 40, 40, 40, 40, 40,
     40, 40, 40, 40, 40, 40, 40, 40, 40, 40, 40, 40, 40, 40, 40, 40, 40, 40, 40, 40,
     40, 40, 40, 40, 40, 40, 40, 40, 40, 40, 40, 40, 40, 40, 40, 40, 40, 40, 40, 40,
     40, 40, 40, 40, 40, 40, 40, 40, 40, 40, 40, 40, 40, 40, 40, 40, 40, 40, 46, 46,
     46, 46, 46, 40, 40, 40, 40, 40, 40, 40, 40, 40, 40, 40, 40, 40, 40, 40, 40, 40,
     40, 40, 40, 40, 40, 40, 40, 40, 40, 40, 40, 40, 40, 40, 40, 40, 40, 40, 40, 40,
     40, 40, 40, 40, 40, 40, 40, 40, 40, 40, 40, 40, 40, 40, 40, 40, 40, 40, 40, 40,
     40, 40, 40, 40, 40, 40, 40, 40, 40, 40, 40, 46, 46, 46, 46, 46, 40, 40, 40, 40,
     40, 40, 40, 40, 40, 40, 40, 40, 40, 40, 40, 40, 40, 40, 40, 40, 40, 40, 40, 40,
     40, 40, 40, 40, 40, 40, 40, 40, 40, 40, 40, 40, 40, 40, 40, 40, 40, 40, 40, 40,
     40, 40, 40, 40, 40, 40, 40, 40, 40, 40, 40, 40, 40, 40, 40, 40, 40, 40, 40, 40,
     40, 40, 40, 40, 40, 40, 40, 40, 40, 40, 40, 40, 40, 40, 40, 40, 40, 40, 46, 46,
     46, 46, 46, 46, 23, 24, 23, 24, 23, 24, 23, 24, 23, 24, 23, 24, 23, 24, 23, 24,
     23, 24, 23, 24, 23, 24, 23, 24, 23, 24, 23, 24, 23, 24, 23, 24, 23, 24, 23, 24,
     23, 24, 23, 24, 23, 24, 23, 24, 23, 24, 23, 24, 23, 24, 23, 24, 23, 24, 23, 24,
     23, 24, 23, 24, 23, 24, 23, 24]"

definition tab_Y8 :: "nat list" where
  "tab_Y8 = [
     23, 24, 23, 24, 23, 24, 23, 24, 23, 24, 23, 24, 23, 24, 23, 24, 23, 24, 23, 24,
     23, 24, 16, 16, 16, 16, 16, 16, 46, 46, 46, 46, 23, 24, 23, 24, 23, 24, 23, 24,
     23, 24, 23, 24, 23, 24, 23, 24, 23, 24, 23, 24, 23, 24, 23, 24, 23, 24, 23, 24,
     23, 24, 23, 24, 23, 24, 23, 24, 23, 24, 23, 24, 23, 24, 23, 24, 23, 24, 23, 24,
     23, 24, 23, 24, 23, 24, 23, 24, 23, 24, 23, 24, 23, 24, 23, 24, 23, 24, 23, 24,
     23, 24, 23, 24, 23, 24, 23, 24, 23, 24, 23, 24, 23, 24, 23, 24, 23, 24, 23, 24,
     23, 24, 46, 46, 46, 46, 46, 46, 86, 86, 86, 86, 86, 86, 86, 86, 87, 87, 87, 87,
     87, 87, 87, 87, 86, 86, 86, 86, 86, 86, 46, 46, 87, 87, 87, 87, 87, 87, 46, 46,
     86, 86, 86, 86, 86, 86, 86, 86, 87, 87, 87, 87, 87, 87, 87, 87, 86, 86, 86, 86,
     86, 86, 86, 86, 87, 87, 87, 87, 87, 87, 87, 87, 86, 86, 86, 86, 86, 86, 46, 46,
     87, 87, 87, 87, 87, 87, 46, 46, 16, 86, 16, 86, 16, 86, 16, 86, 46, 87, 46, 87,
     46, 87, 46, 87, 86, 86, 86, 86, 86, 86, 86, 86, 87, 87, 87, 87, 87, 87, 87, 87,
     88, 88, 89, 89, 89, 89, 90, 90, 91, 91, 92, 92, 93, 93, 46, 46, 86, 86, 86, 86,
     86, 86, 86, 86, 87, 87, 87, 87, 87, 87, 87, 87, 86, 86, 86, 86, 86, 86, 86, 86,
     87, 87, 87, 87, 87, 87, 87, 87, 86, 86, 86, 86, 86, 86, 86, 86, 87, 87, 87, 87,
     87, 87, 87, 87, 86, 86, 16, 94, 16, 46, 16, 16, 87, 87, 95, 95, 96, 11, 38, 11,
     11, 11, 16, 94, 16, 46, 16, 16, 97, 97, 97, 97, 96, 11, 11, 11, 86, 86, 16, 16,
     46, 46, 16, 16, 87, 87, 98, 98, 46, 11, 11, 11, 86, 86, 16, 16, 16, 99, 16, 16,
     87, 87, 100, 100, 101, 11, 11, 11, 46, 46, 16, 94, 16, 46, 16, 16, 102, 102, 103, 103,
     96, 11, 11, 46, 2, 2, 2, 2, 2, 2, 2, 2, 2, 2, 2, 2, 104, 104, 104, 104,
     8, 8, 8, 8, 8, 8, 3, 3, 5, 6, 5, 5, 5, 6, 5, 5, 3, 3, 3, 3,
     3, 3, 3, 3, 105, 106, 104, 104, 104, 104, 104, 46, 3, 3, 3, 3, 3, 3, 3, 3,
     3, 5, 6, 3, 3, 3, 3, 12, 12, 3, 3, 3, 7, 5, 6, 46, 46, 46, 46, 46,
     46, 46, 46, 46, 46, 46, 46, 46, 46, 46, 46, 46, 46, 46, 46, 46, 46, 46, 46, 46,
     46, 46, 46, 46, 46, 46, 46, 46]"

definition tab_Y9 :: "nat list" where
  "tab_Y9 = [
     46, 46, 104, 104, 104, 104, 104, 104, 17, 46, 46, 46, 17, 17, 17, 17, 17, 17, 7, 7,
     7, 5, 6, 16, 107, 107, 107, 107, 107, 107, 107, 107, 107, 107, 7, 7, 7, 5, 6, 46,
     46, 46, 46, 46, 46, 46, 46, 46, 46, 46, 46, 46, 46, 46, 46, 46, 4, 4, 4, 4,
     4, 4, 4, 4, 4, 4, 4, 4, 46, 46, 46, 46, 46, 46, 46, 46, 46, 46, 46, 46,
     46, 46, 46, 46, 46, 46, 46, 46, 46, 46, 46, 46, 46, 46, 46, 46, 46, 46, 46, 46,
     46, 46, 46, 46, 60, 60, 60, 60, 60, 60, 60, 60, 60, 60, 60, 60, 60, 79, 79, 79,
     79, 60, 46, 46, 46, 46, 46, 46, 46, 46, 46, 46, 46, 46, 46, 46, 46, 46, 46, 46,
     46, 46, 46, 46, 46, 46, 46, 46, 46, 46, 46, 46, 15, 15, 38, 15, 15, 15, 15, 38,
     15, 15, 16, 38, 38, 38, 16, 16, 38, 38, 38, 16, 15, 38, 15, 15, 38, 38, 38, 38,
     38, 38, 15, 15, 15, 15, 15, 15, 38, 15, 38, 15, 38, 15, 38, 38, 38, 38, 16, 16,
     38, 38, 15, 38, 16, 40, 40, 40, 40, 46, 46, 46, 46, 46, 46, 46, 46, 46, 46, 46,
     46, 46, 46, 46, 46, 46, 46, 46, 46, 46, 46, 46, 46, 46, 46, 19, 19, 19, 19, 19,
     19, 19, 19, 19, 19, 19, 19, 108, 109, 109, 109, 109, 109, 109, 109, 109, 109, 109, 109, 109,
     110, 110, 110, 110, 111, 111, 111, 111, 111, 111, 111, 111, 111, 111, 111, 111, 112, 112, 112, 112,
     113, 113, 113, 46, 46, 46, 46, 46, 46, 46, 46, 46, 46, 46, 46, 46, 7, 7, 7, 7,
     7, 15, 15, 15, 15, 15, 15, 15, 15, 15, 15, 15, 15, 15, 15, 15, 15, 15, 15, 15,
     15, 15, 15, 15, 15, 15, 15, 15, 15, 15, 15, 15, 15, 15, 15, 15, 15, 15, 15, 15,
     15, 15, 15, 15, 15, 15, 15, 15, 15, 15, 15, 15, 15, 15, 15, 15, 15, 15, 15, 15,
     15, 15, 7, 15, 7, 15, 15, 15, 15, 15, 15, 15, 15, 15, 15, 15, 15, 15, 15, 15,
     15, 15, 15, 15, 15, 15, 15, 46, 46, 46, 46, 46, 46, 46, 46, 46, 46, 46, 46, 46,
     46, 46, 46, 46, 46, 46, 46, 46, 7, 7, 7, 7, 7, 7, 7, 7, 7, 7, 7, 7,
     7, 7, 7, 7, 7, 7, 7, 7, 7, 7, 7, 7, 7, 7, 7, 7, 7, 7, 7, 7,
     7, 7, 7, 7, 7, 7, 7, 7, 7, 7, 7, 7, 7, 7, 7, 7, 7, 7, 7, 7,
     7, 7, 7, 7, 7, 7, 7, 7, 7, 7, 7, 7, 7, 7, 7, 7, 7, 7, 7, 7,
     7, 7, 7, 7, 7, 7, 7, 7]"

definition tab_Y10 :: "nat list" where
  "tab_Y10 = [
     7, 7, 7, 7, 7, 7, 7, 7, 7, 7, 7, 7, 7, 7, 7, 7, 7, 7, 7, 7,
     7, 7, 7, 7, 7, 7, 7, 7, 7, 7, 7, 7, 7, 7, 46, 46, 46, 46, 46, 46,
     46, 46, 46, 46, 46, 46, 46, 46, 15, 46, 15, 15, 15, 15, 15, 15, 7, 7, 7, 7,
     15, 15, 15, 15, 15, 15, 15, 15, 15, 15, 15, 15, 15, 15, 15, 15, 15, 15, 15, 15,
     7, 7, 15, 15, 15, 15, 15, 15, 15, 5, 6, 15, 15, 15, 15, 15, 15, 15, 15, 15,
     15, 15, 15, 15, 15, 15, 15, 15, 15, 15, 15, 15, 15, 15, 15, 15, 15, 15, 15, 15,
     15, 15, 15, 15, 15, 15, 15, 15, 15, 15, 15, 15, 15, 15, 15, 15, 15, 15, 15, 15,
     15, 15, 15, 15, 15, 15, 15, 15, 15, 15, 15, 15, 15, 15, 15, 15, 15, 15, 15, 15,
     15, 15, 15, 15, 15, 15, 15, 15, 15, 15, 15, 46, 46, 46, 46, 46, 15, 15, 15, 15,
     15, 15, 15, 15, 15, 15, 15, 15, 15, 15, 15, 15, 15, 15, 15, 15, 15, 15, 15, 15,
     15, 15, 15, 15, 15, 15, 15, 15, 15, 15, 15, 15, 15, 46, 46, 46, 46, 46, 46, 46,
     46, 46, 46, 46, 46, 46, 46, 46, 46, 46, 46, 46, 46, 46, 46, 46, 46, 46, 46, 46,
     15, 15, 15, 15, 15, 15, 15, 15, 15, 15, 15, 46, 46, 46, 46, 46, 46, 46, 46, 46,
     46, 46, 46, 46, 46, 46, 46, 46, 46, 46, 46, 46, 114, 114, 114, 114, 114, 114, 114, 114,
     114, 114, 114, 114, 114, 114, 114, 114, 114, 114, 114, 114, 82, 82, 82, 82, 82, 82, 82, 82,
     82, 82, 82, 82, 82, 82, 82, 82, 82, 82, 82, 82, 115, 115, 115, 115, 115, 115, 115, 115,
     115, 115, 115, 115, 115, 115, 115, 115, 115, 115, 115, 115, 15, 15, 15, 15, 15, 15, 15, 15,
     15, 15, 15, 15, 15, 15, 15, 15, 15, 15, 15, 15, 15, 15, 15, 15, 15, 15, 116, 116,
     116, 116, 116, 116, 116, 116, 116, 116, 116, 116, 116, 116, 116, 116, 116, 116, 116, 116, 116, 116,
     116, 116, 116, 116, 117, 117, 117, 117, 117, 117, 117, 117, 117, 117, 117, 117, 117, 117, 117, 117,
     117, 117, 117, 117, 117, 117, 117, 117, 117, 117, 118, 46, 46, 46, 46, 46, 46, 46, 46, 46,
     46, 46, 46, 46, 46, 46, 46, 46, 46, 46, 46, 46, 15, 15, 15, 15, 15, 15, 15, 15,
     15, 15, 15, 15, 15, 15, 15, 15, 15, 15, 15, 15, 15, 15, 15, 15, 15, 15, 15, 15,
     15, 15, 15, 15, 15, 15, 15, 15, 15, 15, 15, 15, 15, 15, 15, 15, 15, 15, 15, 15,
     15, 15, 15, 15, 15, 15, 15, 15]"

definition tab_Y11 :: "nat list" where
  "tab_Y11 = [
     15, 15, 15, 15, 15, 15, 15, 15, 15, 15, 15, 15, 15, 15, 15, 15, 15, 15, 15, 15,
     15, 15, 15, 15, 15, 15, 15, 15, 15, 15, 46, 46, 46, 46, 46, 46, 46, 46, 46, 46,
     15, 15, 15, 15, 15, 15, 15, 15, 15, 15, 15, 15, 15, 15, 15, 15, 15, 15, 15, 15,
     15, 15, 15, 15, 15, 15, 15, 15, 15, 15, 15, 15, 15, 15, 15, 15, 15, 15, 15, 15,
     15, 15, 15, 15, 15, 15, 15, 15, 15, 15, 15, 15, 15, 15, 15, 15, 15, 15, 15, 15,
     15, 15, 15, 15, 15, 15, 15, 15, 15, 15, 15, 15, 15, 15, 15, 15, 15, 15, 15, 15,
     46, 46, 46, 46, 46, 46, 46, 46, 46, 46, 46, 46, 46, 46, 46, 46, 15, 15, 15, 15,
     15, 15, 15, 15, 15, 15, 15, 15, 15, 15, 15, 15, 15, 15, 15, 15, 46, 46, 46, 46,
     46, 46, 15, 15, 15, 15, 15, 15, 15, 15, 15, 15, 15, 15, 15, 15, 15, 15, 15, 15,
     15, 15, 15, 15, 15, 15, 15, 15, 15, 15, 15, 15, 15, 15, 15, 15, 15, 15, 15, 15,
     46, 15, 15, 15, 15, 46, 15, 15, 15, 15, 46, 46, 15, 15, 15, 15, 15, 15, 15, 15,
     15, 15, 15, 15, 15, 15, 15, 15, 15, 15, 15, 15, 15, 15, 15, 15, 15, 15, 15, 15,
     46, 15, 15, 15, 15, 15, 15, 15, 15, 15, 15, 15, 15, 15, 15, 15, 15, 15, 15, 15,
     15, 15, 15, 15, 15, 15, 15, 15, 15, 15, 15, 15, 15, 15, 15, 15, 46, 15, 46, 15,
     15, 15, 15, 46, 46, 46, 15, 46, 15, 15, 15, 15, 15, 15, 15, 46, 46, 15, 15, 15,
     15, 15, 15, 15, 46, 46, 46, 46, 46, 46, 46, 46, 46, 46, 46, 46, 46, 46, 119, 119,
     119, 119, 119, 119, 119, 119, 119, 119, 114, 114, 114, 114, 114, 114, 114, 114, 114, 114, 83, 83,
     83, 83, 83, 83, 83, 83, 83, 83, 15, 46, 46, 46, 15, 15, 15, 15, 15, 15, 15, 15,
     15, 15, 15, 15, 15, 15, 15, 15, 15, 15, 15, 15, 15, 15, 15, 15, 46, 15, 15, 15,
     15, 15, 15, 15, 15, 15, 15, 15, 15, 15, 15, 46, 2, 3, 3, 3, 15, 59, 3, 120,
     5, 6, 5, 6, 5, 6, 5, 6, 5, 6, 15, 15, 5, 6, 5, 6, 5, 6, 5, 6,
     8, 5, 6, 5, 15, 121, 121, 121, 121, 121, 121, 121, 121, 121, 60, 60, 60, 60, 60, 60,
     8, 59, 59, 59, 59, 59, 15, 15, 46, 46, 46, 46, 46, 46, 46, 15, 46, 40, 40, 40,
     40, 40, 40, 40, 40, 40, 40, 40, 40, 40, 40, 40, 40, 40, 40, 40, 40, 40, 40, 40,
     40, 40, 40, 40, 40, 40, 40, 40]"

definition tab_Y12 :: "nat list" where
  "tab_Y12 = [
     40, 40, 40, 40, 40, 40, 40, 40, 40, 40, 40, 40, 40, 40, 40, 40, 40, 40, 40, 40,
     40, 40, 40, 40, 40, 40, 40, 40, 40, 40, 40, 40, 40, 40, 40, 40, 40, 40, 40, 40,
     40, 40, 40, 40, 40, 40, 40, 40, 40, 40, 40, 40, 40, 46, 46, 46, 46, 60, 60, 59,
     59, 59, 59, 46, 46, 40, 40, 40, 40, 40, 40, 40, 40, 40, 40, 40, 40, 40, 40, 40,
     40, 40, 40, 40, 40, 40, 40, 40, 40, 40, 40, 40, 40, 40, 40, 40, 40, 40, 40, 40,
     40, 40, 40, 40, 40, 40, 40, 40, 40, 40, 40, 40, 40, 40, 40, 40, 40, 40, 40, 40,
     40, 40, 40, 40, 40, 40, 40, 40, 40, 40, 40, 40, 40, 40, 40, 40, 40, 40, 40, 40,
     40, 40, 40, 40, 40, 40, 40, 40, 40, 40, 40, 40, 40, 40, 40, 3, 59, 59, 59, 46,
     46, 46, 46, 46, 46, 40, 40, 40, 40, 40, 40, 40, 40, 40, 40, 40, 40, 40, 40, 40,
     40, 40, 40, 40, 40, 40, 40, 40, 40, 40, 40, 40, 40, 40, 40, 40, 40, 40, 40, 40,
     40, 40, 40, 40, 40, 46, 46, 46, 46, 40, 40, 40, 40, 40, 40, 40, 40, 40, 40, 40,
     40, 40, 40, 40, 40, 40, 40, 40, 40, 40, 40, 40, 40, 40, 40, 40, 40, 40, 40, 46,
     15, 15, 85, 85, 85, 85, 15, 15, 15, 15, 15, 15, 15, 15, 15, 15, 46, 46, 46, 46,
     46, 46, 46, 46, 46, 46, 46, 46, 46, 46, 46, 46, 46, 46, 46, 46, 46, 46, 46, 46,
     46, 46, 46, 46, 46, 46, 46, 46, 15, 15, 15, 15, 15, 15, 15, 15, 15, 15, 15, 15,
     15, 15, 15, 15, 15, 15, 15, 15, 15, 15, 15, 15, 15, 15, 15, 15, 15, 46, 46, 46,
     85, 85, 85, 85, 85, 85, 85, 85, 85, 85, 15, 15, 15, 15, 15, 15, 15, 15, 15, 15,
     15, 15, 15, 15, 15, 15, 15, 15, 15, 15, 15, 15, 15, 15, 15, 15, 46, 46, 46, 46,
     46, 46, 46, 46, 46, 46, 46, 46, 46, 46, 46, 46, 46, 46, 46, 46, 46, 46, 46, 46,
     46, 46, 46, 46, 15, 15, 15, 15, 15, 15, 15, 15, 15, 15, 15, 15, 15, 15, 15, 15,
     15, 15, 15, 15, 15, 15, 15, 15, 15, 15, 15, 15, 46, 46, 46, 15, 114, 114, 114, 114,
     114, 114, 114, 114, 114, 114, 15, 15, 15, 15, 15, 15, 15, 15, 15, 15, 15, 15, 15, 15,
     15, 15, 15, 15, 15, 15, 15, 15, 15, 15, 15, 15, 15, 15, 15, 15, 15, 15, 15, 15,
     15, 15, 15, 15, 15, 46, 46, 46, 46, 46, 46, 46, 46, 46, 46, 46, 46, 46, 46, 46,
     15, 15, 15, 15, 15, 15, 15, 15]"

definition tab_Y13 :: "nat list" where
  "tab_Y13 = [
     15, 15, 15, 15, 46, 46, 46, 46, 15, 15, 15, 15, 15, 15, 15, 15, 15, 15, 15, 15,
     15, 15, 15, 15, 15, 15, 15, 15, 15, 15, 15, 15, 15, 15, 15, 15, 15, 15, 15, 15,
     15, 15, 15, 15, 15, 15, 15, 15, 15, 15, 15, 15, 15, 15, 15, 46, 15, 15, 15, 15,
     15, 15, 15, 15, 15, 15, 15, 15, 15, 15, 15, 15, 15, 15, 15, 15, 15, 15, 15, 15,
     15, 15, 15, 15, 15, 15, 15, 15, 15, 15, 15, 15, 15, 15, 15, 15, 15, 15, 15, 15,
     15, 15, 15, 15, 15, 15, 15, 15, 15, 15, 15, 46, 46, 46, 46, 15, 15, 15, 15, 15,
     15, 15, 15, 15, 15, 15, 15, 15, 15, 15, 15, 15, 15, 15, 15, 15, 15, 15, 15, 15,
     15, 15, 15, 15, 15, 15, 15, 15, 15, 15, 46, 46, 15, 15, 15, 15, 15, 15, 15, 15,
     15, 15, 15, 15, 15, 15, 15, 15, 15, 15, 15, 15, 15, 15, 15, 15, 15, 15, 15, 15,
     15, 15, 15, 46, 40, 40, 40, 40, 40, 40, 40, 40, 40, 40, 40, 40, 40, 40, 40, 40,
     40, 40, 40, 40, 40, 40, 40, 40, 40, 40, 40, 40, 40, 40, 40, 40, 40, 40, 40, 40,
     40, 40, 46, 46, 46, 46, 46, 46, 46, 46, 46, 46, 46, 46, 46, 46, 46, 46, 46, 46,
     46, 46, 46, 46, 46, 46, 46, 46, 40, 40, 40, 40, 40, 40, 40, 40, 40, 40, 40, 40,
     40, 40, 40, 40, 40, 40, 40, 40, 40, 40, 40, 40, 40, 40, 40, 40, 40, 40, 40, 40,
     40, 40, 40, 40, 46, 46, 46, 46, 46, 46, 46, 46, 46, 46, 46, 46, 46, 46, 46, 46,
     46, 46, 46, 46, 46, 46, 46, 46, 46, 46, 46, 46, 122, 122, 122, 122, 122, 122, 122, 122,
     122, 122, 122, 122, 122, 122, 122, 122, 122, 122, 122, 122, 122, 122, 122, 122, 122, 122, 122, 122,
     122, 122, 122, 122, 122, 122, 122, 122, 122, 122, 122, 122, 122, 122, 122, 122, 122, 122, 122, 122,
     122, 122, 122, 122, 122, 122, 122, 122, 122, 122, 122, 122, 122, 122, 122, 122, 123, 123, 123, 123,
     123, 123, 123, 123, 123, 123, 123, 123, 123, 123, 123, 123, 123, 123, 123, 123, 123, 123, 123, 123,
     123, 123, 123, 123, 123, 123, 123, 123, 123, 123, 123, 123, 123, 123, 123, 123, 123, 123, 123, 123,
     123, 123, 123, 123, 123, 123, 123, 123, 123, 123, 123, 123, 123, 123, 123, 123, 123, 123, 123, 123,
     40, 40, 40, 40, 40, 40, 40, 40, 40, 40, 40, 40, 40, 40, 40, 40, 40, 40, 40, 40,
     40, 40, 40, 40, 40, 40, 40, 40, 40, 40, 40, 40, 40, 40, 40, 40, 40, 40, 40, 40,
     40, 40, 40, 40, 40, 40, 46, 46]"

definition tab_Y14 :: "nat list" where
  "tab_Y14 = [
     46, 46, 46, 46, 46, 46, 46, 46, 46, 46, 46, 46, 46, 46, 46, 46, 16, 16, 16, 16,
     16, 16, 16, 46, 46, 46, 46, 46, 46, 46, 46, 46, 46, 46, 46, 16, 16, 16, 16, 16,
     46, 46, 46, 46, 46, 46, 60, 40, 40, 40, 40, 40, 40, 40, 40, 40, 40, 7, 40, 40,
     40, 40, 40, 40, 40, 40, 40, 40, 40, 40, 40, 46, 40, 40, 40, 40, 40, 46, 40, 46,
     40, 40, 46, 40, 40, 46, 40, 40, 40, 40, 40, 40, 40, 40, 40, 40, 40, 40, 40, 40,
     40, 40, 40, 40, 40, 40, 40, 40, 40, 40, 40, 40, 40, 40, 40, 40, 40, 40, 40, 40,
     40, 40, 40, 40, 40, 40, 40, 40, 40, 40, 40, 40, 40, 40, 40, 40, 40, 40, 40, 40,
     40, 40, 40, 40, 40, 40, 40, 40, 40, 40, 40, 40, 40, 40, 40, 40, 40, 40, 40, 40,
     40, 40, 40, 40, 40, 40, 40, 40, 40, 40, 40, 40, 40, 40, 40, 40, 40, 40, 40, 40,
     40, 40, 40, 40, 40, 40, 40, 40, 40, 40, 40, 40, 40, 40, 46, 46, 46, 46, 46, 46,
     46, 46, 46, 46, 46, 46, 46, 46, 46, 46, 46, 46, 46, 46, 46, 46, 46, 46, 46, 46,
     46, 46, 46, 46, 46, 46, 46, 40, 40, 40, 40, 40, 40, 40, 40, 40, 40, 40, 40, 40,
     40, 40, 40, 40, 40, 40, 40, 40, 40, 40, 40, 40, 40, 40, 40, 40, 40, 40, 40, 40,
     40, 40, 40, 40, 40, 40, 40, 40, 40, 40, 40, 40, 40, 40, 40, 40, 40, 40, 40, 40,
     40, 40, 40, 40, 40, 40, 40, 40, 40, 40, 40, 40, 40, 40, 40, 40, 40, 40, 40, 40,
     40, 40, 40, 40, 40, 40, 40, 40, 40, 40, 40, 40, 40, 40, 40, 40, 40, 40, 40, 40,
     40, 40, 40, 40, 40, 40, 40, 40, 40, 40, 40, 40, 40, 40, 5, 6, 46, 46, 46, 46,
     46, 46, 46, 46, 46, 46, 46, 46, 46, 46, 46, 46, 40, 40, 40, 40, 40, 40, 40, 40,
     40, 40, 40, 40, 40, 40, 40, 40, 40, 40, 40, 40, 40, 40, 40, 40, 40, 40, 40, 40,
     40, 40, 40, 40, 40, 40, 40, 40, 40, 40, 40, 40, 40, 40, 40, 40, 40, 40, 40, 40,
     40, 40, 40, 40, 40, 40, 40, 40, 40, 40, 40, 40, 40, 40, 40, 40, 46, 46, 40, 40,
     40, 40, 40, 40, 40, 40, 40, 40, 40, 40, 40, 40, 40, 40, 40, 40, 40, 40, 40, 40,
     40, 40, 40, 40, 40, 40, 40, 40, 40, 40, 40, 40, 40, 40, 40, 40, 40, 40, 40, 40,
     40, 40, 40, 40, 40, 40, 40, 40, 40, 40, 40, 40, 46, 46, 46, 46, 46, 46, 46, 46,
     46, 46, 46, 46, 46, 46, 46, 46]"

definition tab_Y15 :: "nat list" where
  "tab_Y15 = [
     46, 46, 46, 46, 46, 46, 46, 46, 46, 46, 46, 46, 46, 46, 46, 46, 46, 46, 46, 46,
     46, 46, 46, 46, 40, 40, 40, 40, 40, 40, 40, 40, 40, 40, 40, 40, 46, 46, 46, 46,
     46, 46, 46, 46, 46, 46, 46, 46, 46, 46, 46, 46, 46, 46, 46, 46, 46, 46, 46, 46,
     46, 46, 46, 46, 46, 46, 46, 46, 46, 46, 46, 46, 60, 60, 60, 60, 46, 46, 46, 46,
     46, 46, 46, 46, 46, 46, 46, 46, 3, 8, 8, 12, 12, 5, 6, 5, 6, 5, 6, 5,
     6, 5, 6, 5, 6, 5, 6, 5, 6, 46, 46, 46, 46, 3, 3, 3, 3, 12, 12, 12,
     3, 3, 3, 46, 3, 3, 3, 3, 8, 5, 6, 5, 6, 5, 6, 3, 3, 3, 7, 8,
     7, 7, 7, 46, 3, 4, 3, 3, 46, 46, 46, 46, 40, 40, 40, 46, 40, 46, 40, 40,
     40, 40, 40, 40, 40, 40, 40, 40, 40, 40, 40, 40, 40, 40, 40, 40, 40, 40, 40, 40,
     40, 40, 40, 40, 40, 40, 40, 40, 40, 40, 40, 40, 40, 40, 40, 40, 40, 40, 40, 40,
     40, 40, 40, 40, 40, 40, 40, 40, 40, 40, 40, 40, 40, 40, 40, 40, 40, 40, 40, 40,
     40, 40, 40, 40, 40, 40, 40, 40, 40, 46, 46, 104, 46, 3, 3, 3, 4, 3, 3, 3,
     5, 6, 3, 7, 3, 8, 3, 3, 9, 9, 9, 9, 9, 9, 9, 9, 9, 9, 3, 3,
     7, 7, 7, 3, 3, 10, 10, 10, 10, 10, 10, 10, 10, 10, 10, 10, 10, 10, 10, 10,
     10, 10, 10, 10, 10, 10, 10, 10, 10, 10, 10, 5, 3, 6, 11, 12, 11, 13, 13, 13,
     13, 13, 13, 13, 13, 13, 13, 13, 13, 13, 13, 13, 13, 13, 13, 13, 13, 13, 13, 13,
     13, 13, 13, 5, 7, 6, 7, 46, 46, 3, 5, 6, 3, 3, 40, 40, 40, 40, 40, 40,
     40, 40, 40, 40, 59, 40, 40, 40, 40, 40, 40, 40, 40, 40, 40, 40, 40, 40, 40, 40,
     40, 40, 40, 40, 40, 40, 40, 40, 40, 40, 40, 40, 40, 40, 40, 40, 40, 40, 40, 40,
     40, 40, 40, 40, 40, 40, 40, 40, 40, 40, 59, 59, 40, 40, 40, 40, 40, 40, 40, 40,
     40, 40, 40, 40, 40, 40, 40, 40, 40, 40, 40, 40, 40, 40, 40, 40, 40, 40, 40, 40,
     40, 40, 40, 46, 46, 46, 40, 40, 40, 40, 40, 40, 46, 46, 40, 40, 40, 40, 40, 40,
     46, 46, 40, 40, 40, 40, 40, 40, 46, 46, 40, 40, 40, 46, 46, 46, 4, 4, 7, 11,
     15, 4, 4, 46, 7, 7, 7, 7, 7, 15, 15, 46, 46, 46, 46, 46, 46, 46, 46, 46,
     46, 46, 46, 46, 46, 15, 46, 46]"

definition tab_Y :: "nat list" where
  "tab_Y = concat [tab_Y0, tab_Y1, tab_Y2, tab_Y3, tab_Y4, tab_Y5, tab_Y6, tab_Y7, tab_Y8, tab_Y9, tab_Y10, tab_Y11, tab_Y12, tab_Y13, tab_Y14, tab_Y15]"

definition tab_A :: "c_int list" where
  "tab_A = [
     0x0001000F, 0x0004000F, 0x0004000C, 0x00000018, 0x0006001A, 0x00000015, 0x00000016, 0x00000019,
     0x00000014, 0x00036009, 0x0827FE01, 0x0000001B, 0x00050017, 0x0817FE02, 0x0000000C, 0x0000001C,
     0x00070002, 0x0000600B, 0x0000500B, 0x0000800B, 0x08270001, 0x08170002, 0xE1D70002, 0x00670001,
     0x00570002, 0xCE670001, 0x3A170002, 0xE1E70001, 0x4B170002, 0x34A70001, 0x33A70001, 0x33670001,
     0x32A70001, 0x32E70001, 0x33E70001, 0x34E70001, 0x34670001, 0x35670001, 0x00070001, 0x36A70001,
     0x00070005, 0x36670001, 0x36E70001, 0x00AF0001, 0x007F0003, 0x009F0002, 0x0000001A, 0x34970002,
     0x33970002, 0x33570002, 0x32970002, 0x32D70002, 0x33D70002, 0x34570002, 0x34D70002, 0x35570002,
     0x36970002, 0x36570002, 0x36D70002, 0x00070004, 0x00030006, 0x09A70001, 0x09670001, 0x10270001,
     0x0FE70001, 0x09970002, 0x09570002, 0x10170002, 0x0FD70002, 0x0F970002, 0x0E570002, 0x0BD70002,
     0x0D970002, 0x15970002, 0x14170002, 0x14270001, 0x0C270001, 0x0C170002, 0x00034009, 0x00000007,
     0x00030008, 0x00037409, 0x00005A0B, 0x00006E0B, 0x0000740B, 0x0000000B, 0xFE170002, 0xFE270001,
     0xED970002, 0xEA970002, 0xE7170002, 0xE0170002, 0xE4170002, 0xE0970002, 0xFDD70002, 0xEDA70001,
     0xFDE70001, 0xEAA70001, 0xE7270001, 0xFE570002, 0xE4270001, 0xFE670001, 0xE0270001, 0xE0A70001,
     0x00010010, 0x0004000D, 0x0004000E, 0x0000400B, 0x0000440B, 0x0427420A, 0x0427800A, 0x0417620A,
     0x0417800A, 0x0007800A, 0x0000420B, 0x0000720B, 0x06A0001C, 0x0690001C, 0x00006C0B, 0x0000560B,
     0x0007720A, 0x0007400A, 0x00000013, 0x00000012]"

section \<open>Attributes, predicates and case\<close>

definition UNASSIGNED :: c_int where "UNASSIGNED = 0"
definition UPPERCASE_LETTER :: c_int where "UPPERCASE_LETTER = 1"
definition LOWERCASE_LETTER :: c_int where "LOWERCASE_LETTER = 2"
definition TITLECASE_LETTER :: c_int where "TITLECASE_LETTER = 3"
definition MODIFIER_LETTER :: c_int where "MODIFIER_LETTER = 4"
definition OTHER_LETTER :: c_int where "OTHER_LETTER = 5"
definition DECIMAL_NUMBER :: c_int where "DECIMAL_NUMBER = 9"

text \<open>\<open>(X[ ch>>6 ]<<6) | (ch&0x3F)\<close>, and the attributes at that place.\<close>

definition ucs2_index :: "u16 \<Rightarrow> nat" where
  "ucs2_index ch = (push_bit 6 (tab_X ! unat (drop_bit 6 ch)) OR unat (ch AND 0x3F))"

definition ucs2_attr :: "u16 \<Rightarrow> c_int" where
  "ucs2_attr ch = tab_A ! (tab_Y ! ucs2_index ch)"

definition ucs2_definedp :: "u16 \<Rightarrow> bool" where
  "ucs2_definedp ch \<longleftrightarrow> ucs2_attr ch AND 0x1F \<noteq> UNASSIGNED"

definition ucs2_lowerp :: "u16 \<Rightarrow> bool" where
  "ucs2_lowerp ch \<longleftrightarrow> ucs2_attr ch AND 0x1F = LOWERCASE_LETTER"

definition ucs2_upperp :: "u16 \<Rightarrow> bool" where
  "ucs2_upperp ch \<longleftrightarrow> ucs2_attr ch AND 0x1F = UPPERCASE_LETTER"

definition ucs2_digitp :: "u16 \<Rightarrow> bool" where
  "ucs2_digitp ch \<longleftrightarrow> ucs2_attr ch AND 0x1F = DECIMAL_NUMBER"

definition ucs2_letterp :: "u16 \<Rightarrow> bool" where
  "ucs2_letterp ch \<longleftrightarrow>
     drop_bit (unat (ucs2_attr ch AND 0x1F))
       (push_bit (unat UPPERCASE_LETTER) 1 OR push_bit (unat LOWERCASE_LETTER) 1 OR
        push_bit (unat TITLECASE_LETTER) 1 OR push_bit (unat MODIFIER_LETTER) 1 OR
        push_bit (unat OTHER_LETTER) (1 :: c_int)) AND 1 \<noteq> 0"

definition ucs2_whitespacep :: "u16 \<Rightarrow> bool" where
  "ucs2_whitespacep ch \<longleftrightarrow>
     ucs2_attr ch AND 0x00070000 = 0x00040000 \<or> ch = 0x0085 \<or> ch = 0x00a0 \<or>
     (ch \<ge> 0x1680 \<and> (ch = 0x1680 \<or> ch = 0x180e \<or> ch = 0x202f \<or> ch = 0x205f \<or> ch = 0x3000))"

definition ucs2_toupper :: "u16 \<Rightarrow> u16" where
  "ucs2_toupper ch =
     (let val = ucs2_attr ch in
      if val AND 0x00100000 \<noteq> 0 then ch - ucast (drop_bit 22 val) else ch)"

definition ucs2_tolower :: "u16 \<Rightarrow> u16" where
  "ucs2_tolower ch =
     (let val = ucs2_attr ch in
      if val AND 0x00200000 \<noteq> 0 then ch + ucast (drop_bit 22 val) else ch)"

section \<open>Bounds\<close>

lemma length_tab_X: "length tab_X = 1024"
  by (simp add: tab_X_def)

lemma length_tab_A: "length tab_A = 124"
  by (simp add: tab_A_def)

lemma tab_Y_parts:
  "length tab_Y0 = 488 \<and> list_all (\<lambda>y. y < 124) tab_Y0" "length tab_Y1 = 488 \<and> list_all (\<lambda>y. y < 124) tab_Y1"
  "length tab_Y2 = 488 \<and> list_all (\<lambda>y. y < 124) tab_Y2" "length tab_Y3 = 488 \<and> list_all (\<lambda>y. y < 124) tab_Y3"
  "length tab_Y4 = 488 \<and> list_all (\<lambda>y. y < 124) tab_Y4" "length tab_Y5 = 488 \<and> list_all (\<lambda>y. y < 124) tab_Y5"
  "length tab_Y6 = 488 \<and> list_all (\<lambda>y. y < 124) tab_Y6" "length tab_Y7 = 488 \<and> list_all (\<lambda>y. y < 124) tab_Y7"
  "length tab_Y8 = 488 \<and> list_all (\<lambda>y. y < 124) tab_Y8" "length tab_Y9 = 488 \<and> list_all (\<lambda>y. y < 124) tab_Y9"
  "length tab_Y10 = 488 \<and> list_all (\<lambda>y. y < 124) tab_Y10" "length tab_Y11 = 488 \<and> list_all (\<lambda>y. y < 124) tab_Y11"
  "length tab_Y12 = 488 \<and> list_all (\<lambda>y. y < 124) tab_Y12" "length tab_Y13 = 488 \<and> list_all (\<lambda>y. y < 124) tab_Y13"
  "length tab_Y14 = 488 \<and> list_all (\<lambda>y. y < 124) tab_Y14" "length tab_Y15 = 488 \<and> list_all (\<lambda>y. y < 124) tab_Y15"
  by (simp_all add: tab_Y0_def tab_Y1_def tab_Y2_def tab_Y3_def tab_Y4_def tab_Y5_def tab_Y6_def tab_Y7_def
      tab_Y8_def tab_Y9_def tab_Y10_def tab_Y11_def tab_Y12_def tab_Y13_def tab_Y14_def tab_Y15_def)

lemma length_tab_Y: "length tab_Y = 7808"
  by (simp add: tab_Y_def tab_Y_parts)

lemma tab_Y_bound: "y \<in> set tab_Y \<Longrightarrow> y < 124"
  using tab_Y_parts by (auto simp: tab_Y_def list_all_iff)

lemma tab_X_bound: "x \<in> set tab_X \<Longrightarrow> x < 122"
proof -
  have "list_all (\<lambda>x. x < 122) tab_X" by (simp add: tab_X_def)
  then show "x \<in> set tab_X \<Longrightarrow> x < 122" by (simp add: list_all_iff)
qed

lemma ucs2_index_split: "ucs2_index ch = (tab_X ! unat (drop_bit 6 ch)) * 64 + unat (take_bit 6 ch)"
proof -
  have "ch AND 0x3F = take_bit 6 ch" by (simp add: take_bit_eq_mask mask_eq_exp_minus_1)
  moreover have "push_bit 6 x OR unat (take_bit 6 ch) = x * 64 + unat (take_bit 6 ch)" for x
  proof -
    have "push_bit 6 x AND unat (take_bit 6 ch) = 0"
      by (rule bit_eqI) (auto simp: bit_simps unsigned_take_bit_eq)
    then show ?thesis by (simp add: disjunctive_add_eq_or [symmetric] push_bit_eq_mult)
  qed
  ultimately show ?thesis by (simp add: ucs2_index_def)
qed

lemma page_bound: "unat (drop_bit 6 (ch :: u16)) < length tab_X"
proof -
  have "unat (drop_bit 6 ch) = unat ch div 64"
    by (simp only: unat_drop_bit_eq drop_bit_eq_div [where ?'a = nat]) simp
  moreover have "unat ch < 2 ^ 16" using unsigned_less [of ch, where 'a=nat] by simp
  ultimately show ?thesis by (simp add: length_tab_X less_mult_imp_div_less)
qed

lemma ucs2_index_bound: "ucs2_index ch < length tab_Y"
proof -
  have "tab_X ! unat (drop_bit 6 ch) < 122" using tab_X_bound page_bound nth_mem by blast
  moreover have "unat (take_bit 6 ch) < 64"
    using take_bit_nat_less_exp [of 6 "unat ch"] by (simp add: unsigned_take_bit_eq)
  ultimately show ?thesis by (simp add: ucs2_index_split length_tab_Y)
qed

lemma ucs2_attr_bound: "tab_Y ! ucs2_index ch < length tab_A"
  using tab_Y_bound [OF nth_mem [OF ucs2_index_bound]] by (simp add: length_tab_A)

lemma ucs2_attr_ascii:
  assumes "n < 128"
  shows "ucs2_attr (of_nat n) = tab_A ! (tab_Y0 ! n)"
proof -
  have un: "unat (of_nat n :: u16) = n" using assms by (simp add: unat_of_nat)
  have "unat (drop_bit 6 (of_nat n :: u16)) = n div 64"
    by (simp only: unat_drop_bit_eq drop_bit_eq_div [where ?'a = nat] un) simp
  moreover have "tab_X ! (n div 64) = n div 64"
  proof -
    have "tab_X ! 0 = 0" "tab_X ! 1 = 1" by (simp_all add: tab_X_def)
    moreover have "n div 64 = 0 \<or> n div 64 = 1" using assms by auto
    ultimately show ?thesis by metis
  qed
  moreover have "unat (take_bit 6 (of_nat n :: u16)) = n mod 64"
    by (simp only: unsigned_take_bit_eq un take_bit_eq_mod [where ?'a = nat]) simp
  ultimately have "ucs2_index (of_nat n) = n" by (simp add: ucs2_index_split)
  then show ?thesis
    using assms tab_Y_parts(1) by (simp add: ucs2_attr_def tab_Y_def nth_append)
qed

text \<open>Case conversion of the ASCII characters.\<close>

lemma ucs2_case_ascii:
  "list_all (\<lambda>n. ucs2_tolower (of_nat n) = (if 65 \<le> n \<and> n \<le> 90 then of_nat (n + 32) else of_nat n) \<and>
                 ucs2_toupper (of_nat n) = (if 97 \<le> n \<and> n \<le> 122 then of_nat (n - 32) else of_nat n)) [0..<128]"
proof -
  have "list_all (\<lambda>n. let val = tab_A ! (tab_Y0 ! n) in
     (if val AND 0x00200000 \<noteq> 0 then of_nat n + ucast (drop_bit 22 val) else of_nat n) =
       (if 65 \<le> n \<and> n \<le> 90 then of_nat (n + 32) else of_nat n :: u16) \<and>
     (if val AND 0x00100000 \<noteq> 0 then of_nat n - ucast (drop_bit 22 val) else of_nat n) =
       (if 97 \<le> n \<and> n \<le> 122 then of_nat (n - 32) else of_nat n :: u16)) [0..<128]"
    by code_simp
  then show ?thesis
    by (auto simp: list_all_iff ucs2_tolower_def ucs2_toupper_def ucs2_attr_ascii Let_def)
qed

end
