(* ===== verification/Ucs2.thy ===== *)
theory Ucs2
  imports Strcmp Strnum Ucs2tab
begin

text \<open>
  UCS-2 strings: \<open>struct bgl_ucs2_string\<close> and the operations of \<open>runtime/Clib/cunicode.c\<close>
  that build, copy and compare them. The length field is read into \<open>int\<close> variables, and every
  constructor takes an \<open>int\<close> length, so that the strings have less than \<open>2 ^ 31\<close> characters.
\<close>

type_synonym bgl_ucs2_string = "u16 bgl_str"

section \<open>Construction and copying\<close>

definition make_ucs2_string :: "int \<Rightarrow> u16 \<Rightarrow> (failure + bgl_ucs2_string) option" where
  "make_ucs2_string len c =
     (if len < 0 then Some (Inl (C_Failure ''make-ucs2-string'' ''Illegal string size'' len))
      else do {
        n \<leftarrow> idx len;
        cstring \<leftarrow> for_up 0 len (\<lambda>i m. do { k \<leftarrow> idx i; wr m k c }) (gc_malloc (n + 1));
        cstring \<leftarrow> wr cstring n 0;
        Some (Inr \<lparr>str_length = n, char0 = cstring\<rparr>) })"

text \<open>\<open>for( len--; len >= 0; len-- ) u1[len] = u2[len]\<close>, with the offsets of \<open>u1\<close> and
  \<open>u2\<close> in their blocks.\<close>

fun ucs2cpy :: "'c cells \<Rightarrow> nat \<Rightarrow> 'c cells \<Rightarrow> nat \<Rightarrow> nat \<Rightarrow> 'c cells option" where
  "ucs2cpy m1 u1 m2 u2 0 = Some m1"
| "ucs2cpy m1 u1 m2 u2 (Suc len) = do {
     c \<leftarrow> rd m2 (u2 + len);
     m1 \<leftarrow> wr m1 (u1 + len) c;
     ucs2cpy m1 u1 m2 u2 len }"

definition ucs2_string_append :: "bgl_ucs2_string \<Rightarrow> bgl_ucs2_string \<Rightarrow> bgl_ucs2_string option" where
  "ucs2_string_append s1 s2 = do {
     let l1 = int32 (int (str_length s1));
     let l2 = int32 (int (str_length s2));
     n \<leftarrow> idx (int32 (l1 + l2));
     n1 \<leftarrow> idx l1;
     m \<leftarrow> ucs2cpy (gc_malloc (n + 1)) 0 (char0 s1) 0 (nat l1);
     m \<leftarrow> ucs2cpy m n1 (char0 s2) 0 (nat l2);
     m \<leftarrow> wr m n 0;
     Some \<lparr>str_length = n, char0 = m\<rparr> }"

definition c_subucs2_string :: "bgl_ucs2_string \<Rightarrow> int \<Rightarrow> int \<Rightarrow> bgl_ucs2_string option" where
  "c_subucs2_string src mn mx = do {
     len \<leftarrow> idx (mx - mn);
     o1 \<leftarrow> idx mn;
     m \<leftarrow> ucs2cpy (gc_malloc (len + 1)) 0 (char0 src) o1 len;
     m \<leftarrow> wr m len 0;
     Some \<lparr>str_length = len, char0 = m\<rparr> }"

text \<open>The copy loops \<open>for( i = 0; i < len; i++ ) cstring[i] = f(cstr[i]); cstring[i] = 0\<close>.\<close>

definition copy_chars :: "('b \<Rightarrow> u16) \<Rightarrow> 'b cells \<Rightarrow> int \<Rightarrow> bgl_ucs2_string option" where
  "copy_chars f cstr len = do {
     n \<leftarrow> idx len;
     m \<leftarrow> for_up 0 len (\<lambda>i m. do { k \<leftarrow> idx i; c \<leftarrow> rd cstr k; wr m k (f c) }) (gc_malloc (n + 1));
     m \<leftarrow> wr m n 0;
     Some \<lparr>str_length = n, char0 = m\<rparr> }"

definition c_ucs2_string_copy :: "bgl_ucs2_string \<Rightarrow> bgl_ucs2_string option" where
  "c_ucs2_string_copy src = copy_chars (\<lambda>c. c) (char0 src) (int32 (int (str_length src)))"

text \<open>\<open>(ucs2_t)(c[i])\<close> converts a signed \<open>char\<close>.\<close>

definition string_to_ucs2_string :: "u8 cells \<Rightarrow> bgl_ucs2_string option" where
  "string_to_ucs2_string c = do {
     n \<leftarrow> strlen_from c 0;
     copy_chars scast c (int32 (int n)) }"

definition bstring_to_ucs2_string :: "bgl_string \<Rightarrow> bgl_ucs2_string option" where
  "bstring_to_ucs2_string src = copy_chars scast (char0 src) (int32 (int (str_length src)))"

definition integer_to_ucs2_string :: "c_long \<Rightarrow> c_long \<Rightarrow> bgl_ucs2_string option" where
  "integer_to_ucs2_string x radix = do {
     s \<leftarrow> integer_to_string x radix;
     string_to_ucs2_string (char0 s) }"

section \<open>Comparison\<close>

text \<open>\<open>for( l1--; l1 >= 0; l1-- ) if( c1[l1] != c2[l1] ) return 0; return 1\<close>.\<close>

fun ucs2_equal_down :: "u16 cells \<Rightarrow> u16 cells \<Rightarrow> nat \<Rightarrow> bool option" where
  "ucs2_equal_down c1 c2 0 = Some True"
| "ucs2_equal_down c1 c2 (Suc l) = do {
     a \<leftarrow> rd c1 l; b \<leftarrow> rd c2 l;
     if a \<noteq> b then Some False else ucs2_equal_down c1 c2 l }"

definition ucs2_strcmp :: "bgl_ucs2_string \<Rightarrow> bgl_ucs2_string \<Rightarrow> bool option" where
  "ucs2_strcmp o1 o2 =
     (let l1 = int32 (int (str_length o1)); l2 = int32 (int (str_length o2)) in
      if l1 = l2 then ucs2_equal_down (char0 o1) (char0 o2) (nat l1) else Some False)"

text \<open>The case-insensitive equality also compares the characters at index \<open>l1\<close>.\<close>

function ucs2_strcicmp_loop :: "u16 cells \<Rightarrow> u16 cells \<Rightarrow> int \<Rightarrow> nat \<Rightarrow> bool option" where
  "ucs2_strcicmp_loop st1 st2 l1 i =
     (if i < length st1
      then do { a \<leftarrow> rd st1 i; b \<leftarrow> rd st2 i;
                if ucs2_tolower a = ucs2_tolower b
                then if int i = l1 then Some True else ucs2_strcicmp_loop st1 st2 l1 (i + 1)
                else Some False }
      else None)"
  by pat_completeness auto
termination
  by (relation "measure (\<lambda>(s1, s2, l, i). length s1 - i)") auto

declare ucs2_strcicmp_loop.simps [simp del]

definition ucs2_strcicmp :: "bgl_ucs2_string \<Rightarrow> bgl_ucs2_string \<Rightarrow> bool option" where
  "ucs2_strcicmp bst1 bst2 =
     (let l1 = int32 (int (str_length bst1)); l2 = int32 (int (str_length bst2)) in
      if l1 = l2 then ucs2_strcicmp_loop (char0 bst1) (char0 bst2) l1 0 else Some False)"

text \<open>
  The eight orders have one shape: skip the common prefix, then compare the characters at the first
  difference, or the lengths.
\<close>

definition ucs2_order :: "(u16 \<Rightarrow> u16) \<Rightarrow> (u16 \<Rightarrow> u16 \<Rightarrow> bool) \<Rightarrow> (int \<Rightarrow> int \<Rightarrow> bool) \<Rightarrow>
    bgl_ucs2_string \<Rightarrow> bgl_ucs2_string \<Rightarrow> bool option" where
  "ucs2_order f r rl bst1 bst2 =
     (let l1 = int32 (int (str_length bst1)); l2 = int32 (int (str_length bst2));
          mn = (if l1 < l2 then l1 else l2) in
      do { i \<leftarrow> same_prefix f (char0 bst1) (char0 bst2) (nat mn) 0;
           if int i < mn then do { a \<leftarrow> rd (char0 bst1) i; b \<leftarrow> rd (char0 bst2) i; Some (r (f a) (f b)) }
           else Some (rl l1 l2) })"

definition ucs2_string_lt where "ucs2_string_lt = ucs2_order id (<) (<)"
definition ucs2_string_le where "ucs2_string_le = ucs2_order id (\<le>) (\<le>)"
definition ucs2_string_gt where "ucs2_string_gt = ucs2_order id (>) (>)"
definition ucs2_string_ge where "ucs2_string_ge = ucs2_order id (\<ge>) (\<ge>)"
definition ucs2_string_cilt where "ucs2_string_cilt = ucs2_order ucs2_tolower (<) (<)"
definition ucs2_string_cile where "ucs2_string_cile = ucs2_order ucs2_tolower (\<le>) (\<le>)"
definition ucs2_string_cigt where "ucs2_string_cigt = ucs2_order ucs2_tolower (>) (>)"
definition ucs2_string_cige where "ucs2_string_cige = ucs2_order ucs2_tolower (\<ge>) (\<ge>)"

lemmas ucs2_order_defs = ucs2_string_lt_def ucs2_string_le_def ucs2_string_gt_def ucs2_string_ge_def
  ucs2_string_cilt_def ucs2_string_cile_def ucs2_string_cigt_def ucs2_string_cige_def

section \<open>What the constructors build\<close>

lemma ucs2cpy_blit:
  assumes "u1 + n \<le> length m1" and "u2 + n \<le> length xs"
  shows "ucs2cpy m1 u1 (map Some xs @ m2) u2 n =
    Some (take u1 m1 @ map Some (take n (drop u2 xs)) @ drop (u1 + n) m1)"
  using assms
proof (induction n arbitrary: m1)
  case 0
  then show ?case by simp
next
  case (Suc n)
  then have "take (Suc n) (drop u2 xs) = take n (drop u2 xs) @ [xs ! (u2 + n)]"
    by (simp add: take_Suc_conv_app_nth)
  moreover have "drop (u1 + n) (m1[u1 + n := Some (xs ! (u2 + n))]) = Some (xs ! (u2 + n)) # drop (Suc (u1 + n)) m1"
    using Suc.prems by (simp add: drop_update_swap flip: Cons_nth_drop_Suc)
  ultimately show ?case using Suc by (simp add: rd_append rd_map_Some)
qed

lemma for_up_fill:
  assumes "n \<le> length m" and "\<And>k s. k < n \<Longrightarrow> body (int k) s = wr s k (ch k)"
  shows "for_up 0 (int n) body m = Some (map (Some \<circ> ch) [0..<n] @ drop n m)"
proof -
  have "for_up (int k) (int n) body (map (Some \<circ> ch) [0..<k] @ drop k m) = Some (map (Some \<circ> ch) [0..<n] @ drop n m)"
    if "k \<le> n" for k
    using that
  proof (induction "n - k" arbitrary: k)
    case 0
    then show ?case by (simp add: for_up.simps)
  next
    case (Suc d)
    then have lt: "k < n" by simp
    have "(map (Some \<circ> ch) [0..<k] @ drop k m)[k := Some (ch k)] = map (Some \<circ> ch) [0..<Suc k] @ drop (Suc k) m"
      using lt assms(1) by (simp add: list_update_append flip: Cons_nth_drop_Suc)
    moreover have "for_up (int (Suc k)) (int n) body (map (Some \<circ> ch) [0..<Suc k] @ drop (Suc k) m)
        = Some (map (Some \<circ> ch) [0..<n] @ drop n m)"
      using Suc by (intro Suc.hyps) simp_all
    ultimately show ?case
      using lt assms by (subst for_up.simps) (simp add: add.commute)
  qed
  from this [of 0] show ?thesis by simp
qed

lemma make_ucs2_string_rep [bstr]:
  "make_ucs2_string (int n) c = Some (Inr (bstring_of (replicate n c)))"
proof -
  have "map (Some \<circ> (\<lambda>_. c)) [0..<n] = map Some (replicate n c)"
    by (simp add: comp_def map_replicate_const)
  then show ?thesis
    by (simp add: make_ucs2_string_def for_up_fill [where ch = "\<lambda>_. c"] str_rep_def del: map_replicate)
qed

lemma copy_chars_rep [bstr]:
  assumes "n \<le> length xs"
  shows "copy_chars f (map Some xs @ sl) (int n) = Some (bstring_of (map f (take n xs)))"
proof -
  have "for_up 0 (int n) (\<lambda>i m. do { k \<leftarrow> idx i; c \<leftarrow> rd (map Some xs @ sl) k; wr m k (f c) }) (gc_malloc (n + 1))
      = Some (map (Some \<circ> (\<lambda>k. f (xs ! k))) [0..<n] @ drop n (gc_malloc (n + 1)))"
    using assms by (intro for_up_fill) (simp_all add: rd_append rd_map_Some)
  moreover have "map (Some \<circ> (\<lambda>k. f (xs ! k))) [0..<n] = map Some (map f (take n xs))"
    using assms by (intro nth_equalityI) simp_all
  ultimately show ?thesis using assms
    by (simp add: copy_chars_def str_rep_def del: map_map)
qed

lemma c_string_map: "c_string xs @ sl = map Some (xs @ [0]) @ sl"
  by (simp add: c_string_def)

lemma ucs2_string_append_rep [bstr]:
  assumes "length xs + length ys < 2 ^ 31"
  shows "ucs2_string_append (str_rep xs sl) (str_rep ys sl') = Some (bstring_of (xs @ ys))"
proof -
  have "idx (int32 (int (length xs) + int (length ys))) = Some (length xs + length ys)"
    using assms by (simp flip: of_nat_add)
  moreover have "ucs2cpy (gc_malloc (Suc (length xs + length ys))) 0 (c_string xs @ sl) 0 (length xs) =
      Some (map Some xs @ gc_malloc (Suc (length ys)))"
    unfolding c_string_map by (subst ucs2cpy_blit) simp_all
  moreover have "ucs2cpy (map Some xs @ gc_malloc (Suc (length ys))) (length xs) (c_string ys @ sl') 0 (length ys) =
      Some (map Some (xs @ ys) @ gc_malloc 1)"
    unfolding c_string_map by (subst ucs2cpy_blit) simp_all
  ultimately show ?thesis
    using assms terminate_fresh [of "length xs + length ys" "xs @ ys"]
    by (simp add: ucs2_string_append_def str_rep_def)
qed

lemma c_subucs2_string_rep [bstr]:
  assumes "i \<le> j" and "j \<le> length xs"
  shows "c_subucs2_string (str_rep xs sl) (int i) (int j) = Some (bstring_of (take (j - i) (drop i xs)))"
proof -
  have "ucs2cpy (gc_malloc (Suc (j - i))) 0 (c_string xs @ sl) i (j - i) =
      Some (map Some (take (j - i) (drop i xs)) @ gc_malloc 1)"
    unfolding c_string_map using assms by (subst ucs2cpy_blit) simp_all
  then show ?thesis
    using assms by (simp add: c_subucs2_string_def str_rep_def)
qed

text \<open>UCS-2 strings: filling, copying, appending and extracting build the expected terminated
  string, and a byte string converts character by character, the byte being sign-extended (so that a byte
  above 127 becomes a character above \<open>0xFF7F\<close>).\<close>

theorem ucs2_constructors:
  assumes "length xs + length ys < 2 ^ 31" and "length bs < 2 ^ 31"
  shows "make_ucs2_string len c = Some (if len < 0 then Inl (C_Failure ''make-ucs2-string'' ''Illegal string size'' len)
      else Inr (bstring_of (replicate (nat len) c))) \<and>
    ucs2_string_append (str_rep xs s) (str_rep ys t) = Some (bstring_of (xs @ ys)) \<and>
    c_ucs2_string_copy (str_rep xs s) = Some (bstring_of xs) \<and>
    bstring_to_ucs2_string (str_rep bs u) = Some (bstring_of (map scast bs)) \<and>
    (i \<le> j \<and> j \<le> length xs \<longrightarrow>
       c_subucs2_string (str_rep xs s) (int i) (int j) = Some (bstring_of (take (j - i) (drop i xs))))"
proof -
  have "make_ucs2_string len c = Some (Inr (bstring_of (replicate (nat len) c)))" if "0 \<le> len"
    using make_ucs2_string_rep [of "nat len" c] that by simp
  then have "make_ucs2_string len c = Some (if len < 0 then Inl (C_Failure ''make-ucs2-string'' ''Illegal string size'' len)
      else Inr (bstring_of (replicate (nat len) c)))"
    by (simp add: make_ucs2_string_def)
  moreover have "c_ucs2_string_copy (str_rep xs s) = Some (bstring_of xs)"
    using assms copy_chars_rep [of "length xs" "xs @ [0]" "\<lambda>c. c" s]
    by (simp add: c_ucs2_string_copy_def c_string_def)
  moreover have "bstring_to_ucs2_string (str_rep bs u) = Some (bstring_of (map scast bs))"
    using assms copy_chars_rep [of "length bs" "bs @ [0]" scast u]
    by (simp add: bstring_to_ucs2_string_def c_string_def)
  ultimately show ?thesis using assms by (simp add: bstr)
qed

lemma ucs2_constructors_witness:
  "ucs2_string_append (bstring_of [955]) (bstring_of [46]) = Some (bstring_of [955, 46]) \<and>
   bstring_to_ucs2_string (bstring_of [0xE9]) = Some (bstring_of [0xFFE9])"
proof -
  have eq: "(- 23 :: u16) = 0xFFE9" by code_simp
  have "bstring_of [- 23 :: u16] = bstring_of [0xFFE9]" by (simp only: eq)
  then show ?thesis
    using ucs2_constructors [of "[955]" "[46]" "[0xE9]" 0 0 "[]" "[]" "[]" 0 1] by simp
qed

section \<open>The order contract\<close>

definition ucs2_ok :: "u16 list \<Rightarrow> bool" where
  "ucs2_ok xs \<longleftrightarrow> length xs < 2 ^ 31"

lemma ucs2_order_rep:
  assumes "ucs2_ok xs" and "ucs2_ok ys"
  shows "ucs2_order f r rl (str_rep xs s) (str_rep ys t) =
    Some (cmp_lists r (rl (int (length xs)) (int (length ys))) (map f xs) (map f ys))"
proof -
  let ?mn = "min (length xs) (length ys)"
  have "ucs2_order f r rl (str_rep xs s) (str_rep ys t) =
      prefix_test f r (rl (int (length xs)) (int (length ys))) (c_string xs @ s) (c_string ys @ t) ?mn"
    unfolding ucs2_order_def prefix_test_def char0_rep str_length_rep
    using assms by (simp add: ucs2_ok_def Let_def min_def)
  then show ?thesis by (simp add: prefix_test_rep)
qed

lemma ucs2_equal_down_rep:
  assumes "n \<le> length xs" and "n \<le> length ys"
  shows "ucs2_equal_down (c_string xs @ s) (c_string ys @ t) n = Some (take n xs = take n ys)"
  using assms
proof (induction n)
  case (Suc n)
  then show ?case by (auto simp: rd_append rd_c_string take_Suc_conv_app_nth)
qed simp

lemma ucs2_strcicmp_loop_rep:
  assumes "length ys = length xs" and "p \<le> length xs"
  shows "ucs2_strcicmp_loop (c_string xs @ s) (c_string ys @ t) (int (length xs)) p =
    Some (map ucs2_tolower (drop p xs) = map ucs2_tolower (drop p ys))"
  using assms(2)
proof (induction "length xs - p" arbitrary: p)
  case 0
  then have "p = length xs" by simp
  then show ?case using assms(1)
    by (subst ucs2_strcicmp_loop.simps) (simp add: rd_append rd_c_string)
next
  case (Suc n)
  then have lt: "p < length xs" "p < length ys" using assms(1) by simp_all
  then have "drop p xs = xs ! p # drop (Suc p) xs" "drop p ys = ys ! p # drop (Suc p) ys"
    by (simp_all add: Cons_nth_drop_Suc)
  moreover have "n = length xs - Suc p" "Suc p \<le> length xs" using Suc.hyps(2) lt by simp_all
  note IH = Suc.hyps(1) [OF this]
  ultimately show ?case using lt
    by (subst ucs2_strcicmp_loop.simps) (simp add: rd_append rd_c_string IH)
qed

lemma ucs2_strcmp_rep:
  assumes "ucs2_ok xs" and "ucs2_ok ys"
  shows "ucs2_strcmp (str_rep xs s) (str_rep ys t) = Some (map id xs = map id ys)"
  using assms by (auto simp: ucs2_strcmp_def ucs2_ok_def ucs2_equal_down_rep)

lemma ucs2_strcicmp_rep:
  assumes "ucs2_ok xs" and "ucs2_ok ys"
  shows "ucs2_strcicmp (str_rep xs s) (str_rep ys t) = Some (map ucs2_tolower xs = map ucs2_tolower ys)"
  using assms ucs2_strcicmp_loop_rep [of ys xs 0 s t] map_eq_imp_length_eq [of ucs2_tolower xs ucs2_tolower ys]
  by (auto simp: ucs2_strcicmp_def ucs2_ok_def)

interpretation ucs2_cs: string_order str_rep ucs2_ok id ucs2_strcmp
  ucs2_string_lt ucs2_string_le ucs2_string_gt ucs2_string_ge
proof unfold_locales
  fix xs ys :: "u16 list" and s t :: "u16 cells"
  assume ok: "ucs2_ok xs" "ucs2_ok ys"
  show "ucs2_strcmp (str_rep xs s) (str_rep ys t) = Some (map id xs = map id ys)"
    using ok by (rule ucs2_strcmp_rep)
  note orders = cmp_lists_orders [of xs ys] cmp_lists_orders [of ys xs]
  show "ucs2_string_lt (str_rep xs s) (str_rep ys t) = Some (map id xs < map id ys)"
    "ucs2_string_le (str_rep xs s) (str_rep ys t) = Some (map id xs \<le> map id ys)"
    "ucs2_string_gt (str_rep xs s) (str_rep ys t) = Some (map id ys < map id xs)"
    "ucs2_string_ge (str_rep xs s) (str_rep ys t) = Some (map id ys \<le> map id xs)"
    using ok orders by (simp_all add: ucs2_order_defs ucs2_order_rep)
qed

interpretation ucs2_ci: string_order str_rep ucs2_ok ucs2_tolower ucs2_strcicmp
  ucs2_string_cilt ucs2_string_cile ucs2_string_cigt ucs2_string_cige
proof unfold_locales
  fix xs ys :: "u16 list" and s t :: "u16 cells"
  assume ok: "ucs2_ok xs" "ucs2_ok ys"
  show "ucs2_strcicmp (str_rep xs s) (str_rep ys t) = Some (map ucs2_tolower xs = map ucs2_tolower ys)"
    using ok by (rule ucs2_strcicmp_rep)
  note orders = cmp_lists_orders [of "map ucs2_tolower xs" "map ucs2_tolower ys"]
    cmp_lists_orders [of "map ucs2_tolower ys" "map ucs2_tolower xs"]
  show "ucs2_string_cilt (str_rep xs s) (str_rep ys t) = Some (map ucs2_tolower xs < map ucs2_tolower ys)"
    "ucs2_string_cile (str_rep xs s) (str_rep ys t) = Some (map ucs2_tolower xs \<le> map ucs2_tolower ys)"
    "ucs2_string_cigt (str_rep xs s) (str_rep ys t) = Some (map ucs2_tolower ys < map ucs2_tolower xs)"
    "ucs2_string_cige (str_rep xs s) (str_rep ys t) = Some (map ucs2_tolower ys \<le> map ucs2_tolower xs)"
    using ok orders by (simp_all add: ucs2_order_defs ucs2_order_rep)
qed

text \<open>C34: the comparisons of UCS-2 strings decide the lexicographic order of their characters, and
  the case-insensitive ones that of the characters mapped by \<open>ucs2_tolower\<close>; in both families
  exactly one of less, equal and greater holds.\<close>

theorem ucs2_orders_lexicographic:
  assumes "length xs < 2 ^ 31" and "length ys < 2 ^ 31"
  shows "ucs2_strcmp (str_rep xs s) (str_rep ys t) = Some (xs = ys) \<and>
    ucs2_string_lt (str_rep xs s) (str_rep ys t) = Some (xs < ys) \<and>
    ucs2_string_le (str_rep xs s) (str_rep ys t) = Some (xs \<le> ys) \<and>
    ucs2_string_gt (str_rep xs s) (str_rep ys t) = Some (xs > ys) \<and>
    ucs2_string_ge (str_rep xs s) (str_rep ys t) = Some (xs \<ge> ys) \<and>
    ucs2_strcicmp (str_rep xs s) (str_rep ys t) = Some (map ucs2_tolower xs = map ucs2_tolower ys) \<and>
    ucs2_string_cilt (str_rep xs s) (str_rep ys t) = Some (map ucs2_tolower xs < map ucs2_tolower ys) \<and>
    ucs2_string_cile (str_rep xs s) (str_rep ys t) = Some (map ucs2_tolower xs \<le> map ucs2_tolower ys) \<and>
    ucs2_string_cigt (str_rep xs s) (str_rep ys t) = Some (map ucs2_tolower xs > map ucs2_tolower ys) \<and>
    ucs2_string_cige (str_rep xs s) (str_rep ys t) = Some (map ucs2_tolower xs \<ge> map ucs2_tolower ys) \<and>
    [ucs2_string_cilt (str_rep xs s) (str_rep ys t), ucs2_strcicmp (str_rep xs s) (str_rep ys t),
     ucs2_string_cigt (str_rep xs s) (str_rep ys t)] \<in>
      {[Some True, Some False, Some False], [Some False, Some True, Some False], [Some False, Some False, Some True]}"
proof -
  have ok: "ucs2_ok xs" "ucs2_ok ys" using assms by (simp_all add: ucs2_ok_def)
  show ?thesis
    using ucs2_cs.rep_rules [OF ok, of s t] ucs2_ci.rep_rules [OF ok, of s t] ucs2_ci.trichotomy [OF ok, of s t]
    by simp
qed

lemma ucs2_orders_lexicographic_witness:
  "ucs2_string_lt (bstring_of [97]) (bstring_of [97, 98]) = Some True"
  using ucs2_orders_lexicographic [of "[97]" "[97, 98]" "[]" "[]"] by simp

text \<open>Every lookup of a character's attributes stays inside the three tables, and on the ASCII
  characters the case conversions are those of the C library.\<close>

theorem ucs2_tables_safe:
  "unat (drop_bit 6 ch) < length tab_X \<and> ucs2_index ch < length tab_Y \<and>
   tab_Y ! ucs2_index ch < length tab_A \<and>
   list_all (\<lambda>n. ucs2_tolower (of_nat n) = ucast (tolower (of_nat n)) \<and>
     ucs2_toupper (ucs2_tolower (of_nat n)) =
       (if 97 \<le> n \<and> n \<le> 122 then of_nat (n - 32) else of_nat n)) [0..<128]"
proof -
  have lower: "list_all (\<lambda>n. ucast (tolower (of_nat n)) = (if 65 \<le> n \<and> n \<le> 90 then of_nat (n + 32) else of_nat n :: u16)) [0..<128]"
    by code_simp
  have "ucs2_toupper (ucs2_tolower (of_nat n)) = (if 97 \<le> n \<and> n \<le> 122 then of_nat (n - 32) else of_nat n)"
    if "n < 128" for n
  proof (cases "65 \<le> n \<and> n \<le> 90")
    case True
    then have "n \<in> set [0..<128]" "n + 32 \<in> set [0..<128]" "97 \<le> n + 32 \<and> n + 32 \<le> 122" by simp_all
    then have "ucs2_tolower (of_nat n) = of_nat (n + 32)" "ucs2_toupper (of_nat (n + 32)) = of_nat (n + 32 - 32)"
      using ucs2_case_ascii True unfolding list_all_iff by meson+
    then show ?thesis using True by simp
  next
    case False
    then show ?thesis using ucs2_case_ascii that by (auto simp: list_all_iff)
  qed
  then show ?thesis
    using page_bound [of ch] ucs2_index_bound [of ch] ucs2_attr_bound [of ch] ucs2_case_ascii lower
    by (simp add: list_all_iff)
qed

end
