(* ===== verification/Utf8.thy ===== *)
theory Utf8
  imports Ucs2
begin

text \<open>
  The conversions of \<open>runtime/Clib/cunicode.c\<close> between UCS-2 strings, read as UTF-16, and UTF-8
  strings, with the runtime's private encodings of surrogates that are not paired. The \<open>int\<close> variables are
  HOL integers; the shifts and masks act on them as in C.
\<close>

section \<open>From UCS-2 to UTF-8\<close>

definition utf8_size :: "u16 \<Rightarrow> int" where
  "utf8_size ucs2 =
     (if ucs2 \<le> 0x7f then 1
      else if ucs2 \<le> 0x7ff then 2
      else if ucs2 \<le> 0xd7ff then 3
      else if ucs2 \<le> 0xdbff then 4
      else if ucs2 \<le> 0xdfff then 4
      else if ucs2 \<le> 0xfffd then 3
      else 3)"

definition uchar :: "int \<Rightarrow> u8" where
  "uchar i = word_of_int i"

text \<open>Four consecutive writes of the encoder, from the last to the first.\<close>

definition wr4 :: "u8 cells \<Rightarrow> nat \<Rightarrow> u8 \<Rightarrow> u8 \<Rightarrow> u8 \<Rightarrow> u8 \<Rightarrow> u8 cells option" where
  "wr4 m w b0 b1 b2 b3 = do {
     m \<leftarrow> wr m (w + 3) b3;
     m \<leftarrow> wr m (w + 2) b2;
     m \<leftarrow> wr m (w + 1) b1;
     wr m w b0 }"

text \<open>A surrogate pair: \<open>ucs2\<close> and the following \<open>nu\<close>.\<close>

definition write_pair :: "u16 \<Rightarrow> u16 \<Rightarrow> u8 cells \<Rightarrow> nat \<Rightarrow> u8 cells option" where
  "write_pair ucs2 nu m w =
     (let zzzzzz = uint nu AND 0x3f;
          yyyy = drop_bit 6 (uint nu AND 0x3ff);
          xx = uint ucs2 AND 3;
          wwww = drop_bit 2 (uint ucs2) AND 0xf;
          vvvv = drop_bit 6 (uint ucs2) AND 0xf;
          uuuuu = vvvv + 1 in
      wr4 m w (uchar (0xf0 OR drop_bit 2 uuuuu))
        (uchar (push_bit 4 (uuuuu AND 3) OR wwww) + 0x80)
        (uchar (push_bit 4 xx OR yyyy) + 0x80)
        (uchar (zzzzzz + 0x80)))"

definition write_lone_high :: "u16 \<Rightarrow> u8 cells \<Rightarrow> nat \<Rightarrow> u8 cells option" where
  "write_lone_high ucs2 m w =
     (let xx = uint ucs2 AND 3;
          wwww = drop_bit 2 (uint ucs2) AND 0xf;
          vvvv = drop_bit 6 (uint ucs2) AND 0xf;
          uuuuu = vvvv + 1 in
      wr4 m w 0xf8 (uchar (push_bit 4 (uuuuu AND 3) OR wwww) + 0x80) (uchar (push_bit 4 xx) + 0x80)
        (uchar (0x80 OR drop_bit 2 uuuuu)))"

definition write_lone_low :: "u16 \<Rightarrow> u8 cells \<Rightarrow> nat \<Rightarrow> u8 cells option" where
  "write_lone_low ucs2 m w =
     (let nu = uint ucs2; zzzzzz = nu AND 0x3f; yyyy = drop_bit 6 (nu AND 0x3ff) in
      wr4 m w 0xfc 0x80 (uchar (yyyy + 0x80)) (uchar (zzzzzz + 0x80)))"

text \<open>The cases 3 and \<open>default\<close> of the switch, the first falling into the second.\<close>

definition write_default :: "u16 \<Rightarrow> nat \<Rightarrow> u8 cells \<Rightarrow> nat \<Rightarrow> u8 cells option" where
  "write_default ucs2 ulen m w = do {
     m \<leftarrow> wr m (w + 1) (uchar (0x80 + (uint ucs2 AND 0x3f)));
     wr m w (uchar (0xff - drop_bit ulen 0xff + uint (drop_bit 6 ucs2))) }"

definition write_3 :: "u16 \<Rightarrow> u8 cells \<Rightarrow> nat \<Rightarrow> u8 cells option" where
  "write_3 ucs2 m w = do {
     m \<leftarrow> wr m (w + 2) (uchar (0x80 + (uint ucs2 AND 0x3f)));
     write_default (drop_bit 6 ucs2) 3 m w }"

text \<open>
  One turn of the loop that fills the result: the new values of \<open>read\<close> (before the increment of
  the loop), \<open>write\<close>, \<open>utf8_len\<close> and the bytes.
\<close>

definition encode_step :: "u16 cells \<Rightarrow> int \<Rightarrow> nat \<Rightarrow> nat \<Rightarrow> int \<Rightarrow> u8 cells \<Rightarrow> (nat \<times> nat \<times> int \<times> u8 cells) option" where
  "encode_step cucs2 len read write utf8_len m = do {
     ucs2 \<leftarrow> rd cucs2 read;
     let ulen = utf8_size ucs2;
     if ulen = 1 then do { m \<leftarrow> wr m write (ucast ucs2); Some (read, write + 1, utf8_len, m) }
     else if ulen = 4 then do {
       nu \<leftarrow> (if int read < len - 1 then map_option Some (rd cucs2 (read + 1)) else Some None);
       case nu of
         Some nu \<Rightarrow>
           if 0xdc00 \<le> nu \<and> nu \<le> 0xdfff
           then do { m \<leftarrow> write_pair ucs2 nu m write; Some (read + 1, write + 4, utf8_len - 4, m) }
           else if 0xd800 \<le> ucs2 \<and> ucs2 \<le> 0xdbff
           then do { m \<leftarrow> write_lone_high ucs2 m write; Some (read, write + 4, utf8_len, m) }
           else do { m \<leftarrow> write_lone_low ucs2 m write; Some (read, write + 4, utf8_len, m) }
       | None \<Rightarrow>
           if 0xd800 \<le> ucs2 \<and> ucs2 \<le> 0xdbff
           then do { m \<leftarrow> write_lone_high ucs2 m write; Some (read, write + 4, utf8_len, m) }
           else do { m \<leftarrow> write_lone_low ucs2 m write; Some (read, write + 4, utf8_len, m) } }
     else if ulen = 3 then do { m \<leftarrow> write_3 ucs2 m write; Some (read, write + 3, utf8_len, m) }
     else do { m \<leftarrow> write_default ucs2 (nat ulen) m write; Some (read, write + nat ulen, utf8_len, m) } }"

lemma encode_step_reads: "encode_step c len r w u m = Some (r', s) \<Longrightarrow> r \<le> r'"
  by (auto simp: encode_step_def Let_def split: Option.bind_splits option.splits if_splits)

function encode_loop :: "u16 cells \<Rightarrow> int \<Rightarrow> nat \<Rightarrow> nat \<Rightarrow> int \<Rightarrow> u8 cells \<Rightarrow> (int \<times> u8 cells) option" where
  "encode_loop cucs2 len read write utf8_len m =
     (if int read < len
      then do { (read, write, utf8_len, m) \<leftarrow> encode_step cucs2 len read write utf8_len m;
                encode_loop cucs2 len (read + 1) write utf8_len m }
      else Some (utf8_len, m))"
  by pat_completeness auto
termination
  by (relation "measure (\<lambda>(c, len, r, w, u, m). nat (len - int r))") (auto dest: encode_step_reads)

declare encode_loop.simps [simp del]

definition ucs2_to_utf8_string :: "u16 cells \<Rightarrow> int \<Rightarrow> (failure + bgl_string) option" where
  "ucs2_to_utf8_string cucs2 len = do {
     utf8_len \<leftarrow> for_up 0 len (\<lambda>read utf8_len.
       do { k \<leftarrow> idx read; c \<leftarrow> rd cucs2 k; Some (int32 (utf8_len + utf8_size c)) }) 0;
     r \<leftarrow> make_string utf8_len (of_char CHR ''0'');
     case r of
       Inl e \<Rightarrow> Some (Inl e)
     | Inr result \<Rightarrow>
         if utf8_len = len
         then do {
           m \<leftarrow> for_up 0 len (\<lambda>read m. do { k \<leftarrow> idx read; c \<leftarrow> rd cucs2 k; wr m k (ucast c) }) (char0 result);
           n \<leftarrow> idx len;
           m \<leftarrow> wr m n 0;
           Some (Inr (result\<lparr>char0 := m\<rparr>)) }
         else do {
           (utf8_len, m) \<leftarrow> encode_loop cucs2 len 0 0 utf8_len (char0 result);
           s \<leftarrow> bgl_string_shrink (result\<lparr>char0 := m\<rparr>) utf8_len;
           Some (Inr s) } }"

definition ucs2_string_to_utf8_string :: "bgl_ucs2_string \<Rightarrow> (failure + bgl_string) option" where
  "ucs2_string_to_utf8_string bucs2 = ucs2_to_utf8_string (char0 bucs2) (int32 (int (str_length bucs2)))"

section \<open>From UTF-8 to UCS-2\<close>

text \<open>
  The bytes read from a \<open>char\<close> array are signed, but every use masks them with a value below
  128. The inner loop accumulates the following bytes of a sequence.
\<close>

definition utf8_failure :: "string \<Rightarrow> u8 \<Rightarrow> failure" where
  "utf8_failure msg b = C_Failure ''utf8-string->ucs2-string'' msg (uint b)"

function following_bytes :: "u8 cells \<Rightarrow> nat \<Rightarrow> u8 \<Rightarrow> int \<Rightarrow> nat \<Rightarrow> (failure + nat \<times> int \<times> nat) option" where
  "following_bytes cutf8 read byte ucs2 bits =
     (if byte AND 0x40 \<noteq> 0
      then if read < length cutf8
        then do {
          nxt \<leftarrow> rd cutf8 read;
          if nxt \<le> 0x7f \<or> nxt > 0xbf then Some (Inl (utf8_failure ''Illegal following byte'' nxt))
          else following_bytes cutf8 (read + 1) (push_bit 1 byte) (push_bit 6 ucs2 + (uint nxt AND 0x3f)) (bits + 5) }
        else None
      else Some (Inr (read, ucs2, bits)))"
  by pat_completeness auto
termination
  by (relation "measure (\<lambda>(c, r, b, u, n). length c - r)") auto

declare following_bytes.simps [simp del]

text \<open>One turn of the loop: the new \<open>read\<close>, \<open>write\<close> (before the increment of the loop)
  and \<open>aux\<close>.\<close>

definition decode_step :: "u8 cells \<Rightarrow> nat \<Rightarrow> nat \<Rightarrow> u16 cells \<Rightarrow> (failure + nat \<times> nat \<times> u16 cells) option" where
  "decode_step cutf8 read write aux = do {
     byte \<leftarrow> rd cutf8 read;
     let read = read + 1;
     if byte \<le> 0x7f then do { aux \<leftarrow> wr aux write (ucast byte); Some (Inr (read, write, aux)) }
     else if byte = 0xf8 then do {
       b1 \<leftarrow> rd cutf8 read; b2 \<leftarrow> rd cutf8 (read + 1); b3 \<leftarrow> rd cutf8 (read + 2);
       let u4u3 = push_bit 2 (uint b3 AND 0x3);
       let xx = drop_bit 4 (uint b2) AND 0x3;
       let wwww = uint b1 AND 0xf;
       let u2u1 = drop_bit 4 (uint b1) AND 0x3;
       let uuuu = u4u3 OR u2u1;
       let vvvv = uuuu - 1;
       aux \<leftarrow> wr aux write (word_of_int (xx OR push_bit 2 wwww OR push_bit 6 vvvv OR push_bit 10 0x36));
       Some (Inr (read + 3, write, aux)) }
     else if byte = 0xfc then do {
       b1 \<leftarrow> rd cutf8 read; b2 \<leftarrow> rd cutf8 (read + 1); b3 \<leftarrow> rd cutf8 (read + 2);
       let zzzzzz = uint b3 AND 0x3f;
       let yyyy = uint b2 AND 0xf;
       aux \<leftarrow> wr aux write (word_of_int (zzzzzz OR push_bit 6 yyyy OR push_bit 10 0x37));
       Some (Inr (read + 3, write, aux)) }
     else if byte \<le> 0xbf \<or> byte \<ge> 0xfd then Some (Inl (utf8_failure ''Illegal first byte'' byte))
     else do {
       r \<leftarrow> following_bytes cutf8 read byte (uint byte) 6;
       case r of
         Inl e \<Rightarrow> Some (Inl e)
       | Inr (read, ucs2, bits) \<Rightarrow>
           let ucs2 = ucs2 AND (push_bit bits 1 - 1) in
           if ucs2 \<ge> 0x10000
           then let ucs2 = ucs2 - 0x10000 in do {
             aux \<leftarrow> wr aux write (word_of_int (drop_bit 10 ucs2 + 0xd800));
             aux \<leftarrow> wr aux (write + 1) (word_of_int ((ucs2 AND 0x3FF) + 0xdc00));
             Some (Inr (read, write + 1, aux)) }
           else do { aux \<leftarrow> wr aux write (word_of_int ucs2); Some (Inr (read, write, aux)) } } }"

lemma following_bytes_reads: "following_bytes c r b u n = Some (Inr (r', s)) \<Longrightarrow> r \<le> r'"
proof (induction c r b u n rule: following_bytes.induct)
  case (1 c r b u n)
  then show ?case
    using following_bytes.simps [of c r b u n]
    by (fastforce split: if_splits Option.bind_splits dest: Suc_leD)
qed

lemma decode_step_reads: "decode_step c r w a = Some (Inr (r', s)) \<Longrightarrow> r < r'"
  by (auto simp: decode_step_def Let_def dest!: following_bytes_reads
      split: Option.bind_splits option.splits if_splits sum.splits prod.splits)

function decode_loop :: "u8 cells \<Rightarrow> int \<Rightarrow> nat \<Rightarrow> nat \<Rightarrow> u16 cells \<Rightarrow> (failure + nat \<times> u16 cells) option" where
  "decode_loop cutf8 len read write aux =
     (if int read < len
      then do {
        r \<leftarrow> decode_step cutf8 read write aux;
        case r of Inl e \<Rightarrow> Some (Inl e)
        | Inr (read, write, aux) \<Rightarrow> decode_loop cutf8 len read (write + 1) aux }
      else Some (Inr (write, aux)))"
  by pat_completeness auto
termination
  by (relation "measure (\<lambda>(c, len, r, w, a). nat (len - int r))") (auto dest: decode_step_reads)

declare decode_loop.simps [simp del]

text \<open>The copy leaves the character after the last one, where a terminator would be, unwritten.\<close>

definition utf8_string_to_ucs2_string :: "bgl_string \<Rightarrow> (failure + bgl_ucs2_string) option" where
  "utf8_string_to_ucs2_string butf8 = do {
     let len = int32 (int (str_length butf8));
     n \<leftarrow> idx len;
     r \<leftarrow> decode_loop (char0 butf8) len 0 0 (gc_malloc n);
     case r of Inl e \<Rightarrow> Some (Inl e)
     | Inr (write, aux) \<Rightarrow> do {
         m \<leftarrow> ucs2cpy (gc_malloc (write + 2)) 0 aux 0 write;
         Some (Inr \<lparr>str_length = write, char0 = m\<rparr>) } }"

section \<open>Values of the bit operations\<close>

lemma int_masks:
  fixes i :: int
  shows "i AND 3 = i mod 4" "i AND 0xf = i mod 16" "i AND 0x3f = i mod 64" "i AND 0x3ff = i mod 1024"
    "i AND 0x1f = i mod 32"
proof -
  have m: "mask 2 = (3::int)" "mask 4 = (15::int)" "mask 6 = (63::int)" "mask 10 = (1023::int)" "mask 5 = (31::int)"
    by (simp_all add: mask_eq_exp_minus_1)
  show "i AND 3 = i mod 4" "i AND 0xf = i mod 16" "i AND 0x3f = i mod 64" "i AND 0x3ff = i mod 1024"
    "i AND 0x1f = i mod 32"
    by (simp_all add: m [symmetric] take_bit_eq_mask [symmetric] take_bit_eq_mod)
qed

lemma or_add:
  fixes a b :: int
  assumes "0 \<le> b" and "b < 2 ^ n"
  shows "push_bit n a OR b = a * 2 ^ n + b"
proof -
  have b: "b = take_bit n b" using assms by (simp add: take_bit_int_eq_self)
  have "push_bit n a AND take_bit n b = 0" by (rule bit_eqI) (auto simp: bit_simps)
  then have "push_bit n a AND b = 0" using b by metis
  then show ?thesis by (simp add: disjunctive_add_eq_or [symmetric] push_bit_eq_mult)
qed

lemma uint_uchar: "0 \<le> i \<Longrightarrow> i < 256 \<Longrightarrow> uint (uchar i) = i"
  by (simp add: uchar_def take_bit_int_eq_self unsigned_of_int)

lemma uchar_less: "0 \<le> i \<Longrightarrow> i < 256 \<Longrightarrow> (uchar i \<le> b \<longleftrightarrow> i \<le> uint b)"
  by (simp add: word_le_def uint_uchar)

section \<open>The encodings\<close>

text \<open>UTF-8 for one code point, and the private four-byte forms of unpaired surrogates.\<close>

definition utf8_cp :: "int \<Rightarrow> u8 list" where
  "utf8_cp c =
     (if c < 0x80 then [uchar c]
      else if c < 0x800 then [uchar (0xc0 + c div 64), uchar (0x80 + c mod 64)]
      else if c < 0x10000
      then [uchar (0xe0 + c div 4096), uchar (0x80 + c div 64 mod 64), uchar (0x80 + c mod 64)]
      else [uchar (0xf0 + c div 262144), uchar (0x80 + c div 4096 mod 64),
            uchar (0x80 + c div 64 mod 64), uchar (0x80 + c mod 64)])"

definition high :: "u16 \<Rightarrow> bool" where
  "high x \<longleftrightarrow> 0xd800 \<le> x \<and> x \<le> 0xdbff"

definition low :: "u16 \<Rightarrow> bool" where
  "low x \<longleftrightarrow> 0xdc00 \<le> x \<and> x \<le> 0xdfff"

definition pair_cp :: "u16 \<Rightarrow> u16 \<Rightarrow> int" where
  "pair_cp x y = 0x10000 + (uint x - 0xd800) * 1024 + (uint y - 0xdc00)"

definition lone_high_bytes :: "u16 \<Rightarrow> u8 list" where
  "lone_high_bytes x =
     (let v = uint x div 64 mod 16 + 1 in
      [0xf8, uchar (0x80 + v mod 4 * 16 + uint x div 4 mod 16), uchar (0x80 + uint x mod 4 * 16), uchar (0x80 + v div 4)])"

definition lone_low_bytes :: "u16 \<Rightarrow> u8 list" where
  "lone_low_bytes x = [0xfc, 0x80, uchar (0x80 + uint x mod 1024 div 64), uchar (0x80 + uint x mod 64)]"

definition utf8_unit :: "u16 \<Rightarrow> u8 list" where
  "utf8_unit x = (if high x then lone_high_bytes x else if low x then lone_low_bytes x else utf8_cp (uint x))"

fun utf8_enc :: "u16 list \<Rightarrow> u8 list" where
  "utf8_enc [] = []"
| "utf8_enc [x] = utf8_unit x"
| "utf8_enc (x # y # ys) =
     (if high x \<and> low y then utf8_cp (pair_cp x y) @ utf8_enc ys else utf8_unit x @ utf8_enc (y # ys))"

text \<open>No low surrogate directly after an unpaired low one; and no unpaired surrogate of the last block.\<close>

fun no_low_low :: "u16 list \<Rightarrow> bool" where
  "no_low_low (x # y # ys) \<longleftrightarrow>
     (if high x \<and> low y then no_low_low ys else \<not> (low x \<and> low y) \<and> no_low_low (y # ys))"
| "no_low_low _ \<longleftrightarrow> True"

fun no_lone_last :: "u16 list \<Rightarrow> bool" where
  "no_lone_last [] \<longleftrightarrow> True"
| "no_lone_last [x] \<longleftrightarrow> \<not> (high x \<and> 0xdbc0 \<le> x)"
| "no_lone_last (x # y # ys) \<longleftrightarrow>
     (if high x \<and> low y then no_lone_last ys else \<not> (high x \<and> 0xdbc0 \<le> x) \<and> no_lone_last (y # ys))"

section \<open>The encoder writes the encoding\<close>

fun put :: "'a cells \<Rightarrow> nat \<Rightarrow> 'a list \<Rightarrow> 'a cells" where
  "put m w [] = m"
| "put m w (b # bs) = (put m (Suc w) bs)[w := Some b]"

lemma length_put [simp]: "length (put m w bs) = length m"
  by (induction bs arbitrary: w) auto

lemma put_append: "put (put m w as) (w + length as) bs = put m w (as @ bs)"
proof (induction as arbitrary: w)
  case (Cons a as)
  have swap: "put (m'[k := v]) j bs = (put m' j bs)[k := v]" if "k < j" for m' :: "'a cells" and k j v
    using that by (induction bs arbitrary: j) (auto simp: list_update_swap)
  have "put ((put m (Suc w) as)[w := Some a]) (Suc w + length as) bs =
      (put (put m (Suc w) as) (Suc w + length as) bs)[w := Some a]"
    by (rule swap) simp
  then show ?case using Cons.IH [of "Suc w"] by simp
qed simp

lemma put_eq: "w + length bs \<le> length m \<Longrightarrow> put m w bs = take w m @ map Some bs @ drop (w + length bs) m"
proof (induction bs arbitrary: w)
  case (Cons b bs)
  then have "put m (Suc w) bs = take (Suc w) m @ map Some bs @ drop (Suc w + length bs) m" by simp
  moreover have "take (Suc w) m = take w m @ [m ! w]" using Cons.prems by (simp add: take_Suc_conv_app_nth)
  ultimately show ?case using Cons.prems by (simp add: list_update_append)
qed simp

lemma wr4_put: "w + 3 < length m \<Longrightarrow> wr4 m w b0 b1 b2 b3 = Some (put m w [b0, b1, b2, b3])"
  by (simp add: wr4_def numeral_3_eq_3)

lemma uint_u16: "0 \<le> uint (x :: u16)" "uint (x :: u16) < 65536"
  using uint_lt2p [of x] by simp_all

lemma unit_ranges:
  "x \<le> 0x7f \<longleftrightarrow> uint (x :: u16) < 0x80" "x \<le> 0x7ff \<longleftrightarrow> uint x < 0x800" "x \<le> 0xd7ff \<longleftrightarrow> uint x < 0xd800"
  "x \<le> 0xdbff \<longleftrightarrow> uint x < 0xdc00" "x \<le> 0xdfff \<longleftrightarrow> uint x < 0xe000" "0xd800 \<le> x \<longleftrightarrow> 0xd800 \<le> uint x"
  "0xdc00 \<le> x \<longleftrightarrow> 0xdc00 \<le> uint x" "0xdbc0 \<le> x \<longleftrightarrow> 0xdbc0 \<le> uint x"
  by (auto simp: word_le_def)

lemma uint_drop_bit: "uint (drop_bit n (x :: 'a::len word)) = drop_bit n (uint x)"
  by (rule bit_eqI) (auto simp: bit_simps)

lemma uchar_add: "uchar i + uchar j = uchar (i + j)"
  by (simp add: uchar_def)

lemma uchar_80: "uchar i + 0x80 = uchar (0x80 + i)"
  by (simp add: uchar_def)

lemma write_default_put:
  assumes "w + 1 < length m" and "uint x < 0x800"
  shows "write_default x 2 m w = Some (put m w [uchar (0xc0 + uint x div 64), uchar (0x80 + uint x mod 64)])"
  using assms by (simp add: write_default_def int_masks uint_drop_bit drop_bit_eq_div [where ?'a = int])

lemma write_3_put:
  assumes "w + 2 < length m"
  shows "write_3 x m w = Some (put m w [uchar (0xe0 + uint x div 4096), uchar (0x80 + uint x div 64 mod 64), uchar (0x80 + uint x mod 64)])"
proof -
  have "uint (drop_bit 6 (drop_bit 6 x)) = uint x div 4096" "uint (drop_bit 6 x) = uint x div 64"
    by (simp_all only: uint_drop_bit drop_bit_drop_bit) (simp_all add: drop_bit_eq_div)
  then show ?thesis
    using assms by (simp add: write_3_def write_default_def int_masks numeral_2_eq_2 drop_bit_eq_div)
qed

lemma div_64:
  fixes c :: int
  shows "c div 4096 = c div 64 div 64" and "c div 262144 = c div 64 div 64 div 64"
proof -
  have "c div (64 * 64) = c div 64 div 64" "c div 64 div (64 * 64) = c div 64 div 64 div 64"
    "c div (64 * (64 * 64)) = c div 64 div (64 * 64)"
    by (rule zdiv_zmult2_eq; simp)+
  then show "c div 4096 = c div 64 div 64" "c div 262144 = c div 64 div 64 div 64"
    by (simp_all only: mult_numeral_1 arith_simps)
qed

lemma base64:
  fixes d0 d1 d2 d3 :: int
  assumes "0 \<le> d1" "d1 < 64" "0 \<le> d2" "d2 < 64" "0 \<le> d3" "d3 < 64"
    and c: "c = d0 * 262144 + d1 * 4096 + d2 * 64 + d3"
  shows "c mod 64 = d3" "c div 64 mod 64 = d2" "c div 4096 mod 64 = d1" "c div 262144 = d0"
proof -
  have dm: "(r + 64 * k) mod 64 = r \<and> (r + 64 * k) div 64 = k" if "0 \<le> r" "r < 64" for r k :: int
    using that by simp
  have c1: "c = d3 + 64 * (d2 + 64 * (d1 + 64 * d0))" by (simp add: c)
  have 1: "c mod 64 = d3" "c div 64 = d2 + 64 * (d1 + 64 * d0)"
    unfolding c1 using dm [OF assms(5,6)] by blast+
  have 2: "c div 64 mod 64 = d2" "c div 64 div 64 = d1 + 64 * d0"
    unfolding 1 using dm [OF assms(3,4)] by blast+
  have 3: "c div 64 div 64 mod 64 = d1" "c div 64 div 64 div 64 = d0"
    unfolding 2 using dm [OF assms(1,2)] by blast+
  note 4 = div_64 [of c]
  show "c mod 64 = d3" "c div 64 mod 64 = d2" by (rule 1(1), rule 2(1))
  show "c div 4096 mod 64 = d1" "c div 262144 = d0" unfolding 4 by (rule 3(1), rule 3(2))
qed

text \<open>The fields of a 16-bit unit.\<close>

lemma unit_fields:
  fixes i :: int
  shows "i = 1024 * (i div 1024) + 64 * (i div 64 mod 16) + 4 * (i div 4 mod 16) + i mod 4"
    and "i = 1024 * (i div 1024) + 64 * (i div 64 mod 16) + i mod 64"
    and "i mod 1024 div 64 = i div 64 mod 16"
proof -
  have 1: "i div 64 = 16 * (i div 1024) + i div 64 mod 16"
    using div_mult_mod_eq [of "i div 64" 16] by (simp add: zdiv_zmult2_eq [symmetric])
  have 2: "i div 4 = 16 * (i div 64) + i div 4 mod 16"
    using div_mult_mod_eq [of "i div 4" 16] by (simp add: zdiv_zmult2_eq [symmetric])
  have 3: "i = 4 * (i div 4) + i mod 4" "i = 64 * (i div 64) + i mod 64" by simp_all
  from 1 2 3 show "i = 1024 * (i div 1024) + 64 * (i div 64 mod 16) + 4 * (i div 4 mod 16) + i mod 4"
    and 4: "i = 1024 * (i div 1024) + 64 * (i div 64 mod 16) + i mod 64"
    by linarith+
  have "i mod 1024 = i mod 64 + (i div 64 mod 16) * 64"
    using 4 div_mult_mod_eq [of i 1024] by linarith
  then show "i mod 1024 div 64 = i div 64 mod 16" by simp
qed

lemma high_low_bits:
  "high x \<Longrightarrow> uint x div 1024 = 54" "low x \<Longrightarrow> uint x div 1024 = 55"
  by (auto simp: high_def low_def unit_ranges)

lemma write_pair_put:
  assumes "w + 3 < length m" and "high x" and "low y"
  shows "write_pair x y m w = Some (put m w (utf8_cp (pair_cp x y)))"
proof -
  define v q t f z where "v = uint x div 64 mod 16" and "q = uint x div 4 mod 16" and "t = uint x mod 4"
    and "f = uint y div 64 mod 16" and "z = uint y mod 64"
  note defs = v_def q_def t_def f_def z_def
  have ranges: "0 \<le> v" "v < 16" "0 \<le> q" "q < 16" "0 \<le> t" "t < 4" "0 \<le> f" "f < 16" "0 \<le> z" "z < 64"
    by (simp_all add: defs)
  have xy: "uint x = 55296 + 64 * v + 4 * q + t" "uint y = 56320 + 64 * f + z"
    using unit_fields(1) [of "uint x"] unit_fields(2) [of "uint y"] high_low_bits(1) [OF assms(2)]
      high_low_bits(2) [OF assms(3)] unfolding defs by linarith+
  have parts: "uint y AND 0x3f = z" "drop_bit 6 (uint y AND 0x3ff) = f" "uint x AND 3 = t"
    "drop_bit 2 (uint x) AND 0xf = q" "drop_bit 6 (uint x) AND 0xf = v"
    by (simp_all add: int_masks drop_bit_eq_div defs unit_fields(3))
  define u0 u1 where "u0 = (v + 1) mod 4" and "u1 = (v + 1) div 4"
  have u: "v + 1 = 4 * u1 + u0" "0 \<le> u0" "u0 < 4" by (simp_all add: u0_def u1_def)
  then have u1: "0 \<le> u1" "u1 < 5" using ranges by linarith+
  have cp: "pair_cp x y = u1 * 262144 + (u0 * 16 + q) * 4096 + (t * 16 + f) * 64 + z"
    using xy u(1) by (simp add: pair_cp_def algebra_simps)
  have cp_bytes: "utf8_cp (pair_cp x y) = [uchar (0xf0 + u1), uchar (0x80 + (u0 * 16 + q)), uchar (0x80 + (t * 16 + f)), uchar (0x80 + z)]"
  proof -
    have big: "\<not> pair_cp x y < 0x10000" using xy ranges by (simp add: pair_cp_def)
    have "0 \<le> u0 * 16 + q" "u0 * 16 + q < 64" "0 \<le> t * 16 + f" "t * 16 + f < 64"
      using ranges u by linarith+
    note d = base64 [OF this ranges(9,10) cp]
    show ?thesis unfolding utf8_cp_def using big by (simp add: d)
  qed
  have ors: "0xf0 OR u1 = 0xf0 + u1" "push_bit 4 u0 OR q = u0 * 16 + q" "push_bit 4 t OR f = t * 16 + f"
    using or_add [of u1 4 15] or_add [of q 4 u0] or_add [of f 4 t] ranges u1 by simp_all
  have us: "drop_bit 2 (v + 1) = u1" "(v + 1) AND 3 = u0"
    by (simp_all add: int_masks drop_bit_eq_div u0_def u1_def)
  show ?thesis
    unfolding write_pair_def Let_def parts us ors uchar_80 cp_bytes
    using assms(1) by (simp add: wr4_put add.commute)
qed

lemma write_lone_high_put:
  assumes "w + 3 < length m"
  shows "write_lone_high x m w = Some (put m w (lone_high_bytes x))"
proof -
  define v q where "v = uint x div 64 mod 16" and "q = uint x div 4 mod 16"
  have v: "0 \<le> v" "v < 16" "0 \<le> q" "q < 16" by (simp_all add: v_def q_def)
  have u1: "0 \<le> (v + 1) div 4" "(v + 1) div 4 < 16" using v by simp_all
  have ors: "push_bit 4 ((v + 1) mod 4) OR q = (v + 1) mod 4 * 16 + q"
    "0x80 OR (v + 1) div 4 = 0x80 + (v + 1) div 4"
    using or_add [of q 4 "(v + 1) mod 4"] or_add [of "(v + 1) div 4" 4 8] v u1 by simp_all
  have t: "push_bit 4 (uint x mod 4) = uint x mod 4 * 16" by (simp add: push_bit_eq_mult)
  have d: "drop_bit 6 (uint x) = uint x div 64" "drop_bit 2 (uint x) = uint x div 4" "drop_bit 2 (v + 1) = (v + 1) div 4"
    by (simp_all add: drop_bit_eq_div)
  show ?thesis
    unfolding write_lone_high_def lone_high_bytes_def Let_def int_masks uchar_80 d
    unfolding v_def [symmetric] q_def [symmetric] d ors t
    using wr4_put [OF assms] by (simp add: add.assoc)
qed

lemma write_lone_low_put:
  "w + 3 < length m \<Longrightarrow> write_lone_low x m w = Some (put m w (lone_low_bytes x))"
  unfolding write_lone_low_def lone_low_bytes_def Let_def int_masks drop_bit_eq_div [where ?'a = int]
  by (simp add: wr4_put add.commute)

lemma length_utf8_unit: "length (utf8_unit x) = nat (utf8_size x)"
  using uint_u16 [of x]
  by (auto simp: utf8_unit_def utf8_size_def utf8_cp_def lone_high_bytes_def lone_low_bytes_def high_def low_def
      unit_ranges Let_def)

lemma utf8_size_bounds: "1 \<le> utf8_size x" "utf8_size x \<le> 4"
  by (auto simp: utf8_size_def)

lemma length_pair_bytes:
  assumes "high x" and "low y"
  shows "length (utf8_cp (pair_cp x y)) = 4"
  using assms by (simp add: utf8_cp_def pair_cp_def high_def low_def unit_ranges)

lemma size_4: "utf8_size x = 4 \<longleftrightarrow> high x \<or> low x"
  by (auto simp: utf8_size_def high_def low_def unit_ranges)

lemma encode_step_pair:
  assumes "rd c r = Some x" and "rd c (Suc r) = Some y" and "int r < len - 1"
    and "high x" and "low y" and "w + 3 < length m"
  shows "encode_step c len r w u m = Some (Suc r, w + 4, u - 4, put m w (utf8_cp (pair_cp x y)))"
  using assms size_4 [of x] write_pair_put [of w m x y]
  by (simp add: encode_step_def low_def Let_def)

lemma encode_step_single:
  assumes x: "rd c r = Some x"
    and y: "int r < len - 1 \<Longrightarrow> \<exists>y. rd c (Suc r) = Some y \<and> \<not> ((high x \<or> low x) \<and> low y)"
    and w: "w + nat (utf8_size x) \<le> length m"
  shows "encode_step c len r w u m = Some (r, w + length (utf8_unit x), u, put m w (utf8_unit x))"
proof -
  consider (one) "uint x < 0x80" | (two) "0x80 \<le> uint x" "uint x < 0x800"
    | (three) "0x800 \<le> uint x" "\<not> high x" "\<not> low x" | (high) "high x" | (low) "low x" "\<not> high x"
    by linarith
  then show ?thesis
  proof cases
    case one
    then have "utf8_size x = 1" "utf8_unit x = [ucast x]"
      using uint_u16 [of x]
      by (simp_all add: utf8_size_def utf8_unit_def utf8_cp_def high_def low_def unit_ranges uchar_def)
    then show ?thesis using x w by (simp add: encode_step_def Let_def)
  next
    case two
    then have "utf8_size x = 2" "utf8_unit x = [uchar (0xc0 + uint x div 64), uchar (0x80 + uint x mod 64)]"
      by (simp_all add: utf8_size_def utf8_unit_def utf8_cp_def high_def low_def unit_ranges)
    then show ?thesis using x w write_default_put [of w m x] two by (simp add: encode_step_def Let_def)
  next
    case three
    then have "utf8_size x = 3"
      "utf8_unit x = [uchar (0xe0 + uint x div 4096), uchar (0x80 + uint x div 64 mod 64), uchar (0x80 + uint x mod 64)]"
      using uint_u16 [of x] by (auto simp: utf8_size_def utf8_unit_def utf8_cp_def high_def low_def unit_ranges)
    then show ?thesis using x w write_3_put [of w m x] by (simp add: encode_step_def Let_def)
  next
    case high
    then have s: "utf8_size x = 4" "utf8_unit x = lone_high_bytes x" "length (lone_high_bytes x) = 4"
      "0xd800 \<le> x \<and> x \<le> 0xdbff"
      by (simp_all add: size_4 utf8_unit_def lone_high_bytes_def high_def Let_def)
    show ?thesis
    proof (cases "int r < len - 1")
      case True
      then obtain z where "rd c (Suc r) = Some z" "\<not> low z" using y high by blast
      with True x w s write_lone_high_put [of w m x] show ?thesis
        unfolding low_def by (auto simp: encode_step_def Let_def)
    next
      case False
      with x w s write_lone_high_put [of w m x] show ?thesis by (simp add: encode_step_def Let_def)
    qed
  next
    case low
    then have s: "utf8_size x = 4" "utf8_unit x = lone_low_bytes x" "length (lone_low_bytes x) = 4"
      "\<not> (0xd800 \<le> x \<and> x \<le> 0xdbff)"
      using low by (auto simp: size_4 utf8_unit_def lone_low_bytes_def high_def)
    show ?thesis
    proof (cases "int r < len - 1")
      case True
      then obtain z where "rd c (Suc r) = Some z" "\<not> low z" using y low by blast
      with True x w s write_lone_low_put [of w m x] show ?thesis
        unfolding low_def by (auto simp: encode_step_def Let_def)
    next
      case False
      with x w s write_lone_low_put [of w m x] show ?thesis by (auto simp: encode_step_def Let_def)
    qed
  qed
qed

section \<open>The encoding loop\<close>

lemma encode_loop_run:
  assumes "no_low_low xs"
  shows "c = map Some (pre @ xs @ [0]) @ sl \<Longrightarrow> w + nat (sum_list (map utf8_size xs)) \<le> length m \<Longrightarrow>
    u = int w + sum_list (map utf8_size xs) \<Longrightarrow>
    encode_loop c (int (length pre + length xs)) (length pre) w u m =
      Some (int (w + length (utf8_enc xs)), put m w (utf8_enc xs))"
  using assms
proof (induction xs arbitrary: pre w u m rule: utf8_enc.induct)
  case 1
  then show ?case by (simp add: encode_loop.simps)
next
  case (2 x)
  have "rd c (length pre) = Some x" by (simp add: 2 mem_simps)
  then have "encode_step c (int (length pre + 1)) (length pre) w u m =
      Some (length pre, w + length (utf8_unit x), u, put m w (utf8_unit x))"
    using 2 by (intro encode_step_single) simp_all
  then show ?case using 2 utf8_size_bounds [of x]
    by (subst encode_loop.simps) (simp add: encode_loop.simps length_utf8_unit)
next
  case (3 x y ys)
  have r: "rd c (length pre) = Some x" "rd c (Suc (length pre)) = Some y"
    by (simp_all add: 3 mem_simps)
  have sizes: "0 \<le> sum_list (map utf8_size zs)" for zs
    by (rule sum_list_nonneg) (auto simp: utf8_size_def)
  let ?len = "int (length pre + length (x # y # ys))"
  show ?case
  proof (cases "high x \<and> low y")
    case True
    have w: "w + 8 + nat (sum_list (map utf8_size ys)) \<le> length m"
      using 3(4) True sizes [of ys] size_4 [of x] size_4 [of y] by simp
    have "encode_step c ?len (length pre) w u m = Some (Suc (length pre), w + 4, u - 4, put m w (utf8_cp (pair_cp x y)))"
      using r True w by (intro encode_step_pair) simp_all
    moreover have "encode_loop c (int (length (pre @ [x, y]) + length ys)) (length (pre @ [x, y])) (w + 4) (u - 4)
        (put m w (utf8_cp (pair_cp x y))) =
        Some (int (w + 4 + length (utf8_enc ys)), put (put m w (utf8_cp (pair_cp x y))) (w + 4) (utf8_enc ys))"
      using 3(3,5,6) True w size_4 [of x] size_4 [of y] by (intro 3(1)) simp_all
    ultimately show ?thesis
      using True put_append [of m w "utf8_cp (pair_cp x y)" "utf8_enc ys"] length_pair_bytes [of x y]
      by (subst encode_loop.simps) simp
  next
    case False
    have w: "w + nat (utf8_size x) + nat (sum_list (map utf8_size (y # ys))) \<le> length m"
      using 3(4) sizes [of "y # ys"] utf8_size_bounds [of x] by (simp add: nat_add_distrib)
    have "encode_step c ?len (length pre) w u m = Some (length pre, w + length (utf8_unit x), u, put m w (utf8_unit x))"
      using r False w 3(6) by (intro encode_step_single) auto
    moreover have "encode_loop c (int (length (pre @ [x]) + length (y # ys))) (length (pre @ [x])) (w + length (utf8_unit x)) u
        (put m w (utf8_unit x)) =
        Some (int (w + length (utf8_unit x) + length (utf8_enc (y # ys))),
          put (put m w (utf8_unit x)) (w + length (utf8_unit x)) (utf8_enc (y # ys)))"
      using 3(3,5,6) False w utf8_size_bounds [of x] by (intro 3(2)) (simp_all add: length_utf8_unit)
    ultimately show ?thesis
      using False put_append [of m w "utf8_unit x" "utf8_enc (y # ys)"]
      by (subst encode_loop.simps) auto
  qed
qed

lemma sum_sizes: "int (length xs) \<le> sum_list (map utf8_size xs)" "sum_list (map utf8_size xs) \<le> 4 * int (length xs)"
  by (induction xs) (use utf8_size_bounds in \<open>auto intro: add_mono\<close>)

lemma sum_sizes_ascii:
  "sum_list (map utf8_size xs) = int (length xs) \<longleftrightarrow> (\<forall>x\<in>set xs. utf8_size x = 1)"
proof (induction xs)
  case (Cons x xs)
  then show ?case using sum_sizes(1) [of xs] utf8_size_bounds(1) [of x] by auto
qed simp

lemma ascii_unit:
  assumes "utf8_size x = 1"
  shows "utf8_unit x = [ucast x]" and "\<not> high x"
proof -
  have "uint x < 0x80" using assms by (auto simp: utf8_size_def unit_ranges split: if_splits)
  then show "utf8_unit x = [ucast x]" "\<not> high x"
    by (simp_all add: utf8_unit_def utf8_cp_def high_def low_def unit_ranges uchar_def)
qed

lemma ascii_enc: "\<forall>x\<in>set xs. utf8_size x = 1 \<Longrightarrow> utf8_enc xs = map ucast xs"
  by (induction xs rule: utf8_enc.induct) (simp_all add: ascii_unit)

lemma length_enc: "int (length (utf8_enc xs)) \<le> sum_list (map utf8_size xs)"
proof (induction xs rule: utf8_enc.induct)
  case (2 x)
  then show ?case using utf8_size_bounds [of x] by (simp add: length_utf8_unit)
next
  case (3 x y ys)
  then show ?case using utf8_size_bounds [of x] size_4 [of x] size_4 [of y] length_pair_bytes [of x y]
    by (auto simp: length_utf8_unit)
qed simp

lemma sizes_loop:
  assumes "length xs < 2 ^ 29"
  shows "for_up 0 (int (length xs)) (\<lambda>read utf8_len.
       do { k \<leftarrow> idx read; c \<leftarrow> rd (c_string xs @ sl) k; Some (int32 (utf8_len + utf8_size c)) }) 0 =
    Some (sum_list (map utf8_size xs))"
proof -
  have "for_up (int 0) (int (length xs)) (\<lambda>read utf8_len.
       do { k \<leftarrow> idx read; c \<leftarrow> rd (c_string xs @ sl) k; Some (int32 (utf8_len + utf8_size c)) }) 0 =
      Some (fold (\<lambda>c u. int32 (u + utf8_size c)) (take (length xs - 0) (drop 0 xs)) 0)"
    by (rule for_up_fold) (simp_all add: mem_simps)
  moreover have "fold (\<lambda>c u. int32 (u + utf8_size c)) ys a = a + sum_list (map utf8_size ys)"
    if "0 \<le> a" "a + sum_list (map utf8_size ys) < 2 ^ 31" for ys a
    using that
  proof (induction ys arbitrary: a)
    case (Cons y ys)
    then show ?case using utf8_size_bounds(1) [of y] sum_sizes(1) [of ys] by simp
  qed simp
  from this [of 0 xs] have "fold (\<lambda>c u. int32 (u + utf8_size c)) xs 0 = sum_list (map utf8_size xs)"
    using assms sum_sizes(2) [of xs] by simp
  ultimately show ?thesis by simp
qed

lemma shrink_encoded:
  assumes "length bs \<le> n" and "length m = Suc n" and "m ! n = Some 0"
  shows "\<exists>sl. bgl_string_shrink \<lparr>str_length = n, char0 = put m 0 bs\<rparr> (int (length bs)) = Some (str_rep bs sl)"
proof (cases "length bs < n")
  case True
  then have "drop (length bs) m = m ! length bs # drop (Suc (length bs)) m"
    using assms(2) by (simp add: Cons_nth_drop_Suc)
  with True assms(2) show ?thesis
    by (auto simp: bgl_string_shrink_def put_eq str_rep_def c_string_def list_update_append)
next
  case False
  then have "length bs = n" using assms(1) by simp
  moreover have "drop n m = [Some 0]" using assms(2,3) by (simp add: Cons_nth_drop_Suc [symmetric])
  ultimately show ?thesis
    using assms(2) by (auto simp: bgl_string_shrink_def put_eq str_rep_def c_string_def)
qed

lemma ucs2_to_utf8_rep:
  assumes "length xs < 2 ^ 29" and "no_low_low xs"
  shows "\<exists>sl'. ucs2_string_to_utf8_string (str_rep xs sl) = Some (Inr (str_rep (utf8_enc xs) sl'))"
proof -
  let ?c = "c_string xs @ sl" and ?S = "sum_list (map utf8_size xs)"
  define n where "n = nat ?S"
  have S: "?S = int n" using sum_sizes(1) [of xs] by (simp add: n_def)
  have buf: "make_string ?S (of_char CHR ''0'') = Some (Inr (bstring_of (replicate n (of_char CHR ''0''))))"
    unfolding S by (rule make_string_rep)
  let ?m = "c_string (replicate n (of_char CHR ''0'')) :: u8 cells"
  show ?thesis
  proof (cases "?S = int (length xs)")
    case True
    then have n: "n = length xs" by (simp add: n_def)
    have "for_up 0 (int (length xs)) (\<lambda>read m. do { k \<leftarrow> idx read; c \<leftarrow> rd ?c k; wr m k (ucast c) }) ?m =
        Some (map (Some \<circ> (\<lambda>k. ucast (xs ! k))) [0..<length xs] @ drop (length xs) ?m)"
      by (rule for_up_fill) (simp_all add: mem_simps n)
    moreover have "map (Some \<circ> (\<lambda>k. ucast (xs ! k))) [0..<length xs] = map Some (map ucast xs)"
      by (intro nth_equalityI) simp_all
    moreover have "drop (length xs) ?m = [Some 0]" by (simp add: c_string_def n)
    ultimately have "ucs2_to_utf8_string ?c (int (length xs)) = Some (Inr (bstring_of (map ucast xs)))"
      unfolding ucs2_to_utf8_string_def sizes_loop [OF assms(1)]
      using buf True n by (simp add: str_rep_def c_string_def list_update_append del: map_map)
    then show ?thesis
      using assms(1) True sum_sizes_ascii [of xs] ascii_enc [of xs] by (auto simp: ucs2_string_to_utf8_string_def)
  next
    case False
    have "length ?m = Suc n" "?m ! n = Some 0" by (simp_all add: c_string_def nth_append)
    moreover have "length (utf8_enc xs) \<le> n" using length_enc [of xs] S by simp
    ultimately obtain sl' where sl': "bgl_string_shrink \<lparr>str_length = n, char0 = put ?m 0 (utf8_enc xs)\<rparr>
        (int (length (utf8_enc xs))) = Some (str_rep (utf8_enc xs) sl')"
      using shrink_encoded by blast
    have "encode_loop ?c (int (length xs)) 0 0 ?S ?m = Some (int (length (utf8_enc xs)), put ?m 0 (utf8_enc xs))"
      using encode_loop_run [OF assms(2), of ?c "[]" sl 0 ?m ?S] S by (simp add: c_string_def)
    then have "ucs2_to_utf8_string ?c (int (length xs)) = Some (Inr (str_rep (utf8_enc xs) sl'))"
      unfolding ucs2_to_utf8_string_def sizes_loop [OF assms(1)]
      using buf False sl' by (simp add: str_rep_def)
    then show ?thesis using assms(1) by (auto simp: ucs2_string_to_utf8_string_def)
  qed
qed

section \<open>The decoder reads it back\<close>

lemma uchar_simps:
  assumes "0 \<le> i" and "i < 256"
  shows "uchar i \<le> b \<longleftrightarrow> i \<le> uint b" and "b \<le> uchar i \<longleftrightarrow> uint b \<le> i"
    and "b < uchar i \<longleftrightarrow> uint b < i" and "uchar i = b \<longleftrightarrow> i = uint b"
proof -
  have "uchar (uint b) = b" by (simp add: uchar_def)
  then show "uchar i \<le> b \<longleftrightarrow> i \<le> uint b" and "b \<le> uchar i \<longleftrightarrow> uint b \<le> i"
    and "b < uchar i \<longleftrightarrow> uint b < i" and "uchar i = b \<longleftrightarrow> i = uint b"
    using assms by (auto simp: word_le_def word_less_def uint_uchar)
qed

lemma lead_bits:
  assumes "0 \<le> i" and "i < 256" and "k \<le> 6"
  shows "push_bit k (uchar i) AND 0x40 \<noteq> 0 \<longleftrightarrow> odd (i div 2 ^ (6 - k))"
proof -
  have "(push_bit k (uchar i) AND 0x40 \<noteq> 0) = bit (push_bit k (uchar i)) 6"
    using and_exp_eq_0_iff_not_bit [of "push_bit k (uchar i)" 6] by simp
  also have "\<dots> = bit (uchar i) (6 - k)" using assms(3) by (simp add: bit_simps)
  also have "\<dots> = odd (i div 2 ^ (6 - k))"
    using le_less_trans [OF diff_le_self, of 6 8 k] by (simp add: uchar_def bit_word_of_int_iff bit_iff_odd [where ?'a = int])
  finally show ?thesis .
qed

lemma follow_next:
  assumes "b AND 0x40 \<noteq> 0" and "rd c r = Some (uchar (0x80 + d))" and "0 \<le> d" and "d < 64"
  shows "following_bytes c r b u n = following_bytes c (Suc r) (push_bit 1 b) (u * 64 + d) (n + 5)"
proof -
  have r: "r < length c" using assms(2) by (auto simp: rd_def split: if_splits)
  have "(d + 64 * 2) mod 64 = d" using assms(3,4) by (simp only: mod_mult_self2) simp
  then have u: "uint (uchar (0x80 + d)) AND 0x3f = d"
    using assms(3,4) by (simp add: uint_uchar int_masks add.commute)
  have range: "\<not> (uchar (0x80 + d) \<le> 0x7f \<or> uchar (0x80 + d) > 0xbf)"
    using assms(3,4) by (simp add: uchar_simps)
  have p: "push_bit 6 u + d = u * 64 + d" by (simp add: push_bit_eq_mult)
  show ?thesis
    unfolding following_bytes.simps [of c r b u n] using assms(1,2) r range by (simp only: u p bind.bind_lunit if_True if_False not_False_eq_True) simp
qed

lemma follow_end: "b AND 0x40 = 0 \<Longrightarrow> following_bytes c r b u n = Some (Inr (r, u, n))"
  by (subst following_bytes.simps) simp

lemma and_mask_mod: "u AND (push_bit n 1 - 1) = u mod 2 ^ n" for u :: int
  by (simp add: push_bit_eq_mult take_bit_eq_mod [symmetric] take_bit_eq_mask mask_eq_exp_minus_1)

lemma follow_2:
  assumes "0 \<le> a" "a < 32" "0 \<le> d" "d < 64" and "rd c r = Some (uchar (0x80 + d))"
  shows "following_bytes c r (uchar (0xc0 + a)) (0xc0 + a) 6 = Some (Inr (Suc r, (0xc0 + a) * 64 + d, 11))"
proof -
  have "(0xc0 + a) div 64 = 3" "(0xc0 + a) div 32 = 6" using assms(1,2) by simp_all
  then have "uchar (0xc0 + a) AND 0x40 \<noteq> 0" "push_bit 1 (uchar (0xc0 + a)) AND 0x40 = 0"
    using assms(1,2) lead_bits [of "0xc0 + a" 0] lead_bits [of "0xc0 + a" 1] by simp_all
  then show ?thesis
    using follow_next [OF _ assms(5,3,4)] follow_end by simp
qed

lemma follow_3:
  assumes "0 \<le> a" "a < 16" "0 \<le> d" "d < 64" "0 \<le> e" "e < 64"
    and "rd c r = Some (uchar (0x80 + d))" "rd c (Suc r) = Some (uchar (0x80 + e))"
  shows "following_bytes c r (uchar (0xe0 + a)) (0xe0 + a) 6 =
    Some (Inr (Suc (Suc r), ((0xe0 + a) * 64 + d) * 64 + e, 16))"
proof -
  let ?b = "uchar (0xe0 + a)"
  have "(0xe0 + a) div 64 = 3" "(0xe0 + a) div 32 = 7" "(0xe0 + a) div 16 = 14" using assms(1,2) by simp_all
  then have b: "?b AND 0x40 \<noteq> 0" "push_bit 1 ?b AND 0x40 \<noteq> 0" "push_bit 2 ?b AND 0x40 = 0"
    using assms(1,2) lead_bits [of "0xe0 + a" 0] lead_bits [of "0xe0 + a" 1] lead_bits [of "0xe0 + a" 2] by simp_all
  have "push_bit 1 (push_bit 1 ?b) = push_bit 2 ?b" by (simp only: push_bit_push_bit) (simp add: numeral_2_eq_2)
  then show ?thesis
    using follow_next [OF b(1) assms(7,3,4)] follow_next [OF b(2) assms(8,5,6)] follow_end [OF b(3)] by simp
qed

lemma follow_4:
  assumes "0 \<le> a" "a < 8" "0 \<le> d" "d < 64" "0 \<le> e" "e < 64" "0 \<le> f" "f < 64"
    and "rd c r = Some (uchar (0x80 + d))" "rd c (Suc r) = Some (uchar (0x80 + e))"
    and "rd c (Suc (Suc r)) = Some (uchar (0x80 + f))"
  shows "following_bytes c r (uchar (0xf0 + a)) (0xf0 + a) 6 =
    Some (Inr (Suc (Suc (Suc r)), (((0xf0 + a) * 64 + d) * 64 + e) * 64 + f, 21))"
proof -
  let ?b = "uchar (0xf0 + a)" and ?u = "0xf0 + a"
  have "?u div 64 = 3" "?u div 32 = 7" "?u div 16 = 15" "?u div 8 = 30"
    using assms(1,2) by simp_all
  then have b: "?b AND 0x40 \<noteq> 0" "push_bit 1 ?b AND 0x40 \<noteq> 0" "push_bit 2 ?b AND 0x40 \<noteq> 0" "push_bit 3 ?b AND 0x40 = 0"
    using assms(1,2) lead_bits [of ?u 0] lead_bits [of ?u 1] lead_bits [of ?u 2] lead_bits [of ?u 3] by simp_all
  have pb: "push_bit 1 (push_bit 1 ?b) = push_bit 2 ?b" "push_bit 1 (push_bit 2 ?b) = push_bit 3 ?b"
    by (simp_all only: push_bit_push_bit) (simp_all add: numeral_2_eq_2 numeral_3_eq_3)
  have "following_bytes c r ?b ?u 6 = following_bytes c (Suc r) (push_bit 1 ?b) (?u * 64 + d) (6 + 5)"
    by (rule follow_next [OF b(1) assms(9,3,4)])
  also have "\<dots> = following_bytes c (Suc (Suc r)) (push_bit 2 ?b) ((?u * 64 + d) * 64 + e) (6 + 5 + 5)"
    unfolding pb [symmetric] by (rule follow_next [OF b(2) assms(10,5,6)])
  also have "\<dots> = following_bytes c (Suc (Suc (Suc r))) (push_bit 3 ?b) (((?u * 64 + d) * 64 + e) * 64 + f) (6 + 5 + 5 + 5)"
    unfolding pb(2) [symmetric] by (rule follow_next [OF b(3) assms(11,7,8)])
  also have "\<dots> = Some (Inr (Suc (Suc (Suc r)), (((?u * 64 + d) * 64 + e) * 64 + f, 6 + 5 + 5 + 5)))"
    by (rule follow_end [OF b(4)])
  finally show ?thesis by simp
qed

lemma word_of_uint [simp]: "word_of_int (uint x) = (x :: 'a::len word)"
  by simp

lemma decode_ascii:
  assumes "rd c r = Some (uchar i)" and "0 \<le> i" and "i < 0x80" and "w < length aux"
  shows "decode_step c r w aux = Some (Inr (Suc r, w, aux[w := Some (word_of_int i)]))"
proof -
  have "(ucast (uchar i) :: u16) = word_of_int i"
  proof -
    have "uint (uchar i) = i" using assms by (simp add: uint_uchar)
    then show ?thesis by (metis word_of_int_uint ucast_eq)
  qed
  then show ?thesis using assms by (simp add: decode_step_def uchar_simps)
qed

text \<open>The multi-byte sequences: the lead byte is none of the private ones.\<close>

lemma decode_multi:
  assumes "rd c r = Some (uchar i)" and "0xc0 \<le> i" and "i < 0xf8"
    and "following_bytes c (Suc r) (uchar i) i 6 = Some (Inr (r', u, n))" and "u mod 2 ^ n = v"
  shows "decode_step c r w aux =
    (if v \<ge> 0x10000
     then do { aux \<leftarrow> wr aux w (word_of_int ((v - 0x10000) div 1024 + 0xd800));
               aux \<leftarrow> wr aux (Suc w) (word_of_int ((v - 0x10000) mod 1024 + 0xdc00));
               Some (Inr (r', Suc w, aux)) }
     else do { aux \<leftarrow> wr aux w (word_of_int v); Some (Inr (r', w, aux)) })"
  using assms
  by (simp add: decode_step_def uchar_simps uint_uchar and_mask_mod int_masks drop_bit_eq_div Let_def del: push_bit_of_1)

lemma mod_multiple: "0 \<le> v \<Longrightarrow> v < m \<Longrightarrow> (v + m * k) mod m = (v :: int)"
  by simp

lemma horner:
  fixes v v1 v2 v3 b c d k :: int
  shows "v1 * 64 + d = v \<Longrightarrow> v2 * 64 + c = v1 \<Longrightarrow> ((k + v2) * 64 + c) * 64 + d = v + k * 4096"
    and "v1 * 64 + d = v \<Longrightarrow> v2 * 64 + c = v1 \<Longrightarrow> v3 * 64 + b = v2 \<Longrightarrow>
      (((k + v3) * 64 + b) * 64 + c) * 64 + d = v + k * 262144"
  by (auto simp: algebra_simps)

lemma decode_2:
  assumes "0x80 \<le> v" "v < 0x800" and "w < length aux"
    and "rd c r = Some (uchar (0xc0 + v div 64))" "rd c (Suc r) = Some (uchar (0x80 + v mod 64))"
  shows "decode_step c r w aux = Some (Inr (Suc (Suc r), w, aux[w := Some (word_of_int v)]))"
proof -
  have f: "following_bytes c (Suc r) (uchar (0xc0 + v div 64)) (0xc0 + v div 64) 6 =
      Some (Inr (Suc (Suc r), (0xc0 + v div 64) * 64 + v mod 64, 11))"
    using assms by (intro follow_2) simp_all
  have "(0xc0 + v div 64) * 64 + v mod 64 = v + 2048 * 6" by simp
  then have m: "((0xc0 + v div 64) * 64 + v mod 64) mod 2 ^ 11 = v"
    using assms(1,2) mod_multiple [of v "2 ^ 11" 6] by simp
  show ?thesis
    using decode_multi [OF assms(4) _ _ f m, of w aux] assms(1-3) by simp
qed

lemma decode_3:
  assumes "0x800 \<le> v" "v < 0x10000" and "w < length aux"
    and "rd c r = Some (uchar (0xe0 + v div 4096))" "rd c (Suc r) = Some (uchar (0x80 + v div 64 mod 64))"
    and "rd c (Suc (Suc r)) = Some (uchar (0x80 + v mod 64))"
  shows "decode_step c r w aux = Some (Inr (Suc (Suc (Suc r)), w, aux[w := Some (word_of_int v)]))"
proof -
  let ?u = "((0xe0 + v div 4096) * 64 + v div 64 mod 64) * 64 + v mod 64"
  have f: "following_bytes c (Suc r) (uchar (0xe0 + v div 4096)) (0xe0 + v div 4096) 6 =
      Some (Inr (Suc (Suc (Suc r)), ?u, 16))"
    using assms by (intro follow_3) simp_all
  have "?u = v + 0xe0 * 4096"
    unfolding div_64 by (rule horner(1) [OF div_mult_mod_eq div_mult_mod_eq])
  then have e: "?u = v + 65536 * 14" by simp
  have m: "?u mod 2 ^ 16 = v" unfolding e using assms(1,2) mod_multiple [of v "2 ^ 16" 14] by simp
  show ?thesis
    using decode_multi [OF assms(4) _ _ f m, of w aux] assms(1-3) by simp
qed

lemma decode_4:
  assumes "0x10000 \<le> v" "v < 0x110000" and "Suc w < length aux"
    and "rd c r = Some (uchar (0xf0 + v div 262144))" "rd c (Suc r) = Some (uchar (0x80 + v div 4096 mod 64))"
    and "rd c (Suc (Suc r)) = Some (uchar (0x80 + v div 64 mod 64))"
    and "rd c (Suc (Suc (Suc r))) = Some (uchar (0x80 + v mod 64))"
  shows "decode_step c r w aux = Some (Inr (Suc (Suc (Suc (Suc r))), Suc w,
    aux[w := Some (word_of_int ((v - 0x10000) div 1024 + 0xd800)),
        Suc w := Some (word_of_int ((v - 0x10000) mod 1024 + 0xdc00))]))"
proof -
  let ?u = "(((0xf0 + v div 262144) * 64 + v div 4096 mod 64) * 64 + v div 64 mod 64) * 64 + v mod 64"
  have f: "following_bytes c (Suc r) (uchar (0xf0 + v div 262144)) (0xf0 + v div 262144) 6 =
      Some (Inr (Suc (Suc (Suc (Suc r))), ?u, 21))"
    using assms by (intro follow_4) simp_all
  have "?u = v + 0xf0 * 262144"
    unfolding div_64 by (rule horner(2) [OF div_mult_mod_eq div_mult_mod_eq div_mult_mod_eq])
  then have e: "?u = v + 2097152 * 30" by simp
  have m: "?u mod 2 ^ 21 = v" unfolding e using assms(1,2) mod_multiple [of v "2 ^ 21" 30] by simp
  show ?thesis
    using decode_multi [OF assms(4) _ _ f m, of w aux] assms(1-3) by simp
qed

lemma or_fields:
  fixes t q v :: int
  assumes "0 \<le> t" "t < 4" "0 \<le> q" "q < 16" "0 \<le> v" "v < 16"
  shows "t OR push_bit 2 q OR push_bit 6 v OR push_bit 10 0x36 = 0x36 * 1024 + v * 64 + q * 4 + t"
proof -
  have "push_bit 2 q OR t = q * 4 + t" using or_add [of t 2 q] assms by simp
  moreover have "push_bit 6 v OR (q * 4 + t) = v * 64 + (q * 4 + t)" using or_add [of "q * 4 + t" 6 v] assms by simp
  moreover have "push_bit 10 0x36 OR (v * 64 + (q * 4 + t)) = 0x36 * 2 ^ 10 + (v * 64 + (q * 4 + t))"
    using assms by (intro or_add) simp_all
  moreover have "t OR push_bit 2 q OR push_bit 6 v OR push_bit 10 0x36 =
      push_bit 10 0x36 OR (push_bit 6 v OR (push_bit 2 q OR t))"
    by (simp only: or.assoc or.commute or.left_commute)
  ultimately show ?thesis by (simp only:) simp
qed

lemma or_fields2:
  fixes z f :: int
  assumes "0 \<le> z" "z < 64" "0 \<le> f" "f < 16"
  shows "z OR push_bit 6 f OR push_bit 10 0x37 = 0x37 * 1024 + f * 64 + z"
proof -
  have "push_bit 6 f OR z = f * 64 + z" using or_add [of z 6 f] assms by simp
  moreover have "push_bit 10 0x37 OR (f * 64 + z) = 0x37 * 2 ^ 10 + (f * 64 + z)"
    using assms by (intro or_add) simp_all
  moreover have "z OR push_bit 6 f OR push_bit 10 0x37 = push_bit 10 0x37 OR (push_bit 6 f OR z)"
    by (simp only: or.assoc or.commute or.left_commute)
  ultimately show ?thesis by (simp only:) simp
qed

lemma decode_lone_high:
  assumes "high x" and "\<not> 0xdbc0 \<le> x" and "w < length aux" and "lone_high_bytes x = [b0, b1, b2, b3]"
    and "rd c r = Some b0" "rd c (Suc r) = Some b1" "rd c (Suc (Suc r)) = Some b2" "rd c (Suc (Suc (Suc r))) = Some b3"
  shows "decode_step c r w aux = Some (Inr (r + 4, w, aux[w := Some x]))"
proof -
  define v q t where "v = uint x div 64 mod 16" and "q = uint x div 4 mod 16" and "t = uint x mod 4"
  note defs = v_def q_def t_def
  have ranges: "0 \<le> v" "v < 16" "0 \<le> q" "q < 16" "0 \<le> t" "t < 4" by (simp_all add: defs)
  have x: "uint x = 0x36 * 1024 + v * 64 + q * 4 + t"
    using unit_fields(1) [of "uint x"] high_low_bits(1) [OF assms(1)] unfolding defs by linarith
  then have v15: "v < 15" using assms(2) ranges by (simp add: unit_ranges)
  define u0 u1 where "u0 = (v + 1) mod 4" and "u1 = (v + 1) div 4"
  have u: "v + 1 = 4 * u1 + u0" "0 \<le> u0" "u0 < 4" by (simp_all add: u0_def u1_def)
  then have u1: "0 \<le> u1" "u1 < 4" using ranges v15 by linarith+
  have "lone_high_bytes x = [0xf8, uchar (0x80 + u0 * 16 + q), uchar (0x80 + t * 16), uchar (0x80 + u1)]"
    unfolding lone_high_bytes_def Let_def defs u0_def u1_def by (rule refl)
  then have b: "b0 = 0xf8" "b1 = uchar (0x80 + u0 * 16 + q)" "b2 = uchar (0x80 + t * 16)" "b3 = uchar (0x80 + u1)"
    using assms(4) by simp_all
  have bs: "b0 = 0xf8" "uint b1 = q + 16 * (8 + u0)" "uint b2 = t * 16 + 128" "uint b3 = u1 + 4 * 32"
    unfolding b using ranges u(2,3) u1 by (simp_all add: uint_uchar)
  have parts: "uint b3 AND 3 = u1" "drop_bit 4 (uint b2) AND 3 = t" "uint b1 AND 0xf = q" "drop_bit 4 (uint b1) AND 3 = u0"
  proof -
    have "(t * 16 + 128) div 16 = t + 4 * 2" "(q + 16 * (8 + u0)) div 16 = u0 + 4 * 2" using ranges by simp_all
    then have "drop_bit 4 (uint b2) = t + 4 * 2" "drop_bit 4 (uint b1) = u0 + 4 * 2"
      unfolding bs by (simp_all add: drop_bit_eq_div)
    then show "uint b3 AND 3 = u1" "drop_bit 4 (uint b2) AND 3 = t" "uint b1 AND 0xf = q" "drop_bit 4 (uint b1) AND 3 = u0"
      unfolding int_masks by (simp_all only: bs mod_multiple [OF u1] mod_multiple [OF ranges(5,6)]
        mod_multiple [OF ranges(3,4)] mod_multiple [OF u(2,3)])
  qed
  have "push_bit 2 u1 OR u0 = v + 1" using or_add [of u0 2 u1] u by simp
  then have v: "(push_bit 2 u1 OR u0) - 1 = v" by simp
  have rds: "rd c r = Some b0" "rd c (r + 1) = Some b1" "rd c (r + 1 + 1) = Some b2" "rd c (r + 1 + 2) = Some b3"
    using assms(5-8) by simp_all
  have cond: "(b0 \<le> 0x7f) = False" "(b0 = 0xf8) = True" "r + 1 + 3 = r + 4" by (simp_all add: bs(1))
  have "decode_step c r w aux = Some (Inr (r + 4, w, aux[w := Some (word_of_int (uint x))]))"
    unfolding decode_step_def Let_def x or_fields [OF ranges(5,6,3,4,1,2), symmetric]
    by (simp only: rds cond bind.bind_lunit if_True if_False parts v wr_in [OF assms(3)])
  then show ?thesis by simp
qed

lemma decode_lone_low:
  assumes "low x" and "w < length aux" and "lone_low_bytes x = [b0, b1, b2, b3]"
    and "rd c r = Some b0" "rd c (Suc r) = Some b1" "rd c (Suc (Suc r)) = Some b2" "rd c (Suc (Suc (Suc r))) = Some b3"
  shows "decode_step c r w aux = Some (Inr (r + 4, w, aux[w := Some x]))"
proof -
  define f z where "f = uint x div 64 mod 16" and "z = uint x mod 64"
  have ranges: "0 \<le> f" "f < 16" "0 \<le> z" "z < 64" by (simp_all add: f_def z_def)
  have x: "uint x = 0x37 * 1024 + f * 64 + z"
    using unit_fields(2) [of "uint x"] high_low_bits(2) [OF assms(1)] unfolding f_def z_def by linarith
  have bs: "b0 = 0xfc" "b1 = 0x80" "uint b2 = f + 16 * 8" "uint b3 = z + 64 * 2"
    using assms(3) ranges by (auto simp: lone_low_bytes_def unit_fields(3) f_def z_def uint_uchar)
  have parts: "uint b3 AND 0x3f = z" "uint b2 AND 0xf = f"
    unfolding bs int_masks by (intro mod_multiple ranges)+
  have rds: "rd c r = Some b0" "rd c (r + 1) = Some b1" "rd c (r + 1 + 1) = Some b2" "rd c (r + 1 + 2) = Some b3"
    using assms(4-7) by simp_all
  have cond: "(b0 \<le> 0x7f) = False" "(b0 = 0xf8) = False" "(b0 = 0xfc) = True" "r + 1 + 3 = r + 4"
    by (simp_all add: bs(1))
  have "decode_step c r w aux = Some (Inr (r + 4, w, aux[w := Some (word_of_int (uint x))]))"
    unfolding decode_step_def Let_def x or_fields2 [OF ranges(3,4,1,2), symmetric]
    by (simp only: rds cond bind.bind_lunit if_True if_False parts wr_in [OF assms(2)])
  then show ?thesis by simp
qed

lemma rd_mid:
  "k < length us \<Longrightarrow> rd (map Some (pre @ us @ rest) @ sl) (length pre + k) = Some (us ! k)"
  by (simp add: rd_def nth_append)

lemma decode_unit:
  assumes c: "c = map Some (pre @ utf8_unit x @ rest) @ sl" and w: "w < length aux"
    and ok: "\<not> (high x \<and> 0xdbc0 \<le> x)"
  shows "decode_step c (length pre) w aux = Some (Inr (length pre + length (utf8_unit x), w, aux[w := Some x]))"
proof -
  have rd: "rd c (length pre + k) = Some (utf8_unit x ! k)" if "k < length (utf8_unit x)" for k
    unfolding c using that by (rule rd_mid)
  consider (high) "high x" | (low) "\<not> high x" "low x" | (cp) "\<not> high x" "\<not> low x" by blast
  then show ?thesis
  proof cases
    case high
    then have "utf8_unit x = lone_high_bytes x" by (simp add: utf8_unit_def)
    moreover obtain b0 b1 b2 b3 where bs: "lone_high_bytes x = [b0, b1, b2, b3]" by (simp add: lone_high_bytes_def Let_def)
    ultimately have u: "utf8_unit x = [b0, b1, b2, b3]" by simp
    show ?thesis
      using decode_lone_high [OF high _ w bs, of c "length pre"] ok high rd [of 0] rd [of 1] rd [of 2] rd [of 3]
      by (simp add: u numeral_2_eq_2 numeral_3_eq_3)
  next
    case low
    then have "utf8_unit x = lone_low_bytes x" by (simp add: utf8_unit_def)
    moreover obtain b0 b1 b2 b3 where bs: "lone_low_bytes x = [b0, b1, b2, b3]" by (simp add: lone_low_bytes_def)
    ultimately have u: "utf8_unit x = [b0, b1, b2, b3]" by simp
    show ?thesis
      using decode_lone_low [OF low(2) w bs, of c "length pre"] rd [of 0] rd [of 1] rd [of 2] rd [of 3]
      by (simp add: u numeral_2_eq_2 numeral_3_eq_3)
  next
    case cp
    then have u: "utf8_unit x = utf8_cp (uint x)" by (simp add: utf8_unit_def)
    consider "uint x < 0x80" | "0x80 \<le> uint x" "uint x < 0x800" | "0x800 \<le> uint x" by linarith
    then show ?thesis
    proof cases
      case 1
      then show ?thesis using decode_ascii [of c "length pre" "uint x" w aux] uint_u16 [of x] rd [of 0] w
        by (simp add: u utf8_cp_def)
    next
      case 2
      then show ?thesis using decode_2 [of "uint x" w aux c "length pre"] rd [of 0] rd [of 1] w
        by (simp add: u utf8_cp_def)
    next
      case 3
      then show ?thesis using decode_3 [of "uint x" w aux c "length pre"] uint_u16 [of x] rd [of 0] rd [of 1] rd [of 2] w
        by (simp add: u utf8_cp_def numeral_2_eq_2)
    qed
  qed
qed

lemma decode_pair:
  assumes c: "c = map Some (pre @ utf8_cp (pair_cp x y) @ rest) @ sl" and w: "Suc w < length aux"
    and hl: "high x" "low y"
  shows "decode_step c (length pre) w aux = Some (Inr (length pre + 4, Suc w, aux[w := Some x, Suc w := Some y]))"
proof -
  let ?v = "pair_cp x y"
  have range: "0x10000 \<le> ?v" "?v < 0x110000" using hl by (auto simp: pair_cp_def high_def low_def unit_ranges)
  then have u: "utf8_cp ?v = [uchar (0xf0 + ?v div 262144), uchar (0x80 + ?v div 4096 mod 64),
      uchar (0x80 + ?v div 64 mod 64), uchar (0x80 + ?v mod 64)]" by (simp add: utf8_cp_def)
  have rd: "rd c (length pre + k) = Some (utf8_cp ?v ! k)" if "k < 4" for k
    unfolding c using that by (intro rd_mid) (simp add: u)
  have y: "0 \<le> uint y - 0xdc00" "uint y - 0xdc00 < 1024" using hl by (auto simp: low_def unit_ranges)
  have e: "?v - 0x10000 = (uint y - 0xdc00) + 1024 * (uint x - 0xd800)" by (simp add: pair_cp_def)
  have "(?v - 0x10000) mod 1024 = uint y - 0xdc00" unfolding e by (rule mod_multiple [OF y])
  moreover have "(?v - 0x10000) div 1024 = uint x - 0xd800" unfolding e using y by simp
  ultimately have units: "word_of_int ((?v - 0x10000) div 1024 + 0xd800) = x" "word_of_int ((?v - 0x10000) mod 1024 + 0xdc00) = y"
    by simp_all
  show ?thesis
    using decode_4 [OF range w, of c "length pre", unfolded units] rd [of 0] rd [of 1] rd [of 2] rd [of 3]
    by (simp add: u numeral_2_eq_2 numeral_3_eq_3)
qed

lemma decode_loop_run:
  assumes "no_lone_last xs"
  shows "c = map Some (pre @ utf8_enc xs @ [0]) @ sl \<Longrightarrow> w + length xs \<le> length aux \<Longrightarrow>
    decode_loop c (int (length pre + length (utf8_enc xs))) (length pre) w aux =
      Some (Inr (w + length xs, put aux w xs))"
  using assms
proof (induction xs arbitrary: pre w aux rule: utf8_enc.induct)
  case 1
  then show ?case by (simp add: decode_loop.simps)
next
  case (2 x)
  have "decode_step c (length pre) w aux = Some (Inr (length pre + length (utf8_unit x), w, aux[w := Some x]))"
    using 2 by (intro decode_unit [where rest = "[0]" and sl = sl]) simp_all
  moreover have "0 < length (utf8_unit x)" using utf8_size_bounds(1) [of x] by (simp add: length_utf8_unit)
  ultimately show ?case
    by (subst decode_loop.simps) (simp add: decode_loop.simps)
next
  case (3 x y ys)
  show ?case
  proof (cases "high x \<and> low y")
    case True
    have "decode_step c (length pre) w aux = Some (Inr (length pre + 4, Suc w, aux[w := Some x, Suc w := Some y]))"
      using 3(3,4) True by (intro decode_pair [where rest = "utf8_enc ys @ [0]" and sl = sl]) simp_all
    moreover have "decode_loop c (int (length (pre @ utf8_cp (pair_cp x y)) + length (utf8_enc ys)))
        (length (pre @ utf8_cp (pair_cp x y))) (Suc (Suc w)) (put aux w [x, y]) =
        Some (Inr (Suc (Suc w) + length ys, put (put aux w [x, y]) (Suc (Suc w)) ys))"
      using 3(3,4,5) True by (intro 3(1)) simp_all
    ultimately show ?thesis
      using True put_append [of aux w "[x, y]" ys] length_pair_bytes [of x y]
      by (subst decode_loop.simps) (simp add: list_update_swap add.assoc)
  next
    case False
    have "decode_step c (length pre) w aux = Some (Inr (length pre + length (utf8_unit x), w, aux[w := Some x]))"
      using 3(3,4,5) False by (intro decode_unit [where rest = "utf8_enc (y # ys) @ [0]" and sl = sl]) auto
    moreover have "decode_loop c (int (length (pre @ utf8_unit x) + length (utf8_enc (y # ys))))
        (length (pre @ utf8_unit x)) (Suc w) (put aux w [x]) =
        Some (Inr (Suc w + length (y # ys), put (put aux w [x]) (Suc w) (y # ys)))"
      using 3(3,4,5) False by (intro 3(2)) auto
    moreover have "0 < length (utf8_unit x)" using utf8_size_bounds(1) [of x] by (simp add: length_utf8_unit)
    ultimately show ?thesis
      using False put_append [of aux w "[x]" "y # ys"]
      by (subst decode_loop.simps) (auto simp: add.assoc)
  qed
qed

lemma utf8_decode_rep:
  assumes "length (utf8_enc xs) < 2 ^ 31" and "no_lone_last xs"
  shows "utf8_string_to_ucs2_string (str_rep (utf8_enc xs) sl) =
    Some (Inr \<lparr>str_length = length xs, char0 = map Some xs @ [None, None]\<rparr>)"
proof -
  let ?n = "length (utf8_enc xs)"
  have le: "length xs \<le> ?n"
  proof (induction xs rule: utf8_enc.induct)
    case (2 x)
    then show ?case using utf8_size_bounds(1) [of x] by (simp add: length_utf8_unit)
  next
    case (3 x y ys)
    then show ?case using utf8_size_bounds(1) [of x] length_pair_bytes [of x y]
      by (cases "high x \<and> low y") (auto simp: length_utf8_unit)
  qed simp
  have "decode_loop (c_string (utf8_enc xs) @ sl) (int ?n) 0 0 (gc_malloc ?n) =
      Some (Inr (length xs, put (gc_malloc ?n) 0 xs))"
    using decode_loop_run [OF assms(2), of "c_string (utf8_enc xs) @ sl" "[]" sl 0 "gc_malloc ?n"] le
    by (simp add: c_string_def)
  moreover have "put (gc_malloc ?n) 0 xs = map Some xs @ gc_malloc (?n - length xs)"
    using le by (simp add: put_eq)
  moreover have "ucs2cpy (gc_malloc (length xs + 2)) 0 (map Some xs @ gc_malloc (?n - length xs)) 0 (length xs) =
      Some (map Some xs @ gc_malloc 2)"
    by (subst ucs2cpy_blit) simp_all
  moreover have "gc_malloc 2 = [None, None :: u16 option]" by (simp add: gc_malloc_def numeral_2_eq_2)
  ultimately show ?thesis
    using assms(1) by (simp add: utf8_string_to_ucs2_string_def Let_def)
qed

text \<open>C27: encoding: a UCS-2 string with no low surrogate directly after an unpaired low surrogate is
  converted, without an access outside its blocks, to the string of the UTF-8 encodings of its code
  points (surrogate pairs being one code point) and of the four-byte forms of its unpaired surrogates.\<close>

theorem ucs2_to_utf8_encodes:
  assumes "length xs < 2 ^ 29" and "no_low_low xs"
  shows "\<exists>sl'. ucs2_string_to_utf8_string (str_rep xs sl) = Some (Inr (str_rep (utf8_enc xs) sl'))"
  using assms by (rule ucs2_to_utf8_rep)

lemma ucs2_to_utf8_encodes_witness:
  "\<exists>sl'. ucs2_string_to_utf8_string (bstring_of [0x20AC, 0xD83D, 0xDE00]) =
    Some (Inr (str_rep [0xE2, 0x82, 0xAC, 0xF0, 0x9F, 0x98, 0x80] sl'))"
proof -
  have "utf8_enc [0x20AC, 0xD83D, 0xDE00] = [0xE2, 0x82, 0xAC, 0xF0, 0x9F, 0x98, 0x80]" by code_simp
  then show ?thesis using ucs2_to_utf8_encodes [of "[0x20AC, 0xD83D, 0xDE00]" "[]"] by (simp add: low_def high_def)
qed

text \<open>C7: round trip: converting to UTF-8 and back gives the characters of the string, including its
  unpaired surrogates, except unpaired high surrogates from \<open>0xDBC0\<close> on and low surrogates after an
  unpaired low one; the string that comes back is not terminated.\<close>

theorem utf8_round_trip:
  assumes "length xs < 2 ^ 29" and "no_low_low xs" and "no_lone_last xs"
  shows "do { r \<leftarrow> ucs2_string_to_utf8_string (str_rep xs sl);
              case r of Inl e \<Rightarrow> None | Inr s \<Rightarrow> utf8_string_to_ucs2_string s } =
    Some (Inr \<lparr>str_length = length xs, char0 = map Some xs @ [None, None]\<rparr>)"
proof -
  obtain sl' where "ucs2_string_to_utf8_string (str_rep xs sl) = Some (Inr (str_rep (utf8_enc xs) sl'))"
    using ucs2_to_utf8_rep [OF assms(1,2)] by blast
  moreover have "length (utf8_enc xs) < 2 ^ 31"
    using length_enc [of xs] sum_sizes(2) [of xs] assms(1) by simp
  ultimately show ?thesis using utf8_decode_rep [OF _ assms(3)] by simp
qed

lemma utf8_round_trip_witness:
  "do { r \<leftarrow> ucs2_string_to_utf8_string (bstring_of [97, 0xD800, 0xD83D, 0xDE00, 0xDC00]);
        case r of Inl e \<Rightarrow> None | Inr s \<Rightarrow> utf8_string_to_ucs2_string s } =
    Some (Inr \<lparr>str_length = 5, char0 = map Some [97, 0xD800, 0xD83D, 0xDE00, 0xDC00] @ [None, None]\<rparr>)"
  using utf8_round_trip [of "[97, 0xD800, 0xD83D, 0xDE00, 0xDC00]" "[]"] by (simp add: low_def high_def)

text \<open>Where the conversions fail: an unpaired high surrogate \<open>0xDBC0\<close> comes back as the
  character \<open>0xFFC0\<close>; two low surrogates are encoded as if they were a pair and come back as another
  pair; a converted string has no terminator, so comparing it with itself case-insensitively reads an unwritten
  cell; and a truncated private sequence is read past the end of the byte string.\<close>

theorem utf8_defects:
  "do { r \<leftarrow> ucs2_string_to_utf8_string (bstring_of [0xDBC0]);
        case r of Inl e \<Rightarrow> None | Inr s \<Rightarrow> utf8_string_to_ucs2_string s } =
     Some (Inr \<lparr>str_length = 1, char0 = [Some 0xFFC0, None, None]\<rparr>) \<and>
   do { r \<leftarrow> ucs2_string_to_utf8_string (bstring_of [0xDC00, 0xDC00]);
        case r of Inl e \<Rightarrow> None | Inr s \<Rightarrow> utf8_string_to_ucs2_string s } =
     Some (Inr \<lparr>str_length = 2, char0 = [Some 0xD800, Some 0xDC00, None, None]\<rparr>) \<and>
   do { r \<leftarrow> utf8_string_to_ucs2_string (bstring_of [97]);
        case r of Inl e \<Rightarrow> None | Inr s \<Rightarrow> ucs2_strcicmp s s } = None \<and>
   utf8_string_to_ucs2_string (bstring_of [0xF8]) = None"
proof (intro conjI)
  show "do { r \<leftarrow> ucs2_string_to_utf8_string (bstring_of [0xDBC0]);
        case r of Inl e \<Rightarrow> None | Inr s \<Rightarrow> utf8_string_to_ucs2_string s } =
     Some (Inr \<lparr>str_length = 1, char0 = [Some 0xFFC0, None, None]\<rparr>)" by code_simp
  show "do { r \<leftarrow> ucs2_string_to_utf8_string (bstring_of [0xDC00, 0xDC00]);
        case r of Inl e \<Rightarrow> None | Inr s \<Rightarrow> utf8_string_to_ucs2_string s } =
     Some (Inr \<lparr>str_length = 2, char0 = [Some 0xD800, Some 0xDC00, None, None]\<rparr>)" by code_simp
  have "utf8_string_to_ucs2_string (bstring_of [97]) = Some (Inr \<lparr>str_length = 1, char0 = [Some 97, None, None]\<rparr>)"
    by code_simp
  then show "do { r \<leftarrow> utf8_string_to_ucs2_string (bstring_of [97]);
        case r of Inl e \<Rightarrow> None | Inr s \<Rightarrow> ucs2_strcicmp s s } = None"
    by (simp add: ucs2_strcicmp_def ucs2_strcicmp_loop.simps rd_def Let_def)
  show "utf8_string_to_ucs2_string (bstring_of [0xF8]) = None" by code_simp
qed

end
