(* ===== verification/Escape.thy ===== *)
theory Escape
  imports Utf8
begin

text \<open>
  The escape sequences of string literals, \<open>runtime/Clib/cstring.c\<close>: replacing them by the
  characters they stand for (\<open>bgl_escape_C_string\<close>, \<open>bgl_escape_scheme_string\<close>), and writing a
  string or a symbol so that it can be read back (\<open>string_for_read\<close>, \<open>symbol_for_read\<close>).
\<close>

section \<open>Reading escape sequences\<close>

definition isdigit :: "u8 \<Rightarrow> bool" where
  "isdigit c \<longleftrightarrow> 48 \<le> c \<and> c \<le> 57"

definition isxdigit :: "u8 \<Rightarrow> bool" where
  "isxdigit c \<longleftrightarrow> isdigit c \<or> (97 \<le> c \<and> c \<le> 102) \<or> (65 \<le> c \<and> c \<le> 70)"

definition XDIGIT_TO_BYTE :: "u8 \<Rightarrow> u8" where
  "XDIGIT_TO_BYTE s = (if isdigit s then s - 48 else 10 + (if s \<ge> 97 then s - 97 else s - 65))"

text \<open>The cases of the switch that stand for one fixed character.\<close>

definition simple_escape :: "u8 \<Rightarrow> u8 option" where
  "simple_escape c =
     (if c = 0 then Some 92
      else if c = of_char CHR ''n'' then Some 10
      else if c = of_char CHR ''t'' then Some 9
      else if c = of_char CHR ''b'' then Some 8
      else if c = of_char CHR ''r'' then Some 13
      else if c = of_char CHR ''f'' then Some 12
      else if c = of_char CHR ''v'' then Some 11
      else if c = 92 then Some 92
      else if c = 39 then Some 39
      else if c = 34 then Some 34
      else None)"

text \<open>The variables of the loop are \<open>src\<close>, \<open>dst\<close>, \<open>len\<close> and the bytes of the result.\<close>

type_synonym escape_state = "nat \<times> nat \<times> int \<times> u8 cells"

definition emit :: "u8 \<Rightarrow> nat \<Rightarrow> nat \<Rightarrow> int \<Rightarrow> u8 cells \<Rightarrow> escape_state option" where
  "emit c src dst len m = do { m \<leftarrow> wr m dst c; Some (src, dst + 1, len, m) }"

definition escape_x :: "u8 cells \<Rightarrow> nat \<Rightarrow> nat \<Rightarrow> int \<Rightarrow> u8 cells \<Rightarrow> escape_state option" where
  "escape_x t src dst len m = do {
     c \<leftarrow> rd t src;
     s1 \<leftarrow> rd t (src + 1);
     if \<not> isxdigit s1 then emit c (src + 1) dst len m
     else do {
       s2 \<leftarrow> rd t (src + 2);
       if \<not> isxdigit s2 then emit c (src + 1) dst len m
       else emit (XDIGIT_TO_BYTE s1 * 16 + XDIGIT_TO_BYTE s2) (src + 3) dst (len - 2) m } }"

definition escape_u :: "u8 cells \<Rightarrow> nat \<Rightarrow> nat \<Rightarrow> int \<Rightarrow> u8 cells \<Rightarrow> escape_state option" where
  "escape_u t src dst len m = do {
     c \<leftarrow> rd t src;
     s1 \<leftarrow> rd t (src + 1);
     if \<not> isxdigit s1 then emit c (src + 1) dst len m
     else do {
       s2 \<leftarrow> rd t (src + 2);
       if \<not> isxdigit s2 then emit c (src + 1) dst len m
       else do {
         s3 \<leftarrow> rd t (src + 3);
         if \<not> isxdigit s3 then emit c (src + 1) dst len m
         else do {
           s4 \<leftarrow> rd t (src + 4);
           if \<not> isxdigit s4 then emit c (src + 1) dst len m
           else do {
             let n1 = uint (XDIGIT_TO_BYTE s1);
             let n2 = uint (XDIGIT_TO_BYTE s2);
             let n3 = uint (XDIGIT_TO_BYTE s3);
             let n4 = uint (XDIGIT_TO_BYTE s4);
             let u = (word_of_int (push_bit 12 n1 + push_bit 8 n2 + push_bit 4 n3 + n4) :: u16);
             ucs2 \<leftarrow> make_ucs2_string 1 u;
             ucs2 \<leftarrow> (case ucs2 of Inl e \<Rightarrow> None | Inr s \<Rightarrow> Some s);
             utf8 \<leftarrow> ucs2_string_to_utf8_string ucs2;
             utf8 \<leftarrow> (case utf8 of Inl e \<Rightarrow> None | Inr s \<Rightarrow> Some s);
             m \<leftarrow> blit m dst (char0 utf8) 0 (str_length utf8);
             Some (src + 5, dst + str_length utf8, len - (5 - int (str_length utf8)), m) } } } } }"

definition escape_default :: "u8 cells \<Rightarrow> nat \<Rightarrow> nat \<Rightarrow> int \<Rightarrow> u8 cells \<Rightarrow> escape_state option" where
  "escape_default t src dst len m = do {
     c \<leftarrow> rd t src;
     if \<not> isdigit c then emit c (src + 1) dst len m
     else do {
       s1 \<leftarrow> rd t (src + 1);
       if \<not> isdigit s1 then emit c (src + 1) dst len m
       else do {
         s2 \<leftarrow> rd t (src + 2);
         if \<not> isdigit s2 then emit c (src + 1) dst len m
         else emit ((c - 48) * 64 + (s1 - 48) * 8 + (s2 - 48)) (src + 3) dst (len - 2) m } } }"

definition escape_C_step :: "u8 cells \<Rightarrow> nat \<Rightarrow> nat \<Rightarrow> int \<Rightarrow> u8 cells \<Rightarrow> escape_state option" where
  "escape_C_step t src dst len m = do {
     c \<leftarrow> rd t src;
     if c \<noteq> 92 then emit c (src + 1) dst len m
     else do {
       let len = len - 1;
       let src = src + 1;
       c \<leftarrow> rd t src;
       case simple_escape c of
         Some b \<Rightarrow> emit b (src + 1) dst len m
       | None \<Rightarrow>
           if c = of_char CHR ''x'' \<or> c = of_char CHR ''X'' then escape_x t src dst len m
           else if c = of_char CHR ''u'' \<or> c = of_char CHR ''U'' then escape_u t src dst len m
           else escape_default t src dst len m } }"

lemma emit_src: "emit c s d l m = Some (s', r) \<Longrightarrow> s' = s"
  by (auto simp: emit_def split: Option.bind_splits)

lemma escape_C_step_src: "escape_C_step t s d l m = Some (s', r) \<Longrightarrow> s < s'"
  by (auto simp: escape_C_step_def escape_x_def escape_u_def escape_default_def Let_def dest!: emit_src
      split: Option.bind_splits option.splits if_splits)

text \<open>The loop stops when \<open>src\<close> reaches \<open>stop\<close>.\<close>

function escape_C_loop :: "u8 cells \<Rightarrow> nat \<Rightarrow> nat \<Rightarrow> nat \<Rightarrow> int \<Rightarrow> u8 cells \<Rightarrow> (nat \<times> int \<times> u8 cells) option" where
  "escape_C_loop t stop src dst len m =
     (if src < stop
      then do { (src, dst, len, m) \<leftarrow> escape_C_step t src dst len m; escape_C_loop t stop src dst len m }
      else Some (dst, len, m))"
  by pat_completeness auto
termination
  by (relation "measure (\<lambda>(t, stop, src, r). stop - src)") (auto dest: escape_C_step_src)

declare escape_C_loop.simps [simp del]

definition bgl_escape_C_string :: "u8 cells \<Rightarrow> int \<Rightarrow> int \<Rightarrow> bgl_string option" where
  "bgl_escape_C_string src start stop = do {
     len \<leftarrow> idx (stop - start);
     start \<leftarrow> idx start;
     stop \<leftarrow> idx stop;
     (dst, len, m) \<leftarrow> escape_C_loop src stop start 0 (int len) (gc_malloc (len + 1));
     m \<leftarrow> wr m dst 0;
     n \<leftarrow> idx len;
     Some \<lparr>str_length = n, char0 = m\<rparr> }"

function escape_scheme_loop :: "u8 cells \<Rightarrow> nat \<Rightarrow> nat \<Rightarrow> nat \<Rightarrow> int \<Rightarrow> u8 cells \<Rightarrow> (nat \<times> int \<times> u8 cells) option" where
  "escape_scheme_loop t stop src dst len m =
     (if src < stop
      then do {
        c \<leftarrow> rd t src;
        if c \<noteq> 92 then do { m \<leftarrow> wr m dst c; escape_scheme_loop t stop (src + 1) (dst + 1) len m }
        else do {
          c \<leftarrow> rd t (src + 1);
          m \<leftarrow> wr m dst (if c = of_char CHR ''n'' then 10 else c);
          escape_scheme_loop t stop (src + 2) (dst + 1) (len - 1) m } }
      else Some (dst, len, m))"
  by pat_completeness auto
termination
  by (relation "measure (\<lambda>(t, stop, src, r). stop - src)") auto

declare escape_scheme_loop.simps [simp del]

definition bgl_escape_scheme_string :: "u8 cells \<Rightarrow> int \<Rightarrow> int \<Rightarrow> bgl_string option" where
  "bgl_escape_scheme_string src start stop = do {
     len \<leftarrow> idx (stop - start);
     start \<leftarrow> idx start;
     stop \<leftarrow> idx stop;
     (dst, len, m) \<leftarrow> escape_scheme_loop src stop start 0 (int len) (gc_malloc (len + 1));
     m \<leftarrow> wr m dst 0;
     n \<leftarrow> idx len;
     Some \<lparr>str_length = n, char0 = m\<rparr> }"

section \<open>Writing escape sequences\<close>

text \<open>\<open>sprintf(&dst[w], "\%03o", c)\<close>, terminator included.\<close>

definition sprintf_03o :: "u8 cells \<Rightarrow> nat \<Rightarrow> u8 \<Rightarrow> u8 cells option" where
  "sprintf_03o m w c = do {
     m \<leftarrow> wr m w 92;
     m \<leftarrow> wr m (w + 1) (48 + drop_bit 6 c);
     m \<leftarrow> wr m (w + 2) (48 + (drop_bit 3 c AND 7));
     m \<leftarrow> wr m (w + 3) (48 + (c AND 7));
     wr m (w + 4) 0 }"

definition wr2 :: "u8 cells \<Rightarrow> nat \<Rightarrow> u8 \<Rightarrow> u8 cells option" where
  "wr2 m w c = do { m \<leftarrow> wr m w 92; wr m (w + 1) c }"

text \<open>One turn of the loop over the variables \<open>w\<close>, \<open>esc\<close> and \<open>dst\<close>.\<close>

definition for_read_step :: "bool \<Rightarrow> u8 \<Rightarrow> nat \<times> bool \<times> u8 cells \<Rightarrow> (nat \<times> bool \<times> u8 cells) option" where
  "for_read_step symbolp c = (\<lambda>(w, esc, dst).
     if c = 10 then do { dst \<leftarrow> wr2 dst w (of_char CHR ''n''); Some (w + 2, True, dst) }
     else if c = 9 then do { dst \<leftarrow> wr2 dst w (of_char CHR ''t''); Some (w + 2, True, dst) }
     else if c = 8 then do { dst \<leftarrow> wr2 dst w (of_char CHR ''b''); Some (w + 2, True, dst) }
     else if c = 13 then do { dst \<leftarrow> wr2 dst w (of_char CHR ''r''); Some (w + 2, True, dst) }
     else if c = 12 then do { dst \<leftarrow> wr2 dst w (of_char CHR ''f''); Some (w + 2, True, dst) }
     else if c = 11 then do { dst \<leftarrow> wr2 dst w (of_char CHR ''v''); Some (w + 2, True, dst) }
     else if c = 34 then do { dst \<leftarrow> wr2 dst w 34; Some (w + 2, True, dst) }
     else if c = 92 then do { dst \<leftarrow> wr2 dst w 92; Some (w + 2, True, dst) }
     else if c = 124 then
       if symbolp then do { dst \<leftarrow> wr2 dst w 124; Some (w + 2, True, dst) }
       else do { dst \<leftarrow> wr dst w 124; Some (w + 1, esc, dst) }
     else if c \<ge> 32 then do { dst \<leftarrow> wr dst w c; Some (w + 1, esc, dst) }
     else do { dst \<leftarrow> sprintf_03o dst w c; Some (w + 4, True, dst) })"

text \<open>The result is the string and the second value, whether something was escaped.\<close>

definition create_string_for_read :: "bgl_string \<Rightarrow> bool \<Rightarrow> (bgl_string \<times> bool) option" where
  "create_string_for_read bstring symbolp = do {
     let len = int32 (int (str_length bstring));
     let size = int32 (len * 4 + 1);
     n \<leftarrow> (if size > 200 then idx size else Some 200);
     (w, esc, dst) \<leftarrow> for_up 0 len
       (\<lambda>r s. do { k \<leftarrow> idx r; c \<leftarrow> rd (char0 bstring) k; for_read_step symbolp c s }) (0, False, gc_malloc n);
     dst \<leftarrow> wr dst w 0;
     res \<leftarrow> string_to_bstring (Some dst);
     Some (res, esc) }"

definition string_for_read :: "bgl_string \<Rightarrow> (bgl_string \<times> bool) option" where
  "string_for_read bstring = create_string_for_read bstring False"

definition symbol_for_read :: "bgl_string \<Rightarrow> (bgl_string \<times> bool) option" where
  "symbol_for_read bstring = create_string_for_read bstring True"

section \<open>The text an escape sequence stands for\<close>

text \<open>
  What the characters after a backslash stand for, and how many they are; \<open>None\<close> when there are
  none.
\<close>

definition number :: "u8 list \<Rightarrow> int" where
  "number ds = foldl (\<lambda>a d. 16 * a + uint (XDIGIT_TO_BYTE d)) 0 ds"

definition all_digits :: "(u8 \<Rightarrow> bool) \<Rightarrow> nat \<Rightarrow> u8 list \<Rightarrow> bool" where
  "all_digits P n cs \<longleftrightarrow> n \<le> length cs \<and> list_all P (take n cs)"

fun escape_of :: "u8 list \<Rightarrow> (u8 list \<times> nat) option" where
  "escape_of [] = None"
| "escape_of (c # cs) =
     Some (if c \<in> {of_char CHR ''x'', of_char CHR ''X''} \<and> all_digits isxdigit 2 cs
           then ([uchar (number (take 2 cs))], 3)
           else if c \<in> {of_char CHR ''u'', of_char CHR ''U''} \<and> all_digits isxdigit 4 cs
           then (utf8_unit (word_of_int (number (take 4 cs))), 5)
           else if isdigit c \<and> all_digits isdigit 2 cs
           then ([(c - 48) * 64 + (cs ! 0 - 48) * 8 + (cs ! 1 - 48)], 3)
           else ([case simple_escape c of Some b \<Rightarrow> b | None \<Rightarrow> c], 1))"

function unescape :: "u8 list \<Rightarrow> u8 list option" where
  "unescape [] = Some []"
| "unescape (c # cs) =
     (if c \<noteq> 92 then map_option (Cons c) (unescape cs)
      else do { (bs, n) \<leftarrow> escape_of cs; r \<leftarrow> unescape (drop n cs); Some (bs @ r) })"
  by pat_completeness auto
termination
  by (relation "measure length") (auto simp: less_Suc_eq_le)

declare unescape.simps [simp del]

fun scheme_unescape :: "u8 list \<Rightarrow> u8 list option" where
  "scheme_unescape [] = Some []"
| "scheme_unescape (c # cs) =
     (if c \<noteq> 92 then map_option (Cons c) (scheme_unescape cs)
      else case cs of [] \<Rightarrow> None
        | d # ds \<Rightarrow> map_option (Cons (if d = of_char CHR ''n'' then 10 else d)) (scheme_unescape ds))"

text \<open>How a character is written.\<close>

definition readable :: "bool \<Rightarrow> u8 \<Rightarrow> u8 list" where
  "readable symbolp c =
     (if c = 10 then [92, of_char CHR ''n'']
      else if c = 9 then [92, of_char CHR ''t'']
      else if c = 8 then [92, of_char CHR ''b'']
      else if c = 13 then [92, of_char CHR ''r'']
      else if c = 12 then [92, of_char CHR ''f'']
      else if c = 11 then [92, of_char CHR ''v'']
      else if c = 34 \<or> c = 92 \<or> (symbolp \<and> c = 124) then [92, c]
      else if c \<ge> 32 then [c]
      else [92, 48, 48 + c div 8, 48 + c mod 8])"

section \<open>The loops compute it\<close>

text \<open>The characters \<open>xs\<close> lie in the block from \<open>s\<close> on, and after them one that is no hexadecimal digit, like the
  quote that closes a literal or the null character.\<close>

fun text_at :: "u8 cells \<Rightarrow> nat \<Rightarrow> u8 list \<Rightarrow> bool" where
  "text_at t s [] \<longleftrightarrow> (\<exists>q. rd t s = Some q \<and> \<not> isxdigit q)"
| "text_at t s (c # cs) \<longleftrightarrow> rd t s = Some c \<and> text_at t (Suc s) cs"

lemma text_at_slice:
  assumes "\<not> isxdigit q"
  shows "text_at (map Some (pre @ xs) @ Some q # sl) (length pre) xs"
proof (induction xs arbitrary: pre)
  case Nil
  then show ?case using assms by (simp add: mem_simps)
next
  case (Cons x xs)
  from Cons [of "pre @ [x]"] show ?case by (simp add: mem_simps nth_append)
qed

lemma not_hex_0: "\<not> isxdigit 0"
  by (simp add: isxdigit_def isdigit_def)

lemma digit_hex: "isdigit c \<Longrightarrow> isxdigit c"
  by (simp add: isxdigit_def)

lemma text_at_drop: "text_at t s xs \<Longrightarrow> n \<le> length xs \<Longrightarrow> text_at t (s + n) (drop n xs)"
proof (induction n arbitrary: s xs)
  case (Suc n)
  then obtain x ys where "xs = x # ys" by (cases xs) auto
  with Suc.prems Suc.IH [of "Suc s" ys] show ?case by simp
qed simp

lemma blit_put:
  assumes "n = length bs" and "d + length bs \<le> length m"
  shows "blit m d (c_string bs @ sl) 0 n = Some (put m d bs)"
  using assms by (simp add: blit_def put_eq take_drop_c_string c_string_def)

lemma utf8_of_unit: "\<exists>sl. ucs2_string_to_utf8_string (bstring_of [u]) = Some (Inr (str_rep (utf8_unit u) sl))"
  using ucs2_to_utf8_rep [of "[u]" "[]"] by simp

lemma number_2: "number [a, b] = 16 * uint (XDIGIT_TO_BYTE a) + uint (XDIGIT_TO_BYTE b)"
  by (simp add: number_def)

lemma uchar_number_2: "uchar (number [a, b]) = XDIGIT_TO_BYTE a * 16 + XDIGIT_TO_BYTE b"
  by (simp add: number_2 uchar_def)

lemma escape_x_put:
  assumes "text_at t s (c # cs)" and "all_digits isxdigit 2 cs" and "d < length m"
  shows "escape_x t s d len m = Some (s + 3, d + 1, len - 2, put m d [uchar (number (take 2 cs))])"
proof -
  obtain a b r where "cs = a # b # r"
    using assms(2) by (cases cs; cases "tl cs") (auto simp: all_digits_def)
  with assms show ?thesis by (simp add: escape_x_def emit_def all_digits_def uchar_number_2)
qed

lemma escape_x_other:
  assumes "text_at t s (c # cs)" and "\<not> all_digits isxdigit 2 cs" and "d < length m"
  shows "escape_x t s d len m = Some (s + 1, d + 1, len, put m d [c])"
proof (cases cs)
  case Nil
  with assms show ?thesis by (auto simp: escape_x_def emit_def)
next
  case (Cons a r)
  with assms show ?thesis
    by (cases r) (auto simp: escape_x_def emit_def all_digits_def)
qed

lemma escape_default_put:
  assumes "text_at t s (c # cs)" and "d < length m" and "isdigit c" "all_digits isdigit 2 cs"
  shows "escape_default t s d len m =
    Some (s + 3, d + 1, len - 2, put m d [(c - 48) * 64 + (cs ! 0 - 48) * 8 + (cs ! 1 - 48)])"
proof -
  obtain a b r where "cs = a # b # r"
    using assms(4) by (cases cs; cases "tl cs") (auto simp: all_digits_def)
  with assms show ?thesis by (simp add: escape_default_def emit_def all_digits_def)
qed

lemma escape_default_other:
  assumes "text_at t s (c # cs)" and "d < length m" and "\<not> (isdigit c \<and> all_digits isdigit 2 cs)"
  shows "escape_default t s d len m = Some (s + 1, d + 1, len, put m d [c])"
proof (cases cs)
  case Nil
  with assms show ?thesis by (auto simp: escape_default_def emit_def dest: digit_hex)
next
  case (Cons a r)
  with assms show ?thesis
    by (cases r) (auto simp: escape_default_def emit_def all_digits_def dest: digit_hex)
qed

lemma number_4:
  "number [a, b, c, d] = push_bit 12 (uint (XDIGIT_TO_BYTE a)) + push_bit 8 (uint (XDIGIT_TO_BYTE b)) +
     push_bit 4 (uint (XDIGIT_TO_BYTE c)) + uint (XDIGIT_TO_BYTE d)"
  by (simp add: number_def push_bit_eq_mult)

lemma make_one: "make_ucs2_string 1 u = Some (Inr (bstring_of [u]))"
  using make_ucs2_string_rep [of 1 u] by simp

lemma offsets: "s + 2 = Suc (Suc s)" "s + 3 = Suc (Suc (Suc s))" "s + 4 = Suc (Suc (Suc (Suc s)))"
  by simp_all

lemma escape_u_put:
  assumes "text_at t s (c # cs)" and "all_digits isxdigit 4 cs"
    and "bs = utf8_unit (word_of_int (number (take 4 cs)))" and "d + length bs \<le> length m"
  shows "escape_u t s d len m = Some (s + 5, d + length bs, len - (5 - int (length bs)), put m d bs)"
proof -
  obtain x y z w r where cs: "cs = x # y # z # w # r"
    using assms(2) by (cases cs; cases "tl cs"; cases "tl (tl cs)"; cases "tl (tl (tl cs))") (auto simp: all_digits_def)
  let ?u = "word_of_int (number [x, y, z, w]) :: u16"
  obtain sl where "ucs2_string_to_utf8_string (bstring_of [?u]) = Some (Inr (str_rep bs sl))"
    using utf8_of_unit [of ?u] assms(3) cs by auto
  with assms cs show ?thesis
    by (simp add: escape_u_def all_digits_def number_4 make_one blit_put offsets del: of_int_add)
qed

lemma escape_u_other:
  assumes "text_at t s (c # cs)" and "\<not> all_digits isxdigit 4 cs" and "d < length m"
  shows "escape_u t s d len m = Some (s + 1, d + 1, len, put m d [c])"
proof -
  consider "cs = []" | a where "cs = [a]" | a b where "cs = [a, b]" | a b e where "cs = [a, b, e]"
    | a b e f r where "cs = a # b # e # f # r"
    by (metis list.exhaust)
  then show ?thesis
    using assms by cases (auto simp: escape_u_def emit_def all_digits_def offsets)
qed

lemma escape_C_step_put:
  assumes "text_at t s (92 # cs)" and "escape_of cs = Some (bs, n)" and "d + length bs \<le> length m"
  shows "escape_C_step t s d len m =
    Some (s + 1 + n, d + length bs, len - 1 - (int n - int (length bs)), put m d bs)"
proof -
  obtain c r where cs: "cs = c # r" using assms(2) by (cases cs) auto
  note t = assms(1) [unfolded cs]
  have t': "text_at t (Suc s) (c # r)" using t by simp
  show ?thesis
  proof (cases "simple_escape c")
    case (Some b)
    then have "c \<notin> {of_char CHR ''x'', of_char CHR ''X'', of_char CHR ''u'', of_char CHR ''U''}" "\<not> isdigit c"
      by (auto simp: simple_escape_def isdigit_def split: if_splits)
    with Some assms cs t show ?thesis by (auto simp: escape_C_step_def emit_def)
  next
    case None
    consider (x) "c \<in> {of_char CHR ''x'', of_char CHR ''X''}" | (u) "c \<in> {of_char CHR ''u'', of_char CHR ''U''}"
      | (other) "c \<notin> {of_char CHR ''x'', of_char CHR ''X'', of_char CHR ''u'', of_char CHR ''U''}"
      by blast
    then show ?thesis
    proof cases
      case x
      then have "\<not> isdigit c" by (auto simp: isdigit_def)
      with x None assms cs t escape_x_put [OF t', of d m "len - 1"] escape_x_other [OF t', of d m "len - 1"]
      show ?thesis by (auto simp: escape_C_step_def split: if_splits)
    next
      case u
      then have "\<not> isdigit c" by (auto simp: isdigit_def)
      with u None assms cs t escape_u_put [OF t' _ refl, of d m "len - 1"] escape_u_other [OF t', of d m "len - 1"]
      show ?thesis by (auto simp: escape_C_step_def split: if_splits)
    next
      case other
      with None assms cs t escape_default_put [OF t', of d m "len - 1"] escape_default_other [OF t', of d m "len - 1"]
      show ?thesis by (auto simp: escape_C_step_def split: if_splits)
    qed
  qed
qed

lemma length_unit: "length (utf8_unit u) \<le> 4"
  by (auto simp: utf8_unit_def lone_high_bytes_def lone_low_bytes_def utf8_cp_def Let_def)

lemma escape_of_le: "escape_of cs = Some (bs, n) \<Longrightarrow> n \<le> length cs \<and> length bs \<le> Suc n"
  by (cases cs) (auto simp: all_digits_def intro: le_trans [OF length_unit] split: if_splits)

lemma length_unescape: "unescape xs = Some ys \<Longrightarrow> length ys \<le> length xs"
proof (induction xs arbitrary: ys rule: unescape.induct)
  case (2 c cs)
  show ?case
  proof (cases "c = 92")
    case True
    with 2(3) obtain bs n r where *: "escape_of cs = Some (bs, n)" "unescape (drop n cs) = Some r" "ys = bs @ r"
      by (auto simp: unescape.simps split: Option.bind_splits)
    then have "length r \<le> length cs - n" using 2(2) [OF _ *(1) refl *(2)] True by simp
    with escape_of_le [OF *(1)] *(3) show ?thesis by (simp; arith)
  next
    case False
    with 2 show ?thesis by (auto simp: unescape.simps)
  qed
qed (simp add: unescape.simps)

lemma escape_C_loop_put:
  assumes "unescape xs = Some ys" and "text_at t s xs" and "d + length ys \<le> length m"
  shows "escape_C_loop t (s + length xs) s d len m =
    Some (d + length ys, len - (int (length xs) - int (length ys)), put m d ys)"
  using assms
proof (induction xs arbitrary: ys s d len m rule: unescape.induct)
  case 1
  then show ?case by (simp add: unescape.simps escape_C_loop.simps)
next
  case (2 c cs)
  show ?case
  proof (cases "c = 92")
    case True
    with 2(3) obtain bs n r where *: "escape_of cs = Some (bs, n)" "unescape (drop n cs) = Some r" "ys = bs @ r"
      by (auto simp: unescape.simps split: Option.bind_splits)
    have n: "n \<le> length cs" using escape_of_le [OF *(1)] by simp
    have "text_at t (Suc s + n) (drop n cs)" using text_at_drop [of t "Suc s" cs n] 2(4) n by simp
    then have "escape_C_loop t (Suc s + n + length (drop n cs)) (Suc s + n) (d + length bs) l (put m d bs) =
        Some (d + length bs + length r, l - (int (length (drop n cs)) - int (length r)), put (put m d bs) (d + length bs) r)" for l
      using 2(5) * True by (intro 2(2)) simp_all
    with escape_C_step_put [of t s cs bs n d m len] 2(4,5) True * n show ?thesis
      by (subst escape_C_loop.simps) (simp add: put_append of_nat_diff algebra_simps)
  next
    case False
    with 2(3) obtain r where *: "unescape cs = Some r" "ys = c # r" by (auto simp: unescape.simps)
    have "escape_C_loop t (Suc s + length cs) (Suc s) (Suc d) len (m[d := Some c]) =
        Some (Suc d + length r, len - (int (length cs) - int (length r)), put (m[d := Some c]) (Suc d) r)"
      using 2(4,5) * False by (intro 2(1)) simp_all
    moreover have "put (m[d := Some c]) (Suc d) r = put m d (c # r)"
      using put_append [of m d "[c]" r] by simp
    ultimately show ?thesis using 2(4,5) False *
      by (subst escape_C_loop.simps) (simp add: escape_C_step_def emit_def)
  qed
qed

lemma put_terminated:
  fixes ys :: "u8 list"
  assumes "length ys \<le> n"
  shows "(put (gc_malloc (Suc n)) 0 ys)[length ys := Some 0] = c_string ys @ gc_malloc (n - length ys)"
proof -
  have "(gc_malloc (Suc n - length ys) :: u8 cells) = None # gc_malloc (n - length ys)"
    using assms by (simp add: gc_malloc_def Suc_diff_le)
  then show ?thesis using assms by (simp add: put_eq list_update_append c_string_def)
qed

lemma escape_C_slice:
  assumes "unescape xs = Some ys" and "\<not> isxdigit q"
  shows "bgl_escape_C_string (map Some (pre @ xs) @ Some q # sl) (int (length pre)) (int (length pre + length xs)) =
    Some (str_rep ys (gc_malloc (length xs - length ys)))"
  using escape_C_loop_put [OF assms(1) text_at_slice [OF assms(2), of pre xs sl], of 0 "gc_malloc (Suc (length xs))" "int (length xs)"]
    length_unescape [OF assms(1)] put_terminated [of ys "length xs"]
  by (simp add: bgl_escape_C_string_def str_rep_def flip: of_nat_add)

lemma escape_C_rep:
  "unescape xs = Some ys \<Longrightarrow> bgl_escape_C_string (c_string (pre @ xs) @ sl) (int (length pre)) (int (length pre + length xs)) =
    Some (str_rep ys (gc_malloc (length xs - length ys)))"
  using escape_C_slice [OF _ not_hex_0, of xs ys pre sl] by (simp add: c_string_def)

lemma scheme_loop_put:
  assumes "scheme_unescape xs = Some ys" and "text_at t s xs" and "d + length ys \<le> length m"
  shows "escape_scheme_loop t (s + length xs) s d len m =
    Some (d + length ys, len - (int (length xs) - int (length ys)), put m d ys)"
  using assms
proof (induction xs arbitrary: ys s d len m rule: scheme_unescape.induct)
  case 1
  then show ?case by (simp add: escape_scheme_loop.simps)
next
  case (2 c cs)
  have put1: "put (m[d := Some b]) (Suc d) r = put m d (b # r)" for b r
    using put_append [of m d "[b]" r] by simp
  show ?case
  proof (cases "c = 92")
    case True
    with 2(3) obtain e ds r where *: "cs = e # ds" "scheme_unescape ds = Some r"
        "ys = (if e = of_char CHR ''n'' then 10 else e) # r"
      by (auto split: list.splits)
    have "escape_scheme_loop t (Suc (Suc s) + length ds) (Suc (Suc s)) (Suc d) (len - 1) (m[d := Some (hd ys)]) =
        Some (Suc d + length r, len - 1 - (int (length ds) - int (length r)), put (m[d := Some (hd ys)]) (Suc d) r)"
      using 2(4,5) * True by (intro 2(2)) simp_all
    with 2(4,5) True * show ?thesis
      by (subst escape_scheme_loop.simps) (simp add: put1)
  next
    case False
    with 2(3) obtain r where *: "scheme_unescape cs = Some r" "ys = c # r" by auto
    have "escape_scheme_loop t (Suc s + length cs) (Suc s) (Suc d) len (m[d := Some c]) =
        Some (Suc d + length r, len - (int (length cs) - int (length r)), put (m[d := Some c]) (Suc d) r)"
      using 2(4,5) * False by (intro 2(1)) simp_all
    with 2(4,5) False * show ?thesis
      by (subst escape_scheme_loop.simps) (simp add: put1)
  qed
qed

lemma length_scheme_unescape: "scheme_unescape xs = Some ys \<Longrightarrow> length ys \<le> length xs"
  by (induction xs arbitrary: ys rule: scheme_unescape.induct) (force split: if_splits list.splits)+

lemma escape_scheme_slice:
  assumes "scheme_unescape xs = Some ys" and "\<not> isxdigit q"
  shows "bgl_escape_scheme_string (map Some (pre @ xs) @ Some q # sl) (int (length pre)) (int (length pre + length xs)) =
    Some (str_rep ys (gc_malloc (length xs - length ys)))"
  using scheme_loop_put [OF assms(1) text_at_slice [OF assms(2), of pre xs sl], of 0 "gc_malloc (Suc (length xs))" "int (length xs)"]
    length_scheme_unescape [OF assms(1)] put_terminated [of ys "length xs"]
  by (simp add: bgl_escape_scheme_string_def str_rep_def flip: of_nat_add)

section \<open>Writing a string so that it can be read\<close>

text \<open>The control characters, one by one.\<close>

lemma control_characters: "\<not> 32 \<le> (c :: u8) \<Longrightarrow> c \<in> set (map of_nat [0..<32])"
proof -
  assume "\<not> 32 \<le> c"
  then have "unat c < 32" by (simp add: word_le_nat_alt)
  moreover have "c = of_nat (unat c)" by simp
  ultimately show ?thesis unfolding set_map by (intro image_eqI) auto
qed

definition octal_ok :: "u8 \<Rightarrow> bool" where
  "octal_ok c \<longleftrightarrow> drop_bit 6 c = 0 \<and> drop_bit 3 c AND 7 = c div 8 \<and> c AND 7 = c mod 8 \<and>
    isdigit (48 + c div 8) \<and> isdigit (48 + c mod 8) \<and>
    (48 - 48) * 64 + (48 + c div 8 - 48) * 8 + (48 + c mod 8 - 48) = c"

lemma octal_digits: "\<not> 32 \<le> c \<Longrightarrow> octal_ok c"
proof -
  have "list_all octal_ok (map of_nat [0..<32])" by code_simp
  then show "\<not> 32 \<le> c \<Longrightarrow> octal_ok c" using control_characters [of c] by (auto simp: list_all_iff)
qed

lemma take_put: "w + length bs \<le> length m \<Longrightarrow> take (w + length bs) (put m w bs) = take w m @ map Some bs"
  by (simp add: put_eq)

lemma wr_put: "w + length bs < length m \<Longrightarrow> wr (put m w bs) (w + length bs) b = Some (put m w (bs @ [b]))"
  using put_append [of m w bs "[b]"] by simp

lemma sprintf_put:
  assumes "w + 4 < length m" and "\<not> 32 \<le> c"
  shows "sprintf_03o m w c = Some (put m w ([92, 48, 48 + c div 8, 48 + c mod 8, 0]))"
proof -
  have w: "wr m w 92 = Some (put m w [92])" "wr (put m w [92]) (Suc w) b1 = Some (put m w [92, b1])"
    "wr (put m w [92, b1]) (Suc (Suc w)) b2 = Some (put m w [92, b1, b2])"
    "wr (put m w [92, b1, b2]) (w + 3) b3 = Some (put m w [92, b1, b2, b3])"
    "wr (put m w [92, b1, b2, b3]) (w + 4) 0 = Some (put m w [92, b1, b2, b3, 0])" for b1 b2 b3
    using assms wr_put [of w "[]" m 92] wr_put [of w "[92]" m b1] wr_put [of w "[92, b1]" m b2]
      wr_put [of w "[92, b1, b2]" m b3] wr_put [of w "[92, b1, b2, b3]" m 0]
    by (simp_all add: offsets eval_nat_numeral del: put.simps(2))
  show ?thesis
    using octal_digits [OF assms(2)] by (simp add: sprintf_03o_def octal_ok_def w del: put.simps)
qed

lemma wr2_put: "w + 1 < length m \<Longrightarrow> wr2 m w c = Some (put m w [92, c])"
  by (simp add: wr2_def list_update_swap [of w "Suc w"])

definition for_read_mem :: "bool \<Rightarrow> u8 \<Rightarrow> u8 list" where
  "for_read_mem symbolp c = readable symbolp c @
     (if c \<ge> 32 \<or> c \<in> {8, 9, 10, 11, 12, 13} then [] else [0])"

lemma for_read_step_put:
  assumes "w + 4 < length m"
  shows "for_read_step symbolp c (w, esc, m) =
      Some (w + length (readable symbolp c), esc \<or> readable symbolp c \<noteq> [c], put m w (for_read_mem symbolp c))"
  using assms sprintf_put [OF assms, of c]
  by (auto simp: for_read_step_def for_read_mem_def readable_def wr2_put)

definition for_read :: "bool \<Rightarrow> u8 list \<Rightarrow> u8 list" where
  "for_read symbolp xs = concat (map (readable symbolp) xs)"

lemma length_readable: "length (readable symbolp c) \<le> 4"
  by (simp add: readable_def)

lemma not_digit_0: "\<not> isdigit 0"
  by (simp add: isdigit_def)

lemma readable_nonzero: "0 \<notin> set (readable symbolp c)"
  using octal_digits [of c] not_digit_0 by (auto simp: readable_def octal_ok_def)

lemma length_for_read: "length (for_read symbolp xs) \<le> 4 * length xs"
  by (induction xs) (auto simp: for_read_def intro: add_mono length_readable)

lemma for_read_loop:
  assumes "4 * length (pre @ xs) < length m" 
    and "w = length (for_read symbolp pre)" and "take w m = map Some (for_read symbolp pre)"
  shows "\<exists>m'. for_up (int (length pre)) (int (length (pre @ xs)))
       (\<lambda>r s. do { k \<leftarrow> idx r; c \<leftarrow> rd (c_string (pre @ xs) @ sl) k; for_read_step symbolp c s }) (w, esc, m) =
     Some (length (for_read symbolp (pre @ xs)), esc \<or> (\<exists>c\<in>set xs. readable symbolp c \<noteq> [c]), m') \<and>
     length m' = length m \<and> take (length (for_read symbolp (pre @ xs))) m' = map Some (for_read symbolp (pre @ xs))"
  using assms
proof (induction xs arbitrary: pre w esc m)
  case Nil
  then show ?case by (simp add: for_up.simps)
next
  case (Cons c xs)
  let ?w = "w + length (readable symbolp c)" and ?m = "put m w (for_read_mem symbolp c)"
  have le: "4 * length pre + 4 < length m" "w \<le> 4 * length pre"
    using Cons.prems(1,2) length_for_read [of symbolp pre] by simp_all
  have "length (for_read_mem symbolp c) \<le> 5"
    using length_readable [of symbolp c] by (simp add: for_read_mem_def)
  then have "take ?w ?m = map Some (for_read symbolp (pre @ [c]))"
    using Cons.prems(2,3) le by (simp add: put_eq for_read_mem_def for_read_def)
  then obtain m' where m': "for_up (int (length (pre @ [c]))) (int (length ((pre @ [c]) @ xs)))
       (\<lambda>r s. do { k \<leftarrow> idx r; c \<leftarrow> rd (c_string ((pre @ [c]) @ xs) @ sl) k; for_read_step symbolp c s })
       (?w, esc \<or> readable symbolp c \<noteq> [c], ?m) =
     Some (length (for_read symbolp ((pre @ [c]) @ xs)), (esc \<or> readable symbolp c \<noteq> [c]) \<or> (\<exists>c\<in>set xs. readable symbolp c \<noteq> [c]), m')"
     "length m' = length m" "take (length (for_read symbolp ((pre @ [c]) @ xs))) m' = map Some (for_read symbolp ((pre @ [c]) @ xs))"
    using Cons.IH [of "pre @ [c]" ?m ?w "esc \<or> readable symbolp c \<noteq> [c]"] Cons.prems(1,2)
    by (auto simp: for_read_def)
  have "for_read_step symbolp c (w, esc, m) = Some (?w, esc \<or> readable symbolp c \<noteq> [c], ?m)"
    using le by (intro for_read_step_put) simp
  with m' show ?case
    by (subst for_up.simps) (auto simp: mem_simps nth_append add.commute)
qed

lemma for_read_rep:
  assumes "length xs < 2 ^ 29"
  shows "create_string_for_read (str_rep xs sl) symbolp =
    Some (bstring_of (for_read symbolp xs), \<exists>c\<in>set xs. readable symbolp c \<noteq> [c])"
proof -
  let ?ys = "for_read symbolp xs"
  define n where "n = (if int (length xs) * 4 + 1 > 200 then 4 * length xs + 1 else 200)"
  have n: "(if 50 \<le> length xs then idx (int (length xs) * 4 + 1) else Some 200) = Some n"
    by (auto simp: n_def idx_def)
  have size: "4 * length xs < n" and nil: "for_read symbolp [] = []"
    by (simp_all add: n_def for_read_def)
  then have le: "length ?ys < n" using length_for_read [of symbolp xs] by simp
  obtain m' where m': "for_up 0 (int (length xs))
      (\<lambda>r s. do { k \<leftarrow> idx r; c \<leftarrow> rd (c_string xs @ sl) k; for_read_step symbolp c s }) (0, False, gc_malloc n) =
      Some (length ?ys, \<exists>c\<in>set xs. readable symbolp c \<noteq> [c], m')"
    "length m' = n" "take (length ?ys) m' = map Some ?ys"
    using for_read_loop [of "[]" xs "gc_malloc n" 0 symbolp sl False] size nil by auto
  have "m'[length ?ys := Some 0] = c_string ?ys @ drop (Suc (length ?ys)) m'"
    using m'(2,3) le by (simp add: upd_conv_take_nth_drop c_string_def)
  moreover have "0 \<notin> set ?ys"
    using readable_nonzero by (auto simp: for_read_def)
  ultimately have "string_to_bstring (Some (m'[length ?ys := Some 0])) = Some (bstring_of ?ys)"
    using assms length_for_read [of symbolp xs] by (simp add: string_to_bstring_rep)
  with assms n m' le show ?thesis
    by (simp add: create_string_for_read_def)
qed

lemma unescape_readable: "unescape (readable symbolp c @ ys) = map_option (Cons c) (unescape ys)"
proof (cases "32 \<le> c \<or> c \<in> {8, 9, 10, 11, 12, 13}")
  case True
  then show ?thesis
    by (cases "unescape ys") (auto simp: readable_def unescape.simps isdigit_def simple_escape_def)
next
  case False
  then have "octal_ok c" using octal_digits by blast
  moreover have "readable symbolp c = [92, 48, 48 + c div 8, 48 + c mod 8]"
    using False by (auto simp: readable_def)
  ultimately show ?thesis
    by (cases "unescape ys") (simp_all add: unescape.simps octal_ok_def all_digits_def isdigit_def [of 48])
qed

lemma unescape_for_read: "unescape (for_read symbolp xs) = Some xs"
proof (induction xs)
  case Nil
  then show ?case by (simp add: for_read_def unescape.simps)
next
  case (Cons c xs)
  then show ?case using unescape_readable [of symbolp c "for_read symbolp xs"] by (simp add: for_read_def)
qed

lemma for_read_changed:
  "(\<exists>c\<in>set xs. readable symbolp c \<noteq> [c]) \<longleftrightarrow> for_read symbolp xs \<noteq> xs"
proof
  assume "for_read symbolp xs \<noteq> xs"
  then show "\<exists>c\<in>set xs. readable symbolp c \<noteq> [c]"
    by (induction xs) (auto simp: for_read_def)
next
  have pos: "1 \<le> length (readable symbolp c)" for c by (simp add: readable_def)
  have le: "length xs \<le> length (for_read symbolp xs)" for xs
  proof (induction xs)
    case (Cons c xs)
    with pos [of c] show ?case by (simp add: for_read_def)
  qed simp
  assume "\<exists>c\<in>set xs. readable symbolp c \<noteq> [c]"
  then show "for_read symbolp xs \<noteq> xs"
  proof (induction xs)
    case (Cons c xs)
    show ?case
    proof (cases "readable symbolp c = [c]")
      case True
      with Cons show ?thesis by (auto simp: for_read_def)
    next
      case False
      then have "2 \<le> length (readable symbolp c)" by (auto simp: readable_def split: if_splits)
      with le [of xs] have "length (for_read symbolp (c # xs)) \<noteq> length (c # xs)" by (simp add: for_read_def)
      then show ?thesis by metis
    qed
  qed simp
qed

text \<open>C29: reading: on a slice whose escape sequences are complete and that is followed by a character that is no
  hexadecimal digit, like the quote that closes a literal in the buffer of a port or the null character that ends a
  string, the two functions build the string of the characters that the sequences stand for (hexadecimal, Unicode and
  octal ones included in the C form), terminated and of the right length, without an access outside the source
  or the block allocated for the result.\<close>

theorem escape_strings_decode:
  assumes "unescape xs = Some ys" and "scheme_unescape xs = Some zs" and "\<not> isxdigit q"
  shows "bgl_escape_C_string (map Some (pre @ xs) @ Some q # sl) (int (length pre)) (int (length pre + length xs)) =
      Some (str_rep ys (gc_malloc (length xs - length ys))) \<and>
    bgl_escape_scheme_string (map Some (pre @ xs) @ Some q # sl) (int (length pre)) (int (length pre + length xs)) =
      Some (str_rep zs (gc_malloc (length xs - length zs)))"
  using escape_C_slice [OF assms(1,3)] escape_scheme_slice [OF assms(2,3)] by simp

text \<open>A literal in a buffer: the slice between the quotes.\<close>

lemma escape_strings_decode_witness:
  "bgl_escape_C_string (map Some (34 # bytes ''b'' @ 92 # bytes ''x41'' @ 92 # bytes ''u20AC'' @ 34 # bytes ''cd'')) 1 12 =
      Some (str_rep [98, 65, 0xE2, 0x82, 0xAC] (gc_malloc 6)) \<and>
   bgl_escape_scheme_string (map Some (34 # bytes ''b'' @ 92 # bytes ''x41'' @ 92 # bytes ''u20AC'' @ 34 # bytes ''cd'')) 1 12 =
      Some (str_rep (bytes ''bx41u20AC'') (gc_malloc 2))"
proof -
  have "unescape (98 # 92 # bytes ''x41'' @ 92 # bytes ''u20AC'') = Some [98, 65, 0xE2, 0x82, 0xAC]"
    "scheme_unescape (98 # 92 # bytes ''x41'' @ 92 # bytes ''u20AC'') = Some (bytes ''bx41u20AC'')" by code_simp+
  moreover have "\<not> isxdigit 34" by (simp add: isxdigit_def isdigit_def)
  ultimately show ?thesis
    using escape_strings_decode [of "98 # 92 # bytes ''x41'' @ 92 # bytes ''u20AC''" "[98, 65, 0xE2, 0x82, 0xAC]"
        "bytes ''bx41u20AC''" 34 "[34]" "map Some (bytes ''cd'')"]
    by (simp add: bytes_def eval_nat_numeral)
qed

text \<open>C21: writing and reading back: the text written for a string, or for a symbol, fits in the buffer
  reserved for it, decodes to the characters of the string, whatever they are (null characters included), and
  the second value tells exactly whether the text differs from the string.\<close>

theorem for_read_round_trip:
  assumes "length xs < 2 ^ 29"
  shows "\<exists>ys esc sl'. create_string_for_read (str_rep xs sl) symbolp = Some (bstring_of ys, esc) \<and>
    (esc \<longleftrightarrow> ys \<noteq> xs) \<and>
    bgl_escape_C_string (char0 (bstring_of ys)) 0 (int (length ys)) = Some (str_rep xs sl')"
proof -
  have "(\<exists>c\<in>set xs. readable symbolp c \<noteq> [c]) \<longleftrightarrow> for_read symbolp xs \<noteq> xs"
    by (rule for_read_changed)
  moreover have "bgl_escape_C_string (char0 (bstring_of (for_read symbolp xs))) 0 (int (length (for_read symbolp xs))) =
      Some (str_rep xs (gc_malloc (length (for_read symbolp xs) - length xs)))"
    using escape_C_rep [OF unescape_for_read, of "[]" symbolp xs "[]"] by simp
  ultimately show ?thesis using for_read_rep [OF assms, of sl symbolp] by blast
qed

lemma for_read_round_trip_witness:
  "\<exists>ys esc sl'. create_string_for_read (bstring_of [97, 0, 10, 255]) True = Some (bstring_of ys, esc) \<and>
    (esc \<longleftrightarrow> ys \<noteq> [97, 0, 10, 255]) \<and>
    bgl_escape_C_string (char0 (bstring_of ys)) 0 (int (length ys)) = Some (str_rep [97, 0, 10, 255] sl')"
  by (rule for_read_round_trip) simp

text \<open>Incomplete sequences: for a lone backslash the length is decremented but a character is written,
  so the result is the empty string without its null character; a hexadecimal sequence that the end of the
  slice cuts is read past that end, and the length becomes wrong: 0 for one character, or negative.\<close>

theorem escape_C_incomplete:
  "bgl_escape_C_string (c_string [92]) 0 1 = Some \<lparr>str_length = 0, char0 = [Some 92, Some 0]\<rparr> \<and>
   bgl_escape_C_string (c_string (92 # bytes ''x41'')) 0 3 = Some \<lparr>str_length = 0, char0 = [Some 65, Some 0, None, None]\<rparr> \<and>
   escape_C_loop (c_string (92 # bytes ''x41'')) 2 0 0 2 (gc_malloc 3) = Some (1, - 1, [Some 65, None, None])"
  by (intro conjI) code_simp+

end
