(* ===== verification/Intern.thy ===== *)
theory Intern
  imports Strnum Strcmp Hash
begin

text \<open>
  Symbols and keywords, \<open>runtime/Clib/csymbol.c\<close> and \<open>cdsssl.c\<close>: names are interned in tables
  of buckets, so that two symbols (or keywords) are the same object exactly when their names are
  equal. Generated symbols get their name and their place in the table when the name is first asked for.

  Objects live at addresses. The record \<open>globals\<close> holds the string objects, the symbols, the keywords,
  the next free address, and the static variables of the two files; a bucket, a list of pairs in the code, is the
  list of the addresses in it. Each operation runs under the mutex of its table, so it is one step of the state.
\<close>

section \<open>State\<close>

type_synonym addr = nat

record symbol =
  sym_string :: "addr option"
  sym_cval :: "addr option"

record keyword =
  kw_string :: addr
  kw_cval :: "addr option"

record globals =
  strings :: "addr \<rightharpoonup> bgl_string"
  syms :: "addr \<rightharpoonup> symbol"
  keys :: "addr \<rightharpoonup> keyword"
  brk :: addr
  c_symtab :: "addr list list"
  c_keytab :: "addr list list"
  gensym_counter :: c_long

definition SYMBOL_HASH_TABLE_SIZE_SHIFT :: nat where "SYMBOL_HASH_TABLE_SIZE_SHIFT = 12"

definition SYMBOL_HASH_TABLE_SIZE :: nat where
  "SYMBOL_HASH_TABLE_SIZE = 2 ^ SYMBOL_HASH_TABLE_SIZE_SHIFT"

definition KEYWORD_HASH_TABLE_SIZE_SHIFT :: nat where "KEYWORD_HASH_TABLE_SIZE_SHIFT = 6"

definition KEYWORD_HASH_TABLE_SIZE :: nat where
  "KEYWORD_HASH_TABLE_SIZE = 2 ^ KEYWORD_HASH_TABLE_SIZE_SHIFT"

definition bgl_init_symbol_table :: "globals \<Rightarrow> globals" where
  "bgl_init_symbol_table g = g\<lparr>c_symtab := replicate SYMBOL_HASH_TABLE_SIZE []\<rparr>"

definition bgl_init_keyword_table :: "globals \<Rightarrow> globals" where
  "bgl_init_keyword_table g = g\<lparr>c_keytab := replicate KEYWORD_HASH_TABLE_SIZE []\<rparr>"

text \<open>The initial values of the static variables, before the tables are made.\<close>

definition static_init :: globals where
  "static_init = \<lparr>strings = Map.empty, syms = Map.empty, keys = Map.empty, brk = 0, c_symtab = [],
     c_keytab = [], gensym_counter = 999\<rparr>"

definition alloc_string :: "bgl_string \<Rightarrow> globals \<Rightarrow> addr \<times> globals" where
  "alloc_string s g = (brk g, g\<lparr>strings := (strings g)(brk g \<mapsto> s), brk := Suc (brk g)\<rparr>)"

definition make_symbol :: "addr option \<Rightarrow> globals \<Rightarrow> addr \<times> globals" where
  "make_symbol name g =
     (brk g, g\<lparr>syms := (syms g)(brk g \<mapsto> \<lparr>sym_string = name, sym_cval = None\<rparr>), brk := Suc (brk g)\<rparr>)"

definition bgl_make_keyword :: "addr \<Rightarrow> globals \<Rightarrow> addr \<times> globals" where
  "bgl_make_keyword name g =
     (brk g, g\<lparr>keys := (keys g)(brk g \<mapsto> \<lparr>kw_string = name, kw_cval = None\<rparr>), brk := Suc (brk g)\<rparr>)"

text \<open>The vector accesses \<open>VECTOR_REF(table, hash)\<close> with a hash number as index.\<close>

definition bucket_ref :: "addr list list \<Rightarrow> c_long \<Rightarrow> addr list option" where
  "bucket_ref tab h = (if unat h < length tab then Some (tab ! unat h) else None)"

text \<open>\<open>while( !NULLP(run) && !hit(CAR(run)) ) run = CDR(run)\<close>: the object found, if any.\<close>

fun bucket_find :: "(addr \<Rightarrow> bool option) \<Rightarrow> addr list \<Rightarrow> addr option option" where
  "bucket_find hit [] = Some None"
| "bucket_find hit (o1 # run) = do { h \<leftarrow> hit o1; if h then Some (Some o1) else bucket_find hit run }"

section \<open>Symbols\<close>

definition symbol_strcmp :: "globals \<Rightarrow> addr \<Rightarrow> u8 cells \<Rightarrow> int \<Rightarrow> bool option" where
  "symbol_strcmp g o1 o2 l2 = do {
     s \<leftarrow> strings g o1;
     if int (str_length s) = l2 then memcmp_eq (char0 s) 0 o2 0 (nat l2) else Some False }"

text \<open>The negation of the loop condition: no name, or the name sought.\<close>

definition symbol_hit :: "globals \<Rightarrow> u8 cells \<Rightarrow> int \<Rightarrow> addr \<Rightarrow> bool option" where
  "symbol_hit g cname len o1 = do {
     s \<leftarrow> syms g o1;
     case sym_string s of None \<Rightarrow> Some True | Some a \<Rightarrow> symbol_strcmp g a cname len }"

definition bgl_bstring_to_symbol :: "u8 cells \<Rightarrow> int \<Rightarrow> globals \<Rightarrow> (addr \<times> globals) option" where
  "bgl_bstring_to_symbol cname len g = do {
     hash_number \<leftarrow> get_hash_power_number_len cname SYMBOL_HASH_TABLE_SIZE_SHIFT len;
     bucket \<leftarrow> bucket_ref (c_symtab g) hash_number;
     if bucket = [] then do {
       s \<leftarrow> string_to_bstring_len (Some cname) len;
       let (a, g) = alloc_string s g;
       let (symbol, g) = make_symbol (Some a) g;
       Some (symbol, g\<lparr>c_symtab := (c_symtab g)[unat hash_number := [symbol]]\<rparr>) }
     else do {
       run \<leftarrow> bucket_find (symbol_hit g cname len) bucket;
       case run of
         Some o1 \<Rightarrow> Some (o1, g)
       | None \<Rightarrow> do {
           s \<leftarrow> string_to_bstring_len (Some cname) len;
           let (a, g) = alloc_string s g;
           let (symbol, g) = make_symbol (Some a) g;
           Some (symbol, g\<lparr>c_symtab := (c_symtab g)[unat hash_number := bucket @ [symbol]]\<rparr>) } } }"

definition bstring_to_symbol :: "bgl_string \<Rightarrow> globals \<Rightarrow> (addr \<times> globals) option" where
  "bstring_to_symbol name g = bgl_bstring_to_symbol (char0 name) (int (str_length name)) g"

definition bgl_string_to_symbol_len :: "u8 cells \<Rightarrow> int \<Rightarrow> globals \<Rightarrow> (addr \<times> globals) option" where
  "bgl_string_to_symbol_len cname len g = bgl_bstring_to_symbol cname len g"

definition string_to_symbol :: "u8 cells \<Rightarrow> globals \<Rightarrow> (addr \<times> globals) option" where
  "string_to_symbol cname g = do { n \<leftarrow> strlen_from cname 0; bgl_bstring_to_symbol cname (int n) g }"

text \<open>\<open>!strcmp(a, b)\<close> from a position.\<close>

function strcmp_eq :: "u8 cells \<Rightarrow> u8 cells \<Rightarrow> nat \<Rightarrow> bool option" where
  "strcmp_eq a b i =
     (if i < length a
      then do { x \<leftarrow> rd a i; y \<leftarrow> rd b i;
                if x \<noteq> y then Some False else if x = 0 then Some True else strcmp_eq a b (i + 1) }
      else None)"
  by pat_completeness auto
termination
  by (relation "measure (\<lambda>(a, b, i). length a - i)") auto

declare strcmp_eq.simps [simp del]

definition exists_hit :: "globals \<Rightarrow> u8 cells \<Rightarrow> addr \<Rightarrow> bool option" where
  "exists_hit g name o1 = do {
     s \<leftarrow> syms g o1;
     case sym_string s of None \<Rightarrow> Some True
     | Some a \<Rightarrow> do { s \<leftarrow> strings g a; strcmp_eq (char0 s) name 0 } }"

definition symbol_exists_sans_lock_p :: "globals \<Rightarrow> u8 cells \<Rightarrow> c_long \<Rightarrow> bool option" where
  "symbol_exists_sans_lock_p g name hash_number = do {
     bucket \<leftarrow> bucket_ref (c_symtab g) hash_number;
     r \<leftarrow> bucket_find (exists_hit g name) bucket;
     Some (r \<noteq> None) }"

definition symbol_exists_p :: "u8 cells \<Rightarrow> globals \<Rightarrow> bool option" where
  "symbol_exists_p name g = do {
     hn \<leftarrow> get_hash_power_number name SYMBOL_HASH_TABLE_SIZE_SHIFT;
     symbol_exists_sans_lock_p g name hn }"

text \<open>\<open>strncpy\<close> pads with null characters; \<open>sprintf(&gn[n], "%ld", k)\<close> writes a terminator.\<close>

definition strncpy :: "u8 cells \<Rightarrow> u8 cells \<Rightarrow> nat \<Rightarrow> u8 cells option" where
  "strncpy dst src n = do {
     l \<leftarrow> strlen_from src 0;
     let k = min l n;
     m \<leftarrow> blit dst 0 src 0 k;
     memset m k 0 (n - k) }"

definition decimal :: "int \<Rightarrow> u8 list" where
  "decimal k = (if k < 0 then [of_char CHR ''-''] else []) @
     map (\<lambda>d. of_char CHR ''0'' + word_of_nat d) (number_digits 10 (nat \<bar>k\<bar>))"

definition sprintf_ld :: "u8 cells \<Rightarrow> nat \<Rightarrow> int \<Rightarrow> u8 cells option" where
  "sprintf_ld m w k = blit m w (c_string (decimal k)) 0 (length (decimal k) + 1)"

text \<open>
  The loop that looks for a name. Incrementing the largest \<open>long\<close> is undefined in C, so every turn has a
  larger counter and the loop is a total function; \<open>None\<close> is also the answer when the names run out.
\<close>

function genname_loop :: "globals \<Rightarrow> nat \<Rightarrow> u8 cells \<Rightarrow> c_long \<Rightarrow> (u8 cells \<times> c_long \<times> c_long) option" where
  "genname_loop g n gn counter =
     (if sint counter = 2 ^ 63 - 1 then None
      else do {
        let counter = counter + 1;
        gn \<leftarrow> sprintf_ld gn n (sint counter);
        hn \<leftarrow> get_hash_power_number gn SYMBOL_HASH_TABLE_SIZE_SHIFT;
        e \<leftarrow> symbol_exists_sans_lock_p g gn hn;
        if \<not> e then Some (gn, hn, counter) else genname_loop g n gn counter })"
  by pat_completeness auto

lemma sint_increment:
  assumes "sint (k :: c_long) \<noteq> 2 ^ 63 - 1"
  shows "sint (k + 1) = sint k + 1"
proof -
  have "- (2 ^ 63) \<le> sint k \<and> sint k < 2 ^ 63" using sint_bounds [of k] by simp
  with assms have "sint (word_of_int (sint k + 1) :: c_long) = sint k + 1"
    by (intro sint_word_of_int_in) simp_all
  then show ?thesis by simp
qed

lemma sint_max: "sint (k :: c_long) < 9223372036854775808"
  using sint_bounds [of k] by simp

termination genname_loop
  by (relation "measure (\<lambda>(g, n, gn, k). nat (2 ^ 63 - sint k))") (auto simp: sint_increment sint_max)

declare genname_loop.simps [simp del]

definition bgl_symbol_genname :: "addr \<Rightarrow> u8 cells \<Rightarrow> globals \<Rightarrow> (addr \<times> globals) option" where
  "bgl_symbol_genname o1 name g = do {
     n \<leftarrow> strlen_from name 0;
     let n = (if n > 20 then 20 else n);
     gn \<leftarrow> strncpy (gc_malloc 40) name 20;
     (gn, hn, counter) \<leftarrow> genname_loop g n gn (gensym_counter g);
     let g = g\<lparr>gensym_counter := counter\<rparr>;
     s \<leftarrow> string_to_bstring (Some gn);
     let (a, g) = alloc_string s g;
     sym \<leftarrow> syms g o1;
     let g = g\<lparr>syms := (syms g)(o1 \<mapsto> sym\<lparr>sym_string := Some a\<rparr>)\<rparr>;
     bucket \<leftarrow> bucket_ref (c_symtab g) hn;
     Some (a, g\<lparr>c_symtab := (c_symtab g)[unat hn := o1 # bucket]\<rparr>) }"

text \<open>\<open>None\<close> stands for the argument \<open>#f\<close>.\<close>

definition bgl_gensym :: "bgl_string option \<Rightarrow> globals \<Rightarrow> (addr \<times> globals) option" where
  "bgl_gensym name g =
     (let (o1, g) = make_symbol None g in
      case name of
        None \<Rightarrow> Some (o1, g)
      | Some s \<Rightarrow> do { (a, g) \<leftarrow> bgl_symbol_genname o1 (char0 s) g; Some (o1, g) })"

definition SYMBOL_TO_STRING :: "addr \<Rightarrow> globals \<Rightarrow> (addr \<times> globals) option" where
  "SYMBOL_TO_STRING o1 g = do {
     s \<leftarrow> syms g o1;
     case sym_string s of Some a \<Rightarrow> Some (a, g)
     | None \<Rightarrow> bgl_symbol_genname o1 (c_string (bytes ''g'')) g }"

definition bgl_symbol_hash_number :: "addr \<Rightarrow> globals \<Rightarrow> (c_long \<times> globals) option" where
  "bgl_symbol_hash_number o1 g = do {
     (a, g) \<leftarrow> SYMBOL_TO_STRING o1 g;
     s \<leftarrow> strings g a;
     h \<leftarrow> bgl_string_hash (char0 s) 0 (int (str_length s));
     Some (1 + h, g) }"

section \<open>Keywords\<close>

definition keyword_hit :: "globals \<Rightarrow> bgl_string \<Rightarrow> addr \<Rightarrow> bool option" where
  "keyword_hit g name o1 = do {
     k \<leftarrow> keys g o1;
     s \<leftarrow> strings g (kw_string k);
     bigloo_strcmp s name }"

definition bstring_to_keyword :: "addr \<Rightarrow> globals \<Rightarrow> (addr \<times> globals) option" where
  "bstring_to_keyword name g = do {
     s \<leftarrow> strings g name;
     hash_number \<leftarrow> get_hash_power_number (char0 s) KEYWORD_HASH_TABLE_SIZE_SHIFT;
     bucket \<leftarrow> bucket_ref (c_keytab g) hash_number;
     if bucket = [] then
       let (keyword, g) = bgl_make_keyword name g in
       Some (keyword, g\<lparr>c_keytab := (c_keytab g)[unat hash_number := [keyword]]\<rparr>)
     else do {
       run \<leftarrow> bucket_find (keyword_hit g s) bucket;
       case run of
         Some o1 \<Rightarrow> Some (o1, g)
       | None \<Rightarrow>
           let (keyword, g) = bgl_make_keyword name g in
           Some (keyword, g\<lparr>c_keytab := (c_keytab g)[unat hash_number := bucket @ [keyword]]\<rparr>) } }"

definition bgl_string_to_keyword_len :: "u8 cells \<Rightarrow> int \<Rightarrow> globals \<Rightarrow> (addr \<times> globals) option" where
  "bgl_string_to_keyword_len name len g = do {
     s \<leftarrow> string_to_bstring_len (Some name) len;
     let (a, g) = alloc_string s g;
     bstring_to_keyword a g }"

definition string_to_keyword :: "u8 cells \<Rightarrow> globals \<Rightarrow> (addr \<times> globals) option" where
  "string_to_keyword cname g = do {
     s \<leftarrow> string_to_bstring (Some cname);
     let (a, g) = alloc_string s g;
     bstring_to_keyword a g }"

definition bgl_keyword_hash_number :: "addr \<Rightarrow> globals \<Rightarrow> c_long option" where
  "bgl_keyword_hash_number o1 g = do {
     k \<leftarrow> keys g o1;
     s \<leftarrow> strings g (kw_string k);
     h \<leftarrow> bgl_string_hash (char0 s) 0 (int (str_length s));
     Some (2 + h) }"

section \<open>Tables of buckets\<close>

text \<open>
  The invariant both tables keep: the objects of bucket \<open>i\<close> have names that hash to \<open>i\<close>, and
  no two objects of the table have the same name.
\<close>

definition tab_set :: "addr list list \<Rightarrow> addr set" where
  "tab_set tab = (\<Union>b\<in>set tab. set b)"

definition wf_table :: "nat \<Rightarrow> (addr \<Rightarrow> u8 list \<Rightarrow> bool) \<Rightarrow> (u8 list \<Rightarrow> nat) \<Rightarrow> addr list list \<Rightarrow> bool" where
  "wf_table n named h tab \<longleftrightarrow> length tab = n \<and>
     (\<forall>i<n. \<forall>o1\<in>set (tab ! i). \<exists>xs. named o1 xs \<and> h xs = i) \<and>
     (\<forall>o1\<in>tab_set tab. \<forall>o2\<in>tab_set tab. \<forall>xs. named o1 xs \<and> named o2 xs \<longrightarrow> o1 = o2)"

definition str_named :: "bgl_string \<Rightarrow> u8 list \<Rightarrow> bool" where
  "str_named s xs \<longleftrightarrow> (\<exists>sl. s = str_rep xs sl)"

lemma str_named_unique: "str_named s xs \<Longrightarrow> str_named s ys \<Longrightarrow> xs = ys"
  by (auto simp: str_named_def str_rep_def c_string_def append_eq_append_conv map_injective)

lemma str_named_rep [simp]: "str_named (str_rep xs sl) ys \<longleftrightarrow> ys = xs"
  using str_named_unique [of "str_rep xs sl"] by (auto simp: str_named_def)

lemma tab_set_nth: "tab_set tab = (\<Union>j<length tab. set (tab ! j))"
  unfolding tab_set_def set_conv_nth by auto

lemma in_bucket: "i < length tab \<Longrightarrow> o1 \<in> set (tab ! i) \<Longrightarrow> o1 \<in> tab_set tab"
  by (auto simp: tab_set_nth)

lemma wf_tableD:
  assumes "wf_table n named h tab"
  shows "length tab = n"
    and "i < n \<Longrightarrow> o1 \<in> set (tab ! i) \<Longrightarrow> \<exists>xs. named o1 xs \<and> h xs = i"
    and "o1 \<in> tab_set tab \<Longrightarrow> o2 \<in> tab_set tab \<Longrightarrow> named o1 xs \<Longrightarrow> named o2 xs \<Longrightarrow> o1 = o2"
  using assms unfolding wf_table_def by blast+

lemma wf_table_bucket:
  assumes "wf_table n named h tab" and "o1 \<in> tab_set tab"
  shows "\<exists>xs. named o1 xs \<and> h xs < n \<and> o1 \<in> set (tab ! h xs)"
proof -
  obtain i where "i < n" "o1 \<in> set (tab ! i)"
    using assms wf_tableD(1) [OF assms(1)] by (auto simp: tab_set_nth)
  with wf_tableD(2) [OF assms(1)] show ?thesis by blast
qed

lemma find_unique:
  assumes "x \<in> set b" and "P x" and "\<And>y. y \<in> set b \<Longrightarrow> P y \<Longrightarrow> y = x"
  shows "find P b = Some x"
proof (cases "find P b")
  case None
  with assms(1,2) show ?thesis by (auto simp: find_None_iff)
next
  case (Some y)
  then have "y \<in> set b" "P y" by (auto simp: find_Some_iff)
  with Some assms(3) show ?thesis by blast
qed

lemma wf_table_insert:
  assumes tab: "wf_table n named h tab"
    and same: "\<And>o1 ys. o1 \<in> tab_set tab \<Longrightarrow> named' o1 ys \<longleftrightarrow> named o1 ys"
    and new: "\<And>ys. named' o' ys \<longleftrightarrow> ys = xs" and free: "\<And>o1. o1 \<in> tab_set tab \<Longrightarrow> \<not> named o1 xs"
    and i: "i = h xs" "i < n" and b: "set b = insert o' (set (tab ! i))"
  shows "wf_table n named' h (tab[i := b])" and "tab_set (tab[i := b]) = insert o' (tab_set tab)"
proof -
  have len: "length tab = n" using tab by (simp add: wf_table_def)
  show set: "tab_set (tab[i := b]) = insert o' (tab_set tab)"
    using b i(2) len unfolding tab_set_nth by (auto simp: nth_list_update split: if_splits)
  have "\<exists>ys. named' o1 ys \<and> h ys = j" if "j < n" "o1 \<in> set (tab[i := b] ! j)" for o1 j
  proof (cases "o1 \<in> set (tab ! j)")
    case True
    then have "o1 \<in> tab_set tab" using that len in_bucket by blast
    moreover have "\<exists>ys. named o1 ys \<and> h ys = j" using True that wf_tableD(2) [OF tab] by blast
    ultimately show ?thesis using same by blast
  next
    case False
    then have "o1 = o'" "j = i" using that b i(2) len by (auto simp: nth_list_update split: if_splits)
    then show ?thesis using new i by blast
  qed
  moreover have "o1 = o2" if "o1 \<in> tab_set (tab[i := b])" "o2 \<in> tab_set (tab[i := b])" "named' o1 ys" "named' o2 ys" for o1 o2 ys
    using that same new free wf_tableD(3) [OF tab] unfolding set by (metis insert_iff)
  ultimately show "wf_table n named' h (tab[i := b])"
    using len unfolding wf_table_def by (intro conjI) (simp, blast, blast)
qed

lemma wf_table_empty: "wf_table n named h (replicate n [])"
  by (auto simp: wf_table_def tab_set_def)

lemma bucket_find_total:
  "(\<And>o1. o1 \<in> set b \<Longrightarrow> hit o1 = Some (P o1)) \<Longrightarrow> bucket_find hit b = Some (find P b)"
  by (induction b) auto

definition bucket_of :: "nat \<Rightarrow> u8 list \<Rightarrow> nat" where
  "bucket_of pw xs = unat (fold power_step xs 0 AND (push_bit pw 1 - 1))"

lemma hash_len_bucket:
  assumes "pw < 31"
  shows "\<exists>h. get_hash_power_number_len (c_string xs @ sl) pw (int (length xs)) = Some h \<and> unat h = bucket_of pw xs"
  using get_hash_power_number_len_loop_string [of 0 "length xs" xs sl 0] assms
  by (simp add: get_hash_power_number_len_def power_mask_def bucket_of_def)

lemma bucket_of_less: "pw < 31 \<Longrightarrow> bucket_of pw xs < 2 ^ pw"
  using power_mask_less [of pw "fold power_step xs 0"] by (auto simp: bucket_of_def power_mask_def)

section \<open>What interning promises\<close>

text \<open>
  The contract of an interning operation: it returns an object registered under the name, keeps the
  registered objects, and never registers two objects under one name. A client that interns any sequence
  of names can then compare the objects instead of the names. The promise holds for the names that fit.
\<close>

fun intern_all :: "('k \<Rightarrow> 's \<Rightarrow> ('o \<times> 's) option) \<Rightarrow> 'k list \<Rightarrow> 's \<Rightarrow> ('o list \<times> 's) option" where
  "intern_all intern [] s = Some ([], s)"
| "intern_all intern (k # ks) s = do {
     (o1, s) \<leftarrow> intern k s;
     (os, s) \<leftarrow> intern_all intern ks s;
     Some (o1 # os, s) }"

locale interning =
  fixes fits :: "'k \<Rightarrow> bool"
    and intern :: "'k \<Rightarrow> 's \<Rightarrow> ('o \<times> 's) option"
    and wf :: "'s \<Rightarrow> bool" and interned :: "'s \<Rightarrow> 'o \<Rightarrow> 'k \<Rightarrow> bool"
  assumes total: "wf s \<Longrightarrow> fits k \<Longrightarrow> \<exists>o1 s'. intern k s = Some (o1, s')"
    and keeps_wf: "wf s \<Longrightarrow> fits k \<Longrightarrow> intern k s = Some (o1, s') \<Longrightarrow> wf s'"
    and registers: "wf s \<Longrightarrow> fits k \<Longrightarrow> intern k s = Some (o1, s') \<Longrightarrow> interned s' o1 k"
    and keeps_interned: "wf s \<Longrightarrow> fits k \<Longrightarrow> intern k s = Some (o1, s') \<Longrightarrow> interned s o2 k' \<Longrightarrow> interned s' o2 k'"
    and one_object: "wf s \<Longrightarrow> interned s o1 k \<Longrightarrow> interned s o2 k \<Longrightarrow> o1 = o2"
    and one_name: "interned s o1 k \<Longrightarrow> interned s o1 k' \<Longrightarrow> k = k'"
begin

lemma already: "wf s \<Longrightarrow> fits k \<Longrightarrow> interned s o1 k \<Longrightarrow> intern k s = Some (o2, s') \<Longrightarrow> o2 = o1"
  using keeps_wf registers keeps_interned one_object by metis

lemma intern_all_registers:
  "wf s \<Longrightarrow> \<forall>k\<in>set ks. fits k \<Longrightarrow> \<exists>os s'. intern_all intern ks s = Some (os, s') \<and> wf s' \<and> list_all2 (interned s') os ks \<and>
     (\<forall>o2 k'. interned s o2 k' \<longrightarrow> interned s' o2 k')"
proof (induction ks arbitrary: s)
  case (Cons k ks)
  have k: "fits k" and ks: "\<forall>k\<in>set ks. fits k" using Cons.prems(2) by simp_all
  obtain o1 s1 where 1: "intern k s = Some (o1, s1)" using total [OF Cons.prems(1) k] by blast
  then have "wf s1" using keeps_wf Cons.prems(1) k by blast
  then obtain os s' where "intern_all intern ks s1 = Some (os, s')" "wf s'" "list_all2 (interned s') os ks"
    "\<forall>o2 k'. interned s1 o2 k' \<longrightarrow> interned s' o2 k'"
    using Cons.IH ks by blast
  with 1 registers [OF Cons.prems(1) k 1] keeps_interned [OF Cons.prems(1) k 1] show ?case by auto
qed simp

lemma intern_all_identity:
  assumes "wf s" and "\<forall>k\<in>set ks. fits k"
  shows "\<exists>os s'. intern_all intern ks s = Some (os, s') \<and> wf s' \<and> list_all2 (interned s') os ks \<and>
    (\<forall>i<length ks. \<forall>j<length ks. os ! i = os ! j \<longleftrightarrow> ks ! i = ks ! j)"
proof -
  obtain os s' where *: "intern_all intern ks s = Some (os, s')" "wf s'" "list_all2 (interned s') os ks"
    using intern_all_registers [OF assms] by blast
  have "os ! i = os ! j \<longleftrightarrow> ks ! i = ks ! j" if "i < length ks" "j < length ks" for i j
  proof -
    have "interned s' (os ! i) (ks ! i)" "interned s' (os ! j) (ks ! j)"
      using *(3) that by (simp_all add: list_all2_conv_all_nth)
    then show ?thesis using one_object [OF *(2)] one_name by metis
  qed
  with * show ?thesis by blast
qed

end

section \<open>The table of symbols\<close>

definition sym_named :: "globals \<Rightarrow> addr \<Rightarrow> u8 list \<Rightarrow> bool" where
  "sym_named g o1 xs \<longleftrightarrow>
     (\<exists>s a t. syms g o1 = Some s \<and> sym_string s = Some a \<and> strings g a = Some t \<and> str_named t xs)"

definition fresh_above :: "globals \<Rightarrow> bool" where
  "fresh_above g \<longleftrightarrow> (\<forall>a \<ge> brk g. strings g a = None \<and> syms g a = None \<and> keys g a = None)"

definition wf_symbols :: "globals \<Rightarrow> bool" where
  "wf_symbols g \<longleftrightarrow> fresh_above g \<and>
     wf_table SYMBOL_HASH_TABLE_SIZE (sym_named g) (bucket_of SYMBOL_HASH_TABLE_SIZE_SHIFT) (c_symtab g)"

definition interned_symbol :: "globals \<Rightarrow> addr \<Rightarrow> u8 list \<Rightarrow> bool" where
  "interned_symbol g o1 xs \<longleftrightarrow> o1 \<in> tab_set (c_symtab g) \<and> sym_named g o1 xs"

lemmas sizes = SYMBOL_HASH_TABLE_SIZE_def SYMBOL_HASH_TABLE_SIZE_SHIFT_def
  KEYWORD_HASH_TABLE_SIZE_def KEYWORD_HASH_TABLE_SIZE_SHIFT_def

lemma sym_named_unique: "sym_named g o1 xs \<Longrightarrow> sym_named g o1 ys \<Longrightarrow> xs = ys"
  using str_named_unique by (fastforce simp: sym_named_def)

lemma memcmp_chars:
  "length xs = length ys \<Longrightarrow> memcmp_eq (c_string xs @ sl) 0 (c_string ys @ sl') 0 (length ys) = Some (xs = ys)"
  by (simp add: memcmp_eq_def rds_append_left rds_c_string)

lemma symbol_hit_named:
  assumes "sym_named g o1 ys"
  shows "symbol_hit g (c_string xs @ sl) (int (length xs)) o1 = Some (ys = xs)"
  using assms memcmp_chars [of ys xs]
  by (auto simp: sym_named_def str_named_def symbol_hit_def symbol_strcmp_def)

lemma symbol_bucket:
  assumes "wf_symbols g" and "h = bucket_of SYMBOL_HASH_TABLE_SIZE_SHIFT xs"
  shows "h < length (c_symtab g)"
    and "bucket_find (symbol_hit g (c_string xs @ sl) (int (length xs))) (c_symtab g ! h) =
      Some (find (\<lambda>o1. sym_named g o1 xs) (c_symtab g ! h))"
proof -
  show h: "h < length (c_symtab g)"
    using assms bucket_of_less [of 12 xs] by (simp add: wf_symbols_def wf_table_def sizes)
  show "bucket_find (symbol_hit g (c_string xs @ sl) (int (length xs))) (c_symtab g ! h) =
      Some (find (\<lambda>o1. sym_named g o1 xs) (c_symtab g ! h))"
  proof (rule bucket_find_total)
    fix o1
    assume "o1 \<in> set (c_symtab g ! h)"
    then obtain ys where "sym_named g o1 ys"
      using wf_table_bucket in_bucket h assms(1) unfolding wf_symbols_def by blast
    then show "symbol_hit g (c_string xs @ sl) (int (length xs)) o1 = Some (sym_named g o1 xs)"
      using symbol_hit_named sym_named_unique by fastforce
  qed
qed

lemma symbol_found:
  assumes "wf_symbols g" and "interned_symbol g o1 xs"
  shows "bgl_bstring_to_symbol (c_string xs @ sl) (int (length xs)) g = Some (o1, g)"
proof -
  let ?h = "bucket_of SYMBOL_HASH_TABLE_SIZE_SHIFT xs"
  obtain h where h: "get_hash_power_number_len (c_string xs @ sl) SYMBOL_HASH_TABLE_SIZE_SHIFT (int (length xs)) = Some h"
    "unat h = ?h"
    using hash_len_bucket [of SYMBOL_HASH_TABLE_SIZE_SHIFT xs sl] by (auto simp: sizes)
  have tab: "wf_table SYMBOL_HASH_TABLE_SIZE (sym_named g) (bucket_of SYMBOL_HASH_TABLE_SIZE_SHIFT) (c_symtab g)"
    and o1: "o1 \<in> tab_set (c_symtab g)" "sym_named g o1 xs"
    using assms by (simp_all add: wf_symbols_def interned_symbol_def)
  have in_b: "o1 \<in> set (c_symtab g ! ?h)"
    using wf_table_bucket [OF tab o1(1)] sym_named_unique [OF o1(2)] by blast
  have "o2 = o1" if "o2 \<in> set (c_symtab g ! ?h)" "sym_named g o2 xs" for o2
    using wf_tableD(3) [OF tab _ o1(1) that(2) o1(2)] in_bucket [OF symbol_bucket(1) [OF assms(1) refl] that(1)] .
  then have "find (\<lambda>o1. sym_named g o1 xs) (c_symtab g ! ?h) = Some o1"
    using in_b o1(2) by (rule find_unique [rotated 2])
  then show ?thesis
    using in_b h symbol_bucket(1) [OF assms(1) refl, of xs] symbol_bucket(2) [OF assms(1) refl, of xs sl]
    by (auto simp: bgl_bstring_to_symbol_def bucket_ref_def)
qed

text \<open>Interning a new name: the state it leaves.\<close>

definition new_symbol :: "u8 list \<Rightarrow> globals \<Rightarrow> globals" where
  "new_symbol xs g = (let h = bucket_of SYMBOL_HASH_TABLE_SIZE_SHIFT xs in
     g\<lparr>strings := (strings g)(brk g \<mapsto> bstring_of xs),
       syms := (syms g)(Suc (brk g) \<mapsto> \<lparr>sym_string = Some (brk g), sym_cval = None\<rparr>),
       brk := Suc (Suc (brk g)),
       c_symtab := (c_symtab g)[h := c_symtab g ! h @ [Suc (brk g)]]\<rparr>)"

lemma symbol_new:
  assumes "wf_symbols g" and short: "length xs < 2 ^ 31" and "\<And>o1. \<not> interned_symbol g o1 xs"
  shows "bgl_bstring_to_symbol (c_string xs @ sl) (int (length xs)) g = Some (Suc (brk g), new_symbol xs g)"
proof -
  let ?h = "bucket_of SYMBOL_HASH_TABLE_SIZE_SHIFT xs"
  obtain h where h: "get_hash_power_number_len (c_string xs @ sl) SYMBOL_HASH_TABLE_SIZE_SHIFT (int (length xs)) = Some h"
    "unat h = ?h"
    using hash_len_bucket [of SYMBOL_HASH_TABLE_SIZE_SHIFT xs sl] by (auto simp: sizes)
  have "find (\<lambda>o1. sym_named g o1 xs) (c_symtab g ! ?h) = None"
    using assms(3) in_bucket [OF symbol_bucket(1) [OF assms(1) refl]]
    by (auto simp: find_None_iff interned_symbol_def)
  then show ?thesis
    using h symbol_bucket(1) [OF assms(1) refl, of xs] symbol_bucket(2) [OF assms(1) refl, of xs sl]
      string_to_bstring_len_rep [of "length xs" xs sl] short
    by (auto simp: bgl_bstring_to_symbol_def bucket_ref_def alloc_string_def make_symbol_def new_symbol_def Let_def)
qed

lemma fresh_aboveD: "fresh_above g \<Longrightarrow> strings g a = Some t \<Longrightarrow> a < brk g"
  "fresh_above g \<Longrightarrow> syms g a = Some s \<Longrightarrow> a < brk g" "fresh_above g \<Longrightarrow> keys g a = Some k \<Longrightarrow> a < brk g"
  by (force simp: fresh_above_def not_less [symmetric])+

lemma new_symbol_named:
  assumes "fresh_above g"
  shows "sym_named (new_symbol xs g) (Suc (brk g)) ys \<longleftrightarrow> ys = xs"
    and "sym_named g o1 ys \<Longrightarrow> sym_named (new_symbol xs g) o1 ys"
proof -
  show "sym_named (new_symbol xs g) (Suc (brk g)) ys \<longleftrightarrow> ys = xs"
    by (simp add: sym_named_def new_symbol_def Let_def)
  assume "sym_named g o1 ys"
  then obtain s a t where *: "syms g o1 = Some s" "sym_string s = Some a" "strings g a = Some t" "str_named t ys"
    by (auto simp: sym_named_def)
  then have "a < brk g" "o1 < brk g" using fresh_aboveD [OF assms] by blast+
  with * show "sym_named (new_symbol xs g) o1 ys" 
    unfolding sym_named_def new_symbol_def Let_def by (intro exI [of _ s] exI [of _ a] exI [of _ t]) simp
qed

lemma wf_new_symbol:
  assumes g: "wf_symbols g" and new: "\<And>o1. \<not> interned_symbol g o1 xs"
  shows "wf_symbols (new_symbol xs g)"
    and "interned_symbol (new_symbol xs g) (Suc (brk g)) xs"
    and "interned_symbol g o1 ys \<Longrightarrow> interned_symbol (new_symbol xs g) o1 ys"
proof -
  let ?h = "bucket_of SYMBOL_HASH_TABLE_SIZE_SHIFT" and ?g = "new_symbol xs g"
  have tab: "wf_table SYMBOL_HASH_TABLE_SIZE (sym_named g) ?h (c_symtab g)" and fresh: "fresh_above g"
    using g by (simp_all add: wf_symbols_def)
  have same: "sym_named ?g o1 ys \<longleftrightarrow> sym_named g o1 ys" if "o1 \<in> tab_set (c_symtab g)" for o1 ys
    using wf_table_bucket [OF tab that] new_symbol_named(2) [OF fresh] sym_named_unique by blast
  have h: "?h xs < SYMBOL_HASH_TABLE_SIZE"
    using bucket_of_less [of 12 xs] by (simp add: sizes)
  note ins = wf_table_insert [where named = "sym_named g" and named' = "sym_named ?g" and o' = "Suc (brk g)" and
      b = "c_symtab g ! ?h xs @ [Suc (brk g)]", OF tab same new_symbol_named(1) [OF fresh] _ refl h]
  have tabs: "c_symtab ?g = (c_symtab g)[?h xs := c_symtab g ! ?h xs @ [Suc (brk g)]]"
    by (simp add: new_symbol_def Let_def)
  have "fresh_above ?g" using fresh by (simp add: fresh_above_def new_symbol_def Let_def)
  moreover have free: "\<not> sym_named g o1 xs" if "o1 \<in> tab_set (c_symtab g)" for o1
    using new [of o1] that by (simp add: interned_symbol_def)
  ultimately show "wf_symbols ?g"
    using ins(1) unfolding wf_symbols_def tabs by simp
  have set: "tab_set (c_symtab ?g) = insert (Suc (brk g)) (tab_set (c_symtab g))"
    using ins(2) free unfolding tabs by simp
  show "interned_symbol ?g (Suc (brk g)) xs"
    using new_symbol_named(1) [OF fresh] set by (simp add: interned_symbol_def)
  show "interned_symbol ?g o1 ys" if "interned_symbol g o1 ys" for o1 ys
    using that same set by (simp add: interned_symbol_def)
qed

lemma wf_symbols_init: "wf_symbols (bgl_init_symbol_table static_init)"
  by (simp add: wf_symbols_def bgl_init_symbol_table_def static_init_def fresh_above_def wf_table_empty)

abbreviation symbol_of :: "u8 list \<Rightarrow> globals \<Rightarrow> (addr \<times> globals) option" where
  "symbol_of xs \<equiv> bgl_bstring_to_symbol (c_string xs) (int (length xs))"

lemma symbol_of_cases:
  assumes "wf_symbols g" and "length xs < 2 ^ 31"
  obtains o1 where "interned_symbol g o1 xs" "symbol_of xs g = Some (o1, g)"
  | "\<And>o1. \<not> interned_symbol g o1 xs" "symbol_of xs g = Some (Suc (brk g), new_symbol xs g)"
  using symbol_found [OF assms(1), of _ xs "[]"] symbol_new [OF assms, of "[]"] by auto

interpretation symbols: interning "\<lambda>xs. length xs < 2 ^ 31" symbol_of wf_symbols interned_symbol
proof unfold_locales
  fix s o1 o2 s' k k'
  assume wf: "wf_symbols s"
  show "length k < 2 ^ 31 \<Longrightarrow> \<exists>o1 s'. symbol_of k s = Some (o1, s')"
    by (rule symbol_of_cases [OF wf, of k]) auto
  {
    assume k: "length k < 2 ^ 31" and "symbol_of k s = Some (o1, s')"
    then show "wf_symbols s'" and "interned_symbol s' o1 k"
      and "interned_symbol s o2 k' \<Longrightarrow> interned_symbol s' o2 k'"
      using wf wf_new_symbol [OF wf, of k] by (cases rule: symbol_of_cases [OF wf k]; auto)+
  }
  show "interned_symbol s o1 k \<Longrightarrow> interned_symbol s o2 k \<Longrightarrow> o1 = o2"
    using wf wf_tableD(3) unfolding wf_symbols_def interned_symbol_def by blast
next
  fix s o1 k k'
  show "interned_symbol s o1 k \<Longrightarrow> interned_symbol s o1 k' \<Longrightarrow> k = k'"
    using sym_named_unique by (auto simp: interned_symbol_def)
qed

text \<open>C1: symbols are unique: interning any sequence of names shorter than \<open>2 ^ 31\<close> bytes, from any well-formed
  state of the table, succeeds and returns symbols that carry these names and are the same object exactly when
  the names are equal; the names may contain any byte. (The length of a longer name is narrowed when the name is copied,
  so that the symbol made for it carries another name.)\<close>

theorem symbols_unique:
  assumes "wf_symbols g" and "\<forall>xs\<in>set names. length xs < 2 ^ 31"
  shows "\<exists>os g'. intern_all (\<lambda>xs. bgl_bstring_to_symbol (c_string xs) (int (length xs))) names g = Some (os, g') \<and>
    wf_symbols g' \<and> list_all2 (interned_symbol g') os names \<and>
    (\<forall>i<length names. \<forall>j<length names. os ! i = os ! j \<longleftrightarrow> names ! i = names ! j)"
  using assms by (rule symbols.intern_all_identity)

lemma symbols_unique_witness:
  "\<exists>os g'. intern_all (\<lambda>xs. bgl_bstring_to_symbol (c_string xs) (int (length xs)))
      [[99, 97, 114], [99, 100, 114], [99, 97, 114]] (bgl_init_symbol_table static_init) = Some (os, g') \<and>
    os ! 0 = os ! 2 \<and> os ! 0 \<noteq> os ! 1"
proof -
  have "\<forall>xs\<in>set [[99, 97, 114], [99, 100, 114], [99, 97, 114]]. length (xs :: u8 list) < 2 ^ 31" by simp
  from symbols_unique [OF wf_symbols_init this] show ?thesis by fastforce
qed

section \<open>The table of keywords\<close>

text \<open>The hash of a keyword's name is that of its characters before the first null character.\<close>

definition c_name :: "u8 list \<Rightarrow> u8 list" where
  "c_name xs = takeWhile (\<lambda>c. c \<noteq> 0) xs"

definition kw_bucket :: "u8 list \<Rightarrow> nat" where
  "kw_bucket xs = bucket_of KEYWORD_HASH_TABLE_SIZE_SHIFT (c_name xs)"

text \<open>The names of the table are shorter than \<open>2 ^ 31\<close>: names are compared with \<open>bigloo_strcmp\<close>.\<close>

definition kw_named :: "globals \<Rightarrow> addr \<Rightarrow> u8 list \<Rightarrow> bool" where
  "kw_named g o1 xs \<longleftrightarrow> length xs < 2 ^ 31 \<and> (\<exists>k t. keys g o1 = Some k \<and> strings g (kw_string k) = Some t \<and> str_named t xs)"

definition wf_keywords :: "globals \<Rightarrow> bool" where
  "wf_keywords g \<longleftrightarrow> fresh_above g \<and> wf_table KEYWORD_HASH_TABLE_SIZE (kw_named g) kw_bucket (c_keytab g)"

definition interned_keyword :: "globals \<Rightarrow> addr \<Rightarrow> u8 list \<Rightarrow> bool" where
  "interned_keyword g o1 xs \<longleftrightarrow> o1 \<in> tab_set (c_keytab g) \<and> kw_named g o1 xs"

lemma kw_named_unique: "kw_named g o1 xs \<Longrightarrow> kw_named g o1 ys \<Longrightarrow> xs = ys"
  using str_named_unique by (fastforce simp: kw_named_def)

lemma c_name_string: "\<exists>sl'. c_string xs @ sl = c_string (c_name xs) @ sl'"
proof (cases "0 \<in> set xs")
  case True
  then obtain ys zs where "xs = ys @ 0 # zs" "0 \<notin> set ys" by (meson split_list_first)
  then have "c_string xs @ sl = c_string ys @ map Some zs @ Some 0 # sl" "c_name xs = ys"
    by (auto simp: c_string_def c_name_def takeWhile_append)
  then show ?thesis by blast
next
  case False
  then have "c_name xs = xs" by (auto simp: c_name_def takeWhile_eq_all_conv)
  then show ?thesis by metis
qed

lemma c_name_no_null: "0 \<notin> set (c_name xs)"
  by (auto simp: c_name_def dest: set_takeWhileD)

lemma hash_bucket:
  assumes "pw < 31"
  shows "\<exists>h. get_hash_power_number (c_string xs @ sl) pw = Some h \<and> unat h = bucket_of pw (c_name xs)"
proof -
  obtain sl' where "c_string xs @ sl = c_string (c_name xs) @ sl'" using c_name_string by blast
  then show ?thesis
    using get_hash_power_number_loop_string [OF c_name_no_null, of 0 xs sl' 0] assms
    by (simp add: get_hash_power_number_def power_mask_def bucket_of_def)
qed

lemma keyword_hit_named:
  assumes "kw_named g o1 ys"
  shows "keyword_hit g (str_rep xs sl) o1 = Some (ys = xs)"
  using assms bigloo_strcmp_rep by (auto simp: kw_named_def str_named_def keyword_hit_def str_rep_def)

lemma keyword_bucket:
  assumes "wf_keywords g" and "h = kw_bucket xs"
  shows "h < length (c_keytab g)"
    and "bucket_find (keyword_hit g (str_rep xs sl)) (c_keytab g ! h) = Some (find (\<lambda>o1. kw_named g o1 xs) (c_keytab g ! h))"
proof -
  show h: "h < length (c_keytab g)"
    using assms bucket_of_less [of 6 "c_name xs"] by (simp add: wf_keywords_def wf_table_def sizes kw_bucket_def)
  show "bucket_find (keyword_hit g (str_rep xs sl)) (c_keytab g ! h) = Some (find (\<lambda>o1. kw_named g o1 xs) (c_keytab g ! h))"
  proof (rule bucket_find_total)
    fix o1
    assume "o1 \<in> set (c_keytab g ! h)"
    then obtain ys where "kw_named g o1 ys"
      using wf_table_bucket in_bucket h assms(1) unfolding wf_keywords_def by blast
    then show "keyword_hit g (str_rep xs sl) o1 = Some (kw_named g o1 xs)"
      using keyword_hit_named kw_named_unique by fastforce
  qed
qed

definition new_keyword :: "addr \<Rightarrow> u8 list \<Rightarrow> globals \<Rightarrow> globals" where
  "new_keyword a xs g = g\<lparr>keys := (keys g)(brk g \<mapsto> \<lparr>kw_string = a, kw_cval = None\<rparr>), brk := Suc (brk g),
     c_keytab := (c_keytab g)[kw_bucket xs := c_keytab g ! kw_bucket xs @ [brk g]]\<rparr>"

lemma keyword_found:
  assumes wf: "wf_keywords g" and o1: "interned_keyword g o1 xs" and a: "strings g a = Some (str_rep xs sl)"
  shows "bstring_to_keyword a g = Some (o1, g)"
proof -
  obtain h where h: "get_hash_power_number (c_string xs @ sl) KEYWORD_HASH_TABLE_SIZE_SHIFT = Some h"
    "unat h = kw_bucket xs"
    using hash_bucket [of KEYWORD_HASH_TABLE_SIZE_SHIFT xs sl] by (auto simp: sizes kw_bucket_def)
  have tab: "wf_table KEYWORD_HASH_TABLE_SIZE (kw_named g) kw_bucket (c_keytab g)"
    and o1': "o1 \<in> tab_set (c_keytab g)" "kw_named g o1 xs"
    using wf o1 by (simp_all add: wf_keywords_def interned_keyword_def)
  have in_b: "o1 \<in> set (c_keytab g ! kw_bucket xs)"
    using wf_table_bucket [OF tab o1'(1)] kw_named_unique [OF o1'(2)] by blast
  have "o2 = o1" if "o2 \<in> set (c_keytab g ! kw_bucket xs)" "kw_named g o2 xs" for o2
    using wf_tableD(3) [OF tab _ o1'(1) that(2) o1'(2)] in_bucket [OF keyword_bucket(1) [OF wf refl] that(1)] .
  then have "find (\<lambda>o1. kw_named g o1 xs) (c_keytab g ! kw_bucket xs) = Some o1"
    using in_b o1'(2) by (rule find_unique [rotated 2])
  then show ?thesis
    using in_b h a keyword_bucket(1) [OF wf refl, of xs] keyword_bucket(2) [OF wf refl, of xs sl]
    by (auto simp: bstring_to_keyword_def bucket_ref_def)
qed

lemma keyword_new:
  assumes wf: "wf_keywords g" and new: "\<And>o1. \<not> interned_keyword g o1 xs" and a: "strings g a = Some (str_rep xs sl)"
  shows "bstring_to_keyword a g = Some (brk g, new_keyword a xs g)"
proof -
  obtain h where h: "get_hash_power_number (c_string xs @ sl) KEYWORD_HASH_TABLE_SIZE_SHIFT = Some h"
    "unat h = kw_bucket xs"
    using hash_bucket [of KEYWORD_HASH_TABLE_SIZE_SHIFT xs sl] by (auto simp: sizes kw_bucket_def)
  have "find (\<lambda>o1. kw_named g o1 xs) (c_keytab g ! kw_bucket xs) = None"
    using new in_bucket [OF keyword_bucket(1) [OF wf refl]]
    by (auto simp: find_None_iff interned_keyword_def)
  then show ?thesis
    using h a keyword_bucket(1) [OF wf refl, of xs] keyword_bucket(2) [OF wf refl, of xs sl]
    by (auto simp: bstring_to_keyword_def bucket_ref_def bgl_make_keyword_def new_keyword_def Let_def)
qed

lemma wf_new_keyword:
  assumes wf: "wf_keywords g" and short: "length xs < 2 ^ 31" and new: "\<And>o1. \<not> interned_keyword g o1 xs" and a: "strings g a = Some (str_rep xs sl)"
  shows "wf_keywords (new_keyword a xs g)"
    and "interned_keyword (new_keyword a xs g) (brk g) xs"
    and "interned_keyword g o1 ys \<Longrightarrow> interned_keyword (new_keyword a xs g) o1 ys"
proof -
  let ?g = "new_keyword a xs g"
  have tab: "wf_table KEYWORD_HASH_TABLE_SIZE (kw_named g) kw_bucket (c_keytab g)" and fresh: "fresh_above g"
    using wf by (simp_all add: wf_keywords_def)
  have named: "kw_named ?g (brk g) ys \<longleftrightarrow> ys = xs" for ys
    using a short by (auto simp: kw_named_def new_keyword_def)
  have kept: "kw_named g o1 ys \<Longrightarrow> kw_named ?g o1 ys" for o1 ys
    using fresh_aboveD(3) [OF fresh] by (fastforce simp: kw_named_def new_keyword_def)
  have same: "kw_named ?g o1 ys \<longleftrightarrow> kw_named g o1 ys" if "o1 \<in> tab_set (c_keytab g)" for o1 ys
    using wf_table_bucket [OF tab that] kept kw_named_unique by blast
  have h: "kw_bucket xs < KEYWORD_HASH_TABLE_SIZE"
    using bucket_of_less [of 6 "c_name xs"] by (simp add: sizes kw_bucket_def)
  note ins = wf_table_insert [where named = "kw_named g" and named' = "kw_named ?g" and o' = "brk g" and
      b = "c_keytab g ! kw_bucket xs @ [brk g]", OF tab same named _ refl h]
  have tabs: "c_keytab ?g = (c_keytab g)[kw_bucket xs := c_keytab g ! kw_bucket xs @ [brk g]]"
    by (simp add: new_keyword_def)
  have "fresh_above ?g" using fresh by (simp add: fresh_above_def new_keyword_def)
  moreover have free: "\<not> kw_named g o1 xs" if "o1 \<in> tab_set (c_keytab g)" for o1
    using new [of o1] that by (simp add: interned_keyword_def)
  ultimately show "wf_keywords ?g"
    using ins(1) unfolding wf_keywords_def tabs by simp
  have set: "tab_set (c_keytab ?g) = insert (brk g) (tab_set (c_keytab g))"
    using ins(2) free unfolding tabs by simp
  show "interned_keyword ?g (brk g) xs"
    using named set by (simp add: interned_keyword_def)
  show "interned_keyword ?g o1 ys" if "interned_keyword g o1 ys" for o1 ys
    using that same set by (simp add: interned_keyword_def)
qed

lemma alloc_keeps:
  assumes "wf_keywords g" and "alloc_string t g = (a, g')"
  shows "wf_keywords g'" and "interned_keyword g o1 xs \<Longrightarrow> interned_keyword g' o1 xs" and "strings g' a = Some t"
proof -
  have g': "g' = g\<lparr>strings := (strings g)(brk g \<mapsto> t), brk := Suc (brk g)\<rparr>" and a: "a = brk g"
    using assms(2) by (auto simp: alloc_string_def)
  have tab: "wf_table KEYWORD_HASH_TABLE_SIZE (kw_named g) kw_bucket (c_keytab g)" and fresh: "fresh_above g"
    using assms(1) by (simp_all add: wf_keywords_def)
  have kept: "kw_named g o1 ys \<Longrightarrow> kw_named g' o1 ys" for o1 ys
    using fresh_aboveD(1) [OF fresh] unfolding g' by (fastforce simp: kw_named_def)
  have same: "kw_named g' o1 ys \<longleftrightarrow> kw_named g o1 ys" if "o1 \<in> tab_set (c_keytab g)" for o1 ys
    using wf_table_bucket [OF tab that] kept kw_named_unique by blast
  have tabs: "c_keytab g' = c_keytab g" by (simp add: g')
  have "fresh_above g'" using fresh unfolding g' by (simp add: fresh_above_def)
  moreover have "wf_table KEYWORD_HASH_TABLE_SIZE (kw_named g') kw_bucket (c_keytab g')"
    using tab kept same wf_tableD [OF tab] unfolding tabs wf_table_def by metis
  ultimately show "wf_keywords g'" by (simp add: wf_keywords_def)
  show "interned_keyword g o1 xs \<Longrightarrow> interned_keyword g' o1 xs"
    using kept by (simp add: interned_keyword_def tabs)
  show "strings g' a = Some t" by (simp add: g' a)
qed

abbreviation keyword_of :: "u8 list \<Rightarrow> globals \<Rightarrow> (addr \<times> globals) option" where
  "keyword_of xs \<equiv> bgl_string_to_keyword_len (c_string xs) (int (length xs))"

lemma keyword_of_cases:
  assumes wf: "wf_keywords g" and short: "length xs < 2 ^ 31" and alloc: "alloc_string (bstring_of xs) g = (a, g1)"
  obtains o1 where "interned_keyword g1 o1 xs" "keyword_of xs g = Some (o1, g1)"
  | "\<And>o1. \<not> interned_keyword g1 o1 xs" "keyword_of xs g = Some (brk g1, new_keyword a xs g1)"
proof -
  note g1 = alloc_keeps [OF wf alloc]
  have "keyword_of xs g = bstring_to_keyword a g1"
    using string_to_bstring_len_rep [of "length xs" xs "[]"] alloc short by (simp add: bgl_string_to_keyword_len_def)
  then show thesis
    using keyword_found [OF g1(1) _ g1(3)] keyword_new [OF g1(1) _ g1(3)] that by auto
qed

interpretation kws: interning "\<lambda>xs. length xs < 2 ^ 31" keyword_of wf_keywords interned_keyword
proof unfold_locales
  fix s o1 o2 s' k k'
  assume wf: "wf_keywords s"
  obtain a g1 where alloc: "alloc_string (bstring_of k) s = (a, g1)" by fastforce
  note g1 = alloc_keeps [OF wf alloc] and cases = keyword_of_cases [OF wf _ alloc]
  show "length k < 2 ^ 31 \<Longrightarrow> \<exists>o1 s'. keyword_of k s = Some (o1, s')"
    by (rule cases) auto
  {
    assume k: "length k < 2 ^ 31" and "keyword_of k s = Some (o1, s')"
    then show "wf_keywords s'" and "interned_keyword s' o1 k"
      and "interned_keyword s o2 k' \<Longrightarrow> interned_keyword s' o2 k'"
      using g1 wf_new_keyword [OF g1(1) k _ g1(3)] by (cases rule: cases [OF k]; auto)+
  }
  show "interned_keyword s o1 k \<Longrightarrow> interned_keyword s o2 k \<Longrightarrow> o1 = o2"
    using wf wf_tableD(3) unfolding wf_keywords_def interned_keyword_def by blast
next
  fix s o1 k k'
  show "interned_keyword s o1 k \<Longrightarrow> interned_keyword s o1 k' \<Longrightarrow> k = k'"
    using kw_named_unique by (auto simp: interned_keyword_def)
qed

lemma wf_keywords_init: "wf_keywords (bgl_init_keyword_table static_init)"
  by (simp add: wf_keywords_def bgl_init_keyword_table_def static_init_def fresh_above_def wf_table_empty)

text \<open>C25: keywords made from C strings shorter than \<open>2 ^ 31\<close> bytes are unique in the same sense, in a table whose
  names are that short.\<close>

theorem keywords_unique:
  assumes "wf_keywords g" and "\<forall>xs\<in>set names. length xs < 2 ^ 31"
  shows "\<exists>os g'. intern_all (\<lambda>xs. bgl_string_to_keyword_len (c_string xs) (int (length xs))) names g = Some (os, g') \<and>
    wf_keywords g' \<and> list_all2 (interned_keyword g') os names \<and>
    (\<forall>i<length names. \<forall>j<length names. os ! i = os ! j \<longleftrightarrow> names ! i = names ! j)"
  using assms by (rule kws.intern_all_identity)

lemma keywords_unique_witness:
  "\<exists>os g'. intern_all (\<lambda>xs. bgl_string_to_keyword_len (c_string xs) (int (length xs)))
      [[107, 101, 121], [107], [107, 101, 121]] (bgl_init_keyword_table static_init) = Some (os, g') \<and>
    os ! 0 = os ! 2 \<and> os ! 0 \<noteq> os ! 1"
proof -
  have "\<forall>xs\<in>set [[107, 101, 121], [107], [107, 101, 121]]. length (xs :: u8 list) < 2 ^ 31" by simp
  from keywords_unique [OF wf_keywords_init this] show ?thesis by fastforce
qed

text \<open>A keyword made from a string object keeps the object itself, not a copy: changing a character
  of the string afterwards renames the keyword, and the old name then gives another keyword.\<close>

theorem keyword_aliases_string:
  "do { let g = (bgl_init_keyword_table static_init)\<lparr>strings := [0 \<mapsto> bstring_of [107, 101, 121]], brk := 1\<rparr>;
        (k1, g) \<leftarrow> bstring_to_keyword 0 g;
        let g = g\<lparr>strings := (strings g)(0 \<mapsto> bstring_of [106, 101, 121])\<rparr>;
        (k2, g) \<leftarrow> string_to_keyword (c_string [107, 101, 121]) g;
        k \<leftarrow> keys g k1;
        s \<leftarrow> strings g (kw_string k);
        Some (k1, k2, s) } = Some (1, 3, bstring_of [106, 101, 121])"
  by code_simp

end
