(* ===== verification/Gensym.thy ===== *)
theory Gensym
  imports Intern
begin

text \<open>
  What looking a symbol up by its name finds, and the names that \<open>bgl_symbol_genname\<close> generates: they
  fit the buffer, the search for them ends, and they are new. The operations are those of theory
  \<open>Intern\<close> (\<open>runtime/Clib/csymbol.c\<close>).
\<close>

section \<open>Looking a name up, and generated names\<close>

lemma strcmp_eq_strings:
  assumes "0 \<notin> set xs" and "0 \<notin> set ys" and "i \<le> length xs" "i \<le> length ys"
  shows "strcmp_eq (c_string xs @ sl) (c_string ys @ sl') i = Some (drop i xs = drop i ys)"
  using assms(3,4)
proof (induction "length xs - i" arbitrary: i)
  case 0
  then have "i = length xs" by simp
  moreover have "ys ! i \<noteq> 0" if "i < length ys" using that assms(2) by (metis nth_mem)
  ultimately show ?case using 0
    by (subst strcmp_eq.simps) (auto simp: mem_simps)
next
  case (Suc n)
  then have lt: "i < length xs" by simp
  then have x: "xs ! i \<noteq> 0" using assms(1) by (metis nth_mem)
  show ?case
  proof (cases "i < length ys")
    case True
    then have "strcmp_eq (c_string xs @ sl) (c_string ys @ sl') (Suc i) = Some (drop (Suc i) xs = drop (Suc i) ys)"
      using Suc lt by (intro Suc.hyps) auto
    moreover have "drop i xs = xs ! i # drop (Suc i) xs" "drop i ys = ys ! i # drop (Suc i) ys"
      using lt True by (simp_all add: Cons_nth_drop_Suc)
    ultimately show ?thesis using lt True x
      by (subst strcmp_eq.simps) (simp add: mem_simps)
  next
    case False
    then have "i = length ys" using Suc.prems by simp
    moreover have "drop i xs \<noteq> []" using lt by simp
    ultimately show ?thesis using lt x
      by (subst strcmp_eq.simps) (simp add: mem_simps)
  qed
qed

lemma exists_hit_named:
  assumes "sym_named g o1 ys" and "0 \<notin> set xs"
  shows "exists_hit g (c_string xs @ sl) o1 = Some (c_name ys = xs)"
proof -
  have "strcmp_eq (c_string ys @ sl1) (c_string xs @ sl) 0 = Some (c_name ys = xs)" for sl1
  proof -
    obtain sl' where "c_string ys @ sl1 = c_string (c_name ys) @ sl'" using c_name_string by blast
    then show ?thesis using strcmp_eq_strings [OF c_name_no_null assms(2), of 0 ys] by simp
  qed
  then show ?thesis
    using assms(1) by (auto simp: sym_named_def str_named_def exists_hit_def)
qed

definition taken :: "globals \<Rightarrow> u8 list \<Rightarrow> bool" where
  "taken g xs \<longleftrightarrow>
     (\<exists>o1\<in>set (c_symtab g ! bucket_of SYMBOL_HASH_TABLE_SIZE_SHIFT xs). \<exists>ys. sym_named g o1 ys \<and> c_name ys = xs)"

lemma symbol_exists_taken:
  assumes wf: "wf_symbols g" and "0 \<notin> set xs" and h: "unat h = bucket_of SYMBOL_HASH_TABLE_SIZE_SHIFT xs"
  shows "symbol_exists_sans_lock_p g (c_string xs @ sl) h = Some (taken g xs)"
proof -
  let ?b = "c_symtab g ! unat h" and ?P = "\<lambda>o1. \<exists>ys. sym_named g o1 ys \<and> c_name ys = xs"
  have lt: "unat h < length (c_symtab g)" using symbol_bucket(1) [OF wf h] .
  have "bucket_find (exists_hit g (c_string xs @ sl)) ?b = Some (find ?P ?b)"
  proof (rule bucket_find_total)
    fix o1
    assume "o1 \<in> set ?b"
    then obtain ys where ys: "sym_named g o1 ys"
      using wf_table_bucket in_bucket lt wf unfolding wf_symbols_def by blast
    then have "?P o1 \<longleftrightarrow> c_name ys = xs" using sym_named_unique by blast
    then show "exists_hit g (c_string xs @ sl) o1 = Some (?P o1)"
      using exists_hit_named [OF ys assms(2)] by simp
  qed
  moreover have "find ?P ?b \<noteq> None \<longleftrightarrow> taken g xs"
    by (auto simp: find_None_iff taken_def h)
  ultimately show ?thesis
    using lt by (simp add: symbol_exists_sans_lock_p_def bucket_ref_def)
qed

lemma taken_interned:
  assumes "wf_symbols g"
  shows "interned_symbol g o1 xs \<Longrightarrow> 0 \<notin> set xs \<Longrightarrow> taken g xs"
    and "taken g xs \<Longrightarrow> \<exists>o1 ys. interned_symbol g o1 ys \<and> c_name ys = xs"
proof -
  have tab: "wf_table SYMBOL_HASH_TABLE_SIZE (sym_named g) (bucket_of SYMBOL_HASH_TABLE_SIZE_SHIFT) (c_symtab g)"
    using assms by (simp add: wf_symbols_def)
  show "taken g xs \<Longrightarrow> \<exists>o1 ys. interned_symbol g o1 ys \<and> c_name ys = xs"
    using in_bucket symbol_bucket(1) [OF assms refl] unfolding taken_def interned_symbol_def by blast
  assume o1: "interned_symbol g o1 xs" and "0 \<notin> set xs"
  then have "c_name xs = xs" by (auto simp: c_name_def takeWhile_eq_all_conv)
  moreover have "o1 \<in> set (c_symtab g ! bucket_of SYMBOL_HASH_TABLE_SIZE_SHIFT xs)"
    using wf_table_bucket [OF tab] sym_named_unique o1 unfolding interned_symbol_def by blast
  ultimately show "taken g xs" using o1 by (auto simp: taken_def interned_symbol_def)
qed

lemma symbol_exists_p_taken:
  assumes "wf_symbols g" and "0 \<notin> set xs"
  shows "symbol_exists_p (c_string xs @ sl) g = Some (taken g xs)"
proof -
  have "c_name xs = xs" using assms(2) by (auto simp: c_name_def takeWhile_eq_all_conv)
  then obtain h where "get_hash_power_number (c_string xs @ sl) SYMBOL_HASH_TABLE_SIZE_SHIFT = Some h"
    "unat h = bucket_of SYMBOL_HASH_TABLE_SIZE_SHIFT xs"
    using hash_bucket [of SYMBOL_HASH_TABLE_SIZE_SHIFT xs sl] by (auto simp: sizes)
  then show ?thesis using symbol_exists_taken [OF assms] by (simp add: symbol_exists_p_def)
qed

text \<open>C35: looking a name up finds every symbol interned under it, although the bucket is computed by
  scanning the name and not from its length; and what it finds is a symbol whose name is the one sought, or
  continues it after a null character.\<close>

theorem symbol_exists_p_correct:
  assumes "wf_symbols g" and "0 \<notin> set xs"
  shows "\<exists>b. symbol_exists_p (c_string xs) g = Some b \<and>
    ((\<exists>o1. interned_symbol g o1 xs) \<longrightarrow> b) \<and>
    (b \<longrightarrow> (\<exists>o1 ys. interned_symbol g o1 ys \<and> c_name ys = xs))"
  using symbol_exists_p_taken [OF assms, of "[]"] taken_interned [OF assms(1)] assms(2) by auto

lemma symbol_exists_p_correct_witness:
  "symbol_exists_p (c_string [99]) (new_symbol [99] (bgl_init_symbol_table static_init)) = Some True"
proof -
  let ?g = "bgl_init_symbol_table static_init"
  have "\<not> interned_symbol ?g o1 xs" for o1 xs
    by (auto simp: interned_symbol_def bgl_init_symbol_table_def static_init_def tab_set_def)
  note g = wf_new_symbol [OF wf_symbols_init this]
  show ?thesis using symbol_exists_p_correct [OF g(1), of "[99]" "[99]"] g(2) [of "[99]"] by auto
qed

text \<open>The decimal text of a counter: at most 19 digits, none of them null, and different for different
  counters.\<close>

definition digit_char :: "nat \<Rightarrow> u8" where
  "digit_char d = of_char CHR ''0'' + word_of_nat d"

lemma digit_char: "d < 10 \<Longrightarrow> unat (digit_char d) = 48 + d"
  by (simp add: digit_char_def unat_word_ariths unat_of_nat)

lemma decimal_nonneg: "0 \<le> k \<Longrightarrow> decimal k = map digit_char (number_digits 10 (nat k))"
  by (simp add: decimal_def digit_char_def)

lemma length_radix_digits: "n < 10 ^ k \<Longrightarrow> length (radix_digits 10 n) \<le> k"
proof (induction k arbitrary: n)
  case (Suc k)
  then have "n div 10 < 10 ^ k" by (simp add: less_mult_imp_div_less mult.commute)
  with Suc.IH show ?case by (subst radix_digits.simps) simp
qed simp

lemma length_decimal:
  assumes "0 \<le> k" and "k < 2 ^ 63"
  shows "length (decimal k) \<le> 19"
proof -
  have "nat k < 10 ^ 19" using assms by simp
  then show ?thesis
    using length_radix_digits [of "nat k" 19] by (simp add: decimal_nonneg [OF assms(1)] number_digits_def)
qed

lemma decimal_nonzero:
  assumes "0 \<le> k"
  shows "0 \<notin> set (decimal k)"
proof -
  have "digit_char d \<noteq> 0" if "d \<in> set (number_digits 10 (nat k))" for d
    using digit_char [of d] number_digits_spec(2) [of 10 d "nat k"] that by auto
  then show ?thesis by (auto simp: decimal_nonneg [OF assms])
qed

lemma decimal_inject:
  assumes "0 \<le> k" and "0 \<le> l" and "decimal k = decimal l"
  shows "k = l"
proof -
  have eq: "map digit_char (number_digits 10 (nat k)) = map digit_char (number_digits 10 (nat l))"
    using assms by (simp add: decimal_nonneg)
  have "inj_on digit_char {..<10}"
    using digit_char by (intro inj_onI) (metis add_left_imp_eq lessThan_iff)
  moreover have "set (number_digits 10 n) \<subseteq> {..<10}" for n
    using number_digits_spec(2) [of 10 _ n] by auto
  ultimately have "number_digits 10 (nat k) = number_digits 10 (nat l)"
    using eq by (metis inj_on_map_eq_map inj_on_subset sup.boundedI)
  moreover have "digits_value 10 (number_digits 10 n) = n" for n
    by (rule number_digits_spec(1)) simp
  ultimately have "nat k = nat l" by metis
  then show ?thesis using assms(1,2) by simp
qed

text \<open>The buffer: \<open>strncpy\<close> leaves the prefix in it, \<open>sprintf\<close> the name.\<close>

lemma strncpy_prefix:
  assumes "0 \<notin> set xs"
  shows "\<exists>m. strncpy (gc_malloc 40) (c_string xs @ sl) 20 = Some m \<and> length m = 40 \<and>
    take (min (length xs) 20) m = map Some (take 20 xs)"
  using assms by (simp add: strncpy_def mem_simps memset_def blit_def min_def Let_def) (simp add: c_string_def take_map)

lemma sprintf_name:
  assumes "take n gn = map Some pre" and "n = length pre" and "n \<le> 20" and "length gn = 40" and "0 \<le> k" and "k < 2 ^ 63"
  shows "\<exists>sl. sprintf_ld gn n k = Some (c_string (pre @ decimal k) @ sl) \<and> length (c_string (pre @ decimal k) @ sl) = 40 \<and>
    take n (c_string (pre @ decimal k) @ sl) = map Some pre"
  using assms length_decimal [OF assms(5,6)]
  by (simp add: sprintf_ld_def blit_def c_string_def)

text \<open>Only finitely many counters give a name that is taken, so the loop ends.\<close>

definition taken_counters :: "globals \<Rightarrow> u8 list \<Rightarrow> int \<Rightarrow> int set" where
  "taken_counters g pre k = {l. k < l \<and> 0 \<le> l \<and> taken g (pre @ decimal l)}"

lemma taken_counters_card:
  assumes "wf_symbols g"
  shows "finite (taken_counters g pre k)" and "card (taken_counters g pre k) \<le> card (tab_set (c_symtab g))"
proof -
  let ?f = "\<lambda>o1. THE l. 0 \<le> l \<and> (\<exists>ys. sym_named g o1 ys \<and> c_name ys = pre @ decimal l)"
  have "taken_counters g pre k \<subseteq> ?f ` tab_set (c_symtab g)"
  proof
    fix l
    assume "l \<in> taken_counters g pre k"
    then have l: "0 \<le> l" "taken g (pre @ decimal l)" by (simp_all add: taken_counters_def)
    obtain o1 ys where o1: "o1 \<in> tab_set (c_symtab g)" "sym_named g o1 ys" "c_name ys = pre @ decimal l"
      using taken_interned(2) [OF assms l(2)] by (auto simp: interned_symbol_def)
    have "?f o1 = l"
    proof (rule the_equality)
      show "0 \<le> l \<and> (\<exists>ys. sym_named g o1 ys \<and> c_name ys = pre @ decimal l)" using l(1) o1 by blast
    next
      fix j
      assume j: "0 \<le> j \<and> (\<exists>ys. sym_named g o1 ys \<and> c_name ys = pre @ decimal j)"
      then obtain zs where "sym_named g o1 zs" "c_name zs = pre @ decimal j" by blast
      then have "decimal j = decimal l" using o1(3) sym_named_unique [OF o1(2), of zs] by simp
      then show "j = l" using j l(1) decimal_inject by simp
    qed
    then show "l \<in> ?f ` tab_set (c_symtab g)" by (rule image_eqI [OF sym o1(1)])
  qed
  moreover have fin: "finite (tab_set (c_symtab g))" by (simp add: tab_set_def)
  ultimately show "finite (taken_counters g pre k)" "card (taken_counters g pre k) \<le> card (tab_set (c_symtab g))"
    by (auto intro: finite_surj surj_card_le)
qed

lemma genname_loop_finds:
  assumes wf: "wf_symbols g" and pre: "0 \<notin> set pre" "n = length pre" "n \<le> 20"
    and "take n gn = map Some pre" and "length gn = 40" and "0 \<le> sint k"
    and "sint k + int (card (taken_counters g pre (sint k))) < 2 ^ 63 - 1"
  shows "\<exists>sl hn l. genname_loop g n gn k = Some (c_string (pre @ decimal (sint l)) @ sl, hn, l) \<and>
    unat hn = bucket_of SYMBOL_HASH_TABLE_SIZE_SHIFT (pre @ decimal (sint l)) \<and> sint k < sint l \<and>
    \<not> taken g (pre @ decimal (sint l))"
  using assms(5-)
proof (induction "card (taken_counters g pre (sint k))" arbitrary: gn k rule: less_induct)
  case less
  have ne: "sint k \<noteq> 2 ^ 63 - 1" using less.prems(4) by linarith
  have k1: "sint (k + 1) = sint k + 1" using ne by (rule sint_increment)
  have lt: "sint k + 1 < 2 ^ 63" using less.prems(4) by linarith
  let ?xs = "pre @ decimal (sint k + 1)"
  obtain sl where sp: "sprintf_ld gn n (sint k + 1) = Some (c_string ?xs @ sl)" "length (c_string ?xs @ sl) = 40"
    "take n (c_string ?xs @ sl) = map Some pre"
    using sprintf_name [OF less.prems(1) pre(2,3) less.prems(2), of "sint k + 1"] less.prems(3) lt by auto
  have no0: "0 \<notin> set ?xs" using pre(1) decimal_nonzero [of "sint k + 1"] less.prems(3) by simp
  then have "c_name ?xs = ?xs" by (auto simp: c_name_def takeWhile_eq_all_conv)
  then obtain h where h: "get_hash_power_number (c_string ?xs @ sl) SYMBOL_HASH_TABLE_SIZE_SHIFT = Some h"
    "unat h = bucket_of SYMBOL_HASH_TABLE_SIZE_SHIFT ?xs"
    using hash_bucket [of SYMBOL_HASH_TABLE_SIZE_SHIFT ?xs sl] by (auto simp: sizes)
  have ex: "symbol_exists_sans_lock_p g (c_string ?xs @ sl) h = Some (taken g ?xs)"
    by (rule symbol_exists_taken [OF wf no0 h(2)])
  have step: "genname_loop g n gn k =
      (if taken g ?xs then genname_loop g n (c_string ?xs @ sl) (k + 1) else Some (c_string ?xs @ sl, h, k + 1))"
    using ne sp(1) h(1) ex k1 by (subst genname_loop.simps) (simp add: Let_def)
  show ?case
  proof (cases "taken g ?xs")
    case True
    then have "sint k + 1 \<in> taken_counters g pre (sint k)" using less.prems(3) by (simp add: taken_counters_def)
    moreover have "taken_counters g pre (sint (k + 1)) = taken_counters g pre (sint k) - {sint k + 1}"
      by (auto simp: taken_counters_def k1)
    ultimately have card: "card (taken_counters g pre (sint k)) = Suc (card (taken_counters g pre (sint (k + 1))))"
      using taken_counters_card(1) [OF wf, of pre "sint k"] by (metis card.remove)
    have "\<exists>sl' hn l. genname_loop g n (c_string ?xs @ sl) (k + 1) = Some (c_string (pre @ decimal (sint l)) @ sl', hn, l) \<and>
        unat hn = bucket_of SYMBOL_HASH_TABLE_SIZE_SHIFT (pre @ decimal (sint l)) \<and> sint (k + 1) < sint l \<and>
        \<not> taken g (pre @ decimal (sint l))"
      using card less.prems(3,4) sp(2,3) k1 by (intro less.hyps) simp_all
    then show ?thesis using step True k1 by force
  next
    case False
    then show ?thesis using step h(2) k1 by (auto intro!: exI [of _ "k + 1"])
  qed
qed

text \<open>Naming a symbol that has no name.\<close>

definition named_symbol :: "addr \<Rightarrow> u8 list \<Rightarrow> c_long \<Rightarrow> globals \<Rightarrow> globals" where
  "named_symbol o1 xs counter g = (let h = bucket_of SYMBOL_HASH_TABLE_SIZE_SHIFT xs in
     g\<lparr>gensym_counter := counter, strings := (strings g)(brk g \<mapsto> bstring_of xs), brk := Suc (brk g),
       syms := (syms g)(o1 \<mapsto> (the (syms g o1))\<lparr>sym_string := Some (brk g)\<rparr>),
       c_symtab := (c_symtab g)[h := o1 # c_symtab g ! h]\<rparr>)"

lemma genname_names:
  assumes wf: "wf_symbols g" and name: "0 \<notin> set name" and k: "0 \<le> sint (gensym_counter g)"
    "sint (gensym_counter g) + int (card (tab_set (c_symtab g))) < 2 ^ 63 - 1"
    and o1: "syms g o1 = Some s0"
  shows "\<exists>l. bgl_symbol_genname o1 (c_string name @ sl) g =
      Some (brk g, named_symbol o1 (take 20 name @ decimal (sint l)) l g) \<and>
    sint (gensym_counter g) < sint l \<and> \<not> taken g (take 20 name @ decimal (sint l)) \<and>
    0 \<notin> set (take 20 name @ decimal (sint l))"
proof -
  let ?n = "min (length name) 20" and ?pre = "take 20 name"
  obtain gn where gn: "strncpy (gc_malloc 40) (c_string name @ sl) 20 = Some gn" "length gn = 40"
    "take ?n gn = map Some ?pre"
    using strncpy_prefix [OF name] by blast
  have pre: "0 \<notin> set ?pre" "?n = length ?pre" "?n \<le> 20" using name by (auto dest: in_set_takeD)
  obtain sl' hn l where l: "genname_loop g ?n gn (gensym_counter g) = Some (c_string (?pre @ decimal (sint l)) @ sl', hn, l)"
    "unat hn = bucket_of SYMBOL_HASH_TABLE_SIZE_SHIFT (?pre @ decimal (sint l))"
    "sint (gensym_counter g) < sint l" "\<not> taken g (?pre @ decimal (sint l))"
    using genname_loop_finds [OF wf pre gn(3,2) k(1)] k(2) taken_counters_card(2) [OF wf, of ?pre "sint (gensym_counter g)"]
    by fastforce
  let ?xs = "?pre @ decimal (sint l)"
  have no0: "0 \<notin> set ?xs" using pre(1) decimal_nonzero [of "sint l"] k(1) l(3) by simp
  have "length (decimal (sint l)) \<le> 19"
    using k(1) l(3) sint_max [of l] by (intro length_decimal) simp_all
  then have s: "string_to_bstring (Some (c_string ?xs @ sl')) = Some (bstring_of ?xs)"
    using no0 by (intro string_to_bstring_rep) simp_all
  have h: "unat hn < length (c_symtab g)" by (rule symbol_bucket(1) [OF wf l(2)])
  have min: "(if length name > 20 then 20 else length name) = ?n" by simp
  have "bgl_symbol_genname o1 (c_string name @ sl) g = Some (brk g, named_symbol o1 ?xs l g)"
    using gn(1) l(1,2) s h o1 name
    unfolding bgl_symbol_genname_def strlen_c_string_slack [OF name] Let_def bind.bind_lunit min
    by (simp add: alloc_string_def bucket_ref_def named_symbol_def Let_def)
  with l no0 show ?thesis by blast
qed

lemma make_symbol_keeps:
  assumes "wf_symbols g" and "make_symbol None g = (o1, g1)"
  shows "wf_symbols g1" and "interned_symbol g1 o2 ys \<longleftrightarrow> interned_symbol g o2 ys"
proof -
  have g1: "g1 = g\<lparr>syms := (syms g)(brk g \<mapsto> \<lparr>sym_string = None, sym_cval = None\<rparr>), brk := Suc (brk g)\<rparr>"
    using assms(2) by (auto simp: make_symbol_def)
  have tab: "wf_table SYMBOL_HASH_TABLE_SIZE (sym_named g) (bucket_of SYMBOL_HASH_TABLE_SIZE_SHIFT) (c_symtab g)"
    and fresh: "fresh_above g"
    using assms(1) by (simp_all add: wf_symbols_def)
  have same: "sym_named g1 o2 ys \<longleftrightarrow> sym_named g o2 ys" for o2 ys
    using fresh_aboveD(2) [OF fresh, of "brk g"] by (auto simp: g1 sym_named_def)
  then have "sym_named g1 = sym_named g" by blast
  moreover have "fresh_above g1" using fresh by (simp add: g1 fresh_above_def)
  ultimately show "wf_symbols g1" and "interned_symbol g1 o2 ys \<longleftrightarrow> interned_symbol g o2 ys"
    using tab by (simp_all add: wf_symbols_def interned_symbol_def) (simp_all add: g1)
qed

lemma wf_named_symbol:
  assumes g: "wf_symbols g" and o1: "syms g o1 = Some s0" "sym_string s0 = None"
    and new: "\<And>o2. \<not> interned_symbol g o2 xs"
  shows "wf_symbols (named_symbol o1 xs k g)"
    and "interned_symbol (named_symbol o1 xs k g) o2 ys \<longleftrightarrow> interned_symbol g o2 ys \<or> (o2 = o1 \<and> ys = xs)"
proof -
  let ?h = "bucket_of SYMBOL_HASH_TABLE_SIZE_SHIFT" and ?g = "named_symbol o1 xs k g"
  have tab: "wf_table SYMBOL_HASH_TABLE_SIZE (sym_named g) ?h (c_symtab g)" and fresh: "fresh_above g"
    using g by (simp_all add: wf_symbols_def)
  have out: "o1 \<notin> tab_set (c_symtab g)"
    using wf_table_bucket [OF tab, of o1] o1 by (auto simp: sym_named_def)
  have named: "sym_named ?g o1 ys \<longleftrightarrow> ys = xs" for ys
    using o1 by (auto simp: sym_named_def named_symbol_def Let_def)
  have kept: "sym_named ?g o2 ys" if named_g: "sym_named g o2 ys" for o2 ys
  proof -
    obtain s a t where *: "syms g o2 = Some s" "sym_string s = Some a" "strings g a = Some t" "str_named t ys"
      using named_g by (auto simp: sym_named_def)
    then have "a < brk g" "o2 \<noteq> o1" using fresh_aboveD(1) [OF fresh] o1 by auto
    with * show ?thesis unfolding sym_named_def named_symbol_def Let_def
      by (intro exI [of _ s] exI [of _ a] exI [of _ t]) simp
  qed
  have same: "sym_named ?g o2 ys \<longleftrightarrow> sym_named g o2 ys" if "o2 \<in> tab_set (c_symtab g)" for o2 ys
    using wf_table_bucket [OF tab that] kept sym_named_unique by blast
  have h: "?h xs < SYMBOL_HASH_TABLE_SIZE"
    using bucket_of_less [of 12 xs] by (simp add: sizes)
  note ins = wf_table_insert [where named = "sym_named g" and named' = "sym_named ?g" and o' = o1 and
      b = "o1 # c_symtab g ! ?h xs", OF tab same named _ refl h]
  have tabs: "c_symtab ?g = (c_symtab g)[?h xs := o1 # c_symtab g ! ?h xs]"
    by (simp add: named_symbol_def Let_def)
  have "o1 < brk g" using fresh_aboveD(2) [OF fresh o1(1)] .
  then have "fresh_above ?g" using fresh by (simp add: fresh_above_def named_symbol_def Let_def)
  moreover have free: "\<not> sym_named g o2 xs" if "o2 \<in> tab_set (c_symtab g)" for o2
    using new [of o2] that by (simp add: interned_symbol_def)
  ultimately show "wf_symbols ?g"
    using ins(1) unfolding wf_symbols_def tabs by simp
  have set: "tab_set (c_symtab ?g) = insert o1 (tab_set (c_symtab g))"
    using ins(2) free unfolding tabs by simp
  show "interned_symbol ?g o2 ys \<longleftrightarrow> interned_symbol g o2 ys \<or> (o2 = o1 \<and> ys = xs)"
    using same named out set by (auto simp: interned_symbol_def)
qed

text \<open>C16: a generated symbol: the search for a name ends (unless the counter is about to overflow), the name
  is the first 20 characters of the given one followed by a counter, no symbol was interned under it, the
  symbol itself is now the one interned under it, and all other symbols keep their names.\<close>

theorem gensym_fresh:
  assumes "wf_symbols g" and "0 \<notin> set name" and "0 \<le> sint (gensym_counter g)"
    and "sint (gensym_counter g) + int (card (tab_set (c_symtab g))) < 2 ^ 63 - 1"
  shows "\<exists>o1 g' l. bgl_gensym (Some (str_rep name sl)) g = Some (o1, g') \<and> wf_symbols g' \<and>
    sint (gensym_counter g) < l \<and> (\<forall>o2. \<not> interned_symbol g o2 (take 20 name @ decimal l)) \<and>
    (\<forall>o2 ys. interned_symbol g' o2 ys \<longleftrightarrow> interned_symbol g o2 ys \<or> (o2 = o1 \<and> ys = take 20 name @ decimal l))"
proof -
  obtain o1 g1 where g1: "make_symbol None g = (o1, g1)" by fastforce
  then have eq: "c_symtab g1 = c_symtab g" "gensym_counter g1 = gensym_counter g" "syms g1 o1 = Some \<lparr>sym_string = None, sym_cval = None\<rparr>"
    by (auto simp: make_symbol_def)
  have 1: "wf_symbols g1" "interned_symbol g1 o2 ys \<longleftrightarrow> interned_symbol g o2 ys" for o2 ys
    using make_symbol_keeps [OF assms(1) g1] by simp_all
  obtain l where l: "bgl_symbol_genname o1 (c_string name @ sl) g1 =
      Some (brk g1, named_symbol o1 (take 20 name @ decimal (sint l)) l g1)"
    "sint (gensym_counter g) < sint l" "\<not> taken g1 (take 20 name @ decimal (sint l))"
    "0 \<notin> set (take 20 name @ decimal (sint l))"
    using genname_names [OF 1(1) assms(2) _ _ eq(3), of sl] assms(3,4) eq(1,2) by auto
  have new: "\<not> interned_symbol g1 o2 (take 20 name @ decimal (sint l))" for o2
    using taken_interned(1) [OF 1(1)] l(3,4) by blast
  note wf_named_symbol [OF 1(1) eq(3) _ new, of l]
  then show ?thesis
    using g1 l 1(2) new by (intro exI [of _ o1] exI [of _ "named_symbol o1 (take 20 name @ decimal (sint l)) l g1"]
        exI [of _ "sint l"]) (simp add: bgl_gensym_def)
qed

lemma gensym_fresh_witness:
  "\<exists>o1 g' l. bgl_gensym (Some (bstring_of [103])) (bgl_init_symbol_table static_init) = Some (o1, g') \<and>
    999 < l \<and> interned_symbol g' o1 ([103] @ decimal l)"
  using gensym_fresh [OF wf_symbols_init, of "[103]" "[]"]
  by (auto simp: bgl_init_symbol_table_def static_init_def tab_set_def)

end
