(* ===== verification/Bignum.thy ===== *)
theory Bignum
  imports Fixnum
begin

text \<open>
  The bignums of \<open>runtime/Clib/cbignum.c\<close>, in the configuration with GMP and 64-bit limbs: sign and
  magnitude arithmetic on arrays of limbs, bitwise operations, and the generic arithmetic that starts from
  machine integers and turns to bignums when the result overflows. The functions of GMP are the record
  \<open>gmp\<close>, a parameter of the operations that call them; their documented behaviour is \<open>gmp_ok\<close>.
\<close>

section \<open>Data\<close>

type_synonym limb = "64 word"

text \<open>The structure \<open>__mpz_struct\<close>, which the bignum object contains. The sign of the number is that of the size.\<close>

record mpz =
  mp_alloc :: int
  mp_size :: int
  mp_d :: "limb cells"

type_synonym bignum = mpz

record gmp =
  mpn_cmp :: "limb list \<Rightarrow> limb list \<Rightarrow> int"
  mpn_add :: "limb list \<Rightarrow> limb list \<Rightarrow> limb list \<times> limb"
  mpn_sub :: "limb list \<Rightarrow> limb list \<Rightarrow> limb list \<times> limb"
  mpn_mul :: "limb list \<Rightarrow> limb list \<Rightarrow> limb list"
  mpn_tdiv_qr :: "limb list \<Rightarrow> limb list \<Rightarrow> limb list \<times> limb list"
  mpz_even_p :: "mpz \<Rightarrow> bool"
  mpz_odd_p :: "mpz \<Rightarrow> bool"
  mpz_get_si :: "mpz \<Rightarrow> c_long"
  mpz_init_set_str :: "u8 list \<Rightarrow> nat \<Rightarrow> mpz"
  mpz_sizeinbase :: "mpz \<Rightarrow> nat \<Rightarrow> nat"
  mpz_pow_ui :: "mpz \<Rightarrow> nat \<Rightarrow> mpz"
  mpz_gcd :: "mpz \<Rightarrow> mpz \<Rightarrow> mpz"
  mpz_lcm :: "mpz \<Rightarrow> mpz \<Rightarrow> mpz"
  mpz_mul_2exp :: "mpz \<Rightarrow> nat \<Rightarrow> mpz"
  mpz_div_2exp :: "mpz \<Rightarrow> nat \<Rightarrow> mpz"
  mpz_sub :: "mpz \<Rightarrow> mpz \<Rightarrow> mpz"
  mpz_and :: "mpz \<Rightarrow> mpz \<Rightarrow> mpz"
  mpz_ior :: "mpz \<Rightarrow> mpz \<Rightarrow> mpz"
  mpz_com :: "mpz \<Rightarrow> mpz"

text \<open>The limbs an array argument of a GMP function designates, and the array a GMP function fills.\<close>

definition limbs :: "limb cells \<Rightarrow> int \<Rightarrow> limb list option" where
  "limbs m n = do { k \<leftarrow> idx n; rds m 0 k }"

definition set_limbs :: "limb list \<Rightarrow> mpz \<Rightarrow> mpz option" where
  "set_limbs ls x = do { m \<leftarrow> blit (mp_d x) 0 (map Some ls) 0 (length ls); Some (x\<lparr>mp_d := m\<rparr>) }"

section \<open>Allocation and conversion\<close>

text \<open>The size, which the code leaves unset here, is set by every caller.\<close>

definition make_bignum :: "int \<Rightarrow> bignum option" where
  "make_bignum sz = do { n \<leftarrow> idx sz; Some \<lparr>mp_alloc = sz, mp_size = 0, mp_d = gc_malloc n\<rparr> }"

definition BXABSIZ :: "bignum \<Rightarrow> int" where
  "BXABSIZ x = (if mp_size x \<ge> 0 then mp_size x else - mp_size x)"

definition BXPOSITIVE :: "bignum \<Rightarrow> bool" where "BXPOSITIVE x \<longleftrightarrow> mp_size x > 0"

definition BXNEGATIVE :: "bignum \<Rightarrow> bool" where "BXNEGATIVE x \<longleftrightarrow> mp_size x < 0"

definition neg_size :: "bignum \<Rightarrow> bignum" where
  "neg_size x = x\<lparr>mp_size := - mp_size x\<rparr>"

text \<open>\<open>while( count > 0 && limbs[count] == 0 ) count--\<close>.\<close>

fun top_limb :: "limb cells \<Rightarrow> nat \<Rightarrow> nat option" where
  "top_limb m 0 = Some 0"
| "top_limb m (Suc c) = do { l \<leftarrow> rd m (Suc c); if l = 0 then top_limb m c else Some (Suc c) }"

definition bignum_set_size :: "bignum \<Rightarrow> int \<Rightarrow> bignum option" where
  "bignum_set_size x size1 = do {
     c \<leftarrow> idx (size1 - 1);
     count \<leftarrow> top_limb (mp_d x) c;
     l \<leftarrow> rd (mp_d x) 0;
     if count = 0 \<and> l = 0 then Some (x\<lparr>mp_size := 0\<rparr>) else Some (x\<lparr>mp_size := int count + 1\<rparr>) }"

definition mpz_to_bignum :: "mpz \<Rightarrow> bignum option" where
  "mpz_to_bignum z = do {
     let n = (if mp_size z = 0 then mp_alloc z else BXABSIZ z);
     b \<leftarrow> make_bignum n;
     k \<leftarrow> idx n;
     m \<leftarrow> blit (mp_d b) 0 (mp_d z) 0 k;
     Some (b\<lparr>mp_d := m, mp_size := mp_size z\<rparr>) }"

definition bgl_long_to_bignum :: "c_long \<Rightarrow> bignum option" where
  "bgl_long_to_bignum n = do {
     x \<leftarrow> make_bignum 1;
     if sint n < 0
     then do { m \<leftarrow> wr (mp_d x) 0 (- n); Some (x\<lparr>mp_d := m, mp_size := -1\<rparr>) }
     else do { m \<leftarrow> wr (mp_d x) 0 n; Some (x\<lparr>mp_d := m, mp_size := (if n \<noteq> 0 then 1 else 0)\<rparr>) } }"

definition bgl_llong_to_bignum :: "c_long \<Rightarrow> bignum option" where
  "bgl_llong_to_bignum n = bgl_long_to_bignum n"

definition bgl_int64_to_bignum :: "c_long \<Rightarrow> bignum option" where
  "bgl_int64_to_bignum n = bgl_long_to_bignum n"

definition bgl_uint64_to_bignum :: "64 word \<Rightarrow> bignum option" where
  "bgl_uint64_to_bignum n = do {
     x \<leftarrow> make_bignum 1;
     m \<leftarrow> wr (mp_d x) 0 n;
     Some (x\<lparr>mp_d := m, mp_size := (if n \<noteq> 0 then 1 else 0)\<rparr>) }"

definition bgl_bignum_to_long :: "gmp \<Rightarrow> bignum \<Rightarrow> c_long" where
  "bgl_bignum_to_long G x = mpz_get_si G x"

definition bgl_bignum_to_llong :: "gmp \<Rightarrow> bignum \<Rightarrow> c_long" where
  "bgl_bignum_to_llong G x = mpz_get_si G x"

definition bgl_bignum_to_int64 :: "gmp \<Rightarrow> bignum \<Rightarrow> c_long" where
  "bgl_bignum_to_int64 G x = mpz_get_si G x"

definition bgl_string_to_bignum :: "gmp \<Rightarrow> u8 cells \<Rightarrow> nat \<Rightarrow> bignum option" where
  "bgl_string_to_bignum G str radix = do {
     n \<leftarrow> strlen_from str 0;
     s \<leftarrow> rds str 0 n;
     mpz_to_bignum (mpz_init_set_str G s radix) }"

section \<open>Comparison, sign, addition and subtraction\<close>

definition bignum_cmp_aux :: "gmp \<Rightarrow> limb cells \<Rightarrow> int \<Rightarrow> limb cells \<Rightarrow> int \<Rightarrow> int option" where
  "bignum_cmp_aux G x size_x y size_y =
     (if size_x < size_y then Some (-1)
      else if size_x > size_y then Some 1
      else do { a \<leftarrow> limbs x size_x; b \<leftarrow> limbs y size_x; Some (mpn_cmp G a b) })"

definition bgl_bignum_cmp :: "gmp \<Rightarrow> bignum \<Rightarrow> bignum \<Rightarrow> int option" where
  "bgl_bignum_cmp G x y =
     (if BXPOSITIVE x then
        if BXPOSITIVE y then bignum_cmp_aux G (mp_d x) (mp_size x) (mp_d y) (mp_size y)
        else Some 1
      else if BXNEGATIVE x then
        if BXNEGATIVE y then bignum_cmp_aux G (mp_d y) (- mp_size y) (mp_d x) (- mp_size x)
        else Some (-1)
      else if BXPOSITIVE y then Some (-1)
      else if BXNEGATIVE y then Some 1
      else Some 0)"

definition bgl_bignum_even :: "gmp \<Rightarrow> bignum \<Rightarrow> bool" where "bgl_bignum_even G x = mpz_even_p G x"

definition bgl_bignum_odd :: "gmp \<Rightarrow> bignum \<Rightarrow> bool" where "bgl_bignum_odd G x = mpz_odd_p G x"

text \<open>The copy with the opposite sign, of the two branches of the code.\<close>

definition copy_neg :: "bignum \<Rightarrow> int \<Rightarrow> bignum option" where
  "copy_neg x n = do {
     y \<leftarrow> make_bignum n;
     k \<leftarrow> idx n;
     m \<leftarrow> blit (mp_d y) 0 (mp_d x) 0 k;
     Some (y\<lparr>mp_d := m, mp_size := - mp_size x\<rparr>) }"

definition bgl_bignum_neg :: "bignum \<Rightarrow> bignum option" where
  "bgl_bignum_neg x =
     (if BXPOSITIVE x then copy_neg x (mp_size x)
      else if BXNEGATIVE x then copy_neg x (- mp_size x)
      else Some x)"

definition bgl_bignum_abs :: "bignum \<Rightarrow> bignum option" where
  "bgl_bignum_abs x = (if BXNEGATIVE x then copy_neg x (- mp_size x) else Some x)"

definition bignum_add_pos_pos_aux :: "gmp \<Rightarrow> limb cells \<Rightarrow> int \<Rightarrow> limb cells \<Rightarrow> int \<Rightarrow> bignum option" where
  "bignum_add_pos_pos_aux G x size_x y size_y = do {
     z \<leftarrow> make_bignum (size_x + 1);
     a \<leftarrow> limbs x size_x; b \<leftarrow> limbs y size_y;
     let (s, c) = mpn_add G a b;
     z \<leftarrow> set_limbs s z;
     let carry = int32 (uint c);
     if carry \<noteq> 0 then do {
       k \<leftarrow> idx size_x;
       m \<leftarrow> wr (mp_d z) k (word_of_int carry);
       Some (z\<lparr>mp_d := m, mp_size := size_x + 1, mp_alloc := size_x + 1\<rparr>) }
     else Some (z\<lparr>mp_size := size_x, mp_alloc := size_x\<rparr>) }"

definition bignum_add_pos_pos :: "gmp \<Rightarrow> limb cells \<Rightarrow> int \<Rightarrow> limb cells \<Rightarrow> int \<Rightarrow> bignum option" where
  "bignum_add_pos_pos G x size_x y size_y =
     (if size_x \<ge> size_y then bignum_add_pos_pos_aux G x size_x y size_y
      else bignum_add_pos_pos_aux G y size_y x size_x)"

text \<open>A borrow violates the assertion of the code.\<close>

definition bignum_add_pos_neg_aux :: "gmp \<Rightarrow> limb cells \<Rightarrow> int \<Rightarrow> limb cells \<Rightarrow> int \<Rightarrow> bignum option" where
  "bignum_add_pos_neg_aux G x size_x y size_y = do {
     z \<leftarrow> make_bignum size_x;
     a \<leftarrow> limbs x size_x; b \<leftarrow> limbs y size_y;
     let (d, borrow) = mpn_sub G a b;
     z \<leftarrow> set_limbs d z;
     if borrow \<noteq> 0 then None
     else do {
       c \<leftarrow> idx (size_x - 1);
       count \<leftarrow> map_option Suc (top_limb (mp_d z) c);
       let z = (if int count \<noteq> size_x then z\<lparr>mp_alloc := int count\<rparr> else z);
       l \<leftarrow> rd (mp_d z) 0;
       if count = 1 \<and> l = 0 then Some (z\<lparr>mp_size := 0\<rparr>) else Some (z\<lparr>mp_size := int count\<rparr>) } }"

definition bignum_add_neg_pos_aux :: "gmp \<Rightarrow> limb cells \<Rightarrow> int \<Rightarrow> limb cells \<Rightarrow> int \<Rightarrow> bignum option" where
  "bignum_add_neg_pos_aux G x size_x y size_y =
     map_option neg_size (bignum_add_pos_neg_aux G x size_x y size_y)"

definition bignum_add_pos_neg :: "gmp \<Rightarrow> limb cells \<Rightarrow> int \<Rightarrow> limb cells \<Rightarrow> int \<Rightarrow> bignum option" where
  "bignum_add_pos_neg G x size_x y size_y =
     (if size_x > size_y then bignum_add_pos_neg_aux G x size_x y size_y
      else if size_x < size_y then bignum_add_neg_pos_aux G y size_y x size_x
      else do {
        a \<leftarrow> limbs x size_x; b \<leftarrow> limbs y size_x;
        let test = mpn_cmp G a b;
        if test > 0 then bignum_add_pos_neg_aux G x size_x y size_y
        else if test < 0 then bignum_add_neg_pos_aux G y size_y x size_x
        else bgl_long_to_bignum 0 })"

definition bignum_add_neg_neg :: "gmp \<Rightarrow> limb cells \<Rightarrow> int \<Rightarrow> limb cells \<Rightarrow> int \<Rightarrow> bignum option" where
  "bignum_add_neg_neg G x size_x y size_y =
     map_option neg_size (bignum_add_pos_pos G x size_x y size_y)"

definition bgl_bignum_add :: "gmp \<Rightarrow> bignum \<Rightarrow> bignum \<Rightarrow> bignum option" where
  "bgl_bignum_add G x y =
     (if BXPOSITIVE x then
        if BXPOSITIVE y then bignum_add_pos_pos G (mp_d x) (mp_size x) (mp_d y) (mp_size y)
        else if BXNEGATIVE y then bignum_add_pos_neg G (mp_d x) (mp_size x) (mp_d y) (- mp_size y)
        else Some x
      else if BXNEGATIVE x then
        if BXPOSITIVE y then bignum_add_pos_neg G (mp_d y) (mp_size y) (mp_d x) (- mp_size x)
        else if BXNEGATIVE y then bignum_add_neg_neg G (mp_d x) (- mp_size x) (mp_d y) (- mp_size y)
        else Some x
      else Some y)"

definition bgl_bignum_sub :: "gmp \<Rightarrow> bignum \<Rightarrow> bignum \<Rightarrow> bignum option" where
  "bgl_bignum_sub G x y =
     (if BXPOSITIVE x then
        if BXPOSITIVE y then bignum_add_pos_neg G (mp_d x) (mp_size x) (mp_d y) (mp_size y)
        else if BXNEGATIVE y then bignum_add_pos_pos G (mp_d x) (mp_size x) (mp_d y) (- mp_size y)
        else Some x
      else if BXNEGATIVE x then
        if BXPOSITIVE y then bignum_add_neg_neg G (mp_d x) (- mp_size x) (mp_d y) (mp_size y)
        else if BXNEGATIVE y then bignum_add_pos_neg G (mp_d y) (- mp_size y) (mp_d x) (- mp_size x)
        else Some x
      else bgl_bignum_neg y)"

section \<open>Multiplication and division\<close>

text \<open>The size of the product is an \<open>int\<close>, whose overflow is undefined.\<close>

definition int_sum :: "int \<Rightarrow> int \<Rightarrow> int option" where
  "int_sum i j = (if - (2 ^ 31) \<le> i + j \<and> i + j < 2 ^ 31 then Some (i + j) else None)"

definition bgl_bignum_mul :: "gmp \<Rightarrow> bignum \<Rightarrow> bignum \<Rightarrow> bignum option" where
  "bgl_bignum_mul G x y =
     (let size_x = BXABSIZ x; size_y = BXABSIZ y in
      if size_y = 0 \<or> size_x = 0 then bgl_long_to_bignum 0
      else do {
        size_z \<leftarrow> int_sum size_x size_y;
        z \<leftarrow> make_bignum size_z;
        a \<leftarrow> limbs (mp_d x) size_x; b \<leftarrow> limbs (mp_d y) size_y;
        z \<leftarrow> set_limbs (if size_x \<ge> size_y then mpn_mul G a b else mpn_mul G b a) z;
        t \<leftarrow> idx (size_z - 1);
        l \<leftarrow> rd (mp_d z) t;
        let z = z\<lparr>mp_size := (if l = 0 then size_z - 1 else size_z)\<rparr>;
        Some (if BXPOSITIVE x then if BXNEGATIVE y then neg_size z else z
              else if BXNEGATIVE x then if BXPOSITIVE y then neg_size z else z
              else z) })"

text \<open>The exponent is converted to \<open>uint\<close>.\<close>

definition bgl_bignum_expt :: "gmp \<Rightarrow> bignum \<Rightarrow> bignum \<Rightarrow> bignum option" where
  "bgl_bignum_expt G x y = mpz_to_bignum (mpz_pow_ui G x (unat (ucast (bgl_bignum_to_long G y) :: c_int)))"

definition bgl_bignum_quotient :: "gmp \<Rightarrow> bignum \<Rightarrow> bignum \<Rightarrow> bignum option" where
  "bgl_bignum_quotient G x y =
     (let size_x = BXABSIZ x; size_y = BXABSIZ y in
      if size_x < size_y then bgl_long_to_bignum 0
      else do {
        let size_q = size_x - size_y + 1;
        q \<leftarrow> make_bignum size_q;
        r \<leftarrow> make_bignum size_y;
        a \<leftarrow> limbs (mp_d x) size_x; b \<leftarrow> limbs (mp_d y) size_y;
        let (ql, rl) = mpn_tdiv_qr G a b;
        q \<leftarrow> set_limbs ql q;
        r \<leftarrow> set_limbs rl r;
        q \<leftarrow> bignum_set_size q size_q;
        Some (if BXNEGATIVE x then if BXPOSITIVE y then neg_size q else q
              else if BXPOSITIVE x then if BXNEGATIVE y then neg_size q else q
              else q) })"

definition bgl_bignum_remainder :: "gmp \<Rightarrow> bignum \<Rightarrow> bignum \<Rightarrow> bignum option" where
  "bgl_bignum_remainder G x y =
     (let size_x = BXABSIZ x; size_y = BXABSIZ y in
      if size_x < size_y then Some x
      else do {
        let size_q = size_x - size_y + 1;
        q \<leftarrow> make_bignum size_q;
        r \<leftarrow> make_bignum size_y;
        a \<leftarrow> limbs (mp_d x) size_x; b \<leftarrow> limbs (mp_d y) size_y;
        let (ql, rl) = mpn_tdiv_qr G a b;
        q \<leftarrow> set_limbs ql q;
        r \<leftarrow> set_limbs rl r;
        r \<leftarrow> bignum_set_size r size_y;
        Some (if BXNEGATIVE x then neg_size r else r) })"

text \<open>The quotient, and the remainder as second value.\<close>

definition bgl_bignum_div :: "gmp \<Rightarrow> bignum \<Rightarrow> bignum \<Rightarrow> (bignum \<times> bignum) option" where
  "bgl_bignum_div G x y =
     (let size_x = BXABSIZ x; size_y = BXABSIZ y in
      if size_x < size_y then do { q \<leftarrow> bgl_long_to_bignum 0; Some (q, x) }
      else do {
        let size_q = size_x - size_y + 1;
        q \<leftarrow> make_bignum size_q;
        r \<leftarrow> make_bignum size_y;
        a \<leftarrow> limbs (mp_d x) size_x; b \<leftarrow> limbs (mp_d y) size_y;
        let (ql, rl) = mpn_tdiv_qr G a b;
        q \<leftarrow> set_limbs ql q;
        r \<leftarrow> set_limbs rl r;
        q \<leftarrow> bignum_set_size q size_q;
        r \<leftarrow> bignum_set_size r size_y;
        Some (if BXNEGATIVE x then (if BXPOSITIVE y then neg_size q else q, neg_size r)
              else if BXPOSITIVE x then (if BXNEGATIVE y then neg_size q else q, r)
              else (q, r)) })"

definition bgl_bignum_gcd :: "gmp \<Rightarrow> bignum \<Rightarrow> bignum \<Rightarrow> bignum option" where
  "bgl_bignum_gcd G x y = mpz_to_bignum (mpz_gcd G x y)"

definition bgl_bignum_lcm :: "gmp \<Rightarrow> bignum \<Rightarrow> bignum \<Rightarrow> bignum option" where
  "bgl_bignum_lcm G x y = mpz_to_bignum (mpz_lcm G x y)"

section \<open>Bits\<close>

text \<open>A shift count is converted to an unsigned one; a negative count is a huge shift, which GMP cannot do.\<close>

definition bgl_bignum_lsh :: "gmp \<Rightarrow> bignum \<Rightarrow> int \<Rightarrow> bignum option" where
  "bgl_bignum_lsh G z n = do { k \<leftarrow> idx n; mpz_to_bignum (mpz_mul_2exp G z k) }"

definition bgl_bignum_rsh :: "gmp \<Rightarrow> bignum \<Rightarrow> int \<Rightarrow> bignum option" where
  "bgl_bignum_rsh G z n = do { k \<leftarrow> idx n; mpz_to_bignum (mpz_div_2exp G z k) }"

definition onez :: mpz where
  "onez = \<lparr>mp_alloc = 1, mp_size = 1, mp_d = [Some 1]\<rparr>"

definition bgl_bignum_mask :: "gmp \<Rightarrow> bignum \<Rightarrow> int \<Rightarrow> bignum option" where
  "bgl_bignum_mask G x n = do {
     k \<leftarrow> idx n;
     let rop = mpz_mul_2exp G onez k;
     let rop = mpz_sub G rop onez;
     let rop = mpz_and G x rop;
     mpz_to_bignum rop }"

definition bgl_bignum_and :: "gmp \<Rightarrow> bignum \<Rightarrow> bignum \<Rightarrow> bignum option" where
  "bgl_bignum_and G x y = mpz_to_bignum (mpz_and G x y)"

definition bgl_bignum_or :: "gmp \<Rightarrow> bignum \<Rightarrow> bignum \<Rightarrow> bignum option" where
  "bgl_bignum_or G x y = mpz_to_bignum (mpz_ior G x y)"

text \<open>The code calls \<open>mpz_ior\<close> here too.\<close>

definition bgl_bignum_xor :: "gmp \<Rightarrow> bignum \<Rightarrow> bignum \<Rightarrow> bignum option" where
  "bgl_bignum_xor G x y = mpz_to_bignum (mpz_ior G x y)"

definition bgl_bignum_not :: "gmp \<Rightarrow> bignum \<Rightarrow> bignum option" where
  "bgl_bignum_not G x = mpz_to_bignum (mpz_com G x)"

section \<open>The numbers that limbs stand for\<close>

fun limbs_val :: "limb list \<Rightarrow> int" where
  "limbs_val [] = 0"
| "limbs_val (l # ls) = uint l + 2 ^ 64 * limbs_val ls"

definition normal :: "limb list \<Rightarrow> bool" where
  "normal ls \<longleftrightarrow> ls = [] \<or> last ls \<noteq> 0"

text \<open>A bignum denotes \<open>i\<close>: its limbs are initialised, the top one is not zero, and its size has the
  sign of \<open>i\<close>.\<close>

definition denotes :: "bignum \<Rightarrow> int \<Rightarrow> bool" where
  "denotes x i \<longleftrightarrow> (\<exists>ls. rds (mp_d x) 0 (length ls) = Some ls \<and> normal ls \<and> \<bar>mp_size x\<bar> = int (length ls) \<and>
     i = sgn (mp_size x) * limbs_val ls)"

text \<open>A variable of type \<open>mpz_t\<close>: its allocation size is that of its array.\<close>

definition mpz_is :: "mpz \<Rightarrow> int \<Rightarrow> bool" where
  "mpz_is z i \<longleftrightarrow> denotes z i \<and> 0 \<le> mp_alloc z \<and> nat (mp_alloc z) \<le> length (mp_d z)"

text \<open>What the GMP manual states of the functions that are called.\<close>

definition cmp_law :: "gmp \<Rightarrow> bool" where
  "cmp_law G \<longleftrightarrow> (\<forall>a b. length a = length b \<longrightarrow> sgn (mpn_cmp G a b) = sgn (limbs_val a - limbs_val b))"

definition add_law :: "gmp \<Rightarrow> bool" where
  "add_law G \<longleftrightarrow> (\<forall>a b s c. b \<noteq> [] \<longrightarrow> length b \<le> length a \<longrightarrow> mpn_add G a b = (s, c) \<longrightarrow>
     length s = length a \<and> c \<le> 1 \<and> limbs_val s + uint c * 2 ^ (64 * length a) = limbs_val a + limbs_val b)"

definition sub_law :: "gmp \<Rightarrow> bool" where
  "sub_law G \<longleftrightarrow> (\<forall>a b d c. b \<noteq> [] \<longrightarrow> length b \<le> length a \<longrightarrow> mpn_sub G a b = (d, c) \<longrightarrow>
     length d = length a \<and> c \<le> 1 \<and> limbs_val d + limbs_val b = limbs_val a + uint c * 2 ^ (64 * length a))"

definition mul_law :: "gmp \<Rightarrow> bool" where
  "mul_law G \<longleftrightarrow> (\<forall>a b. b \<noteq> [] \<longrightarrow> length b \<le> length a \<longrightarrow>
     length (mpn_mul G a b) = length a + length b \<and> limbs_val (mpn_mul G a b) = limbs_val a * limbs_val b)"

definition div_law :: "gmp \<Rightarrow> bool" where
  "div_law G \<longleftrightarrow> (\<forall>a b q r. b \<noteq> [] \<longrightarrow> last b \<noteq> 0 \<longrightarrow> length b \<le> length a \<longrightarrow> mpn_tdiv_qr G a b = (q, r) \<longrightarrow>
     length q = length a - length b + 1 \<and> length r = length b \<and>
     limbs_val q = limbs_val a div limbs_val b \<and> limbs_val r = limbs_val a mod limbs_val b)"

text \<open>White space is allowed in the string, and is simply ignored.\<close>

definition isspace :: "u8 \<Rightarrow> bool" where
  "isspace c \<longleftrightarrow> c = 32 \<or> 9 \<le> c \<and> c \<le> 13"

definition digit :: "u8 \<Rightarrow> bool" where
  "digit c \<longleftrightarrow> 48 \<le> c \<and> c \<le> 57"

definition dec_val :: "u8 list \<Rightarrow> int" where
  "dec_val ds = foldl (\<lambda>v d. 10 * v + (uint d - 48)) 0 ds"

definition str_law :: "gmp \<Rightarrow> bool" where
  "str_law G \<longleftrightarrow> (\<forall>s ds. ds \<noteq> [] \<longrightarrow> list_all digit ds \<longrightarrow>
     (filter (\<lambda>c. \<not> isspace c) s = ds \<longrightarrow> mpz_is (mpz_init_set_str G s 10) (dec_val ds)) \<and>
     (filter (\<lambda>c. \<not> isspace c) s = 45 # ds \<longrightarrow> mpz_is (mpz_init_set_str G s 10) (- dec_val ds)))"

definition unary_laws :: "gmp \<Rightarrow> bool" where
  "unary_laws G \<longleftrightarrow> (\<forall>x i. denotes x i \<longrightarrow>
     (mpz_even_p G x \<longleftrightarrow> even i) \<and> (mpz_odd_p G x \<longleftrightarrow> odd i) \<and>
     (- (2 ^ 63) \<le> i \<and> i < 2 ^ 63 \<longrightarrow> sint (mpz_get_si G x) = i) \<and>
     (i = 0 \<longrightarrow> mpz_sizeinbase G x 2 = 1) \<and> \<bar>i\<bar> < 2 ^ mpz_sizeinbase G x 2 \<and>
     (i \<noteq> 0 \<longrightarrow> 2 ^ (mpz_sizeinbase G x 2 - 1) \<le> \<bar>i\<bar>) \<and>
     mpz_is (mpz_com G x) (NOT i) \<and>
     (\<forall>n. mpz_is (mpz_pow_ui G x n) (i ^ n) \<and> mpz_is (mpz_mul_2exp G x n) (i * 2 ^ n) \<and>
        mpz_is (mpz_div_2exp G x n) (i div 2 ^ n)))"

definition binary_laws :: "gmp \<Rightarrow> bool" where
  "binary_laws G \<longleftrightarrow> (\<forall>x y i j. denotes x i \<longrightarrow> denotes y j \<longrightarrow>
     mpz_is (mpz_gcd G x y) (gcd i j) \<and> mpz_is (mpz_lcm G x y) (lcm i j) \<and> mpz_is (mpz_sub G x y) (i - j) \<and>
     mpz_is (mpz_and G x y) (i AND j) \<and> mpz_is (mpz_ior G x y) (i OR j))"

definition gmp_ok :: "gmp \<Rightarrow> bool" where
  "gmp_ok G \<longleftrightarrow> cmp_law G \<and> add_law G \<and> sub_law G \<and> mul_law G \<and> div_law G \<and> unary_laws G \<and> binary_laws G \<and> str_law G"

lemma limbs_val_append: "limbs_val (xs @ ys) = limbs_val xs + 2 ^ (64 * length xs) * limbs_val ys"
  by (induction xs) (simp_all add: algebra_simps power_add)

lemma limbs_val_nonneg [simp]: "0 \<le> limbs_val ls"
  by (induction ls) simp_all

lemma limbs_val_less: "limbs_val ls < 2 ^ (64 * length ls)"
proof (induction ls)
  case (Cons l ls)
  have "uint l < 2 ^ 64" using uint_lt2p [of l] by simp
  moreover have "limbs_val ls + 1 \<le> 2 ^ (64 * length ls)" using Cons by simp
  then have "2 ^ 64 * (limbs_val ls + 1) \<le> 2 ^ 64 * 2 ^ (64 * length ls)" by simp
  ultimately show ?case by (simp add: power_add algebra_simps)
qed simp

lemma limbs_val_last:
  assumes "ls \<noteq> []"
  shows "limbs_val ls = limbs_val (butlast ls) + 2 ^ (64 * (length ls - 1)) * uint (last ls)"
  using assms limbs_val_append [of "butlast ls" "[last ls]"] by simp

lemma normal_ge:
  assumes "ls \<noteq> []" and "last ls \<noteq> 0"
  shows "2 ^ (64 * (length ls - 1)) \<le> limbs_val ls"
proof -
  have "uint (last ls) \<noteq> 0" using assms(2) by (simp add: unsigned_eq_0_iff)
  then have "1 \<le> uint (last ls)" using uint_ge_0 [of "last ls"] by linarith
  then have "2 ^ (64 * (length ls - 1)) * 1 \<le> 2 ^ (64 * (length ls - 1)) * uint (last ls)"
    by (intro mult_left_mono) simp_all
  then show ?thesis using limbs_val_last [OF assms(1)] limbs_val_nonneg [of "butlast ls"] by linarith
qed

lemma normal_pos: "ls \<noteq> [] \<Longrightarrow> normal ls \<Longrightarrow> 0 < limbs_val ls"
  using normal_ge [of ls] zero_less_power [of "2 :: int" "64 * (length ls - 1)"] unfolding normal_def by linarith

lemma normal_if_ge:
  assumes "ls \<noteq> []" and "2 ^ (64 * (length ls - 1)) \<le> limbs_val ls"
  shows "last ls \<noteq> 0"
proof
  assume "last ls = 0"
  then have "limbs_val ls < 2 ^ (64 * (length ls - 1))"
    using limbs_val_last [OF assms(1)] limbs_val_less [of "butlast ls"] by simp
  with assms(2) show False by simp
qed

lemma longer_is_larger:
  assumes "a \<noteq> []" and "last a \<noteq> 0" and "length b < length a"
  shows "limbs_val b < limbs_val a"
proof -
  have "(2::int) ^ (64 * length b) \<le> 2 ^ (64 * (length a - 1))"
    using assms(3) by (intro power_increasing) auto
  then show ?thesis using normal_ge [OF assms(1,2)] limbs_val_less [of b] by linarith
qed

section \<open>Reading and building\<close>

lemma rds_bounds: "rds m i n = Some ls \<Longrightarrow> 0 < n \<Longrightarrow> i + n \<le> length m"
proof (induction n arbitrary: i ls)
  case (Suc n)
  then obtain r where *: "i < length m" "rds m (Suc i) n = Some r"
    by (auto simp: rd_def split: Option.bind_splits if_splits)
  show ?case
  proof (cases "n = 0")
    case False
    then show ?thesis using Suc.IH [OF *(2)] by simp
  qed (use * in simp)
qed simp

lemma rds_take: "rds m i n = Some ls \<Longrightarrow> take n (drop i m) = map Some ls"
proof (induction n arbitrary: i ls)
  case (Suc n)
  then obtain l r where *: "rd m i = Some l" "rds m (Suc i) n = Some r" "ls = l # r"
    by (auto split: Option.bind_splits)
  then have "i < length m" "m ! i = Some l" by (auto simp: rd_def split: if_splits)
  then have "drop i m = Some l # drop (Suc i) m" by (metis Cons_nth_drop_Suc)
  with * Suc.IH show ?case by simp
qed simp

lemma limbs_Some: "limbs m (int n) = Some ls \<longleftrightarrow> rds m 0 n = Some ls"
  by (simp add: limbs_def)

lemma limbs_length: "limbs m (int n) = Some ls \<Longrightarrow> length ls = n"
  by (simp add: limbs_def length_rds)

lemma rds_prefix [simp]: "rds (map Some ls @ sl) 0 (length ls) = Some ls"
  by (simp add: mem_simps)

lemma set_limbs_fresh:
  assumes "mp_d x = gc_malloc k" and "length ls \<le> k"
  shows "set_limbs ls x = Some (x\<lparr>mp_d := map Some ls @ gc_malloc (k - length ls)\<rparr>)"
  using assms by (simp add: set_limbs_def blit_def gc_malloc_def)

text \<open>The three cases of the sign tests.\<close>

lemma denotes_cases:
  assumes "denotes x i"
  obtains (pos) n ls where "BXPOSITIVE x" "\<not> BXNEGATIVE x" "mp_size x = int n" "limbs (mp_d x) (int n) = Some ls"
      "length ls = n" "ls \<noteq> []" "last ls \<noteq> 0" "i = limbs_val ls" "0 < i" "0 < n"
  | (neg) n ls where "\<not> BXPOSITIVE x" "BXNEGATIVE x" "mp_size x = - int n" "limbs (mp_d x) (int n) = Some ls"
      "length ls = n" "ls \<noteq> []" "last ls \<noteq> 0" "i = - limbs_val ls" "i < 0" "0 < n"
  | (zero) "\<not> BXPOSITIVE x" "\<not> BXNEGATIVE x" "mp_size x = 0" "i = 0"
proof -
  obtain ls where ls: "rds (mp_d x) 0 (length ls) = Some ls" "normal ls" "\<bar>mp_size x\<bar> = int (length ls)"
    "i = sgn (mp_size x) * limbs_val ls"
    using assms by (auto simp: denotes_def)
  consider "mp_size x > 0" | "mp_size x < 0" | "mp_size x = 0" by linarith
  then show ?thesis
  proof cases
    case 1
    then have "ls \<noteq> []" using ls(3) by auto
    with 1 ls show ?thesis using normal_pos [of ls]
      by (intro pos [of "length ls" ls]) (auto simp: BXPOSITIVE_def BXNEGATIVE_def limbs_Some normal_def)
  next
    case 2
    then have "ls \<noteq> []" using ls(3) by auto
    with 2 ls show ?thesis using normal_pos [of ls]
      by (intro neg [of "length ls" ls]) (auto simp: BXPOSITIVE_def BXNEGATIVE_def limbs_Some normal_def)
  next
    case 3
    with ls show ?thesis by (intro zero) (auto simp: BXPOSITIVE_def BXNEGATIVE_def)
  qed
qed

lemma denotes_pos:
  assumes "mp_d x = map Some ls @ sl" and "mp_size x = int (length ls)" and "ls \<noteq> []" and "last ls \<noteq> 0"
  shows "denotes x (limbs_val ls)"
  using assms by (auto simp: denotes_def normal_def intro!: exI [of _ ls])

lemma denotes_zero: "mp_size x = 0 \<Longrightarrow> denotes x 0"
  by (auto simp: denotes_def normal_def intro!: exI [of _ "[]"])

lemma denotes_neg_size: "denotes x i \<Longrightarrow> denotes (neg_size x) (- i)"
  by (auto simp: denotes_def neg_size_def)

lemma denotes_unique: "denotes x i \<Longrightarrow> denotes x j \<Longrightarrow> i = j"
  by (auto simp: denotes_def dest: length_rds)

lemma mpz_to_bignum_denotes:
  assumes "mpz_is z i"
  shows "\<exists>b. mpz_to_bignum z = Some b \<and> denotes b i"
proof (cases "mp_size z = 0")
  case True
  moreover have "i = 0" using assms denotes_unique [OF denotes_zero [OF True]] by (simp add: mpz_is_def)
  ultimately show ?thesis
    using assms by (auto simp: mpz_to_bignum_def make_bignum_def idx_def blit_def mpz_is_def Let_def intro: denotes_zero)
next
  case False
  obtain ls where ls: "rds (mp_d z) 0 (length ls) = Some ls" "normal ls" "\<bar>mp_size z\<bar> = int (length ls)"
    "i = sgn (mp_size z) * limbs_val ls"
    using assms by (auto simp: denotes_def mpz_is_def)
  have n: "BXABSIZ z = int (length ls)" using ls(3) by (auto simp: BXABSIZ_def)
  have "0 < length ls" using False ls(3) by auto
  then have len: "length ls \<le> length (mp_d z)" "take (length ls) (mp_d z) = map Some ls"
    using rds_bounds [OF ls(1)] rds_take [OF ls(1)] by simp_all
  have "mpz_to_bignum z = Some \<lparr>mp_alloc = int (length ls), mp_size = mp_size z, mp_d = map Some ls\<rparr>"
    using False len by (simp add: mpz_to_bignum_def make_bignum_def blit_def n)
  moreover have "denotes \<lparr>mp_alloc = int (length ls), mp_size = mp_size z, mp_d = map Some ls\<rparr> i"
    unfolding denotes_def using ls(2-4) by (intro exI [of _ ls]) (simp add: mem_simps)
  ultimately show ?thesis by blast
qed

lemma long_to_bignum_denotes: "\<exists>b. bgl_long_to_bignum n = Some b \<and> denotes b (sint n)"
proof (cases "sint n < 0")
  case True
  have "uint (- n) = - sint n"
  proof -
    have "uint (- n) = uint (word_of_int (- sint n) :: c_long)" by simp
    also have "\<dots> = - sint n"
      using True sint_bounds [of n] by (subst uint_word_of_int_eq) (simp add: take_bit_int_eq_self)
    finally show ?thesis .
  qed
  moreover from this have "- n \<noteq> 0" using True by auto
  ultimately have "denotes \<lparr>mp_alloc = 1, mp_size = -1, mp_d = [Some (- n)]\<rparr> (sint n)"
    by (auto simp: denotes_def normal_def mem_simps intro!: exI [of _ "[- n]"])
  then show ?thesis using True by (simp add: bgl_long_to_bignum_def make_bignum_def gc_malloc_def)
next
  case False
  have "uint n = sint n" 
    using False sint_bounds [of n] unfolding uint_sint [of n] by (simp add: take_bit_int_eq_self)
  then have "denotes \<lparr>mp_alloc = 1, mp_size = (if n \<noteq> 0 then 1 else 0), mp_d = [Some n]\<rparr> (sint n)"
    by (auto simp: denotes_def normal_def mem_simps intro: exI [of _ "[n]"] exI [of _ "[]"])
  then show ?thesis using False by (auto simp: bgl_long_to_bignum_def make_bignum_def gc_malloc_def)
qed

section \<open>The loops that strip zero limbs\<close>

lemma top_limb_strips:
  assumes "c < length d"
  shows "\<exists>k\<le>c. top_limb (map Some d @ sl) c = Some k \<and> (k = 0 \<or> d ! k \<noteq> 0) \<and>
    limbs_val (take (Suc c) d) = limbs_val (take (Suc k) d)"
  using assms
proof (induction c)
  case (Suc c)
  show ?case
  proof (cases "d ! Suc c = 0")
    case True
    have "take (Suc (Suc c)) d = take (Suc c) d @ [d ! Suc c]"
      using Suc.prems by (simp add: take_Suc_conv_app_nth)
    then have "limbs_val (take (Suc (Suc c)) d) = limbs_val (take (Suc c) d)"
      using True by (simp add: limbs_val_append)
    moreover obtain k where "k \<le> c" "top_limb (map Some d @ sl) c = Some k" "k = 0 \<or> d ! k \<noteq> 0"
      "limbs_val (take (Suc c) d) = limbs_val (take (Suc k) d)"
      using Suc by auto
    ultimately show ?thesis using True Suc.prems by (intro exI [of _ k]) (simp add: mem_simps)
  next
    case False
    with Suc.prems show ?thesis by (intro exI [of _ "Suc c"]) (simp add: mem_simps)
  qed
qed simp

text \<open>Setting the size to the number of limbs up to the top one that is not zero.\<close>

lemma stripped_denotes:
  assumes "k < length d" and "k = 0 \<or> d ! k \<noteq> 0" and "limbs_val d = limbs_val (take (Suc k) d)"
    and "mp_d x = map Some d @ sl"
    and "mp_size x = (if k = 0 \<and> d ! 0 = 0 then 0 else int k + 1)"
  shows "denotes x (limbs_val d)"
proof (cases "k = 0 \<and> d ! 0 = 0")
  case True
  then have "limbs_val d = 0" using assms(1,3) by (cases d) simp_all
  with True assms(5) show ?thesis by (simp add: denotes_zero)
next
  case False
  let ?ls = "take (Suc k) d"
  have len: "length ?ls = Suc k" and last: "last ?ls = d ! k"
    using assms(1) by (simp_all add: take_Suc_conv_app_nth)
  have "mp_d x = map Some ?ls @ map Some (drop (Suc k) d) @ sl"
    using assms(4) by (simp flip: map_append append_assoc)
  moreover have "last ?ls \<noteq> 0" "?ls \<noteq> []" using False assms(1,2) last by auto
  ultimately show ?thesis
    using denotes_pos [of x ?ls] len False assms(3,5) by simp
qed

lemma set_size_denotes:
  assumes "mp_d x = map Some d @ sl" and "length d = n" and "0 < n"
  shows "\<exists>x'. bignum_set_size x (int n) = Some x' \<and> denotes x' (limbs_val d)"
proof -
  obtain k where k: "k \<le> n - 1" "top_limb (map Some d @ sl) (n - 1) = Some k" "k = 0 \<or> d ! k \<noteq> 0"
    "limbs_val (take (Suc (n - 1)) d) = limbs_val (take (Suc k) d)"
    using top_limb_strips [of "n - 1" d sl] assms(2,3) by auto
  let ?x = "x\<lparr>mp_size := (if k = 0 \<and> d ! 0 = 0 then 0 else int k + 1)\<rparr>"
  have "idx (int n - 1) = Some (n - 1)" using assms(3) by (simp add: idx_def nat_diff_distrib)
  then have "bignum_set_size x (int n) = Some ?x"
    using assms k(2) by (simp add: bignum_set_size_def mem_simps)
  moreover have "denotes ?x (limbs_val d)"
    using k assms by (intro stripped_denotes [of k d _ sl]) auto
  ultimately show ?thesis by blast
qed

end
