(* ===== verification/Gmpref.thy ===== *)
theory Gmpref
  imports Bignum
begin

text \<open>
  An implementation of the GMP functions that theory \<open>Bignum\<close> takes as a parameter, by integer
  arithmetic. It shows that the documented behaviour \<open>gmp_ok\<close> can hold, and gives the witnesses something to
  compute with.
\<close>

fun to_limbs :: "nat \<Rightarrow> int \<Rightarrow> limb list" where
  "to_limbs 0 i = []"
| "to_limbs (Suc n) i = word_of_int i # to_limbs n (i div 2 ^ 64)"

function limb_count :: "int \<Rightarrow> nat" where
  "limb_count i = (if i \<le> 0 then 0 else Suc (limb_count (i div 2 ^ 64)))"
  by pat_completeness auto
termination
  by (relation "measure nat") (auto intro: int_div_less_self)

definition mpz_of :: "int \<Rightarrow> mpz" where
  "mpz_of i = (let n = limb_count \<bar>i\<bar> in
     \<lparr>mp_alloc = int n, mp_size = sgn i * int n, mp_d = map Some (to_limbs n \<bar>i\<bar>)\<rparr>)"

definition mpz_value :: "mpz \<Rightarrow> int" where
  "mpz_value x = (case rds (mp_d x) 0 (nat \<bar>mp_size x\<bar>) of None \<Rightarrow> 0 | Some ls \<Rightarrow> sgn (mp_size x) * limbs_val ls)"

function bit_count :: "int \<Rightarrow> nat" where
  "bit_count i = (if i \<le> 0 then 0 else Suc (bit_count (i div 2)))"
  by pat_completeness auto
termination
  by (relation "measure nat") auto

declare limb_count.simps [simp del] bit_count.simps [simp del]

definition gmp_ref :: gmp where
  "gmp_ref = \<lparr>
     mpn_cmp = (\<lambda>a b. sgn (limbs_val a - limbs_val b)),
     mpn_add = (\<lambda>a b. let s = limbs_val a + limbs_val b in
       (to_limbs (length a) s, word_of_int (s div 2 ^ (64 * length a)))),
     mpn_sub = (\<lambda>a b. let d = limbs_val a - limbs_val b in
       (to_limbs (length a) d, if d < 0 then 1 else 0)),
     mpn_mul = (\<lambda>a b. to_limbs (length a + length b) (limbs_val a * limbs_val b)),
     mpn_tdiv_qr = (\<lambda>a b. (to_limbs (length a - length b + 1) (limbs_val a div limbs_val b),
       to_limbs (length b) (limbs_val a mod limbs_val b))),
     mpz_even_p = (\<lambda>x. even (mpz_value x)),
     mpz_odd_p = (\<lambda>x. odd (mpz_value x)),
     mpz_get_si = (\<lambda>x. word_of_int (mpz_value x)),
     mpz_init_set_str = (\<lambda>s r. mpz_of (case filter (\<lambda>c. \<not> isspace c) s of
         [] \<Rightarrow> 0 | c # cs \<Rightarrow> if c = 45 then - dec_val cs else dec_val (c # cs))),
     mpz_sizeinbase = (\<lambda>x b. max 1 (bit_count \<bar>mpz_value x\<bar>)),
     mpz_pow_ui = (\<lambda>x n. mpz_of (mpz_value x ^ n)),
     mpz_gcd = (\<lambda>x y. mpz_of (gcd (mpz_value x) (mpz_value y))),
     mpz_lcm = (\<lambda>x y. mpz_of (lcm (mpz_value x) (mpz_value y))),
     mpz_mul_2exp = (\<lambda>x n. mpz_of (mpz_value x * 2 ^ n)),
     mpz_div_2exp = (\<lambda>x n. mpz_of (mpz_value x div 2 ^ n)),
     mpz_sub = (\<lambda>x y. mpz_of (mpz_value x - mpz_value y)),
     mpz_and = (\<lambda>x y. mpz_of (mpz_value x AND mpz_value y)),
     mpz_ior = (\<lambda>x y. mpz_of (mpz_value x OR mpz_value y)),
     mpz_com = (\<lambda>x. mpz_of (NOT (mpz_value x)))\<rparr>"

lemma length_to_limbs [simp]: "length (to_limbs n i) = n"
  by (induction n arbitrary: i) simp_all

lemma to_limbs_val: "limbs_val (to_limbs n i) = i mod 2 ^ (64 * n)"
proof (induction n arbitrary: i)
  case (Suc n)
  have "i mod (2 ^ 64 * 2 ^ (64 * n)) = 2 ^ 64 * (i div 2 ^ 64 mod 2 ^ (64 * n)) + i mod 2 ^ 64"
    by (rule zmod_zmult2_eq) simp
  moreover have "uint (word_of_int i :: limb) = i mod 2 ^ 64"
    by (simp add: uint_word_of_int)
  ultimately show ?case using Suc.IH by (simp add: power_add)
qed simp

lemma to_limbs_val_in: "0 \<le> i \<Longrightarrow> i < 2 ^ (64 * n) \<Longrightarrow> limbs_val (to_limbs n i) = i"
  by (simp add: to_limbs_val)

lemma limb_count_bounds:
  "0 < i \<Longrightarrow> i < 2 ^ (64 * limb_count i) \<and> 0 < limb_count i \<and> 2 ^ (64 * (limb_count i - 1)) \<le> i"
proof (induction i rule: limb_count.induct)
  case (1 i)
  let ?q = "i div 2 ^ 64"
  have i: "i = 2 ^ 64 * ?q + i mod 2 ^ 64" "0 \<le> i mod 2 ^ 64" "i mod 2 ^ 64 < 2 ^ 64"
    by simp_all
  show ?case
  proof (cases "?q = 0")
    case True
    then have "limb_count i = 1" using 1(2) by (simp add: limb_count.simps [of i] limb_count.simps [of 0])
    with True i 1(2) show ?thesis by simp
  next
    case False
    moreover have "0 \<le> ?q" using 1(2) by (simp add: pos_imp_zdiv_nonneg_iff)
    ultimately have "0 < ?q" by linarith
    with 1 have IH: "?q < 2 ^ (64 * limb_count ?q)" "0 < limb_count ?q" "2 ^ (64 * (limb_count ?q - 1)) \<le> ?q" by simp_all
    have c: "limb_count i = Suc (limb_count ?q)" using 1(2) by (subst limb_count.simps) simp
    have "?q + 1 \<le> 2 ^ (64 * limb_count ?q)" using IH(1) by simp
    then have "2 ^ 64 * (?q + 1) \<le> 2 ^ 64 * 2 ^ (64 * limb_count ?q)" by (intro mult_left_mono) simp_all
    then have "i < 2 ^ 64 * 2 ^ (64 * limb_count ?q)" using i by (simp; linarith)
    moreover have "(2::int) ^ 64 * 2 ^ (64 * (limb_count ?q - 1)) \<le> 2 ^ 64 * ?q"
      using IH(3) by (intro mult_left_mono) simp_all
    then have "(2::int) ^ 64 * 2 ^ (64 * (limb_count ?q - 1)) \<le> i" using i by (simp; linarith)
    moreover have "(2::int) ^ 64 * 2 ^ (64 * (limb_count ?q - 1)) = 2 ^ (64 * limb_count ?q)"
    proof -
      have "64 * limb_count ?q = 64 + 64 * (limb_count ?q - 1)" using IH(2) by (cases "limb_count ?q") simp_all
      then show ?thesis by (metis power_add)
    qed
    ultimately show ?thesis using c by (simp add: power_add)
  qed
qed

lemma mpz_value_denotes: "denotes x i \<Longrightarrow> mpz_value x = i"
  by (auto simp: denotes_def mpz_value_def)

lemma mpz_of_is: "mpz_is (mpz_of i) i"
proof (cases "i = 0")
  case True
  then show ?thesis
    by (simp add: mpz_is_def mpz_of_def denotes_zero limb_count.simps)
next
  case False
  define n where "n = limb_count \<bar>i\<bar>"
  have n: "\<bar>i\<bar> < 2 ^ (64 * n)" "0 < n" "2 ^ (64 * (n - 1)) \<le> \<bar>i\<bar>"
    using limb_count_bounds [of "\<bar>i\<bar>"] False by (simp_all add: n_def)
  let ?ls = "to_limbs n \<bar>i\<bar>"
  have val: "limbs_val ?ls = \<bar>i\<bar>" using n(1) by (intro to_limbs_val_in) simp_all
  have ne: "?ls \<noteq> []" using n(2) by (cases n) simp_all
  moreover have "last ?ls \<noteq> 0" using normal_if_ge [OF ne] n(3) val by simp
  ultimately have "normal ?ls" by (simp add: normal_def)
  then have "denotes (mpz_of i) i"
    unfolding denotes_def using n(2) val False
    by (intro exI [of _ ?ls]) (auto simp: mpz_of_def Let_def mem_simps sgn_if simp flip: n_def)
  then show ?thesis by (simp add: mpz_is_def mpz_of_def Let_def)
qed

lemma bit_count_bounds:
  "0 < i \<Longrightarrow> i < 2 ^ bit_count i \<and> 0 < bit_count i \<and> 2 ^ (bit_count i - 1) \<le> i"
proof (induction i rule: bit_count.induct)
  case (1 i)
  show ?case
  proof (cases "i div 2 = 0")
    case True
    then have "i = 1" using 1(2) by linarith
    then show ?thesis by (simp add: bit_count.simps [of 1] bit_count.simps [of 0])
  next
    case False
    then have "0 < i div 2" using 1(2) by linarith
    with 1 have IH: "i div 2 < 2 ^ bit_count (i div 2)" "0 < bit_count (i div 2)" "2 ^ (bit_count (i div 2) - 1) \<le> i div 2"
      by simp_all
    have "2 * (2::int) ^ (bit_count (i div 2) - 1) = 2 ^ bit_count (i div 2)"
      using IH(2) by (metis power_Suc Suc_pred')
    moreover have "bit_count i = Suc (bit_count (i div 2))" using 1(2) by (subst bit_count.simps) simp
    moreover have "i = 2 * (i div 2) + i mod 2" "0 \<le> i mod 2" "i mod 2 < 2" by simp_all
    ultimately show ?thesis using IH(1,3) by (simp, linarith)
  qed
qed

lemma mod_sub_borrow:
  fixes a b p :: int
  assumes "0 \<le> a" "a < p" "0 \<le> b" "b < p"
  shows "(a - b) mod p = (if a < b then a - b + p else a - b)"
proof (cases "a < b")
  case True
  then have "(a - b + p) mod p = a - b + p" using assms by (intro mod_pos_pos_trivial) auto
  then show ?thesis using True by simp
qed (use assms in simp)

lemma to_limbs_carry:
  assumes "0 \<le> t" and "t < 2 * 2 ^ (64 * n)"
  shows "word_of_int (t div 2 ^ (64 * n)) \<le> (1 :: limb)"
    and "limbs_val (to_limbs n t) + uint (word_of_int (t div 2 ^ (64 * n)) :: limb) * 2 ^ (64 * n) = t"
proof -
  define p where "p = (2 ^ (64 * n) :: int)"
  have p: "0 < p" by (simp add: p_def)
  have t: "t < 2 * p" using assms(2) by (simp add: p_def)
  have "t div p < 2"
  proof (rule ccontr)
    assume "\<not> t div p < 2"
    then have "2 * p \<le> t div p * p" using p by (intro mult_right_mono) simp_all
    then show False using t pos_mod_sign [OF p, of t] div_mult_mod_eq [of t p] by linarith
  qed
  moreover have "0 \<le> t div p" using assms(1) p by (simp add: pos_imp_zdiv_nonneg_iff)
  ultimately have "t div p = 0 \<or> t div p = 1" by linarith
  then have "uint (word_of_int (t div p) :: limb) = t div p" "word_of_int (t div p) \<le> (1 :: limb)" by auto
  moreover have "t mod p + t div p * p = t" by simp
  ultimately show "word_of_int (t div 2 ^ (64 * n)) \<le> (1 :: limb)"
    and "limbs_val (to_limbs n t) + uint (word_of_int (t div 2 ^ (64 * n)) :: limb) * 2 ^ (64 * n) = t"
    unfolding to_limbs_val p_def by simp_all
qed

lemma limbs_val_less_longer: "length b \<le> n \<Longrightarrow> limbs_val b < 2 ^ (64 * n)"
  using limbs_val_less [of b] power_increasing [of "64 * length b" "64 * n" "2 :: int"] by linarith

lemma gmp_ref_add: "add_law gmp_ref"
  unfolding add_law_def
proof (intro allI impI)
  fix a b s c
  assume b: "length b \<le> length a" and eq: "mpn_add gmp_ref a b = (s, c)"
  have "limbs_val a + limbs_val b < 2 * 2 ^ (64 * length a)"
    using limbs_val_less [of a] limbs_val_less_longer [OF b] by linarith
  with to_limbs_carry [of "limbs_val a + limbs_val b" "length a"] eq
  show "length s = length a \<and> c \<le> 1 \<and> limbs_val s + uint c * 2 ^ (64 * length a) = limbs_val a + limbs_val b"
    by (auto simp: gmp_ref_def Let_def)
qed

lemma gmp_ref_sub: "sub_law gmp_ref"
  unfolding sub_law_def
proof (intro allI impI)
  fix a b d c
  assume b: "length b \<le> length a" and eq: "mpn_sub gmp_ref a b = (d, c)"
  have "(limbs_val a - limbs_val b) mod 2 ^ (64 * length a) =
      (if limbs_val a < limbs_val b then limbs_val a - limbs_val b + 2 ^ (64 * length a) else limbs_val a - limbs_val b)"
    using limbs_val_less [of a] limbs_val_less_longer [OF b] by (intro mod_sub_borrow) simp_all
  with eq show "length d = length a \<and> c \<le> 1 \<and>
      limbs_val d + limbs_val b = limbs_val a + uint c * 2 ^ (64 * length a)"
    by (auto simp: gmp_ref_def Let_def to_limbs_val)
qed

lemma gmp_ref_mul: "mul_law gmp_ref"
  unfolding mul_law_def
proof (intro allI impI conjI)
  fix a b :: "limb list"
  show "length (mpn_mul gmp_ref a b) = length a + length b" by (simp add: gmp_ref_def)
  have "limbs_val a * limbs_val b < 2 ^ (64 * length a) * 2 ^ (64 * length b)"
    by (intro mult_strict_mono' limbs_val_less limbs_val_nonneg)
  then show "limbs_val (mpn_mul gmp_ref a b) = limbs_val a * limbs_val b"
    by (simp add: gmp_ref_def to_limbs_val_in power_add algebra_simps)
qed

lemma gmp_ref_div: "div_law gmp_ref"
  unfolding div_law_def
proof (intro allI impI)
  fix a b q r
  assume b: "b \<noteq> []" "last b \<noteq> 0" "length b \<le> length a" and eq: "mpn_tdiv_qr gmp_ref a b = (q, r)"
  let ?k = "length a - length b"
  have low: "2 ^ (64 * (length b - 1)) \<le> limbs_val b" by (rule normal_ge [OF b(1,2)])
  then have pos: "0 < limbs_val b" by (rule less_le_trans [rotated]) simp
  have "limbs_val a < 2 ^ (64 * length a)" by (rule limbs_val_less)
  also have "64 * length a = 64 * (?k + 1) + 64 * (length b - 1)" using b by (cases b) (simp_all add: algebra_simps)
  also have "(2::int) ^ (64 * (?k + 1) + 64 * (length b - 1)) = 2 ^ (64 * (?k + 1)) * 2 ^ (64 * (length b - 1))"
    by (rule power_add)
  also have "\<dots> \<le> 2 ^ (64 * (?k + 1)) * limbs_val b" using low by (intro mult_left_mono) simp_all
  finally have less: "limbs_val a < 2 ^ (64 * (?k + 1)) * limbs_val b" .
  have "limbs_val a div limbs_val b < 2 ^ (64 * (?k + 1))"
  proof (rule ccontr)
    assume "\<not> limbs_val a div limbs_val b < 2 ^ (64 * (?k + 1))"
    then have "2 ^ (64 * (?k + 1)) * limbs_val b \<le> limbs_val a div limbs_val b * limbs_val b"
      using pos by (intro mult_right_mono) simp_all
    then show False
      using less pos_mod_sign [OF pos, of "limbs_val a"] div_mult_mod_eq [of "limbs_val a" "limbs_val b"] by linarith
  qed
  then have "limbs_val (to_limbs (?k + 1) (limbs_val a div limbs_val b)) = limbs_val a div limbs_val b"
    using pos by (intro to_limbs_val_in) (simp_all add: pos_imp_zdiv_nonneg_iff)
  moreover have "limbs_val a mod limbs_val b < 2 ^ (64 * length b)"
    using pos_mod_bound [OF pos, of "limbs_val a"] limbs_val_less [of b] by (rule less_trans)
  then have "limbs_val (to_limbs (length b) (limbs_val a mod limbs_val b)) = limbs_val a mod limbs_val b"
    using pos by (intro to_limbs_val_in) simp_all
  ultimately show "length q = length a - length b + 1 \<and> length r = length b \<and>
      limbs_val q = limbs_val a div limbs_val b \<and> limbs_val r = limbs_val a mod limbs_val b"
    using eq by (auto simp: gmp_ref_def)
qed

lemma gmp_ref_unary: "unary_laws gmp_ref"
  unfolding unary_laws_def
proof (intro allI impI)
  fix x i
  assume "denotes x i"
  then have v: "mpz_value x = i" by (rule mpz_value_denotes)
  have bits: "(i = 0 \<longrightarrow> max 1 (bit_count \<bar>i\<bar>) = 1) \<and> \<bar>i\<bar> < 2 ^ max 1 (bit_count \<bar>i\<bar>) \<and>
    (i \<noteq> 0 \<longrightarrow> 2 ^ (max 1 (bit_count \<bar>i\<bar>) - 1) \<le> \<bar>i\<bar>)"
    using bit_count_bounds [of "\<bar>i\<bar>"] by (cases "i = 0") (auto simp: bit_count.simps [of 0] max_def)
  have "- (2 ^ 63) \<le> i \<and> i < 2 ^ 63 \<longrightarrow> sint (word_of_int i :: c_long) = i"
    using sint_word_of_int_in [where 'a = 64, of i] by simp
  then show "(mpz_even_p gmp_ref x \<longleftrightarrow> even i) \<and> (mpz_odd_p gmp_ref x \<longleftrightarrow> odd i) \<and>
     (- (2 ^ 63) \<le> i \<and> i < 2 ^ 63 \<longrightarrow> sint (mpz_get_si gmp_ref x) = i) \<and>
     (i = 0 \<longrightarrow> mpz_sizeinbase gmp_ref x 2 = 1) \<and> \<bar>i\<bar> < 2 ^ mpz_sizeinbase gmp_ref x 2 \<and>
     (i \<noteq> 0 \<longrightarrow> 2 ^ (mpz_sizeinbase gmp_ref x 2 - 1) \<le> \<bar>i\<bar>) \<and>
     mpz_is (mpz_com gmp_ref x) (NOT i) \<and>
     (\<forall>n. mpz_is (mpz_pow_ui gmp_ref x n) (i ^ n) \<and> mpz_is (mpz_mul_2exp gmp_ref x n) (i * 2 ^ n) \<and>
        mpz_is (mpz_div_2exp gmp_ref x n) (i div 2 ^ n))"
    using bits by (simp add: gmp_ref_def v mpz_of_is)
qed

lemma gmp_ref_binary: "binary_laws gmp_ref"
  by (simp add: binary_laws_def gmp_ref_def mpz_value_denotes mpz_of_is)

lemma gmp_ref_str: "str_law gmp_ref"
  unfolding str_law_def
proof (intro allI impI conjI)
  fix s ds
  assume ds: "ds \<noteq> []" "list_all digit ds"
  then obtain d es where d: "ds = d # es" by (cases ds) auto
  then have "d \<noteq> 45" using ds by (auto simp: digit_def)
  note d = d this
  show "mpz_is (mpz_init_set_str gmp_ref s 10) (dec_val ds)" if "filter (\<lambda>c. \<not> isspace c) s = ds"
    using d mpz_of_is [of "dec_val ds"] by (simp add: gmp_ref_def that)
  show "mpz_is (mpz_init_set_str gmp_ref s 10) (- dec_val ds)" if "filter (\<lambda>c. \<not> isspace c) s = 45 # ds"
    using mpz_of_is [of "- dec_val ds"] by (simp add: gmp_ref_def that)
qed

lemma gmp_ref_ok: "gmp_ok gmp_ref"
  using gmp_ref_str gmp_ref_add gmp_ref_sub gmp_ref_mul gmp_ref_div gmp_ref_unary gmp_ref_binary
  by (simp add: gmp_ok_def cmp_law_def) (simp add: gmp_ref_def)

lemma mpz_of_denotes: "denotes (mpz_of i) i"
  using mpz_of_is [of i] by (simp add: mpz_is_def)

end
