(* ===== verification/Bigarith.thy ===== *)
theory Bigarith
  imports Gmpref
begin

text \<open>
  The bignum operations of theory \<open>Bignum\<close> (\<open>runtime/Clib/cbignum.c\<close>) compute the operations of
  the integers that the bignums denote, provided that the GMP functions behave as documented.
\<close>

section \<open>Sums and differences of magnitudes\<close>

lemma gmp_okD:
  assumes "gmp_ok G"
  shows "length a = length b \<Longrightarrow> sgn (mpn_cmp G a b) = sgn (limbs_val a - limbs_val b)"
    and "b \<noteq> [] \<Longrightarrow> length b \<le> length a \<Longrightarrow> mpn_add G a b = (s, c) \<Longrightarrow>
      length s = length a \<and> c \<le> 1 \<and> limbs_val s + uint c * 2 ^ (64 * length a) = limbs_val a + limbs_val b"
    and "b \<noteq> [] \<Longrightarrow> length b \<le> length a \<Longrightarrow> mpn_sub G a b = (s, c) \<Longrightarrow>
      length s = length a \<and> c \<le> 1 \<and> limbs_val s + limbs_val b = limbs_val a + uint c * 2 ^ (64 * length a)"
    and "b \<noteq> [] \<Longrightarrow> length b \<le> length a \<Longrightarrow>
      length (mpn_mul G a b) = length a + length b \<and> limbs_val (mpn_mul G a b) = limbs_val a * limbs_val b"
    and "b \<noteq> [] \<Longrightarrow> last b \<noteq> 0 \<Longrightarrow> length b \<le> length a \<Longrightarrow> mpn_tdiv_qr G a b = (q, r) \<Longrightarrow>
      length q = length a - length b + 1 \<and> length r = length b \<and>
      limbs_val q = limbs_val a div limbs_val b \<and> limbs_val r = limbs_val a mod limbs_val b"
    and "unary_laws G" and "binary_laws G" and "str_law G"
proof -
  have laws: "cmp_law G" "add_law G" "sub_law G" "mul_law G" "div_law G"
    and "unary_laws G" "binary_laws G" "str_law G"
    using assms by (simp_all only: gmp_ok_def)
  then show "unary_laws G" "binary_laws G" "str_law G" by blast+
  show "length a = length b \<Longrightarrow> sgn (mpn_cmp G a b) = sgn (limbs_val a - limbs_val b)"
    using laws(1) unfolding cmp_law_def by blast
  show "b \<noteq> [] \<Longrightarrow> length b \<le> length a \<Longrightarrow> mpn_add G a b = (s, c) \<Longrightarrow>
      length s = length a \<and> c \<le> 1 \<and> limbs_val s + uint c * 2 ^ (64 * length a) = limbs_val a + limbs_val b"
    using laws(2) unfolding add_law_def by blast
  show "b \<noteq> [] \<Longrightarrow> length b \<le> length a \<Longrightarrow> mpn_sub G a b = (s, c) \<Longrightarrow>
      length s = length a \<and> c \<le> 1 \<and> limbs_val s + limbs_val b = limbs_val a + uint c * 2 ^ (64 * length a)"
    using laws(3) unfolding sub_law_def by blast
  show "b \<noteq> [] \<Longrightarrow> length b \<le> length a \<Longrightarrow>
      length (mpn_mul G a b) = length a + length b \<and> limbs_val (mpn_mul G a b) = limbs_val a * limbs_val b"
    using laws(4) unfolding mul_law_def by blast
  show "b \<noteq> [] \<Longrightarrow> last b \<noteq> 0 \<Longrightarrow> length b \<le> length a \<Longrightarrow> mpn_tdiv_qr G a b = (q, r) \<Longrightarrow>
      length q = length a - length b + 1 \<and> length r = length b \<and>
      limbs_val q = limbs_val a div limbs_val b \<and> limbs_val r = limbs_val a mod limbs_val b"
    using laws(5) unfolding div_law_def by blast
qed

lemma carry_cases:
  assumes "c \<le> (1 :: limb)"
  shows "c = 0 \<or> c = 1"
proof -
  have "uint c \<le> 1" using assms by (simp add: word_le_def)
  then have "uint c = 0 \<or> uint c = 1" using uint_ge_0 [of c] by linarith
  then show ?thesis by (metis uint_0_eq uint_1_eq word_uint_eq_iff)
qed

lemma add_pos_pos_aux_denotes:
  assumes ok: "gmp_ok G" and a: "limbs x (int n) = Some a" "a \<noteq> []" "last a \<noteq> 0"
    and b: "limbs y (int m) = Some b" "b \<noteq> []" and "m \<le> n"
  shows "\<exists>z. bignum_add_pos_pos_aux G x (int n) y (int m) = Some z \<and> denotes z (limbs_val a + limbs_val b)"
proof -
  have len: "length a = n" "length b = m" using limbs_length a(1) b(1) by blast+
  obtain s c where sc: "mpn_add G a b = (s, c)" by fastforce
  then have s: "length s = n" "c \<le> 1" and val: "limbs_val s + uint c * 2 ^ (64 * n) = limbs_val a + limbs_val b"
    using gmp_okD(2) [OF ok b(2), of a] len assms(7) by auto
  let ?z = "\<lparr>mp_alloc = int n + 1, mp_size = 0, mp_d = gc_malloc (Suc n)\<rparr> :: mpz"
  have z: "make_bignum (int n + 1) = Some ?z"
    by (simp add: make_bignum_def idx_def nat_add_distrib)
  have fill: "set_limbs s ?z = Some (?z\<lparr>mp_d := map Some s @ [None]\<rparr>)"
    using set_limbs_fresh [of ?z "Suc n" s] s(1) by (simp add: gc_malloc_def)
  consider (no) "c = 0" | (carry) "c = 1" using carry_cases [OF s(2)] by blast
  then show ?thesis
  proof cases
    case no
    have "s \<noteq> []" using s(1) len a(2) by auto
    moreover have "2 ^ (64 * (length s - 1)) \<le> limbs_val s"
    proof -
      have "limbs_val s = limbs_val a + limbs_val b" using val no by simp
      then show ?thesis using normal_ge [OF a(2,3)] limbs_val_nonneg [of b] unfolding len s(1) by linarith
    qed
    ultimately have "last s \<noteq> 0" by (intro normal_if_ge)
    with \<open>s \<noteq> []\<close> no s(1) val show ?thesis
      using denotes_pos [of "?z\<lparr>mp_d := map Some s @ [None], mp_size := int n, mp_alloc := int n\<rparr>" s "[None]"]
      by (simp add: bignum_add_pos_pos_aux_def z a(1) b(1) sc fill)
  next
    case carry
    have upd: "(map Some s @ [None])[n := Some 1] = map Some (s @ [1])"
      using s(1) by (simp add: list_update_append)
    have "limbs_val (s @ [1]) = limbs_val a + limbs_val b"
      using val carry s(1) by (simp add: limbs_val_append)
    with carry s(1) show ?thesis
      using denotes_pos [of "?z\<lparr>mp_d := map Some (s @ [1]), mp_size := int n + 1, mp_alloc := int n + 1\<rparr>" "s @ [1]" "[]"]
      by (simp add: bignum_add_pos_pos_aux_def z a(1) b(1) sc fill upd)
  qed
qed

lemma add_pos_pos_denotes:
  assumes "gmp_ok G" and "limbs x (int n) = Some a" "a \<noteq> []" "last a \<noteq> 0"
    and "limbs y (int m) = Some b" "b \<noteq> []" "last b \<noteq> 0"
  shows "\<exists>z. bignum_add_pos_pos G x (int n) y (int m) = Some z \<and> denotes z (limbs_val a + limbs_val b)"
  using add_pos_pos_aux_denotes [OF assms(1-6)] add_pos_pos_aux_denotes [OF assms(1,5,6,7,2,3)]
  by (auto simp: bignum_add_pos_pos_def add.commute)

lemma add_pos_neg_aux_denotes:
  assumes ok: "gmp_ok G" and a: "limbs x (int n) = Some a" "a \<noteq> []"
    and b: "limbs y (int m) = Some b" "b \<noteq> []" and "m \<le> n" and le: "limbs_val b \<le> limbs_val a"
  shows "\<exists>z. bignum_add_pos_neg_aux G x (int n) y (int m) = Some z \<and> denotes z (limbs_val a - limbs_val b)"
proof -
  have len: "length a = n" "length b = m" using limbs_length a(1) b(1) by blast+
  obtain d c where dc: "mpn_sub G a b = (d, c)" by fastforce
  then have d: "length d = n" "c \<le> 1" and val: "limbs_val d + limbs_val b = limbs_val a + uint c * 2 ^ (64 * n)"
    using gmp_okD(3) [OF ok b(2), of a] len assms(6) by auto
  have "c \<noteq> 1" using val le limbs_val_less [of d] d(1) by auto
  then have c: "c = 0" using carry_cases [OF d(2)] by blast
  have n: "0 < n" using len a(2) by auto
  let ?z = "\<lparr>mp_alloc = int n, mp_size = 0, mp_d = map Some d\<rparr> :: mpz"
  have z: "do { z \<leftarrow> make_bignum (int n); set_limbs d z } = Some ?z"
    using d(1) by (simp add: make_bignum_def set_limbs_fresh [where k = n] gc_malloc_def)
  have n1: "idx (int n - 1) = Some (n - 1)" using n by (simp add: idx_def nat_diff_distrib)
  obtain k where k: "k \<le> n - 1" "top_limb (map Some d) (n - 1) = Some k" "k = 0 \<or> d ! k \<noteq> 0"
    "limbs_val (take (Suc (n - 1)) d) = limbs_val (take (Suc k) d)"
    using top_limb_strips [of "n - 1" d "[]"] d(1) n by auto
  let ?z' = "?z\<lparr>mp_alloc := int k + 1, mp_size := (if k = 0 \<and> d ! 0 = 0 then 0 else int k + 1)\<rparr>"
  have "bignum_add_pos_neg_aux G x (int n) y (int m) = Some ?z'"
    using z k(1,2) n d(1) c unfolding bignum_add_pos_neg_aux_def
    by (auto simp: a(1) b(1) dc n1 mem_simps make_bignum_def Let_def)
  moreover have "denotes ?z' (limbs_val d)"
    using k d(1) n by (intro stripped_denotes [of k d _ "[]"]) auto
  moreover have "limbs_val d = limbs_val a - limbs_val b" using val c by simp
  ultimately show ?thesis by auto
qed

lemma add_pos_neg_denotes:
  assumes ok: "gmp_ok G" and a: "limbs x (int n) = Some a" "a \<noteq> []" "last a \<noteq> 0"
    and b: "limbs y (int m) = Some b" "b \<noteq> []" "last b \<noteq> 0"
  shows "\<exists>z. bignum_add_pos_neg G x (int n) y (int m) = Some z \<and> denotes z (limbs_val a - limbs_val b)"
proof -
  have len: "length a = n" "length b = m" using limbs_length a(1) b(1) by blast+
  have fwd: "\<exists>z. bignum_add_pos_neg_aux G x (int n) y (int m) = Some z \<and> denotes z (limbs_val a - limbs_val b)"
    if "m \<le> n" "limbs_val b \<le> limbs_val a"
    using that by (intro add_pos_neg_aux_denotes [OF ok a(1,2) b(1,2)])
  have bwd: "\<exists>z. bignum_add_neg_pos_aux G y (int m) x (int n) = Some z \<and> denotes z (limbs_val a - limbs_val b)"
    if "n \<le> m" "limbs_val a \<le> limbs_val b"
    using add_pos_neg_aux_denotes [OF ok b(1,2) a(1,2) that] denotes_neg_size
    by (fastforce simp: bignum_add_neg_pos_aux_def)
  consider "m < n" | "n < m" | (same) "n = m" by linarith
  then show ?thesis
  proof cases
    case 1
    then show ?thesis using fwd longer_is_larger [OF a(2,3), of b] len by (simp add: bignum_add_pos_neg_def)
  next
    case 2
    then show ?thesis using bwd longer_is_larger [OF b(2,3), of a] len by (simp add: bignum_add_pos_neg_def)
  next
    case same
    have "sgn (mpn_cmp G a b) = sgn (limbs_val a - limbs_val b)" using gmp_okD(1) [OF ok] len same by simp
    then consider "mpn_cmp G a b > 0" "limbs_val b < limbs_val a" | "mpn_cmp G a b < 0" "limbs_val a < limbs_val b"
      | "mpn_cmp G a b = 0" "limbs_val a = limbs_val b"
      by (auto simp: sgn_if split: if_splits)
    then show ?thesis
      using fwd bwd same a(1) b(1) long_to_bignum_denotes [of 0]
      by cases (simp_all add: bignum_add_pos_neg_def)
  qed
qed

section \<open>The operations on signed numbers\<close>

lemma add_neg_neg_denotes:
  assumes "gmp_ok G" and "limbs x (int n) = Some a" "a \<noteq> []" "last a \<noteq> 0"
    and "limbs y (int m) = Some b" "b \<noteq> []" "last b \<noteq> 0"
  shows "\<exists>z. bignum_add_neg_neg G x (int n) y (int m) = Some z \<and> denotes z (- limbs_val a - limbs_val b)"
proof -
  obtain z where "bignum_add_pos_pos G x (int n) y (int m) = Some z" "denotes z (limbs_val a + limbs_val b)"
    using add_pos_pos_denotes [OF assms] by blast
  moreover from this have "denotes (neg_size z) (- limbs_val a - limbs_val b)"
    using denotes_neg_size [of z "limbs_val a + limbs_val b"] by simp
  ultimately show ?thesis by (simp add: bignum_add_neg_neg_def)
qed

lemma add_denotes:
  assumes "gmp_ok G" and "denotes x i" and "denotes y j"
  shows "\<exists>z. bgl_bignum_add G x y = Some z \<and> denotes z (i + j)"
proof -
  note pp = add_pos_pos_denotes [OF assms(1)] and pn = add_pos_neg_denotes [OF assms(1)]
    and nn = add_neg_neg_denotes [OF assms(1)]
  from assms(2) show ?thesis
  proof (cases rule: denotes_cases)
    case (pos n a)
    note x = this
    from assms(3) show ?thesis
    proof (cases rule: denotes_cases)
      case (pos m b)
      with x pp [OF x(4,6,7) pos(4,6,7)] show ?thesis by (simp add: bgl_bignum_add_def)
    next
      case (neg m b)
      with x pn [OF x(4,6,7) neg(4,6,7)] show ?thesis by (simp add: bgl_bignum_add_def)
    next
      case zero
      with x assms(2) show ?thesis by (simp add: bgl_bignum_add_def)
    qed
  next
    case (neg n a)
    note x = this
    from assms(3) show ?thesis
    proof (cases rule: denotes_cases)
      case (pos m b)
      with x pn [OF pos(4,6,7) x(4,6,7)] show ?thesis by (simp add: bgl_bignum_add_def)
    next
      case (neg m b)
      with x nn [OF x(4,6,7) neg(4,6,7)] show ?thesis by (simp add: bgl_bignum_add_def)
    next
      case zero
      with x assms(2) show ?thesis by (simp add: bgl_bignum_add_def)
    qed
  next
    case zero
    with assms(3) show ?thesis by (simp add: bgl_bignum_add_def)
  qed
qed

lemma copy_neg_denotes:
  assumes "denotes x i" and "\<bar>mp_size x\<bar> = int n" and "0 < n"
  shows "\<exists>z. copy_neg x (int n) = Some z \<and> denotes z (- i)"
proof -
  obtain ls where ls: "rds (mp_d x) 0 n = Some ls" "normal ls" "length ls = n" "i = sgn (mp_size x) * limbs_val ls"
    using assms(1,2) by (auto simp: denotes_def)
  have len: "n \<le> length (mp_d x)" "take n (mp_d x) = map Some ls"
    using rds_bounds [OF ls(1) assms(3)] rds_take [OF ls(1)] by simp_all
  have "copy_neg x (int n) = Some \<lparr>mp_alloc = int n, mp_size = - mp_size x, mp_d = map Some ls\<rparr>"
    using len by (simp add: copy_neg_def make_bignum_def blit_def)
  moreover have "denotes \<lparr>mp_alloc = int n, mp_size = - mp_size x, mp_d = map Some ls\<rparr> (- i)"
    unfolding denotes_def using ls assms(2) by (intro exI [of _ ls]) (simp add: mem_simps)
  ultimately show ?thesis by blast
qed

lemma neg_denotes:
  assumes "denotes x i"
  shows "\<exists>z. bgl_bignum_neg x = Some z \<and> denotes z (- i)"
  using assms
proof (cases rule: denotes_cases)
  case (pos n a)
  with copy_neg_denotes [OF assms, of n] show ?thesis by (simp add: bgl_bignum_neg_def)
next
  case (neg n a)
  with copy_neg_denotes [OF assms, of n] show ?thesis by (simp add: bgl_bignum_neg_def)
next
  case zero
  with assms show ?thesis by (simp add: bgl_bignum_neg_def)
qed

lemma abs_denotes:
  assumes "denotes x i"
  shows "\<exists>z. bgl_bignum_abs x = Some z \<and> denotes z \<bar>i\<bar>"
  using assms
proof (cases rule: denotes_cases)
  case (neg n a)
  with copy_neg_denotes [OF assms, of n] show ?thesis by (simp add: bgl_bignum_abs_def)
qed (use assms in \<open>simp_all add: bgl_bignum_abs_def\<close>)

lemma sub_denotes:
  assumes "gmp_ok G" and "denotes x i" and "denotes y j"
  shows "\<exists>z. bgl_bignum_sub G x y = Some z \<and> denotes z (i - j)"
proof -
  note pp = add_pos_pos_denotes [OF assms(1)] and pn = add_pos_neg_denotes [OF assms(1)]
    and nn = add_neg_neg_denotes [OF assms(1)]
  from assms(2) show ?thesis
  proof (cases rule: denotes_cases)
    case (pos n a)
    note x = this
    from assms(3) show ?thesis
    proof (cases rule: denotes_cases)
      case (pos m b)
      with x pn [OF x(4,6,7) pos(4,6,7)] show ?thesis by (simp add: bgl_bignum_sub_def)
    next
      case (neg m b)
      with x pp [OF x(4,6,7) neg(4,6,7)] show ?thesis by (simp add: bgl_bignum_sub_def)
    next
      case zero
      with x assms(2) show ?thesis by (simp add: bgl_bignum_sub_def)
    qed
  next
    case (neg n a)
    note x = this
    from assms(3) show ?thesis
    proof (cases rule: denotes_cases)
      case (pos m b)
      with x nn [OF x(4,6,7) pos(4,6,7)] show ?thesis by (simp add: bgl_bignum_sub_def)
    next
      case (neg m b)
      with x pn [OF neg(4,6,7) x(4,6,7)] show ?thesis by (simp add: bgl_bignum_sub_def)
    next
      case zero
      with x assms(2) show ?thesis by (simp add: bgl_bignum_sub_def)
    qed
  next
    case zero
    with neg_denotes [OF assms(3)] show ?thesis by (simp add: bgl_bignum_sub_def)
  qed
qed

lemma cmp_aux_sgn:
  assumes ok: "gmp_ok G" and a: "limbs x (int n) = Some a" "a \<noteq> []" "last a \<noteq> 0"
    and b: "limbs y (int m) = Some b" "b \<noteq> []" "last b \<noteq> 0"
  shows "\<exists>c. bignum_cmp_aux G x (int n) y (int m) = Some c \<and> sgn c = sgn (limbs_val a - limbs_val b)"
proof -
  have len: "length a = n" "length b = m" using limbs_length a(1) b(1) by blast+
  consider "m < n" | "n < m" | "n = m" by linarith
  then show ?thesis
  proof cases
    case 1
    then have "limbs_val b < limbs_val a" using longer_is_larger [OF a(2,3)] len by simp
    with 1 show ?thesis by (simp add: bignum_cmp_aux_def)
  next
    case 2
    then have "limbs_val a < limbs_val b" using longer_is_larger [OF b(2,3)] len by simp
    with 2 show ?thesis by (simp add: bignum_cmp_aux_def)
  next
    case 3
    then show ?thesis using gmp_okD(1) [OF ok, of a b] a(1) b(1) len by (simp add: bignum_cmp_aux_def)
  qed
qed

lemma cmp_sgn:
  assumes "gmp_ok G" and "denotes x i" and "denotes y j"
  shows "\<exists>c. bgl_bignum_cmp G x y = Some c \<and> sgn c = sgn (i - j)"
proof -
  note aux = cmp_aux_sgn [OF assms(1)]
  from assms(2) show ?thesis
  proof (cases rule: denotes_cases)
    case (pos n a)
    note x = this
    from assms(3) show ?thesis
    proof (cases rule: denotes_cases)
      case (pos m b)
      with x aux [OF x(4,6,7) pos(4,6,7)] show ?thesis by (simp add: bgl_bignum_cmp_def)
    qed (use x in \<open>simp_all add: bgl_bignum_cmp_def\<close>)
  next
    case (neg n a)
    note x = this
    from assms(3) show ?thesis
    proof (cases rule: denotes_cases)
      case (neg m b)
      with x aux [OF neg(4,6,7) x(4,6,7)] show ?thesis by (simp add: bgl_bignum_cmp_def)
    qed (use x in \<open>simp_all add: bgl_bignum_cmp_def\<close>)
  next
    case zero
    note x = this
    from assms(3) show ?thesis
      by (cases rule: denotes_cases) (use x in \<open>simp_all add: bgl_bignum_cmp_def\<close>)
  qed
qed

section \<open>Products and quotients\<close>

text \<open>The sizes as they are read, with the sign apart.\<close>

lemma denotes_magnitude:
  assumes "denotes x i"
  obtains ls where "BXABSIZ x = int (length ls)" "limbs (mp_d x) (int (length ls)) = Some ls" "normal ls"
    "limbs_val ls = \<bar>i\<bar>" "BXPOSITIVE x \<longleftrightarrow> 0 < i" "BXNEGATIVE x \<longleftrightarrow> i < 0"
proof -
  obtain ls where ls: "rds (mp_d x) 0 (length ls) = Some ls" "normal ls" "\<bar>mp_size x\<bar> = int (length ls)"
    "i = sgn (mp_size x) * limbs_val ls"
    using assms by (auto simp: denotes_def)
  have pos: "0 < limbs_val ls" if "mp_size x \<noteq> 0"
    using ls(2,3) normal_pos [of ls] that by (cases "ls = []") auto
  show thesis
  proof (rule that [of ls])
    show "BXABSIZ x = int (length ls)" using ls(3) by (auto simp: BXABSIZ_def)
    show "limbs (mp_d x) (int (length ls)) = Some ls" using ls(1) by (simp add: limbs_Some)
    show "limbs_val ls = \<bar>i\<bar>" using ls pos by (cases "ls = []") (auto simp: sgn_if abs_mult)
    show "BXPOSITIVE x \<longleftrightarrow> 0 < i" "BXNEGATIVE x \<longleftrightarrow> i < 0"
      using ls(4) pos by (auto simp: BXPOSITIVE_def BXNEGATIVE_def sgn_if)
  qed (rule ls)
qed

lemma normal_nonempty: "normal ls \<Longrightarrow> limbs_val ls \<noteq> 0 \<Longrightarrow> ls \<noteq> [] \<and> last ls \<noteq> 0"
  by (auto simp: normal_def)

text \<open>The sign of a product or quotient: the two orders in which the code tests the signs.\<close>

lemma signed_denotes:
  assumes "denotes z q" and "i \<noteq> 0" and "j \<noteq> 0"
  shows "denotes (if 0 < i then if j < 0 then neg_size z else z else if i < 0 then if 0 < j then neg_size z else z else z)
      (sgn i * sgn j * q)"
    and "denotes (if i < 0 then if 0 < j then neg_size z else z else if 0 < i then if j < 0 then neg_size z else z else z)
      (sgn i * sgn j * q)"
  using assms denotes_neg_size [OF assms(1)] by (auto simp: sgn_if)

lemma mul_denotes:
  assumes ok: "gmp_ok G" and x: "denotes x i" and y: "denotes y j" and small: "BXABSIZ x + BXABSIZ y < 2 ^ 31"
  shows "\<exists>z. bgl_bignum_mul G x y = Some z \<and> denotes z (i * j)"
proof -
  obtain a where a: "BXABSIZ x = int (length a)" "limbs (mp_d x) (int (length a)) = Some a" "normal a"
    "limbs_val a = \<bar>i\<bar>" "BXPOSITIVE x \<longleftrightarrow> 0 < i" "BXNEGATIVE x \<longleftrightarrow> i < 0"
    using denotes_magnitude [OF x] by blast
  obtain b where b: "BXABSIZ y = int (length b)" "limbs (mp_d y) (int (length b)) = Some b" "normal b"
    "limbs_val b = \<bar>j\<bar>" "BXPOSITIVE y \<longleftrightarrow> 0 < j" "BXNEGATIVE y \<longleftrightarrow> j < 0"
    using denotes_magnitude [OF y] by blast
  show ?thesis
  proof (cases "a = [] \<or> b = []")
    case True
    then have "i * j = 0" using a(4) b(4) by auto
    with True a(1) b(1) long_to_bignum_denotes [of 0] show ?thesis by (auto simp: bgl_bignum_mul_def)
  next
    case False
    define n where "n = length a + length b"
    define p where "p = (if length b \<le> length a then mpn_mul G a b else mpn_mul G b a)"
    have p: "length p = n" "limbs_val p = limbs_val a * limbs_val b"
      using gmp_okD(4) [OF ok, of b a] gmp_okD(4) [OF ok, of a b] False by (auto simp: p_def n_def)
    have top: "last a \<noteq> 0" "last b \<noteq> 0" using a(3) b(3) False by (auto simp: normal_def)
    have n: "2 \<le> n" "p \<noteq> []" using False p(1) by (cases a; cases b; auto simp: n_def)+
    let ?m = "map Some p"
    define sz where "sz = (if last p = 0 then n - 1 else n)"
    have "denotes \<lparr>mp_alloc = int n, mp_size = int sz, mp_d = ?m\<rparr> (limbs_val a * limbs_val b)"
    proof (cases "last p = 0")
      case True
      have "(2::int) ^ (64 * (length a - 1)) * 2 ^ (64 * (length b - 1)) \<le> limbs_val a * limbs_val b"
        using normal_ge [of a] normal_ge [of b] top False by (intro mult_mono) auto
      then have "2 ^ (64 * (n - 2)) \<le> limbs_val p"
        using False p(2) by (cases a; cases b) (auto simp: n_def power_add algebra_simps)
      moreover have val: "limbs_val p = limbs_val (butlast p)"
        using limbs_val_last [OF n(2)] True by simp
      moreover have "butlast p \<noteq> []" using n p(1) by (cases p rule: rev_cases) auto
      ultimately have "last (butlast p) \<noteq> 0"
        using p(1) by (intro normal_if_ge) (simp_all add: numeral_2_eq_2)
      moreover have "?m = map Some (butlast p) @ [Some 0]"
        using n(2) True by (metis append_butlast_last_id list.simps(8,9) map_append)
      ultimately show ?thesis
        using denotes_pos [of "\<lparr>mp_alloc = int n, mp_size = int sz, mp_d = ?m\<rparr>" "butlast p" "[Some 0]"]
          \<open>butlast p \<noteq> []\<close> True p val by (simp add: sz_def)
    next
      case top_p: False
      then show ?thesis
        using denotes_pos [of "\<lparr>mp_alloc = int n, mp_size = int sz, mp_d = ?m\<rparr>" p "[]"] n p
        by (simp add: sz_def)
    qed
    then have den: "denotes \<lparr>mp_alloc = int n, mp_size = int sz, mp_d = ?m\<rparr> (\<bar>i\<bar> * \<bar>j\<bar>)"
      using a(4) b(4) by simp
    have make: "make_bignum (int n) = Some \<lparr>mp_alloc = int n, mp_size = 0, mp_d = gc_malloc n\<rparr>"
      by (simp add: make_bignum_def)
    have fill: "set_limbs p \<lparr>mp_alloc = int n, mp_size = 0, mp_d = gc_malloc n\<rparr> =
        Some \<lparr>mp_alloc = int n, mp_size = 0, mp_d = ?m\<rparr>"
      using p(1) by (simp add: set_limbs_fresh [where k = n] gc_malloc_def)
    have idx: "idx (int n - 1) = Some (n - 1)" using n by (simp add: idx_def nat_diff_distrib)
    have rd: "rd ?m (n - 1) = Some (last p)" using n p(1) by (simp add: mem_simps last_conv_nth)
    have nn: "int_sum (int (length a)) (int (length b)) = Some (int n)" using small a(1) b(1) by (simp add: int_sum_def n_def)
    have sz: "(if last p = 0 then int n - 1 else int n) = int sz" using n by (simp add: sz_def of_nat_diff)
    have pp: "(if int (length b) \<le> int (length a) then mpn_mul G a b else mpn_mul G b a) = p" by (simp add: p_def)
    have ne: "\<not> (int (length b) = 0 \<or> int (length a) = 0)" using False by auto
    have "bgl_bignum_mul G x y = Some (let z = \<lparr>mp_alloc = int n, mp_size = int sz, mp_d = ?m\<rparr> in
        if 0 < i then if j < 0 then neg_size z else z else if i < 0 then if 0 < j then neg_size z else z else z)"
      unfolding bgl_bignum_mul_def a(1) b(1) Let_def nn using ne
      by (simp only: if_False make pp fill idx rd a(2,5,6) b(2,5,6) bind.bind_lunit mpz.simps sz)
    moreover have ij: "i \<noteq> 0" "j \<noteq> 0"
      using a(4) b(4) False normal_pos [OF _ a(3)] normal_pos [OF _ b(3)] by auto
    moreover have "sgn i * sgn j * (\<bar>i\<bar> * \<bar>j\<bar>) = i * j"
      by (simp add: mult_sgn_abs mult.assoc mult.left_commute [of "sgn j"] flip: mult.assoc [of "sgn i" "\<bar>i\<bar>"])
    ultimately show ?thesis using signed_denotes(1) [OF den ij] by (simp add: Let_def)
  qed
qed

text \<open>What the division of magnitudes leaves in the two results.\<close>

lemma make_int: "make_bignum (int n) = Some \<lparr>mp_alloc = int n, mp_size = 0, mp_d = gc_malloc n\<rparr>"
  by (simp add: make_bignum_def)

lemma filled_denotes:
  assumes "length ls = n" and "0 < n"
  shows "\<exists>z. do { z \<leftarrow> set_limbs ls \<lparr>mp_alloc = int n, mp_size = 0, mp_d = gc_malloc n\<rparr>; bignum_set_size z (int n) } = Some z \<and>
    denotes z (limbs_val ls)"
proof -
  have "set_limbs ls \<lparr>mp_alloc = int n, mp_size = 0, mp_d = gc_malloc n\<rparr> =
      Some \<lparr>mp_alloc = int n, mp_size = 0, mp_d = map Some ls @ []\<rparr>"
    using assms by (simp add: set_limbs_fresh [where k = n] gc_malloc_def)
  then show ?thesis
    using set_size_denotes [of "\<lparr>mp_alloc = int n, mp_size = 0, mp_d = map Some ls @ []\<rparr>" ls "[]" n] assms by simp
qed

lemma tdiv_denotes:
  assumes ok: "gmp_ok G" and "b \<noteq> []" "last b \<noteq> 0" "length b \<le> length a"
  shows "\<exists>ql rl q0 r0 q r. mpn_tdiv_qr G a b = (ql, rl) \<and>
    set_limbs ql \<lparr>mp_alloc = int (length a - length b + 1), mp_size = 0, mp_d = gc_malloc (length a - length b + 1)\<rparr> = Some q0 \<and>
    bignum_set_size q0 (int (length a - length b + 1)) = Some q \<and> denotes q (limbs_val a div limbs_val b) \<and>
    set_limbs rl \<lparr>mp_alloc = int (length b), mp_size = 0, mp_d = gc_malloc (length b)\<rparr> = Some r0 \<and>
    bignum_set_size r0 (int (length b)) = Some r \<and> denotes r (limbs_val a mod limbs_val b)"
proof -
  obtain ql rl where qr: "mpn_tdiv_qr G a b = (ql, rl)" by fastforce
  note laws = gmp_okD(5) [OF assms qr]
  have "0 < length b" using assms(2) by simp
  then show ?thesis
    using qr laws filled_denotes [of ql "length a - length b + 1"] filled_denotes [of rl "length b"]
    by (auto split: Option.bind_splits)
qed

lemma division_cases:
  assumes "gmp_ok G" and "denotes x i" and "denotes y j" and "j \<noteq> 0"
  obtains (small) "BXABSIZ x < BXABSIZ y" "\<bar>i\<bar> < \<bar>j\<bar>"
  | (large) a b ql rl q0 r0 q r where "\<not> BXABSIZ x < BXABSIZ y"
      "BXABSIZ y = int (length b)" "BXABSIZ x - BXABSIZ y + 1 = int (length a - length b + 1)"
      "limbs (mp_d x) (BXABSIZ x) = Some a" "limbs (mp_d y) (int (length b)) = Some b"
      "mpn_tdiv_qr G a b = (ql, rl)"
      "set_limbs ql \<lparr>mp_alloc = int (length a - length b + 1), mp_size = 0, mp_d = gc_malloc (length a - length b + 1)\<rparr> = Some q0"
      "bignum_set_size q0 (int (length a - length b + 1)) = Some q" "denotes q (\<bar>i\<bar> div \<bar>j\<bar>)"
      "set_limbs rl \<lparr>mp_alloc = int (length b), mp_size = 0, mp_d = gc_malloc (length b)\<rparr> = Some r0"
      "bignum_set_size r0 (int (length b)) = Some r" "denotes r (\<bar>i\<bar> mod \<bar>j\<bar>)" "i \<noteq> 0"
      "BXPOSITIVE x \<longleftrightarrow> 0 < i" "BXNEGATIVE x \<longleftrightarrow> i < 0" "BXPOSITIVE y \<longleftrightarrow> 0 < j" "BXNEGATIVE y \<longleftrightarrow> j < 0"
proof -
  obtain a where a: "BXABSIZ x = int (length a)" "limbs (mp_d x) (int (length a)) = Some a" "normal a"
    "limbs_val a = \<bar>i\<bar>" "BXPOSITIVE x \<longleftrightarrow> 0 < i" "BXNEGATIVE x \<longleftrightarrow> i < 0"
    using denotes_magnitude [OF assms(2)] by blast
  obtain b where b: "BXABSIZ y = int (length b)" "limbs (mp_d y) (int (length b)) = Some b" "normal b"
    "limbs_val b = \<bar>j\<bar>" "BXPOSITIVE y \<longleftrightarrow> 0 < j" "BXNEGATIVE y \<longleftrightarrow> j < 0"
    using denotes_magnitude [OF assms(3)] by blast
  have nb: "b \<noteq> []" "last b \<noteq> 0" using normal_nonempty [OF b(3)] b(4) assms(4) by auto
  show thesis
  proof (cases "length a < length b")
    case True
    then show ?thesis using small a b longer_is_larger [OF nb True] by simp
  next
    case False
    then have le: "length b \<le> length a" by simp
    then have "a \<noteq> []" using nb by auto
    then have "i \<noteq> 0" using a(4) normal_pos [OF _ a(3)] by auto
    moreover obtain ql rl q0 r0 q r where *: "mpn_tdiv_qr G a b = (ql, rl)"
      "set_limbs ql \<lparr>mp_alloc = int (length a - length b + 1), mp_size = 0, mp_d = gc_malloc (length a - length b + 1)\<rparr> = Some q0"
      "bignum_set_size q0 (int (length a - length b + 1)) = Some q" "denotes q (limbs_val a div limbs_val b)"
      "set_limbs rl \<lparr>mp_alloc = int (length b), mp_size = 0, mp_d = gc_malloc (length b)\<rparr> = Some r0"
      "bignum_set_size r0 (int (length b)) = Some r" "denotes r (limbs_val a mod limbs_val b)"
      using tdiv_denotes [OF assms(1) nb le] by blast
    ultimately show ?thesis
      using a b False le by (intro large [of b a ql rl q0 q r0 r]) (simp_all add: of_nat_diff)
  qed
qed

lemma signed_remainder: "denotes r m \<Longrightarrow> i \<noteq> 0 \<Longrightarrow> denotes (if i < 0 then neg_size r else r) (sgn i * m)"
  using denotes_neg_size [of r m] by (auto simp: sgn_if)

lemma quotient_denotes:
  assumes "gmp_ok G" and "denotes x i" and "denotes y j" and "j \<noteq> 0"
  shows "\<exists>z. bgl_bignum_quotient G x y = Some z \<and> denotes z (sgn i * sgn j * (\<bar>i\<bar> div \<bar>j\<bar>))"
  using assms
proof (cases rule: division_cases)
  case small
  then show ?thesis using long_to_bignum_denotes [of 0] by (simp add: bgl_bignum_quotient_def)
next
  case (large a b ql rl q0 r0 q r)
  have "bgl_bignum_quotient G x y = Some
      (if i < 0 then if 0 < j then neg_size q else q else if 0 < i then if j < 0 then neg_size q else q else q)"
    using large by (simp add: bgl_bignum_quotient_def make_int del: of_nat_add of_nat_Suc)
  then show ?thesis using signed_denotes(2) [OF large(9,13) assms(4)] by blast
qed

lemma remainder_denotes:
  assumes "gmp_ok G" and "denotes x i" and "denotes y j" and "j \<noteq> 0"
  shows "\<exists>z. bgl_bignum_remainder G x y = Some z \<and> denotes z (sgn i * (\<bar>i\<bar> mod \<bar>j\<bar>))"
  using assms
proof (cases rule: division_cases)
  case small
  then show ?thesis using assms(2) by (simp add: bgl_bignum_remainder_def mult_sgn_abs)
next
  case (large a b ql rl q0 r0 q r)
  then show ?thesis using signed_remainder [OF large(12,13)]
    by (simp add: bgl_bignum_remainder_def make_int del: of_nat_add of_nat_Suc)
qed

lemma div_denotes:
  assumes "gmp_ok G" and "denotes x i" and "denotes y j" and "j \<noteq> 0"
  shows "\<exists>q r. bgl_bignum_div G x y = Some (q, r) \<and> denotes q (sgn i * sgn j * (\<bar>i\<bar> div \<bar>j\<bar>)) \<and>
    denotes r (sgn i * (\<bar>i\<bar> mod \<bar>j\<bar>))"
  using assms
proof (cases rule: division_cases)
  case small
  then show ?thesis using assms(2) long_to_bignum_denotes [of 0] by (auto simp: bgl_bignum_div_def mult_sgn_abs)
next
  case (large a b ql rl q0 r0 q r)
  have "bgl_bignum_div G x y = Some
      (if i < 0 then if 0 < j then neg_size q else q else if 0 < i then if j < 0 then neg_size q else q else q,
       if i < 0 then neg_size r else r)"
    using large by (simp add: bgl_bignum_div_def make_int del: of_nat_add of_nat_Suc)
  then show ?thesis
    using signed_denotes(2) [OF large(9,13) assms(4)] signed_remainder [OF large(12,13)] by blast
qed



text \<open>A bignum that denotes an integer of 64 bits has at most one limb.\<close>

lemma one_limb:
  assumes "denotes x i" and "\<bar>i\<bar> < 2 ^ 64"
  shows "BXABSIZ x \<le> 1"
proof -
  obtain ls where ls: "BXABSIZ x = int (length ls)" "normal ls" "limbs_val ls = \<bar>i\<bar>"
    using denotes_magnitude [OF assms(1)] by blast
  show ?thesis
  proof (rule ccontr)
    assume "\<not> BXABSIZ x \<le> 1"
    then have len: "2 \<le> length ls" "ls \<noteq> []" using ls(1) by auto
    then have "last ls \<noteq> 0" using ls(2) by (simp add: normal_def)
    then have "2 ^ (64 * (length ls - 1)) \<le> limbs_val ls" using normal_ge len(2) by blast
    moreover have "(2::int) ^ 64 \<le> 2 ^ (64 * (length ls - 1))" using len(1) by (intro power_increasing) simp_all
    ultimately show False using ls(3) assms(2) by linarith
  qed
qed

text \<open>C17: products and quotients: the product is exact, zero operands included, when the sizes of the operands have a
  sum that an \<open>int\<close> can hold; and for a divisor that is not zero the quotient truncates towards zero and the
  remainder has the sign of the dividend, as one operation or as two.\<close>

theorem bignum_products:
  assumes "gmp_ok G" and "denotes x i" and "denotes y j"
  shows "(BXABSIZ x + BXABSIZ y < 2 ^ 31 \<longrightarrow> (\<exists>z. bgl_bignum_mul G x y = Some z \<and> denotes z (i * j))) \<and>
    (j \<noteq> 0 \<longrightarrow> (\<exists>q r. bgl_bignum_div G x y = Some (q, r) \<and> denotes q (sgn i * sgn j * (\<bar>i\<bar> div \<bar>j\<bar>)) \<and>
       denotes r (sgn i * (\<bar>i\<bar> mod \<bar>j\<bar>)))) \<and>
    (j \<noteq> 0 \<longrightarrow> (\<exists>q. bgl_bignum_quotient G x y = Some q \<and> denotes q (sgn i * sgn j * (\<bar>i\<bar> div \<bar>j\<bar>)))) \<and>
    (j \<noteq> 0 \<longrightarrow> (\<exists>r. bgl_bignum_remainder G x y = Some r \<and> denotes r (sgn i * (\<bar>i\<bar> mod \<bar>j\<bar>))))"
  using mul_denotes [OF assms] div_denotes [OF assms] quotient_denotes [OF assms] remainder_denotes [OF assms]
  by blast

theorem bignum_products_witness:
  "(\<exists>z. bgl_bignum_remainder gmp_ref (mpz_of (- (2 ^ 70))) (mpz_of 3) = Some z \<and>
     denotes z (sgn (- (2 ^ 70)) * (\<bar>- (2 ^ 70)\<bar> mod \<bar>3\<bar>))) \<and>
   (\<exists>z. bgl_bignum_mul gmp_ref (mpz_of 5) (mpz_of 0) = Some z \<and> denotes z 0)"
proof -
  have "BXABSIZ (mpz_of 5) \<le> 1" "BXABSIZ (mpz_of 0) \<le> 1" by (rule one_limb [OF mpz_of_denotes]; simp)+
  then have "\<exists>z. bgl_bignum_mul gmp_ref (mpz_of 5) (mpz_of 0) = Some z \<and> denotes z 0"
    using bignum_products [OF gmp_ref_ok mpz_of_denotes mpz_of_denotes, of 5 0] by simp
  then show ?thesis
    using bignum_products [OF gmp_ref_ok mpz_of_denotes mpz_of_denotes, of "- (2 ^ 70)" 3] by simp
qed

section \<open>Bitwise operations and powers\<close>

lemma unaryD:
  assumes "gmp_ok G" and "denotes x i"
  shows "mpz_even_p G x \<longleftrightarrow> even i" and "mpz_odd_p G x \<longleftrightarrow> odd i"
    and "- (2 ^ 63) \<le> i \<Longrightarrow> i < 2 ^ 63 \<Longrightarrow> sint (mpz_get_si G x) = i"
    and "i = 0 \<Longrightarrow> mpz_sizeinbase G x 2 = 1" and "\<bar>i\<bar> < 2 ^ mpz_sizeinbase G x 2"
    and "i \<noteq> 0 \<Longrightarrow> 2 ^ (mpz_sizeinbase G x 2 - 1) \<le> \<bar>i\<bar>"
    and "mpz_is (mpz_com G x) (NOT i)" and "mpz_is (mpz_pow_ui G x n) (i ^ n)"
    and "mpz_is (mpz_mul_2exp G x n) (i * 2 ^ n)" and "mpz_is (mpz_div_2exp G x n) (i div 2 ^ n)"
  using gmp_okD(6) [OF assms(1), unfolded unary_laws_def, rule_format, OF assms(2)] by blast+

lemma binaryD:
  assumes "gmp_ok G" and "denotes x i" and "denotes y j"
  shows "mpz_is (mpz_gcd G x y) (gcd i j)" and "mpz_is (mpz_lcm G x y) (lcm i j)" and "mpz_is (mpz_sub G x y) (i - j)"
    and "mpz_is (mpz_and G x y) (i AND j)" and "mpz_is (mpz_ior G x y) (i OR j)"
  using gmp_okD(7) [OF assms(1), unfolded binary_laws_def, rule_format, OF assms(2,3)] by blast+

lemma onez_denotes: "denotes onez 1"
  by (auto simp: denotes_def onez_def normal_def mem_simps intro!: exI [of _ "[1]"])

lemma mask_denotes:
  assumes "gmp_ok G" and "denotes x i"
  shows "\<exists>z. bgl_bignum_mask G x (int n) = Some z \<and> denotes z (i mod 2 ^ n)"
proof -
  have "denotes (mpz_sub G (mpz_mul_2exp G onez n) onez) (2 ^ n - 1)"
    using unaryD(9) [OF assms(1) onez_denotes, of n] binaryD(3) [OF assms(1) _ onez_denotes]
    by (auto simp: mpz_is_def)
  moreover have "i AND (2 ^ n - 1) = i mod 2 ^ n" by (metis mask_eq_exp_minus_1 take_bit_eq_mask take_bit_eq_mod)
  ultimately have "mpz_is (mpz_and G x (mpz_sub G (mpz_mul_2exp G onez n) onez)) (i mod 2 ^ n)"
    using binaryD(4) [OF assms] by metis
  from mpz_to_bignum_denotes [OF this] show ?thesis by (simp add: bgl_bignum_mask_def)
qed

text \<open>The operations that GMP does on whole numbers: conjunction, disjunction, complement, masks, shifts,
  divisors and parities are those of two's complement integers; but \<open>bgl_bignum_xor\<close> computes the inclusive
  or, and the exponent of a power is taken modulo \<open>2 ^ 32\<close>.\<close>

theorem bignum_bits:
  assumes "gmp_ok G" and "denotes x i" and "denotes y j" and "0 \<le> j" and "j < 2 ^ 63"
  shows "(\<exists>z. bgl_bignum_and G x y = Some z \<and> denotes z (i AND j)) \<and>
    (\<exists>z. bgl_bignum_or G x y = Some z \<and> denotes z (i OR j)) \<and>
    (\<exists>z. bgl_bignum_not G x = Some z \<and> denotes z (- i - 1)) \<and>
    (\<exists>z. bgl_bignum_mask G x (int n) = Some z \<and> denotes z (i mod 2 ^ n)) \<and>
    (\<exists>z. bgl_bignum_lsh G x (int n) = Some z \<and> denotes z (i * 2 ^ n)) \<and>
    (\<exists>z. bgl_bignum_rsh G x (int n) = Some z \<and> denotes z (i div 2 ^ n)) \<and>
    (\<exists>z. bgl_bignum_gcd G x y = Some z \<and> denotes z (gcd i j)) \<and>
    (\<exists>z. bgl_bignum_lcm G x y = Some z \<and> denotes z (lcm i j)) \<and>
    (bgl_bignum_even G x \<longleftrightarrow> even i) \<and> (bgl_bignum_odd G x \<longleftrightarrow> odd i) \<and>
    (\<exists>z. bgl_bignum_xor G x y = Some z \<and> denotes z (i OR j)) \<and>
    (\<exists>z. bgl_bignum_expt G x y = Some z \<and> denotes z (i ^ nat (j mod 2 ^ 32)))"
proof -
  note u = unaryD [OF assms(1,2)] and b = binaryD [OF assms(1-3)]
  have "sint (mpz_get_si G y) = j" using unaryD(3) [OF assms(1,3)] assms(4,5) by simp
  then have "uint (mpz_get_si G y) = j"
    using assms(4,5) unfolding uint_sint [of "mpz_get_si G y"] by (simp add: take_bit_int_eq_self)
  then have "uint (ucast (mpz_get_si G y) :: c_int) = j mod 2 ^ 32"
    by (simp add: unsigned_ucast_eq take_bit_eq_mod)
  then have "unat (ucast (mpz_get_si G y) :: c_int) = nat (j mod 2 ^ 32)" by (metis unat_eq_nat_uint)
  then show ?thesis
    using u(1,2) mpz_to_bignum_denotes [OF u(7)] mpz_to_bignum_denotes [OF u(8)] mpz_to_bignum_denotes [OF u(9)]
      mpz_to_bignum_denotes [OF u(10)] mpz_to_bignum_denotes [OF b(1)] mpz_to_bignum_denotes [OF b(2)]
      mpz_to_bignum_denotes [OF b(4)] mpz_to_bignum_denotes [OF b(5)] mask_denotes [OF assms(1,2), of n]
    by (simp add: bgl_bignum_and_def bgl_bignum_or_def bgl_bignum_not_def bgl_bignum_lsh_def bgl_bignum_rsh_def
        bgl_bignum_gcd_def bgl_bignum_lcm_def bgl_bignum_even_def bgl_bignum_odd_def bgl_bignum_xor_def
        bgl_bignum_expt_def bgl_bignum_to_long_def not_int_def)
qed

theorem bignum_bits_witness:
  "\<exists>z. bgl_bignum_xor gmp_ref (mpz_of 6) (mpz_of 3) = Some z \<and> denotes z 7"
  using bignum_bits [OF gmp_ref_ok mpz_of_denotes mpz_of_denotes, of 3 6] by simp

end
