(* ===== verification/Safearith.thy ===== *)
theory Safearith
  imports Bigarith
begin

text \<open>
  The generic arithmetic of \<open>runtime/Clib/cbignum.c\<close> that starts from machine integers and turns to
  bignums when the result does not fit. The argument \<open>have_overflow\<close> of the operations is the
  configuration constant \<open>BGL_HAVE_OVERFLOW\<close>: whether the compiler has the overflow builtins, whose
  documented behaviour is the exact test \<open>checked\<close> on 64 bits. The argument \<open>wrapv\<close> is whether the compiler
  defines the overflow of signed integers, as wrapping around (the option \<open>-fwrapv\<close>, which the configuration of the
  repository does not set): otherwise it is undefined, and the result is \<open>None\<close>.
\<close>

section \<open>Numbers and overflow tests\<close>

datatype num = Fix obj | Elong c_long | Llong c_long | Big bignum

definition C_LLONG_SIGN_BIT :: c_long where "C_LLONG_SIGN_BIT = push_bit (64 - 1) 1"

definition BGL_INT_BIT_SIZE :: nat where "BGL_INT_BIT_SIZE = 61"

text \<open>A sum, a difference or a product of signed words, by its exact value.\<close>

definition c_signed :: "bool \<Rightarrow> int \<Rightarrow> c_long option" where
  "c_signed wrapv i = (if wrapv \<or> short 63 i then Some (word_of_int i) else None)"

text \<open>The portable tests, with the sign bit they look at.\<close>

definition plus_ov :: "bool \<Rightarrow> c_long \<Rightarrow> c_long \<Rightarrow> c_long \<Rightarrow> c_long ov option" where
  "plus_ov wrapv sb x y = do {
     z \<leftarrow> c_signed wrapv (sint x + sint y);
     Some (if x AND sb = y AND sb \<and> z AND sb \<noteq> x AND sb then Overflow else Fits z) }"

definition minus_ov :: "bool \<Rightarrow> c_long \<Rightarrow> c_long \<Rightarrow> c_long \<Rightarrow> c_long ov option" where
  "minus_ov wrapv sb x y = do {
     z \<leftarrow> c_signed wrapv (sint x - sint y);
     Some (if x AND sb \<noteq> y AND sb \<and> z AND sb \<noteq> x AND sb then Overflow else Fits z) }"

definition bignum_of :: "(bignum \<Rightarrow> bignum \<Rightarrow> bignum option) \<Rightarrow> c_long \<Rightarrow> c_long \<Rightarrow> num option" where
  "bignum_of f x y = do {
     bx \<leftarrow> bgl_long_to_bignum x; b_y \<leftarrow> bgl_long_to_bignum y;
     z \<leftarrow> f bx b_y;
     Some (Big z) }"

section \<open>The operations\<close>

definition bgl_safe_bignum_to_fixnum :: "gmp \<Rightarrow> bignum \<Rightarrow> num" where
  "bgl_safe_bignum_to_fixnum G bx =
     (let bs = mpz_sizeinbase G bx 2 in
      if bs < BGL_INT_BIT_SIZE then Fix (BINT (bgl_bignum_to_long G bx)) else Big bx)"

definition bgl_safe_plus_fx :: "bool \<Rightarrow> bool \<Rightarrow> gmp \<Rightarrow> c_long \<Rightarrow> c_long \<Rightarrow> num option" where
  "bgl_safe_plus_fx wrapv have_overflow G x y = do {
     r \<leftarrow> (if have_overflow then Some (checked (sint x + sint y)) else plus_ov wrapv C_LONG_SIGN_BIT x y);
     case r of
       Overflow \<Rightarrow> bignum_of (bgl_bignum_add G) x y
     | Fits z \<Rightarrow> Some (Fix (BINT z)) }"

definition bgl_safe_minus_fx :: "bool \<Rightarrow> bool \<Rightarrow> gmp \<Rightarrow> c_long \<Rightarrow> c_long \<Rightarrow> num option" where
  "bgl_safe_minus_fx wrapv have_overflow G x y = do {
     r \<leftarrow> (if have_overflow then Some (checked (sint x - sint y)) else minus_ov wrapv C_LONG_SIGN_BIT x y);
     case r of
       Overflow \<Rightarrow> bignum_of (bgl_bignum_sub G) x y
     | Fits z \<Rightarrow> Some (Fix (BINT z)) }"

definition bgl_safe_mul_fx :: "bool \<Rightarrow> bool \<Rightarrow> gmp \<Rightarrow> c_long \<Rightarrow> c_long \<Rightarrow> num option" where
  "bgl_safe_mul_fx wrapv have_overflow G x y =
     (if have_overflow then
        case checked (sint x * sint y) of
          Overflow \<Rightarrow> bignum_of (bgl_bignum_mul G) x y
        | Fits z \<Rightarrow> Some (Fix (BINT z))
      else if y = 0 \<or> x = 0 then Some (Fix (BINT 0))
      else do {
        p \<leftarrow> c_signed wrapv (sint x * sint y);
        let z = CINT (BINT p);
        q \<leftarrow> c_div z y;
        r \<leftarrow> (if q = x then c_mod z y else Some 1);
        if q = x \<and> r = 0 then Some (Fix (BINT z)) else bignum_of (bgl_bignum_mul G) x y })"

text \<open>\<open>bgl_bignum_div\<close> returns the quotient, and the remainder as a second value.\<close>

definition bgl_safe_quotient_fx :: "gmp \<Rightarrow> c_long \<Rightarrow> c_long \<Rightarrow> num option" where
  "bgl_safe_quotient_fx G x y =
     (if x = BGL_LONG_MIN \<and> y = -1 then bignum_of (\<lambda>a b. map_option fst (bgl_bignum_div G a b)) x y
      else do { q \<leftarrow> c_div x y; Some (Fix (BINT q)) })"

definition bgl_safe_plus_elong :: "bool \<Rightarrow> bool \<Rightarrow> gmp \<Rightarrow> c_long \<Rightarrow> c_long \<Rightarrow> num option" where
  "bgl_safe_plus_elong wrapv have_overflow G x y = do {
     r \<leftarrow> (if have_overflow then Some (checked (sint x + sint y)) else plus_ov wrapv C_ELONG_SIGN_BIT x y);
     case r of
       Overflow \<Rightarrow> bignum_of (bgl_bignum_add G) x y
     | Fits z \<Rightarrow> Some (Elong z) }"

definition bgl_safe_minus_elong :: "bool \<Rightarrow> bool \<Rightarrow> gmp \<Rightarrow> c_long \<Rightarrow> c_long \<Rightarrow> num option" where
  "bgl_safe_minus_elong wrapv have_overflow G x y = do {
     r \<leftarrow> (if have_overflow then Some (checked (sint x - sint y)) else minus_ov wrapv C_ELONG_SIGN_BIT x y);
     case r of
       Overflow \<Rightarrow> bignum_of (bgl_bignum_sub G) x y
     | Fits z \<Rightarrow> Some (Elong z) }"

definition bgl_safe_mul_elong :: "bool \<Rightarrow> bool \<Rightarrow> gmp \<Rightarrow> c_long \<Rightarrow> c_long \<Rightarrow> num option" where
  "bgl_safe_mul_elong wrapv have_overflow G x y =
     (if have_overflow then
        case checked (sint x * sint y) of
          Overflow \<Rightarrow> bignum_of (bgl_bignum_mul G) x y
        | Fits z \<Rightarrow> Some (Elong z)
      else if y = 0 then Some (Elong 0)
      else do {
        z \<leftarrow> c_signed wrapv (sint x * sint y);
        q \<leftarrow> c_div z y;
        if q = x then Some (Elong z) else bignum_of (bgl_bignum_mul G) x y })"

definition bgl_safe_quotient_elong :: "gmp \<Rightarrow> c_long \<Rightarrow> c_long \<Rightarrow> num option" where
  "bgl_safe_quotient_elong G x y =
     (if x = LONG_MIN \<and> y = -1 then bignum_of (\<lambda>a b. map_option fst (bgl_bignum_div G a b)) x y
      else do { q \<leftarrow> c_div x y; Some (Elong q) })"

text \<open>The operations on \<open>long long\<close> have no branch for the builtins; \<open>bgl_llong_to_bignum\<close> is
  \<open>bgl_long_to_bignum\<close> for integers of the same width.\<close>

definition bgl_safe_plus_llong :: "bool \<Rightarrow> gmp \<Rightarrow> c_long \<Rightarrow> c_long \<Rightarrow> num option" where
  "bgl_safe_plus_llong wrapv G x y = do {
     r \<leftarrow> plus_ov wrapv C_LLONG_SIGN_BIT x y;
     case r of
       Overflow \<Rightarrow> bignum_of (bgl_bignum_add G) x y
     | Fits z \<Rightarrow> Some (Llong z) }"

definition bgl_safe_minus_llong :: "bool \<Rightarrow> gmp \<Rightarrow> c_long \<Rightarrow> c_long \<Rightarrow> num option" where
  "bgl_safe_minus_llong wrapv G x y = do {
     r \<leftarrow> minus_ov wrapv C_LLONG_SIGN_BIT x y;
     case r of
       Overflow \<Rightarrow> bignum_of (bgl_bignum_sub G) x y
     | Fits z \<Rightarrow> Some (Llong z) }"

definition bgl_safe_mul_llong :: "bool \<Rightarrow> gmp \<Rightarrow> c_long \<Rightarrow> c_long \<Rightarrow> num option" where
  "bgl_safe_mul_llong wrapv G x y =
     (if y = 0 then Some (Llong 0)
      else do {
        z \<leftarrow> c_signed wrapv (sint x * sint y);
        q \<leftarrow> c_div z y;
        if q = x then Some (Llong z) else bignum_of (bgl_bignum_mul G) x y })"

definition bgl_safe_quotient_llong :: "gmp \<Rightarrow> c_long \<Rightarrow> c_long \<Rightarrow> num option" where
  "bgl_safe_quotient_llong G x y =
     (if x = LONG_MIN \<and> y = -1 then bignum_of (\<lambda>a b. map_option fst (bgl_bignum_div G a b)) x y
      else do { q \<leftarrow> c_div x y; Some (Llong q) })"

section \<open>What a result denotes\<close>

text \<open>A fixnum stands for the integer of its 61 bits.\<close>

fun num_denotes :: "num \<Rightarrow> int \<Rightarrow> bool" where
  "num_denotes (Fix o1) i \<longleftrightarrow> fixnum i \<and> o1 = BINT (word_of_int i)"
| "num_denotes (Elong z) i \<longleftrightarrow> sint z = i"
| "num_denotes (Llong z) i \<longleftrightarrow> sint z = i"
| "num_denotes (Big b) i \<longleftrightarrow> denotes b i"

fun is_big :: "num \<Rightarrow> bool" where
  "is_big (Big b) \<longleftrightarrow> True"
| "is_big _ \<longleftrightarrow> False"

text \<open>The contract of an operation: the result denotes \<open>i\<close>, and is a bignum exactly if \<open>\<not> fits\<close>.\<close>

definition yields :: "num option \<Rightarrow> int \<Rightarrow> bool \<Rightarrow> bool" where
  "yields r i fits \<longleftrightarrow> (\<exists>n. r = Some n \<and> num_denotes n i \<and> (is_big n \<longleftrightarrow> \<not> fits))"

lemma bignum_of_yields:
  assumes "\<And>a b. denotes a (sint x) \<Longrightarrow> denotes b (sint y) \<Longrightarrow> \<exists>z. f a b = Some z \<and> denotes z i"
  shows "yields (bignum_of f x y) i False"
proof -
  obtain a b where ab: "bgl_long_to_bignum x = Some a" "denotes a (sint x)" "bgl_long_to_bignum y = Some b" "denotes b (sint y)"
    using long_to_bignum_denotes by metis
  obtain z where "f a b = Some z" "denotes z i" using assms ab by blast
  with ab show ?thesis by (auto simp: yields_def bignum_of_def)
qed

lemma long_sums_yield:
  assumes "gmp_ok G"
  shows "yields (bignum_of (bgl_bignum_add G) x y) (sint x + sint y) False"
    and "yields (bignum_of (bgl_bignum_sub G) x y) (sint x - sint y) False"
    and "yields (bignum_of (bgl_bignum_mul G) x y) (sint x * sint y) False"
proof -
  show "yields (bignum_of (bgl_bignum_add G) x y) (sint x + sint y) False"
    "yields (bignum_of (bgl_bignum_sub G) x y) (sint x - sint y) False"
    by (auto intro!: bignum_of_yields add_denotes sub_denotes assms)
  show "yields (bignum_of (bgl_bignum_mul G) x y) (sint x * sint y) False"
  proof (rule bignum_of_yields)
    fix a b
    assume ab: "denotes a (sint x)" "denotes b (sint y)"
    have "BXABSIZ a \<le> 1" "BXABSIZ b \<le> 1"
      using one_limb [OF ab(1)] one_limb [OF ab(2)] sint_bounds [of x] sint_bounds [of y] by (simp_all add: abs_less_iff)
    then show "\<exists>z. bgl_bignum_mul G a b = Some z \<and> denotes z (sint x * sint y)"
      by (intro mul_denotes [OF assms ab]) simp
  qed
qed

lemma fst_div_yields:
  assumes "gmp_ok G" and "sint y \<noteq> 0"
  shows "yields (bignum_of (\<lambda>a b. map_option fst (bgl_bignum_div G a b)) x y)
    (sgn (sint x) * sgn (sint y) * (\<bar>sint x\<bar> div \<bar>sint y\<bar>)) False"
proof (rule bignum_of_yields)
  fix a b
  assume "denotes a (sint x)" "denotes b (sint y)"
  from div_denotes [OF assms(1) this assms(2)]
  show "\<exists>z. map_option fst (bgl_bignum_div G a b) = Some z \<and>
      denotes z (sgn (sint x) * sgn (sint y) * (\<bar>sint x\<bar> div \<bar>sint y\<bar>))"
    by auto
qed

lemma fixnum_short: "fixnum = short 60"
  by (simp add: fun_eq_iff fixnum_def short_def)

lemma Fix_yields: "fixnum i \<Longrightarrow> yields (Some (Fix (BINT (word_of_int i)))) i True"
  by (simp add: yields_def)

lemma fixnum_fits: "sint x = i \<Longrightarrow> fixnum i \<Longrightarrow> num_denotes (Fix (BINT x)) i"
  by auto

lemma c_div_mod_word:
  assumes "c_div z y = Some q"
  shows "\<exists>r. c_mod z y = Some r \<and> z = q * y + r"
proof -
  define a b where "a = sint z" and "b = sint y"
  let ?q = "sgn a * sgn b * (\<bar>a\<bar> div \<bar>b\<bar>)" and ?r = "sgn a * (\<bar>a\<bar> mod \<bar>b\<bar>)"
  have "sgn b * b = \<bar>b\<bar>" by (simp add: abs_sgn mult.commute)
  then have "?q * b = sgn a * (\<bar>a\<bar> div \<bar>b\<bar> * \<bar>b\<bar>)"
    by (metis mult.assoc mult.commute)
  then have "?q * b + ?r = sgn a * (\<bar>a\<bar> div \<bar>b\<bar> * \<bar>b\<bar> + \<bar>a\<bar> mod \<bar>b\<bar>)"
    by (simp only: distrib_left)
  also have "\<dots> = a" by (simp add: mult_sgn_abs)
  finally have "word_of_int (?q * b + ?r) = z" by (simp add: a_def)
  moreover have "word_of_int (?q * b + ?r) = word_of_int ?q * y + word_of_int ?r"
    by (simp add: b_def)
  moreover have "q = word_of_int ?q" "c_mod z y = Some (word_of_int ?r)"
    using assms by (auto simp: c_div_def c_mod_def a_def b_def split: if_splits)
  ultimately show ?thesis by auto
qed

lemma mul_div_exact:
  fixes x y :: "'a::len word"
  assumes "y \<noteq> 0" and "\<not> (sint x = - (2 ^ (LENGTH('a) - 1)) \<and> y = -1)"
  shows "\<exists>q. c_div (x * y) y = Some q \<and>
    (q = x \<longleftrightarrow> - (2 ^ (LENGTH('a) - 1)) \<le> sint x * sint y \<and> sint x * sint y < 2 ^ (LENGTH('a) - 1))"
proof -
  have t: "mul_test x y =
      Some (- (2 ^ (LENGTH('a) - 1)) \<le> sint x * sint y \<and> sint x * sint y < 2 ^ (LENGTH('a) - 1))"
    using mul_test_exact [OF assms(1), of x] assms(2) by auto
  then obtain q where q: "c_div (x * y) y = Some q"
    by (auto simp: mul_test_def Let_def split: Option.bind_splits)
  from c_div_mod_word [OF this] obtain r where r: "c_mod (x * y) y = Some r" "x * y = q * y + r" by blast
  then have "q = x \<longrightarrow> r = 0" by auto
  then show ?thesis using t q r(1) by (auto simp: mul_test_def Let_def split: if_splits)
qed

text \<open>The tests, for fixnums and for whole words.\<close>

lemma fx_tests:
  assumes "fixnum (sint x)" and "fixnum (sint y)"
  shows "plus_ov wrapv C_LONG_SIGN_BIT x y = Some (short_checked 60 (sint x + sint y))"
    and "minus_ov wrapv C_LONG_SIGN_BIT x y = Some (short_checked 60 (sint x - sint y))"
proof -
  have "short 63 (sint x + sint y)" "short 63 (sint x - sint y)" using assms by (auto simp: fixnum_def short_def)
  then show "plus_ov wrapv C_LONG_SIGN_BIT x y = Some (short_checked 60 (sint x + sint y))"
    "minus_ov wrapv C_LONG_SIGN_BIT x y = Some (short_checked 60 (sint x - sint y))"
    using saddl_short [of x y] subl_short [of x y] assms
    by (simp_all add: plus_ov_def minus_ov_def c_signed_def bgl_saddl_overflow_def bgl_subl_overflow_def fixnum_short Let_def)
qed

lemma long_tests:
  "plus_ov wrapv C_ELONG_SIGN_BIT x y = (if wrapv \<or> short 63 (sint x + sint y) then Some (checked (sint x + sint y)) else None)"
  "minus_ov wrapv C_ELONG_SIGN_BIT x y = (if wrapv \<or> short 63 (sint x - sint y) then Some (checked (sint x - sint y)) else None)"
  "plus_ov wrapv C_LLONG_SIGN_BIT x y = (if wrapv \<or> short 63 (sint x + sint y) then Some (checked (sint x + sint y)) else None)"
  "minus_ov wrapv C_LLONG_SIGN_BIT x y = (if wrapv \<or> short 63 (sint x - sint y) then Some (checked (sint x - sint y)) else None)"
  using add_overflow_iff [of x y] sub_overflow_iff [of x y]
  by (auto simp: plus_ov_def minus_ov_def c_signed_def checked_def sign_bits C_LLONG_SIGN_BIT_def simp flip: sign_bit_def)

lemma yieldsI: "num_denotes n i \<Longrightarrow> \<not> is_big n \<Longrightarrow> yields (Some n) i True"
  by (simp add: yields_def)

lemma short_checked_yields:
  assumes "yields big i False"
  shows "yields (case short_checked 60 i of Overflow \<Rightarrow> big | Fits z \<Rightarrow> Some (Fix (BINT z))) i (fixnum i)"
  using assms by (simp add: short_checked_def Fix_yields flip: fixnum_short)

lemma checked_yields:
  assumes "yields big i False" and "\<And>z. num_denotes (f z) (sint z) \<and> \<not> is_big (f z)"
  shows "yields (case checked i of Overflow \<Rightarrow> big | Fits (z :: c_long) \<Rightarrow> Some (f z)) i (short 63 i)"
proof (cases "short 63 i")
  case True
  then have "checked i = Fits (word_of_int i :: c_long)" "sint (word_of_int i :: c_long) = i"
    using sint_word_of_int_in [where 'a = 64, of i] by (simp_all add: checked_def short_def)
  with True assms(2) [of "word_of_int i"] show ?thesis by (simp add: yieldsI)
next
  case False
  then have "checked i = (Overflow :: c_long ov)" by (auto simp: checked_def short_def)
  with False assms(1) show ?thesis by simp
qed

lemma CINT_bounds: "fixnum (sint (CINT v))"
proof -
  have "sint (CINT v) = sint v div 8"
    by (simp add: CINT_def UNTAG_def TAG_SHIFT_def sint_signed_drop_bit_eq drop_bit_eq_div)
  moreover have "sint v div 8 * 8 + sint v mod 8 = sint v" "0 \<le> sint v mod 8" "sint v mod 8 < 8" by simp_all
  ultimately show ?thesis
    using sint_bounds [of v] unfolding fixnum_def by (simp only:) (simp; linarith)
qed

lemma fixnum_BINT:
  assumes "fixnum (sint x)"
  shows "CINT (BINT x) = x"
  using CINT_BINT [OF assms] by simp

text \<open>The product of fixnums: for any operands the test is exact for 61 bits.\<close>

lemma safe_mul_fx_yields:
  assumes "gmp_ok G"
  shows "if wrapv \<or> short 63 (sint x * sint y)
    then yields (bgl_safe_mul_fx wrapv False G x y) (sint x * sint y) (fixnum (sint x * sint y))
    else bgl_safe_mul_fx wrapv False G x y = None"
proof (cases "y = 0 \<or> x = 0")
  case True
  then show ?thesis using Fix_yields [of 0] by (auto simp: bgl_safe_mul_fx_def fixnum_def short_def)
next
  case False
  let ?z = "CINT (BINT (x * y))" and ?p = "sint x * sint y"
  have z: "fixnum (sint ?z)" by (rule CINT_bounds)
  then have "\<not> sint ?z = - (2 ^ (LENGTH(64) - 1))" by (simp add: fixnum_def)
  then obtain q r where qr: "c_div ?z y = Some q" "c_mod ?z y = Some r"
    using False by (simp add: c_div_def c_mod_def)
  have exact: "q = x \<and> r = 0 \<longleftrightarrow> fixnum ?p"
  proof
    assume "q = x \<and> r = 0"
    then have "sint ?z = ?p" using c_div_mod_mult [of ?z y x] qr by simp
    then show "fixnum ?p" using z by simp
  next
    assume p: "fixnum ?p"
    have "sint (x * y) = sint (word_of_int ?p :: c_long)" by simp
    also have "\<dots> = ?p" using p by (intro sint_word_of_int_in) (simp_all add: fixnum_def)
    finally have "?z = x * y" "sint ?z = ?p" using p fixnum_BINT [of "x * y"] by simp_all
    then show "q = x \<and> r = 0" using c_div_exact [of ?z x y] qr False z by (simp add: fixnum_def)
  qed
  have "bgl_safe_mul_fx wrapv False G x y = (if wrapv \<or> short 63 ?p
      then if fixnum ?p then Some (Fix (BINT ?z)) else bignum_of (bgl_bignum_mul G) x y else None)"
    using False qr exact by (auto simp: bgl_safe_mul_fx_def c_signed_def Let_def)
  moreover have "sint ?z = ?p" if "fixnum ?p"
    using exact that c_div_mod_mult [of ?z y x] qr by simp
  ultimately show ?thesis
    using long_sums_yield(3) [OF assms, of x y] by (auto intro!: yieldsI fixnum_fits)
qed

lemma trunc_fits:
  fixes a b h :: int
  assumes "- h \<le> a" and "a < h" and "b \<noteq> 0"
  shows "- h \<le> sgn a * sgn b * (\<bar>a\<bar> div \<bar>b\<bar>) \<and> sgn a * sgn b * (\<bar>a\<bar> div \<bar>b\<bar>) < h \<longleftrightarrow> \<not> (a = - h \<and> b = -1)"
proof -
  let ?d = "\<bar>a\<bar> div \<bar>b\<bar>"
  have d: "0 \<le> ?d" "?d \<le> \<bar>a\<bar>" using zdiv_mono2 [of "\<bar>a\<bar>" 1 "\<bar>b\<bar>"] assms(3) by (simp_all add: pos_imp_zdiv_nonneg_iff)
  have half: "2 * ?d \<le> \<bar>a\<bar>" if "\<bar>b\<bar> \<noteq> 1"
  proof -
    have "2 \<le> \<bar>b\<bar>" using that assms(3) by linarith
    then have "2 * ?d \<le> \<bar>b\<bar> * ?d" using d(1) by (intro mult_right_mono)
    also have "\<dots> \<le> \<bar>a\<bar>"
      using mult_div_mod_eq [of "\<bar>b\<bar>" "\<bar>a\<bar>"] pos_mod_sign [of "\<bar>b\<bar>" "\<bar>a\<bar>"] assms(3) by linarith
    finally show ?thesis .
  qed
  show ?thesis
  proof (cases "b = 1 \<or> b = -1")
    case True
    then show ?thesis using assms(1,2) by (auto simp: sgn_if)
  next
    case False
    then have "\<bar>b\<bar> \<noteq> 1" by linarith
    then have "2 * ?d \<le> \<bar>a\<bar>" by (rule half)
    then show ?thesis using False d assms by (cases "a = 0") (auto simp: sgn_if)
  qed
qed

lemma quotient_long:
  fixes x y :: c_long
  assumes "y \<noteq> 0" and "\<not> (x = LONG_MIN \<and> y = -1)"
  shows "\<exists>q. c_div x y = Some q \<and> sint q = sgn (sint x) * sgn (sint y) * (\<bar>sint x\<bar> div \<bar>sint y\<bar>)"
proof -
  have nz: "sint y \<noteq> 0" using assms(1) sint_eq_iff [of y 0] by simp
  have m: "\<not> (sint x = - (2 ^ 63) \<and> sint y = -1)"
    using assms(2) sint_eq_iff [of x LONG_MIN] sint_eq_iff [of y "-1"] by (simp add: LONG_MIN_def)
  have "sint (word_of_int (sgn (sint x) * sgn (sint y) * (\<bar>sint x\<bar> div \<bar>sint y\<bar>)) :: c_long) =
      sgn (sint x) * sgn (sint y) * (\<bar>sint x\<bar> div \<bar>sint y\<bar>)"
    using trunc_fits [of "2 ^ 63" "sint x" "sint y"] sint_bounds [of x] nz m
    by (intro sint_word_of_int_in) simp_all
  moreover have "\<not> (y = 0 \<or> (sint x = - (2 ^ (LENGTH(64) - 1)) \<and> y = -1))" using assms(1) m by auto
  ultimately show ?thesis unfolding c_div_def by simp
qed

lemma quotient_yields:
  assumes "gmp_ok G" and "y \<noteq> 0"
  shows "x = LONG_MIN \<and> y = -1 \<Longrightarrow>
      yields (bignum_of (\<lambda>a b. map_option fst (bgl_bignum_div G a b)) x y)
        (sgn (sint x) * sgn (sint y) * (\<bar>sint x\<bar> div \<bar>sint y\<bar>)) False"
  using fst_div_yields [OF assms(1), of y x] by (auto simp: LONG_MIN_def)

text \<open>The bignums that are turned back to fixnums.\<close>

lemma small_bignum:
  assumes "gmp_ok G" and "denotes b i"
  shows "mpz_sizeinbase G b 2 < 61 \<longleftrightarrow> \<bar>i\<bar> < 2 ^ 60"
proof
  assume "mpz_sizeinbase G b 2 < 61"
  then have "(2::int) ^ mpz_sizeinbase G b 2 \<le> 2 ^ 60" by (intro power_increasing) auto
  then show "\<bar>i\<bar> < 2 ^ 60" using unaryD(5) [OF assms] by linarith
next
  assume i: "\<bar>i\<bar> < 2 ^ 60"
  show "mpz_sizeinbase G b 2 < 61"
  proof (rule ccontr)
    assume *: "\<not> mpz_sizeinbase G b 2 < 61"
    then have "(2::int) ^ 60 \<le> 2 ^ (mpz_sizeinbase G b 2 - 1)" by (intro power_increasing) auto
    then show False using * unaryD(6) [OF assms] unaryD(4) [OF assms] i by (cases "i = 0") auto
  qed
qed

lemma bignum_to_fixnum_yields:
  assumes "gmp_ok G" and "denotes b i"
  shows "yields (Some (bgl_safe_bignum_to_fixnum G b)) i (\<bar>i\<bar> < 2 ^ 60)"
proof (cases "mpz_sizeinbase G b 2 < 61")
  case True
  then have "\<bar>i\<bar> < 2 ^ 60" using small_bignum [OF assms] by blast
  then have "fixnum i" by (auto simp: fixnum_def abs_less_iff)
  then have "fixnum i" "sint (mpz_get_si G b) = i" using unaryD(3) [OF assms] by (simp_all add: fixnum_def)
  with True small_bignum [OF assms] show ?thesis
    by (auto simp: bgl_safe_bignum_to_fixnum_def BGL_INT_BIT_SIZE_def bgl_bignum_to_long_def intro!: yieldsI fixnum_fits)
next
  case False
  with small_bignum [OF assms] assms(2) show ?thesis
    by (simp add: bgl_safe_bignum_to_fixnum_def BGL_INT_BIT_SIZE_def yields_def)
qed

lemma sint_LONG_MIN: "x = LONG_MIN \<longleftrightarrow> sint x = - (2 ^ 63)"
  using sint_eq_iff [of x LONG_MIN] by (simp add: LONG_MIN_def)

lemma sint_zero_word: "y = 0 \<longleftrightarrow> sint y = 0"
  using sint_eq_iff [of y 0] by simp

text \<open>The portable product of words; \<open>mk\<close> is the constructor of the machine type.\<close>

lemma portable_mul_yields:
  assumes "gmp_ok G" and "\<not> (x = LONG_MIN \<and> y = -1)" and mk: "\<And>z. num_denotes (mk z) (sint z) \<and> \<not> is_big (mk z)"
  shows "yields (if y = 0 then Some (mk 0) else do {
       z \<leftarrow> c_signed True (sint x * sint y);
       q \<leftarrow> c_div z y;
       if q = x then Some (mk z) else bignum_of (bgl_bignum_mul G) x y }) (sint x * sint y) (short 63 (sint x * sint y))"
proof (cases "y = 0")
  case True
  then show ?thesis using mk [of 0] by (simp add: yieldsI short_def)
next
  case False
  then obtain q where q: "c_div (x * y) y = Some q"
    "q = x \<longleftrightarrow> - (2 ^ 63) \<le> sint x * sint y \<and> sint x * sint y < 2 ^ 63"
    using mul_div_exact [of y x] assms(2) by (auto simp: sint_LONG_MIN)
  show ?thesis
  proof (cases "q = x")
    case True
    then have "short 63 (sint x * sint y)" using q(2) by (simp add: short_def)
    moreover from this have "sint (word_of_int (sint x * sint y) :: c_long) = sint x * sint y"
      by (intro sint_word_of_int_in) (simp_all add: short_def)
    then have "sint (x * y) = sint x * sint y" by simp
    ultimately show ?thesis using False q(1) True mk [of "x * y"] by (simp add: c_signed_def yieldsI)
  next
    case other: False
    then have "\<not> short 63 (sint x * sint y)" using q(2) by (auto simp: short_def)
    with False q(1) other long_sums_yield(3) [OF assms(1), of x y] show ?thesis by (simp add: c_signed_def)
  qed
qed

lemma portable_product:
  fixes mk :: "c_long \<Rightarrow> num" and x y :: c_long and wrapv :: bool
  assumes "gmp_ok G" and mk: "\<And>z. num_denotes (mk z) (sint z) \<and> \<not> is_big (mk z)"
  defines "r \<equiv> if y = 0 then Some (mk 0) else do {
       z \<leftarrow> c_signed wrapv (sint x * sint y);
       q \<leftarrow> c_div z y;
       if q = x then Some (mk z) else bignum_of (bgl_bignum_mul G) x y }"
  shows "if short 63 (sint x * sint y) \<or> (wrapv \<and> (x \<noteq> LONG_MIN \<or> y \<noteq> -1))
    then yields r (sint x * sint y) (short 63 (sint x * sint y)) else r = None"
proof -
  have same: "c_signed wrapv (sint x * sint y) = c_signed True (sint x * sint y)" if "wrapv \<or> short 63 (sint x * sint y)"
    using that by (auto simp: c_signed_def)
  have zero: "short 63 (sint x * sint y)" if "y = 0" using that by (simp add: short_def)
  have long: "\<not> short 63 (sint x * sint y)" if "x = LONG_MIN" "y = -1"
    using that by (simp add: short_def LONG_MIN_def)
  show ?thesis
  proof (cases "x = LONG_MIN \<and> y = -1")
    case True
    then have "c_div (x * y) y = None" "y \<noteq> 0" by (auto simp: c_div_def LONG_MIN_def)
    then have "r = None" using True long by (auto simp: r_def c_signed_def)
    then show ?thesis using True long by auto
  next
    case False
    note y = portable_mul_yields [OF assms(1) False mk]
    show ?thesis
    proof (cases "wrapv \<or> short 63 (sint x * sint y)")
      case True
      then show ?thesis using y False unfolding r_def same [OF True] by auto
    next
      case undef: False
      then show ?thesis using zero by (auto simp: r_def c_signed_def)
    qed
  qed
qed

lemma long_quotient_yields:
  fixes x y :: c_long
  assumes "gmp_ok G" and "y \<noteq> 0" and mk: "\<And>z. num_denotes (mk z) (sint z) \<and> \<not> is_big (mk z)"
  defines "i \<equiv> sgn (sint x) * sgn (sint y) * (\<bar>sint x\<bar> div \<bar>sint y\<bar>)"
  shows "yields (if x = LONG_MIN \<and> y = -1 then bignum_of (\<lambda>a b. map_option fst (bgl_bignum_div G a b)) x y
     else do { q \<leftarrow> c_div x y; Some (mk q) }) i (short 63 i)"
proof -
  have nz: "sint y \<noteq> 0" using assms(2) by (simp add: sint_zero_word)
  have fits: "short 63 i \<longleftrightarrow> \<not> (x = LONG_MIN \<and> y = -1)"
    using trunc_fits [of "2 ^ 63" "sint x" "sint y"] sint_bounds [of x] nz sint_eq_iff [of y "-1"]
    by (simp add: short_def i_def sint_LONG_MIN)
  show ?thesis
  proof (cases "x = LONG_MIN \<and> y = -1")
    case True
    then have "\<not> short 63 i" using fits by blast
    then have "short 63 i = False" by simp
    then show ?thesis using fst_div_yields [OF assms(1) nz, of x] unfolding if_P [OF True] i_def by (simp only:)
  next
    case False
    then obtain q where "c_div x y = Some q" "sint q = i" using quotient_long [OF assms(2)] by (auto simp: i_def)
    moreover have "short 63 i" using False fits by blast
    ultimately show ?thesis using False mk [of q] by (auto intro: yieldsI)
  qed
qed

section \<open>Properties\<close>

text \<open>C15: from fixnums the portable generic operations give the exact result, as a fixnum exactly when it
  fits in 61 bits and as a bignum otherwise, with no trap of the machine (the product of a product test
  included), and a bignum of less than 61 bits is turned back to its fixnum. The product needs, for operands whose product
  does not fit in 64 bits, that signed arithmetic wraps; otherwise its behaviour is undefined there. The sum and
  the difference do not.\<close>

theorem safe_fixnums:
  assumes "gmp_ok G" and "fixnum (sint x)" and "fixnum (sint y)" and "denotes b i"
  shows "yields (bgl_safe_plus_fx wrapv False G x y) (sint x + sint y) (fixnum (sint x + sint y)) \<and>
    yields (bgl_safe_minus_fx wrapv False G x y) (sint x - sint y) (fixnum (sint x - sint y)) \<and>
    yields (bgl_safe_mul_fx True False G x y) (sint x * sint y) (fixnum (sint x * sint y)) \<and>
    (if short 63 (sint x * sint y) then yields (bgl_safe_mul_fx False False G x y) (sint x * sint y) (fixnum (sint x * sint y))
     else bgl_safe_mul_fx False False G x y = None) \<and>
    (let q = sgn (sint x) * sgn (sint y) * (\<bar>sint x\<bar> div \<bar>sint y\<bar>) in
     if y = 0 then bgl_safe_quotient_fx G x y = None else yields (bgl_safe_quotient_fx G x y) q (fixnum q)) \<and>
    yields (Some (bgl_safe_bignum_to_fixnum G b)) i (\<bar>i\<bar> < 2 ^ 60)"
proof -
  let ?q = "sgn (sint x) * sgn (sint y) * (\<bar>sint x\<bar> div \<bar>sint y\<bar>)"
  note big = long_sums_yield [OF assms(1), of x y]
  have sums: "yields (bgl_safe_plus_fx wrapv False G x y) (sint x + sint y) (fixnum (sint x + sint y))"
    "yields (bgl_safe_minus_fx wrapv False G x y) (sint x - sint y) (fixnum (sint x - sint y))"
    using short_checked_yields [OF big(1)] short_checked_yields [OF big(2)] fx_tests [OF assms(2,3)]
    by (simp_all add: bgl_safe_plus_fx_def bgl_safe_minus_fx_def)
  have quot: "yields (bgl_safe_quotient_fx G x y) ?q (fixnum ?q)" if "y \<noteq> 0"
  proof -
    have nz: "sint y \<noteq> 0" using that sint_eq_iff [of y 0] by simp
    have fits: "fixnum ?q \<longleftrightarrow> \<not> (x = BGL_LONG_MIN \<and> y = -1)"
      using trunc_fits [of "2 ^ 60" "sint x" "sint y"] assms(2) nz sint_eq_iff [of x BGL_LONG_MIN] sint_eq_iff [of y "-1"]
      by (simp add: fixnum_def BGL_LONG_MIN_def LONG_MIN_def TAG_SHIFT_def sint_signed_drop_bit_eq)
    have "x \<noteq> LONG_MIN" using assms(2) by (auto simp: fixnum_def LONG_MIN_def)
    then show ?thesis
      using quotient_long [OF that, of x] fits fst_div_yields [OF assms(1) nz, of x]
      by (auto simp: bgl_safe_quotient_fx_def intro!: yieldsI fixnum_fits)
  qed
  have "bgl_safe_quotient_fx G x y = None" if "y = 0"
    using that by (simp add: bgl_safe_quotient_fx_def c_div_def)
  moreover have "yields (bgl_safe_mul_fx True False G x y) (sint x * sint y) (fixnum (sint x * sint y))"
    "if short 63 (sint x * sint y) then yields (bgl_safe_mul_fx False False G x y) (sint x * sint y) (fixnum (sint x * sint y))
     else bgl_safe_mul_fx False False G x y = None"
    using safe_mul_fx_yields [OF assms(1), where wrapv = True] safe_mul_fx_yields [OF assms(1), where wrapv = False]
    by simp_all
  ultimately show ?thesis
    unfolding Let_def by (intro conjI sums bignum_to_fixnum_yields [OF assms(1,4)]) (use quot in simp_all)
qed

theorem safe_fixnums_witness:
  "yields (bgl_safe_plus_fx False False gmp_ref (2 ^ 60 - 1) 1) (sint (2 ^ 60 - 1 :: c_long) + sint (1 :: c_long))
     (fixnum (sint (2 ^ 60 - 1 :: c_long) + sint (1 :: c_long)))"
  using safe_fixnums [OF gmp_ref_ok _ _ mpz_of_denotes [of 5], of "2 ^ 60 - 1" 1] by (simp add: fixnum_def)

text \<open>C26: on whole words (\<open>elong\<close>, with and without the builtins, and \<open>long long\<close>, which never uses them) the
  generic operations give the exact result, in the machine type exactly when it fits in 64 bits, when the builtins are
  used, or the exact result fits, or the compiler makes signed arithmetic wrap. Otherwise the portable code computes the
  result in a signed word before it tests for the overflow, and its behaviour is undefined, so that a bignum is never
  promised. Even with wrapping, the portable product divides the most negative word by minus one, which traps. The
  quotient is always exact.\<close>

theorem safe_longs:
  assumes "gmp_ok G"
  shows "(if wrapv \<or> ov \<or> short 63 (sint x + sint y)
      then yields (bgl_safe_plus_elong wrapv ov G x y) (sint x + sint y) (short 63 (sint x + sint y))
      else bgl_safe_plus_elong wrapv ov G x y = None) \<and>
    (if wrapv \<or> ov \<or> short 63 (sint x - sint y)
      then yields (bgl_safe_minus_elong wrapv ov G x y) (sint x - sint y) (short 63 (sint x - sint y))
      else bgl_safe_minus_elong wrapv ov G x y = None) \<and>
    (if ov \<or> short 63 (sint x * sint y) \<or> (wrapv \<and> (x \<noteq> LONG_MIN \<or> y \<noteq> -1))
      then yields (bgl_safe_mul_elong wrapv ov G x y) (sint x * sint y) (short 63 (sint x * sint y))
      else bgl_safe_mul_elong wrapv ov G x y = None) \<and>
    (if wrapv \<or> short 63 (sint x + sint y)
      then yields (bgl_safe_plus_llong wrapv G x y) (sint x + sint y) (short 63 (sint x + sint y))
      else bgl_safe_plus_llong wrapv G x y = None) \<and>
    (if wrapv \<or> short 63 (sint x - sint y)
      then yields (bgl_safe_minus_llong wrapv G x y) (sint x - sint y) (short 63 (sint x - sint y))
      else bgl_safe_minus_llong wrapv G x y = None) \<and>
    (if short 63 (sint x * sint y) \<or> (wrapv \<and> (x \<noteq> LONG_MIN \<or> y \<noteq> -1))
      then yields (bgl_safe_mul_llong wrapv G x y) (sint x * sint y) (short 63 (sint x * sint y))
      else bgl_safe_mul_llong wrapv G x y = None) \<and>
    (let q = sgn (sint x) * sgn (sint y) * (\<bar>sint x\<bar> div \<bar>sint y\<bar>) in
     if y = 0 then bgl_safe_quotient_elong G x y = None \<and> bgl_safe_quotient_llong G x y = None
     else yields (bgl_safe_quotient_elong G x y) q (short 63 q) \<and> yields (bgl_safe_quotient_llong G x y) q (short 63 q))"
proof -
  note big = long_sums_yield [OF assms, of x y]
  note sums = checked_yields [OF big(1), of Elong] checked_yields [OF big(2), of Elong]
    checked_yields [OF big(1), of Llong] checked_yields [OF big(2), of Llong]
  have plus: "if wrapv \<or> ov \<or> short 63 (sint x + sint y)
      then yields (bgl_safe_plus_elong wrapv ov G x y) (sint x + sint y) (short 63 (sint x + sint y))
      else bgl_safe_plus_elong wrapv ov G x y = None"
    and minus: "if wrapv \<or> ov \<or> short 63 (sint x - sint y)
      then yields (bgl_safe_minus_elong wrapv ov G x y) (sint x - sint y) (short 63 (sint x - sint y))
      else bgl_safe_minus_elong wrapv ov G x y = None"
    using sums by (auto simp: bgl_safe_plus_elong_def bgl_safe_minus_elong_def long_tests)
  have lplus: "if wrapv \<or> short 63 (sint x + sint y)
      then yields (bgl_safe_plus_llong wrapv G x y) (sint x + sint y) (short 63 (sint x + sint y))
      else bgl_safe_plus_llong wrapv G x y = None"
    and lminus: "if wrapv \<or> short 63 (sint x - sint y)
      then yields (bgl_safe_minus_llong wrapv G x y) (sint x - sint y) (short 63 (sint x - sint y))
      else bgl_safe_minus_llong wrapv G x y = None"
    using sums by (auto simp: bgl_safe_plus_llong_def bgl_safe_minus_llong_def long_tests)
  have builtin: "yields (bgl_safe_mul_elong wrapv True G x y) (sint x * sint y) (short 63 (sint x * sint y))"
    using checked_yields [OF big(3), of Elong] by (simp add: bgl_safe_mul_elong_def)
  note portable = portable_product [OF assms, of Elong x y wrapv] portable_product [OF assms, of Llong x y wrapv]
  have mul: "if ov \<or> short 63 (sint x * sint y) \<or> (wrapv \<and> (x \<noteq> LONG_MIN \<or> y \<noteq> -1))
      then yields (bgl_safe_mul_elong wrapv ov G x y) (sint x * sint y) (short 63 (sint x * sint y))
      else bgl_safe_mul_elong wrapv ov G x y = None"
    using builtin portable(1) by (cases ov) (simp_all add: bgl_safe_mul_elong_def)
  have lmul: "if short 63 (sint x * sint y) \<or> (wrapv \<and> (x \<noteq> LONG_MIN \<or> y \<noteq> -1))
      then yields (bgl_safe_mul_llong wrapv G x y) (sint x * sint y) (short 63 (sint x * sint y))
      else bgl_safe_mul_llong wrapv G x y = None"
    using portable(2) by (simp add: bgl_safe_mul_llong_def)
  have quot0: "bgl_safe_quotient_elong G x y = None \<and> bgl_safe_quotient_llong G x y = None" if "y = 0"
    using that by (simp add: bgl_safe_quotient_elong_def bgl_safe_quotient_llong_def c_div_def)
  have quot: "yields (bgl_safe_quotient_elong G x y) (sgn (sint x) * sgn (sint y) * (\<bar>sint x\<bar> div \<bar>sint y\<bar>))
      (short 63 (sgn (sint x) * sgn (sint y) * (\<bar>sint x\<bar> div \<bar>sint y\<bar>)))"
    "yields (bgl_safe_quotient_llong G x y) (sgn (sint x) * sgn (sint y) * (\<bar>sint x\<bar> div \<bar>sint y\<bar>))
      (short 63 (sgn (sint x) * sgn (sint y) * (\<bar>sint x\<bar> div \<bar>sint y\<bar>)))" if "y \<noteq> 0"
    unfolding bgl_safe_quotient_elong_def bgl_safe_quotient_llong_def
    by (rule long_quotient_yields [OF assms that]; simp)+
  show ?thesis
    unfolding Let_def by (intro conjI plus minus mul lplus lminus lmul) (use quot quot0 in simp)
qed

theorem safe_longs_witness:
  "bgl_safe_mul_elong True False gmp_ref LONG_MIN (-1) = None \<and> bgl_safe_plus_llong False gmp_ref LONG_MAX 1 = None \<and>
   yields (bgl_safe_plus_elong False True gmp_ref LONG_MAX 1) (2 ^ 63) False"
proof -
  have "sint LONG_MAX = 2 ^ 63 - 1" "sint (1 :: c_long) = 1" "sint LONG_MIN = - (2 ^ 63)" "sint (-1 :: c_long) = -1"
    by (simp_all add: LONG_MAX_def LONG_MIN_def)
  then show ?thesis
    using safe_longs [OF gmp_ref_ok, of True False LONG_MIN "-1"] safe_longs [OF gmp_ref_ok, of False True LONG_MAX 1]
      safe_longs [OF gmp_ref_ok, of False False LONG_MAX 1]
    by (simp add: short_def)
qed

text \<open>With the builtins, the fixnum operations test for an overflow of 64 bits and not of 61: a sum
  between is tagged, which loses its upper bits.\<close>

lemma builtin_sum_wraps:
  assumes "fixnum (sint x)" and "fixnum (sint y)"
  shows "bgl_safe_plus_fx wrapv True G x y = Some (Fix (BINT (x + y)))"
  using assms by (simp add: bgl_safe_plus_fx_def checked_def fixnum_def)

lemma builtin_sum_wraps_at: "bgl_safe_plus_fx wrapv True G (2 ^ 60 - 1) 1 = Some (Fix (BINT (- (2 ^ 60))))"
  using builtin_sum_wraps [of "2 ^ 60 - 1" 1 wrapv G]
  by (simp add: fixnum_def BINT_def TAG_def TAG_SHIFT_def TAG_INT_def push_bit_eq_mult)

end
