(* ===== verification/Iport.thy ===== *)
theory Iport
  imports Bstring
begin

text \<open>
  Input ports: the structure \<open>bgl_input_port\<close> and the operations of \<open>runtime/Clib/cports.c\<close> that
  create, reposition and reset them, and the functions that ports call through their field \<open>sysread\<close>. The
  buffer operations of \<open>crgc.c\<close> are in theory \<open>Rgc\<close>.
\<close>

section \<open>Ports\<close>

datatype port_kind =
    KINDOF_FILE | KINDOF_CONSOLE | KINDOF_SOCKET | KINDOF_PROCPIPE | KINDOF_PIPE | KINDOF_VIRTUAL | KINDOF_STRING
  | KINDOF_CLOSED | KINDOF_PROCEDURE | KINDOF_GZIP | KINDOF_BZIP2 | KINDOF_TIMEOUT | KINDOF_DATAGRAM | KINDOF_MMAP | KINDOF_UNUSED

text \<open>The last field is what the kind of port adds: the file, the mapping, the procedure with its buffer.\<close>

record 'd input_port =
  kindof :: port_kind
  filepos :: int
  fillbarrier :: int
  iport_length :: int
  eof :: bool
  matchstart :: int
  matchstop :: int
  forward :: int
  bufpos :: int
  lastchar :: u8
  buf :: bgl_string
  dev :: 'd

definition newline :: u8 where "newline = 10"

definition INPUT_PORT_CLOSEP :: "('d, 'e) input_port_scheme \<Rightarrow> bool" where
  "INPUT_PORT_CLOSEP p \<longleftrightarrow> kindof p = KINDOF_CLOSED"

definition BGL_INPUT_PORT_BUFSIZ :: "('d, 'e) input_port_scheme \<Rightarrow> int" where
  "BGL_INPUT_PORT_BUFSIZ p = int (str_length (buf p))"

definition RGC_BUFFER_AVAILABLE :: "('d, 'e) input_port_scheme \<Rightarrow> int" where
  "RGC_BUFFER_AVAILABLE p = bufpos p - matchstop p"

definition RGC_BUFFER_MATCH_LENGTH :: "('d, 'e) input_port_scheme \<Rightarrow> int" where
  "RGC_BUFFER_MATCH_LENGTH p = matchstop p - matchstart p"

definition INPUT_PORT_FILLBARRIER_SET :: "'d input_port \<Rightarrow> int \<Rightarrow> 'd input_port" where
  "INPUT_PORT_FILLBARRIER_SET p v = p\<lparr>fillbarrier := v - RGC_BUFFER_AVAILABLE p\<rparr>"

definition RGC_BUFFER_REF :: "'d input_port \<Rightarrow> int \<Rightarrow> u8 option" where
  "RGC_BUFFER_REF p i = do { k \<leftarrow> idx i; rd (char0 (buf p)) k }"

definition RGC_BUFFER_SET :: "'d input_port \<Rightarrow> int \<Rightarrow> u8 \<Rightarrow> 'd input_port option" where
  "RGC_BUFFER_SET p i c = do { k \<leftarrow> idx i; m \<leftarrow> wr (char0 (buf p)) k c; Some (p\<lparr>buf := (buf p)\<lparr>char0 := m\<rparr>\<rparr>) }"

definition RGC_START_MATCH :: "'d input_port \<Rightarrow> 'd input_port" where
  "RGC_START_MATCH p = p\<lparr>forward := matchstop p, matchstart := matchstop p\<rparr>"

definition RGC_STOP_MATCH :: "'d input_port \<Rightarrow> int \<Rightarrow> 'd input_port" where
  "RGC_STOP_MATCH p fwd = p\<lparr>matchstop := fwd\<rparr>"

definition RGC_SET_FILEPOS :: "'d input_port \<Rightarrow> 'd input_port" where
  "RGC_SET_FILEPOS p = p\<lparr>filepos := filepos p + RGC_BUFFER_MATCH_LENGTH p\<rparr>"

section \<open>Reading from the device\<close>

text \<open>
  A call of \<open>sysread(port, ptr, num)\<close>: the bytes stored at \<open>ptr\<close>, whether the function sets the flag
  \<open>eof\<close> of the port, and the device after it; or a negative result, with whether \<open>errno\<close> is
  \<open>ECONNRESET\<close> and the message of the error. \<open>None\<close>: the function does not return, or is undefined.
\<close>

datatype 'd read_result = Read_Error bool string | Read "u8 list" bool 'd

type_synonym 'd reader = "'d \<Rightarrow> int \<Rightarrow> 'd read_result option"

definition bgl_eof_read :: "'d reader" where
  "bgl_eof_read d num = Some (Read [] False d)"

text \<open>The system call \<open>read\<close> on a file: a parameter. \<open>Os_data []\<close> is the return of 0.\<close>

datatype os_read = Os_data "u8 list" | Os_EINTR | Os_error bool string

partial_function (option) bgl_read :: "('f \<Rightarrow> int \<Rightarrow> os_read \<times> 'f) \<Rightarrow> 'f \<Rightarrow> int \<Rightarrow> 'f read_result option" where
  "bgl_read os_read file num =
     (case os_read file num of
        (Os_data bs, file) \<Rightarrow> Some (Read bs (bs = []) file)
      | (Os_EINTR, file) \<Rightarrow> bgl_read os_read file num
      | (Os_error reset msg, file) \<Rightarrow> Some (Read_Error reset msg))"

record mmap_port =
  map_data :: "u8 cells"
  map_start :: int
  map_end :: int
  map_offset :: int

definition bgl_input_mmap_read :: "mmap_port reader" where
  "bgl_input_mmap_read d sz =
     (let available = map_end d - map_offset d in
      if available > 0 then do {
        let n = (if available > sz then sz else available);
        i \<leftarrow> idx (map_offset d); k \<leftarrow> idx n;
        bs \<leftarrow> rds (map_data d) i k;
        Some (Read bs (n = available) (d\<lparr>map_offset := map_offset d + n\<rparr>)) }
      else Some (Read [] False d))"

text \<open>
  Procedure ports: the Scheme procedure is a parameter that maps its state to its result. The buffer is
  \<open>None\<close> when \<open>pbuffer\<close> is not a string.
\<close>

datatype proc_result = Proc_String "u8 list" | Proc_False | Proc_Other

record 's proc_port =
  pbuffer :: "u8 list option"
  pbufpos :: int
  proc :: 's

definition proc_take :: "u8 list \<Rightarrow> 's proc_port \<Rightarrow> int \<Rightarrow> 's proc_port read_result option" where
  "proc_take s d l = do {
     p \<leftarrow> idx (pbufpos d);
     let r = int (length s) - int p;
     if r \<le> l then Some (Read (drop p s) False (d\<lparr>pbuffer := None, pbufpos := 0\<rparr>))
     else do { n \<leftarrow> idx l; Some (Read (take n (drop p s)) False (d\<lparr>pbufpos := pbufpos d + l\<rparr>)) } }"

definition bgl_proc_read :: "('s \<Rightarrow> proc_result \<times> 's) \<Rightarrow> 's proc_port reader" where
  "bgl_proc_read call d l =
     (case pbuffer d of
        Some s \<Rightarrow> proc_take s d l
      | None \<Rightarrow>
          case call (proc d) of
            (Proc_String s, st) \<Rightarrow> proc_take s (d\<lparr>proc := st, pbuffer := Some s\<rparr>) l
          | (Proc_False, st) \<Rightarrow> Some (Read [] True (d\<lparr>proc := st\<rparr>))
          | (Proc_Other, st) \<Rightarrow> Some (Read_Error False ''Procedure result must be #f, or a string''))"

section \<open>Creation\<close>

definition bgl_make_input_port :: "'d \<Rightarrow> port_kind \<Rightarrow> bgl_string \<Rightarrow> 'd input_port" where
  "bgl_make_input_port d kind b =
     \<lparr>kindof = kind, filepos = 0, fillbarrier = -1, iport_length = -1, eof = False, matchstart = 0, matchstop = 0,
      forward = 0, bufpos = 0, lastchar = newline, buf = b, dev = d\<rparr>"

definition bgl_input_port_buffer_set :: "'d input_port \<Rightarrow> bgl_string \<Rightarrow> 'd input_port" where
  "bgl_input_port_buffer_set p buffer =
     (let p = p\<lparr>buf := buffer, matchstart := 0, matchstop := 0, forward := 0, bufpos := 0, lastchar := newline\<rparr> in
      if kindof p = KINDOF_STRING then p\<lparr>iport_length := int (str_length buffer)\<rparr> else p)"

text \<open>The device of a string port is the field \<open>offset\<close> of the structure.\<close>

definition bgl_open_input_substring_bang :: "bgl_string \<Rightarrow> int \<Rightarrow> int \<Rightarrow> int input_port" where
  "bgl_open_input_substring_bang buffer offset end' =
     (bgl_make_input_port offset KINDOF_STRING buffer)
       \<lparr>eof := True, bufpos := end', iport_length := end', matchstart := offset, matchstop := offset\<rparr>"

definition bgl_open_input_substring :: "bgl_string \<Rightarrow> int \<Rightarrow> int \<Rightarrow> int input_port option" where
  "bgl_open_input_substring str offset end' = do {
     let len = end' - offset;
     buffer \<leftarrow> make_string_sans_fill len;
     n \<leftarrow> idx len; i \<leftarrow> idx offset;
     m \<leftarrow> blit (char0 buffer) 0 (char0 str) i n;
     Some (bgl_open_input_substring_bang (buffer\<lparr>char0 := m\<rparr>) 0 len) }"

definition bgl_open_input_string :: "bgl_string \<Rightarrow> int \<Rightarrow> int input_port option" where
  "bgl_open_input_string buffer offset = bgl_open_input_substring buffer offset (int (str_length buffer))"

definition bgl_open_input_c_string :: "u8 cells \<Rightarrow> int input_port option" where
  "bgl_open_input_c_string c_str = do {
     bufsiz \<leftarrow> strlen_from c_str 0;
     buffer \<leftarrow> string_to_bstring_len (Some c_str) (int bufsiz);
     bgl_open_input_substring buffer 0 (int bufsiz) }"

definition bgl_reopen_input_c_string :: "'d input_port \<Rightarrow> u8 cells \<Rightarrow> 'd input_port option" where
  "bgl_reopen_input_c_string p c_str = do {
     bufsiz \<leftarrow> strlen_from c_str 0;
     b \<leftarrow> (if BGL_INPUT_PORT_BUFSIZ p < int bufsiz + 1 then make_string_sans_fill (int bufsiz + 1) else Some (buf p));
     let p = p\<lparr>buf := b, bufpos := int bufsiz, matchstart := 0, matchstop := 0, forward := 0, lastchar := newline,
       kindof := KINDOF_STRING\<rparr>;
     m \<leftarrow> blit (char0 b) 0 c_str 0 (bufsiz + 1);
     Some (p\<lparr>buf := b\<lparr>char0 := m\<rparr>\<rparr>) }"

definition bgl_open_input_mmap :: "u8 cells \<Rightarrow> bgl_string \<Rightarrow> int \<Rightarrow> int \<Rightarrow> mmap_port input_port" where
  "bgl_open_input_mmap mmap buffer offset end' =
     (bgl_make_input_port \<lparr>map_data = mmap, map_start = offset, map_end = end', map_offset = offset\<rparr> KINDOF_MMAP buffer)
       \<lparr>iport_length := end' - offset\<rparr>"

text \<open>The arity of the procedure is right.\<close>

definition bgl_open_input_procedure :: "'s \<Rightarrow> bgl_string \<Rightarrow> 's proc_port input_port" where
  "bgl_open_input_procedure fun buffer =
     bgl_make_input_port \<lparr>pbuffer = None, pbufpos = 0, proc = fun\<rparr> KINDOF_PROCEDURE buffer"

section \<open>Seeking, resetting and closing\<close>

definition illegal_seek :: failure where
  "illegal_seek = C_System_Failure BGL_IO_PORT_ERROR ''set-input-port-position!'' ''illegal seek offset''"

text \<open>The file of the port after \<open>fseek\<close>, or its failure, is a parameter.\<close>

definition bgl_input_file_seek :: "('f \<Rightarrow> int \<Rightarrow> string + 'f) \<Rightarrow> 'f input_port \<Rightarrow> int \<Rightarrow> failure + 'f input_port" where
  "bgl_input_file_seek fseek p pos =
     (case fseek (dev p) pos of
        Inl msg \<Rightarrow> Inl (C_System_Failure BGL_IO_PORT_ERROR ''set-input-port-position!'' msg)
      | Inr file \<Rightarrow> Inr (p\<lparr>dev := file, filepos := pos, eof := False, matchstart := 0, matchstop := 0, forward := 0,
          bufpos := 0, lastchar := newline\<rparr>))"

definition bgl_input_mmap_seek :: "mmap_port input_port \<Rightarrow> int \<Rightarrow> failure + mmap_port input_port" where
  "bgl_input_mmap_seek p pos =
     (if pos \<ge> 0 \<and> pos < iport_length p
      then Inr (p\<lparr>filepos := map_start (dev p) + pos, dev := (dev p)\<lparr>map_offset := map_start (dev p) + pos\<rparr>,
        matchstart := 0, matchstop := 0, forward := 0, bufpos := 0\<rparr>)
      else if pos = iport_length p then Inr (p\<lparr>eof := True\<rparr>)
      else Inl illegal_seek)"

definition bgl_input_string_seek :: "int input_port \<Rightarrow> int \<Rightarrow> failure + int input_port" where
  "bgl_input_string_seek p pos =
     (let offset = dev p in
      if pos \<ge> 0 \<and> pos < BGL_INPUT_PORT_BUFSIZ p
      then Inr (p\<lparr>filepos := pos + offset, matchstart := pos + offset, matchstop := pos + offset, forward := pos + offset\<rparr>)
      else if pos = BGL_INPUT_PORT_BUFSIZ p then Inr (p\<lparr>eof := True\<rparr>)
      else Inl illegal_seek)"

definition reset_console :: "'d input_port \<Rightarrow> 'd input_port" where
  "reset_console p =
     (if kindof p = KINDOF_CONSOLE then p\<lparr>matchstart := 0, matchstop := 0, bufpos := 0, lastchar := newline\<rparr> else p)"

definition reset_eof :: "'d input_port \<Rightarrow> bool \<times> 'd input_port" where
  "reset_eof p =
     (if kindof p = KINDOF_CONSOLE then (True, reset_console (p\<lparr>eof := False\<rparr>)) else (False, p))"

text \<open>Closing, for a port without hook; what the system does with the file is left out.\<close>

definition bgl_close_input_port :: "'d input_port \<Rightarrow> 'd input_port" where
  "bgl_close_input_port p =
     (if kindof p \<noteq> KINDOF_CLOSED \<and> kindof p \<noteq> KINDOF_CONSOLE then p\<lparr>eof := True, kindof := KINDOF_CLOSED\<rparr> else p)"

end
