(* ===== verification/Rgc.thy ===== *)
theory Rgc
  imports Iport
begin

text \<open>
  The buffer of input ports, \<open>runtime/Clib/crgc.c\<close>: filling it while a regular grammar matches,
  shifting and growing it, reading blocks through it, and putting characters back. The operations take the
  function of the field \<open>sysread\<close> as their first argument. A raised failure is the left of the sum; the
  sentinels under \<open>RGC_0\<close>, which nothing defines, are left out as the compiler does.
\<close>

section \<open>The operations\<close>

definition rgc_double_buffer :: "'d input_port \<Rightarrow> 'd input_port option" where
  "rgc_double_buffer p = do {
     let bufsiz = BGL_INPUT_PORT_BUFSIZ p;
     newbuf \<leftarrow> make_string_sans_fill (bufsiz * 2);
     n \<leftarrow> idx bufsiz;
     m \<leftarrow> blit (char0 newbuf) 0 (char0 (buf p)) 0 n;
     Some (p\<lparr>buf := newbuf\<lparr>char0 := m\<rparr>\<rparr>) }"

definition rgc_shift_buffer :: "'d input_port \<Rightarrow> 'd input_port option" where
  "rgc_shift_buffer p = do {
     c \<leftarrow> RGC_BUFFER_REF p (matchstart p - 1);
     ms \<leftarrow> idx (matchstart p);
     n \<leftarrow> idx (bufpos p - matchstart p + 1);
     m \<leftarrow> blit (char0 (buf p)) 0 (char0 (buf p)) ms n;
     Some (p\<lparr>lastchar := c, buf := (buf p)\<lparr>char0 := m\<rparr>, bufpos := bufpos p - matchstart p,
       matchstop := matchstop p - matchstart p, forward := forward p - matchstart p, matchstart := 0\<rparr>) }"

text \<open>The bytes are stored in the block that is given.\<close>

definition sysread :: "'d reader \<Rightarrow> 'd input_port \<Rightarrow> u8 cells \<Rightarrow> int \<Rightarrow> int \<Rightarrow> (failure + int \<times> u8 cells \<times> 'd input_port) option" where
  "sysread sr p b off sz = do {
     r \<leftarrow> sr (dev p) sz;
     case r of
       Read_Error reset msg \<Rightarrow>
         Some (Inl (C_System_Failure (if reset then BGL_IO_CONNECTION_ERROR else BGL_IO_READ_ERROR) ''read'' msg))
     | Read bs e d \<Rightarrow> do {
         i \<leftarrow> idx off;
         m \<leftarrow> blit b i (map Some bs) 0 (length bs);
         Some (Inr (int (length bs), m, p\<lparr>dev := d, eof := eof p \<or> e\<rparr>)) } }"

text \<open>The position, the size and the barrier are \<open>int\<close> variables.\<close>

definition rgc_fillsize_buffer :: "'d reader \<Rightarrow> 'd input_port \<Rightarrow> int \<Rightarrow> int \<Rightarrow> (failure + bool \<times> 'd input_port) option" where
  "rgc_fillsize_buffer sr p bp sz =
     (let fb = int32 (fillbarrier p); bp = int32 bp; sz = int32 sz in
      if fb = 0 then Some (Inr (False, p\<lparr>bufpos := bp\<rparr>))
      else do {
        let sz = (if fb > 0 \<and> sz > fb then fb else sz);
        r \<leftarrow> sysread sr p (char0 (buf p)) bp sz;
        case r of
          Inl f \<Rightarrow> Some (Inl f)
        | Inr (r, m, p) \<Rightarrow>
            let p = p\<lparr>buf := (buf p)\<lparr>char0 := m\<rparr>\<rparr>;
                p = (if fb > 0 then p\<lparr>fillbarrier := fb - r\<rparr> else p)
            in Some (Inr (r > 0, p\<lparr>bufpos := bp + r\<rparr>)) })"

definition rgc_fill_buffer :: "'d reader \<Rightarrow> 'd input_port \<Rightarrow> (failure + bool \<times> 'd input_port) option" where
  "rgc_fill_buffer sr p =
     (if INPUT_PORT_CLOSEP p then Some (Inl (C_System_Failure BGL_IO_READ_ERROR ''read'' ''input-port closed''))
      else let p = p\<lparr>forward := bufpos p\<rparr> in
        if eof p then Some (Inr (False, p))
        else if bufpos p < BGL_INPUT_PORT_BUFSIZ p
        then rgc_fillsize_buffer sr p (bufpos p) (BGL_INPUT_PORT_BUFSIZ p - bufpos p)
        else if matchstart p > 0
        then do {
          p \<leftarrow> rgc_shift_buffer p;
          rgc_fillsize_buffer sr p (bufpos p) (BGL_INPUT_PORT_BUFSIZ p - bufpos p) }
        else do {
          p \<leftarrow> rgc_double_buffer p;
          rgc_fillsize_buffer sr p (bufpos p) (BGL_INPUT_PORT_BUFSIZ p - bufpos p) })"

text \<open>The loop of \<open>bgl_rgc_blit_string\<close>; \<open>io_bufsiz\<close> is the global \<open>default_io_bufsiz\<close>.\<close>

partial_function (option) blit_loop ::
  "'d reader \<Rightarrow> int \<Rightarrow> 'd input_port \<Rightarrow> u8 cells \<Rightarrow> int \<Rightarrow> int \<Rightarrow> (failure + 'd input_port \<times> u8 cells \<times> int) option" where
  "blit_loop sr io_bufsiz p s off l =
     (if eof p then Some (Inr (p, s, off))
      else do {
        let sz = (if l < io_bufsiz then l else io_bufsiz);
        r \<leftarrow> sysread sr p s off sz;
        case r of
          Inl f \<Rightarrow> Some (Inl f)
        | Inr (r, s, p) \<Rightarrow>
            if l - r > 0 \<and> kindof p \<noteq> KINDOF_DATAGRAM
            then blit_loop sr io_bufsiz p s (off + r) (l - r)
            else Some (Inr (p, s, off + r)) })"

definition bgl_rgc_blit_string ::
  "'d reader \<Rightarrow> int \<Rightarrow> 'd input_port \<Rightarrow> u8 cells \<Rightarrow> int \<Rightarrow> int \<Rightarrow> (failure + int \<times> u8 cells \<times> 'd input_port) option" where
  "bgl_rgc_blit_string sr io_bufsiz p s off l =
     (let avail = RGC_BUFFER_AVAILABLE p in
      if INPUT_PORT_CLOSEP p then Some (Inl (C_System_Failure BGL_IO_CLOSED_ERROR ''rgc-blit-string'' ''input-port closed''))
      else let p = RGC_START_MATCH p; l = (if eof p \<and> l > avail then avail else l) in
        if avail \<ge> l then do {
          i \<leftarrow> idx off; ms \<leftarrow> idx (matchstart p); n \<leftarrow> idx l;
          s \<leftarrow> blit s i (char0 (buf p)) ms n;
          let p = p\<lparr>matchstart := matchstart p + l\<rparr>;
          let p = p\<lparr>forward := matchstart p\<rparr>;
          let p = RGC_STOP_MATCH p (matchstart p);
          Some (Inr (l, s, p\<lparr>filepos := filepos p + l\<rparr>)) }
        else do {
          let o0 = off;
          (s, off, l) \<leftarrow> (if avail > 0 then do {
              i \<leftarrow> idx off; ms \<leftarrow> idx (matchstart p); n \<leftarrow> idx avail;
              s \<leftarrow> blit s i (char0 (buf p)) ms n;
              Some (s, off + avail, l - avail) }
            else Some (s, off, l));
          r \<leftarrow> (if l > 0 then blit_loop sr io_bufsiz p s off l else Some (Inr (p, s, off)));
          case r of
            Inl f \<Rightarrow> Some (Inl f)
          | Inr (p, s, off) \<Rightarrow>
              Some (Inr (off - o0, s, p\<lparr>forward := 0, bufpos := 0, matchstart := 0, matchstop := 0,
                lastchar := newline, filepos := filepos p + (off - o0)\<rparr>)) })"

definition rgc_buffer_unget_char :: "'d input_port \<Rightarrow> u8 \<Rightarrow> 'd input_port option" where
  "rgc_buffer_unget_char p c =
     (let p = p\<lparr>filepos := filepos p - 1\<rparr> in
      if matchstop p > 0 then Some (p\<lparr>matchstop := matchstop p - 1\<rparr>) else RGC_BUFFER_SET p 0 c)"

partial_function (option) rgc_reserve_space :: "'d input_port \<Rightarrow> int \<Rightarrow> 'd input_port option" where
  "rgc_reserve_space p amount =
     (if matchstop p \<ge> amount then Some p
      else if matchstop p + (BGL_INPUT_PORT_BUFSIZ p - bufpos p) \<ge> amount then do {
        let diff = amount - matchstop p;
        i \<leftarrow> idx amount; j \<leftarrow> idx (matchstop p); n \<leftarrow> idx (bufpos p - matchstop p);
        m \<leftarrow> blit (char0 (buf p)) i (char0 (buf p)) j n;
        Some (p\<lparr>buf := (buf p)\<lparr>char0 := m\<rparr>, bufpos := bufpos p + diff, matchstop := matchstop p + diff\<rparr>) }
      else do {
        p \<leftarrow> rgc_double_buffer p;
        rgc_reserve_space p amount })"

definition rgc_buffer_insert_substring :: "'d input_port \<Rightarrow> bgl_string \<Rightarrow> int \<Rightarrow> int \<Rightarrow> (bool \<times> 'd input_port) option" where
  "rgc_buffer_insert_substring p str from to =
     (let len = to - from in
      if INPUT_PORT_CLOSEP p then Some (False, p)
      else if from \<ge> to then Some (True, p)
      else do {
        p \<leftarrow> rgc_reserve_space p len;
        let ms = matchstop p;
        i \<leftarrow> idx (ms - len); j \<leftarrow> idx from; n \<leftarrow> idx len;
        m \<leftarrow> blit (char0 (buf p)) i (char0 str) j n;
        let p = p\<lparr>buf := (buf p)\<lparr>char0 := m\<rparr>, filepos := (if filepos p \<ge> len then filepos p - len else 0)\<rparr>;
        let ms = ms - len;
        Some (True, p\<lparr>matchstop := ms, forward := ms, matchstart := ms\<rparr>) })"

definition rgc_buffer_insert_char :: "'d input_port \<Rightarrow> u8 \<Rightarrow> (bool \<times> 'd input_port) option" where
  "rgc_buffer_insert_char p c =
     (if INPUT_PORT_CLOSEP p then Some (False, p)
      else do {
        p \<leftarrow> rgc_reserve_space p 1;
        let ms = matchstop p;
        p \<leftarrow> RGC_BUFFER_SET p (ms - 1) c;
        let p = p\<lparr>filepos := (if filepos p \<ge> 1 then filepos p - 1 else 0)\<rparr>;
        let ms = ms - 1;
        Some (True, p\<lparr>matchstop := ms, forward := ms, matchstart := ms\<rparr>) })"

definition rgc_buffer_bol_p :: "'d input_port \<Rightarrow> bool option" where
  "rgc_buffer_bol_p p =
     (if matchstart p > 0 then do { c \<leftarrow> RGC_BUFFER_REF p (matchstart p - 1); Some (c = newline) }
      else Some (lastchar p = newline))"

text \<open>The recursion happens when the buffer has been filled: with more than one character left it ends.\<close>

partial_function (option) rgc_buffer_eol_p :: "'d reader \<Rightarrow> 'd input_port \<Rightarrow> int \<Rightarrow> int \<Rightarrow> (failure + bool \<times> 'd input_port) option" where
  "rgc_buffer_eol_p sr p fwd bp =
     (if fwd = bp then do {
        r \<leftarrow> rgc_fill_buffer sr p;
        case r of
          Inl f \<Rightarrow> Some (Inl f)
        | Inr (again, p) \<Rightarrow> if again then rgc_buffer_eol_p sr p (forward p) (bufpos p) else Some (Inr (False, p)) }
      else do {
        let p = p\<lparr>forward := fwd, bufpos := bp\<rparr>;
        c \<leftarrow> RGC_BUFFER_REF p fwd;
        Some (Inr (c = newline, p)) })"

definition rgc_buffer_bof_p :: "'d input_port \<Rightarrow> bool" where
  "rgc_buffer_bof_p p \<longleftrightarrow> filepos p = 0"

definition rgc_buffer_eof_p :: "'d input_port \<Rightarrow> bool" where
  "rgc_buffer_eof_p p \<longleftrightarrow> eof p \<and> matchstop p = bufpos p"

definition rgc_buffer_eof2_p :: "'d reader \<Rightarrow> 'd input_port \<Rightarrow> int \<Rightarrow> int \<Rightarrow> (failure + bool \<times> 'd input_port) option" where
  "rgc_buffer_eof2_p sr p fwd bp =
     (if fwd < bp then Some (Inr (False, p\<lparr>forward := fwd, bufpos := bp\<rparr>))
      else if eof p then Some (Inr (True, p\<lparr>forward := fwd, bufpos := bp\<rparr>))
      else do {
        r \<leftarrow> rgc_fill_buffer sr p;
        case r of Inl f \<Rightarrow> Some (Inl f) | Inr (filled, p) \<Rightarrow> Some (Inr (\<not> filled, p)) })"

text \<open>\<open>feof\<close> on the file and \<open>select\<close> are parameters.\<close>

definition bgl_rgc_charready :: "bool \<Rightarrow> bool \<Rightarrow> 'd input_port \<Rightarrow> bool" where
  "bgl_rgc_charready at_eof selected p =
     (case kindof p of
        KINDOF_CLOSED \<Rightarrow> False
      | KINDOF_STRING \<Rightarrow> matchstop p < bufpos p
      | KINDOF_FILE \<Rightarrow> matchstop p < bufpos p \<or> (\<not> at_eof \<and> \<not> eof p)
      | KINDOF_PROCPIPE \<Rightarrow> matchstop p < bufpos p \<or> selected
      | KINDOF_PIPE \<Rightarrow> matchstop p < bufpos p \<or> selected
      | KINDOF_CONSOLE \<Rightarrow> matchstop p < bufpos p \<or> selected
      | KINDOF_SOCKET \<Rightarrow> matchstop p < bufpos p \<or> selected
      | KINDOF_DATAGRAM \<Rightarrow> matchstop p < bufpos p \<or> selected
      | KINDOF_PROCEDURE \<Rightarrow> True
      | KINDOF_GZIP \<Rightarrow> True
      | _ \<Rightarrow> False)"

section \<open>The bytes of the buffer\<close>

text \<open>The cells below \<open>bufpos\<close> hold the bytes \<open>xs\<close>, and the cursors are in order.\<close>

definition holds :: "'d input_port \<Rightarrow> u8 list \<Rightarrow> bool" where
  "holds p xs \<longleftrightarrow> (\<exists>sl. char0 (buf p) = map Some xs @ sl) \<and> bufpos p = int (length xs) \<and>
     length xs \<le> str_length (buf p) \<and> str_length (buf p) < length (char0 (buf p)) \<and>
     0 \<le> matchstart p \<and> matchstart p \<le> matchstop p \<and> matchstop p \<le> bufpos p"

text \<open>The text from the start of the current match, the character before it, and what has not been matched.\<close>

definition token :: "'d input_port \<Rightarrow> u8 list \<Rightarrow> u8 list" where
  "token p xs = drop (nat (matchstart p)) xs"

definition before :: "'d input_port \<Rightarrow> u8 list \<Rightarrow> u8" where
  "before p xs = (if matchstart p > 0 then xs ! (nat (matchstart p) - 1) else lastchar p)"

definition unread :: "'d input_port \<Rightarrow> u8 list \<Rightarrow> u8 list" where
  "unread p xs = drop (nat (matchstop p)) xs"

lemma holdsD:
  assumes "holds p xs"
  shows "bufpos p = int (length xs)" and "length xs \<le> str_length (buf p)" and "str_length (buf p) < length (char0 (buf p))"
    and "0 \<le> matchstart p" and "matchstart p \<le> matchstop p" and "matchstop p \<le> int (length xs)"
    and "\<exists>sl. char0 (buf p) = map Some xs @ sl"
  using assms by (auto simp: holds_def)

lemma holds_cells:
  assumes "holds p xs"
  obtains sl where "char0 (buf p) = map Some xs @ sl" "str_length (buf p) < length xs + length sl"
  using assms by (auto simp: holds_def)

lemma nat_matchstart:
  assumes "holds p xs"
  obtains ms me where "matchstart p = int ms" "matchstop p = int me" "ms \<le> me" "me \<le> length xs"
  using holdsD(4-6) [OF assms]
  by (metis (no_types, opaque_lifting) of_nat_le_iff nonneg_int_cases order_trans)

text \<open>Growing keeps the bytes, and shifting keeps the text from the start of the match and the character before it.\<close>

lemma double_spec:
  assumes "holds p xs"
  shows "\<exists>b. rgc_double_buffer p = Some (p\<lparr>buf := b\<rparr>) \<and> str_length b = 2 * str_length (buf p) \<and> holds (p\<lparr>buf := b\<rparr>) xs"
proof -
  let ?n = "str_length (buf p)"
  obtain sl where sl: "char0 (buf p) = map Some xs @ sl" "?n < length xs + length sl" using holds_cells [OF assms] .
  note h = holdsD [OF assms]
  have "idx (int ?n * 2) = Some (2 * ?n)" by (simp add: idx_def nat_mult_distrib)
  then have eq: "rgc_double_buffer p = Some (p\<lparr>buf := \<lparr>str_length = 2 * ?n,
      char0 = map Some xs @ take (?n - length xs) sl @ drop ?n ((gc_malloc (2 * ?n + 1))[2 * ?n := Some 0])\<rparr>\<rparr>)"
    using sl h(2) by (simp add: rgc_double_buffer_def BGL_INPUT_PORT_BUFSIZ_def make_string_sans_fill_def blit_def)
  show ?thesis
    unfolding eq using h sl by (intro exI [of _ "\<lparr>str_length = 2 * ?n,
      char0 = map Some xs @ take (?n - length xs) sl @ drop ?n ((gc_malloc (2 * ?n + 1))[2 * ?n := Some 0])\<rparr>"])
      (auto simp: holds_def)
qed

lemma shift_spec:
  assumes "holds p xs" and "0 < matchstart p"
  shows "\<exists>b. rgc_shift_buffer p = Some (p\<lparr>lastchar := before p xs, buf := b, bufpos := bufpos p - matchstart p,
      matchstop := matchstop p - matchstart p, forward := forward p - matchstart p, matchstart := 0\<rparr>) \<and>
    str_length b = str_length (buf p) \<and>
    holds (p\<lparr>lastchar := before p xs, buf := b, bufpos := bufpos p - matchstart p,
      matchstop := matchstop p - matchstart p, forward := forward p - matchstart p, matchstart := 0\<rparr>) (token p xs)"
proof -
  obtain sl where sl: "char0 (buf p) = map Some xs @ sl" "str_length (buf p) < length xs + length sl"
    using holds_cells [OF assms(1)] .
  obtain ms me where m: "matchstart p = int ms" "matchstop p = int me" "ms \<le> me" "me \<le> length xs"
    using nat_matchstart [OF assms(1)] .
  note h = holdsD [OF assms(1)]
  let ?n = "length xs - ms + 1"
  have n: "idx (bufpos p - matchstart p + 1) = Some ?n" using m h(1) by (simp add: idx_def nat_add_distrib nat_diff_distrib)
  have pos: "0 < ms" using assms(2) m(1) by simp
  then have "idx (int ms - 1) = Some (ms - 1)" "ms - 1 < length xs"
    using m(3,4) by (simp_all add: idx_def nat_diff_distrib)
  then have c: "RGC_BUFFER_REF p (matchstart p - 1) = Some (before p xs)"
    using m pos sl(1) by (simp add: RGC_BUFFER_REF_def before_def mem_simps)
  let ?m = "take ?n (drop ms (char0 (buf p))) @ drop ?n (char0 (buf p))"
  have eq: "rgc_shift_buffer p = Some (p\<lparr>lastchar := before p xs, buf := (buf p)\<lparr>char0 := ?m\<rparr>, bufpos := bufpos p - matchstart p,
      matchstop := matchstop p - matchstart p, forward := forward p - matchstart p, matchstart := 0\<rparr>)"
    using n c m sl h(2) by (simp add: rgc_shift_buffer_def blit_def)
  have "?m = map Some (drop ms xs) @ take 1 sl @ drop ?n (char0 (buf p))"
    using m(3,4) sl(1) by (simp add: drop_map)
  moreover have "length ?m = length (char0 (buf p))" using m(3,4) sl h(2) by simp
  ultimately show ?thesis
    unfolding eq using h m by (intro exI [of _ "(buf p)\<lparr>char0 := ?m\<rparr>"]) (auto simp: holds_def token_def)
qed

section \<open>Devices\<close>

text \<open>
  What the buffer relies on: the device delivers its contents in order, and an empty read, or the flag, means that
  nothing is left. \<open>ok\<close> is kept as long as the end has not been flagged.
\<close>

definition port_ok :: "('d \<Rightarrow> bool) \<Rightarrow> ('d \<Rightarrow> u8 list) \<Rightarrow> 'd input_port \<Rightarrow> u8 list \<Rightarrow> bool" where
  "port_ok ok left p xs \<longleftrightarrow> holds p xs \<and> (if eof p then left (dev p) = [] else ok (dev p))"

text \<open>What a fill does: \<open>bs\<close> are the new bytes, and nothing else changes than the cells, the device, its flag, the
  barrier and the end of the buffer.\<close>

definition extended :: "('d \<Rightarrow> bool) \<Rightarrow> ('d \<Rightarrow> u8 list) \<Rightarrow> 'd input_port \<Rightarrow> u8 list \<Rightarrow> bool \<Rightarrow> 'd input_port \<Rightarrow> u8 list \<Rightarrow> bool" where
  "extended ok left p xs got p' bs \<longleftrightarrow>
     port_ok ok left p' (xs @ bs) \<and> left (dev p) = bs @ left (dev p') \<and> (got \<longleftrightarrow> bs \<noteq> []) \<and>
     (\<not> got \<longrightarrow> fillbarrier p = 0 \<or> left (dev p') = []) \<and>
     (fillbarrier p \<ge> 0 \<longrightarrow> fillbarrier p' = fillbarrier p - int (length bs) \<and> 0 \<le> fillbarrier p') \<and>
     (fillbarrier p < 0 \<longrightarrow> fillbarrier p' = fillbarrier p) \<and>
     p' = p\<lparr>buf := buf p', dev := dev p', eof := eof p', fillbarrier := fillbarrier p', bufpos := bufpos p'\<rparr>"

text \<open>A fill, seen from the match: the text that the match started with is extended, wherever the buffer has
  moved, and \<open>forward\<close> is at the first new byte.\<close>

definition filled :: "('d \<Rightarrow> bool) \<Rightarrow> ('d \<Rightarrow> u8 list) \<Rightarrow> 'd input_port \<Rightarrow> u8 list \<Rightarrow> bool \<Rightarrow> 'd input_port \<Rightarrow> u8 list \<Rightarrow> bool" where
  "filled ok left p xs got p' xs' \<longleftrightarrow>
     (\<exists>bs. port_ok ok left p' xs' \<and> token p' xs' = token p xs @ bs \<and> left (dev p) = bs @ left (dev p') \<and>
       (got \<longleftrightarrow> bs \<noteq> []) \<and> (\<not> got \<longrightarrow> fillbarrier p = 0 \<or> left (dev p') = []) \<and>
       (fillbarrier p \<ge> 0 \<longrightarrow> fillbarrier p' = fillbarrier p - int (length bs) \<and> 0 \<le> fillbarrier p')) \<and>
     matchstop p' - matchstart p' = matchstop p - matchstart p \<and>
     forward p' - matchstart p' = int (length (token p xs)) \<and>
     before p' xs' = before p xs \<and> filepos p' = filepos p \<and> kindof p' = kindof p"

text \<open>A failure that is raised is one that the device reports: to a read of at least one byte from its state \<open>d\<close>.\<close>

definition device_fails :: "'d reader \<Rightarrow> 'd \<Rightarrow> failure \<Rightarrow> bool" where
  "device_fails sr d f \<longleftrightarrow> (\<exists>n reset msg. 0 < n \<and> sr d n = Some (Read_Error reset msg) \<and>
     f = C_System_Failure (if reset then BGL_IO_CONNECTION_ERROR else BGL_IO_READ_ERROR) ''read'' msg)"

text \<open>The states of a device after successful reads.\<close>

inductive read_on :: "'d reader \<Rightarrow> 'd \<Rightarrow> 'd \<Rightarrow> bool" for sr where
  read_none: "read_on sr d d"
| read_more: "sr d n = Some (Read bs e d') \<Longrightarrow> read_on sr d' d'' \<Longrightarrow> read_on sr d d''"

locale input_device =
  fixes sr :: "'d reader" and ok :: "'d \<Rightarrow> bool" and left :: "'d \<Rightarrow> u8 list"
  assumes returns: "ok d \<Longrightarrow> 0 < n \<Longrightarrow> sr d n \<noteq> None"
    and delivers: "ok d \<Longrightarrow> 0 < n \<Longrightarrow> sr d n = Some (Read bs e d') \<Longrightarrow>
      int (length bs) \<le> n \<and> left d = bs @ left d' \<and> (e \<or> ok d') \<and> (e \<or> bs = [] \<longrightarrow> left d' = [])"
begin

lemma sysread_spec:
  assumes "ok (dev p)" and "0 < n" and "i + nat n \<le> length b"
  shows "(\<exists>f. sysread sr p b (int i) n = Some (Inl f) \<and> device_fails sr (dev p) f) \<or>
    (\<exists>bs e d'. sr (dev p) n = Some (Read bs e d') \<and> sysread sr p b (int i) n =
        Some (Inr (int (length bs), take i b @ map Some bs @ drop (i + length bs) b, p\<lparr>dev := d', eof := eof p \<or> e\<rparr>)) \<and>
      int (length bs) \<le> n \<and> left (dev p) = bs @ left d' \<and> (e \<or> ok d') \<and> (e \<or> bs = [] \<longrightarrow> left d' = []))"
proof -
  obtain r where r: "sr (dev p) n = Some r" using returns [OF assms(1,2)] by blast
  show ?thesis
  proof (cases r)
    case (Read_Error reset msg)
    then have "device_fails sr (dev p)
        (C_System_Failure (if reset then BGL_IO_CONNECTION_ERROR else BGL_IO_READ_ERROR) ''read'' msg)"
      using r assms(2) unfolding device_fails_def by blast
    then show ?thesis using r Read_Error by (auto simp: sysread_def)
  next
    case (Read bs e d')
    note d = delivers [OF assms(1,2) r [unfolded Read]]
    then have "i + length bs \<le> length b" using assms(3) by linarith
    then have "sysread sr p b (int i) n =
        Some (Inr (int (length bs), take i b @ map Some bs @ drop (i + length bs) b, p\<lparr>dev := d', eof := eof p \<or> e\<rparr>))"
      using r Read by (simp add: sysread_def blit_def)
    with d r Read show ?thesis by blast
  qed
qed

lemma fillsize_spec:
  assumes h: "holds p xs" and dev: "ok (dev p)" "\<not> eof p" and room: "length xs < str_length (buf p)"
    and small: "str_length (buf p) < 2 ^ 31" "- (2 ^ 31) \<le> fillbarrier p" "fillbarrier p < 2 ^ 31"
  shows "\<exists>r. rgc_fillsize_buffer sr p (bufpos p) (BGL_INPUT_PORT_BUFSIZ p - bufpos p) = Some r \<and>
    (\<forall>f. r = Inl f \<longrightarrow> fillbarrier p \<noteq> 0 \<and> device_fails sr (dev p) f) \<and>
    (\<forall>got p'. r = Inr (got, p') \<longrightarrow> (\<exists>bs. extended ok left p xs got p' bs))"
proof -
  let ?n = "int (str_length (buf p)) - int (length xs)"
  note h' = holdsD [OF h]
  obtain sl where sl: "char0 (buf p) = map Some xs @ sl" "str_length (buf p) < length xs + length sl"
    using holds_cells [OF h] .
  have i32: "int32 (fillbarrier p) = fillbarrier p" "int32 (bufpos p) = int (length xs)" "int32 ?n = ?n"
    using small room h'(1) by simp_all
  let ?k = "if 0 < fillbarrier p \<and> fillbarrier p < ?n then fillbarrier p else ?n"
  show ?thesis
  proof (cases "fillbarrier p = 0")
    case True
    have "extended ok left p xs False (p\<lparr>bufpos := int (length xs)\<rparr>) []"
      using h' h dev True unfolding extended_def port_ok_def holds_def
      by (cases p) auto
    then show ?thesis using True i32 by (auto simp: rgc_fillsize_buffer_def h'(1) BGL_INPUT_PORT_BUFSIZ_def Let_def)
  next
    case False
    have k: "0 < ?k" "length xs + nat ?k \<le> length (char0 (buf p))" using room sl by auto
    define k where "k = ?k"
    note unfold = rgc_fillsize_buffer_def Let_def h'(1) BGL_INPUT_PORT_BUFSIZ_def i32 i32(2) [unfolded h'(1)]
      k_def [symmetric]
    from sysread_spec [OF dev(1) k, folded k_def]
    consider (fail) f where "sysread sr p (char0 (buf p)) (int (length xs)) k = Some (Inl f)" "device_fails sr (dev p) f"
      | (read) bs e d' where "sysread sr p (char0 (buf p)) (int (length xs)) k =
          Some (Inr (int (length bs), take (length xs) (char0 (buf p)) @ map Some bs @ drop (length xs + length bs) (char0 (buf p)),
            p\<lparr>dev := d', eof := eof p \<or> e\<rparr>))"
        "int (length bs) \<le> k" "left (dev p) = bs @ left d'" "e \<or> ok d'" "e \<or> bs = [] \<longrightarrow> left d' = []"
      by blast
    then show ?thesis
    proof cases
      case fail
      then show ?thesis unfolding unfold using False by simp
    next
      case read
      note r = read(1) and d = read(2-5)
      let ?b = "(buf p)\<lparr>char0 := map Some (xs @ bs) @ drop (length bs) sl\<rparr>"
      let ?f = "if fillbarrier p > 0 then fillbarrier p - int (length bs) else fillbarrier p"
      let ?p = "p\<lparr>buf := ?b, dev := d', eof := e, fillbarrier := ?f, bufpos := int (length xs) + int (length bs)\<rparr>"
      have cells: "take (length xs) (char0 (buf p)) @ map Some bs @ drop (length xs + length bs) (char0 (buf p)) =
          map Some (xs @ bs) @ drop (length bs) sl"
        by (simp add: sl)
      have eq: "rgc_fillsize_buffer sr p (bufpos p) (BGL_INPUT_PORT_BUFSIZ p - bufpos p) = Some (Inr (bs \<noteq> [], ?p))"
        unfolding unfold r cells using False dev(2) by (cases p) simp
      have fits: "length xs + length bs \<le> str_length (buf p)" using d(1) by (auto simp: k_def split: if_splits)
      have "extended ok left p xs (bs \<noteq> []) ?p bs"
        using h' d False fits sl(2) unfolding extended_def port_ok_def holds_def
        by (auto simp: k_def split: if_splits)
      with eq show ?thesis by blast
    qed
  qed
qed

text \<open>A fill of a port \<open>q\<close> in which the buffer of \<open>p\<close> has been moved.\<close>

lemma extended_filled:
  assumes e: "extended ok left q ys got p' bs" and "holds q ys" and "token q ys = token p xs" and "before q ys = before p xs"
    and "matchstop q - matchstart q = matchstop p - matchstart p" and "forward q = int (length ys)" and "dev q = dev p"
    and "filepos q = filepos p" and "kindof q = kindof p" and "fillbarrier q = fillbarrier p"
  shows "filled ok left p xs got p' (ys @ bs)"
proof -
  define b d e' f n where "b = buf p'" "d = dev p'" "e' = eof p'" "f = fillbarrier p'" "n = bufpos p'"
  then have p': "p' = q\<lparr>buf := b, dev := d, eof := e', fillbarrier := f, bufpos := n\<rparr>"
    using e by (simp add: extended_def)
  have le: "nat (matchstart q) \<le> length ys" "0 \<le> matchstart q" "matchstart q \<le> int (length ys)"
    using holdsD(4-6) [OF assms(2)] by linarith+
  then have "token p' (ys @ bs) = token q ys @ bs" "before p' (ys @ bs) = before q ys"
    by (auto simp: p' token_def before_def nth_append)
  moreover have "int (length (token q ys)) = int (length ys) - matchstart q"
    using le by (simp add: token_def)
  moreover have "matchstart p' = matchstart q" "matchstop p' = matchstop q" "forward p' = forward q" "filepos p' = filepos q"
    "kindof p' = kindof q"
    by (simp_all add: p')
  ultimately show ?thesis
    using e [unfolded extended_def] assms(3-10) unfolding filled_def
    by (intro conjI exI [of _ bs]) auto
qed

lemma fill_spec:
  assumes ok: "port_ok ok left p xs" and "kindof p \<noteq> KINDOF_CLOSED"
    and small: "0 < str_length (buf p)" "2 * str_length (buf p) < 2 ^ 31" "- (2 ^ 31) \<le> fillbarrier p" "fillbarrier p < 2 ^ 31"
  shows "\<exists>r. rgc_fill_buffer sr p = Some r \<and>
    (\<forall>f. r = Inl f \<longrightarrow> \<not> eof p \<and> fillbarrier p \<noteq> 0 \<and> device_fails sr (dev p) f) \<and> (\<forall>got p'. r = Inr (got, p') \<longrightarrow> (\<exists>xs'. filled ok left p xs got p' xs'))"
proof (cases "eof p")
  case True
  note h = holdsD [OF ok [unfolded port_ok_def, THEN conjunct1]]
  have "rgc_fill_buffer sr p = Some (Inr (False, p\<lparr>forward := bufpos p\<rparr>))"
    using True assms(2) by (simp add: rgc_fill_buffer_def INPUT_PORT_CLOSEP_def Let_def)
  moreover have "filled ok left p xs False (p\<lparr>forward := bufpos p\<rparr>) xs"
    using ok True h by (auto simp: filled_def port_ok_def holds_def token_def before_def nat_le_iff of_nat_diff)
  ultimately show ?thesis by auto
next
  case False
  note dev = ok [unfolded port_ok_def, THEN conjunct2]
  let ?q = "p\<lparr>forward := bufpos p\<rparr>"
  have h: "holds ?q xs" "holds p xs" using ok by (simp_all add: port_ok_def holds_def)
  show ?thesis
  proof (cases "length xs < str_length (buf p)")
    case True
    have eq: "rgc_fill_buffer sr p = rgc_fillsize_buffer sr ?q (bufpos ?q) (BGL_INPUT_PORT_BUFSIZ ?q - bufpos ?q)"
      using False assms(2) True holdsD(1) [OF h(2)]
      by (simp add: rgc_fill_buffer_def INPUT_PORT_CLOSEP_def Let_def BGL_INPUT_PORT_BUFSIZ_def)
    have "\<exists>r. rgc_fill_buffer sr p = Some r \<and> (\<forall>f. r = Inl f \<longrightarrow> fillbarrier ?q \<noteq> 0 \<and> device_fails sr (dev ?q) f) \<and>
        (\<forall>got p'. r = Inr (got, p') \<longrightarrow> (\<exists>bs. extended ok left ?q xs got p' bs))"
      unfolding eq
    proof (rule fillsize_spec [OF h(1)])
      show "ok (dev ?q)" "\<not> eof ?q" using dev False by simp_all
      show "length xs < str_length (buf ?q)" using True by simp
      show "str_length (buf ?q) < 2 ^ 31" using small(2) by simp
      show "- (2 ^ 31) \<le> fillbarrier ?q" "fillbarrier ?q < 2 ^ 31" using small(3,4) by simp_all
    qed
    moreover have "\<exists>xs'. filled ok left p xs got p' xs'" if "extended ok left ?q xs got p' bs" for got p' bs
      using that h(1)
    proof (intro exI, rule extended_filled)
      show "forward ?q = int (length xs)" using holdsD(1) [OF h(2)] by simp
    qed (simp_all add: token_def before_def)
    ultimately show ?thesis using False by simp (elim exE conjE, intro exI conjI, auto)
  next
    case full: False
    then have len: "length xs = str_length (buf p)" using holdsD(2) [OF h(2)] by simp
    show ?thesis
    proof (cases "0 < matchstart p")
      case True
      obtain b where b: "rgc_shift_buffer ?q = Some (?q\<lparr>lastchar := before ?q xs, buf := b, bufpos := bufpos ?q - matchstart ?q,
          matchstop := matchstop ?q - matchstart ?q, forward := forward ?q - matchstart ?q, matchstart := 0\<rparr>)"
        and len_b: "str_length b = str_length (buf p)"
        and hb: "holds (?q\<lparr>lastchar := before ?q xs, buf := b, bufpos := bufpos ?q - matchstart ?q,
          matchstop := matchstop ?q - matchstart ?q, forward := forward ?q - matchstart ?q, matchstart := 0\<rparr>) (token ?q xs)"
        using shift_spec [OF h(1)] True by auto
      let ?r = "?q\<lparr>lastchar := before ?q xs, buf := b, bufpos := bufpos ?q - matchstart ?q,
          matchstop := matchstop ?q - matchstart ?q, forward := forward ?q - matchstart ?q, matchstart := 0\<rparr>"
      have eq: "rgc_fill_buffer sr p = rgc_fillsize_buffer sr ?r (bufpos ?r) (BGL_INPUT_PORT_BUFSIZ ?r - bufpos ?r)"
        using False assms(2) True full holdsD(1) [OF h(2)] b
        by (simp add: rgc_fill_buffer_def INPUT_PORT_CLOSEP_def Let_def BGL_INPUT_PORT_BUFSIZ_def)
      have tl: "length (token ?q xs) < str_length b"
        using True len len_b holdsD(4-6) [OF h(2)] by (simp add: token_def)
      have "\<exists>r. rgc_fill_buffer sr p = Some r \<and> (\<forall>f. r = Inl f \<longrightarrow> fillbarrier ?r \<noteq> 0 \<and> device_fails sr (dev ?r) f) \<and>
          (\<forall>got p'. r = Inr (got, p') \<longrightarrow> (\<exists>bs. extended ok left ?r (token ?q xs) got p' bs))"
        unfolding eq by (rule fillsize_spec [OF hb]; use dev False tl small len_b in simp)
      moreover have "\<exists>xs'. filled ok left p xs got p' xs'" if "extended ok left ?r (token ?q xs) got p' bs" for got p' bs
        using that hb
      proof (intro exI, rule extended_filled)
        show "forward ?r = int (length (token ?q xs))" using holdsD(1) [OF hb] by simp
      qed (simp_all add: token_def before_def)
      ultimately show ?thesis using False by simp (elim exE conjE, intro exI conjI, auto)
    next
      case start: False
      obtain b where b: "rgc_double_buffer ?q = Some (?q\<lparr>buf := b\<rparr>)" "str_length b = 2 * str_length (buf p)"
        "holds (?q\<lparr>buf := b\<rparr>) xs"
        using double_spec [OF h(1)] by auto
      let ?r = "?q\<lparr>buf := b\<rparr>"
      have eq: "rgc_fill_buffer sr p = rgc_fillsize_buffer sr ?r (bufpos ?r) (BGL_INPUT_PORT_BUFSIZ ?r - bufpos ?r)"
        using False assms(2) start full holdsD(1) [OF h(2)] b(1)
        by (simp add: rgc_fill_buffer_def INPUT_PORT_CLOSEP_def Let_def BGL_INPUT_PORT_BUFSIZ_def)
      have "\<exists>r. rgc_fill_buffer sr p = Some r \<and> (\<forall>f. r = Inl f \<longrightarrow> fillbarrier ?r \<noteq> 0 \<and> device_fails sr (dev ?r) f) \<and>
          (\<forall>got p'. r = Inr (got, p') \<longrightarrow> (\<exists>bs. extended ok left ?r xs got p' bs))"
        unfolding eq by (rule fillsize_spec [OF b(3)]; use b(2) dev False len small in simp)
      moreover have "\<exists>xs'. filled ok left p xs got p' xs'" if "extended ok left ?r xs got p' bs" for got p' bs
        using that b(3)
      proof (intro exI, rule extended_filled)
        show "forward ?r = int (length xs)" using holdsD(1) [OF h(2)] by simp
      qed (simp_all add: token_def before_def)
      ultimately show ?thesis using False by simp (elim exE conjE, intro exI conjI, auto)
    qed
  qed
qed

end

context input_device
begin

text \<open>The character that a test for the end of a line looks at is the next one of the stream, in the buffer or not.\<close>

lemma eol_spec:
  assumes ok: "port_ok ok left p xs" and "kindof p \<noteq> KINDOF_CLOSED" and k: "matchstart p \<le> int k" "k \<le> length xs"
    and small: "0 < str_length (buf p)" "2 * str_length (buf p) < 2 ^ 31" "- (2 ^ 31) \<le> fillbarrier p" "fillbarrier p < 0"
  defines "str \<equiv> drop k xs @ left (dev p)"
  shows "\<exists>r. rgc_buffer_eol_p sr p (int k) (bufpos p) = Some r \<and>
    (\<forall>f. r = Inl f \<longrightarrow> k = length xs \<and> \<not> eof p \<and> device_fails sr (dev p) f) \<and>
    (\<forall>b p'. r = Inr (b, p') \<longrightarrow> (b \<longleftrightarrow> str \<noteq> [] \<and> hd str = newline))"
proof (cases "k = length xs")
  case False
  have h: "holds p xs" using ok by (simp add: port_ok_def)
  obtain sl where sl: "char0 (buf p) = map Some xs @ sl" using holdsD(7) [OF h] by blast
  have "RGC_BUFFER_REF (p\<lparr>forward := int k, bufpos := bufpos p\<rparr>) (int k) = Some (xs ! k)"
    using False k(2) sl by (simp add: RGC_BUFFER_REF_def mem_simps)
  then have "rgc_buffer_eol_p sr p (int k) (bufpos p) = Some (Inr (xs ! k = newline, p\<lparr>forward := int k, bufpos := bufpos p\<rparr>))"
    using False holdsD(1) [OF h] by (subst rgc_buffer_eol_p.simps) simp
  moreover have "str \<noteq> [] \<and> hd str = xs ! k" using False k(2) by (auto simp: str_def hd_append hd_drop_conv_nth)
  ultimately show ?thesis by simp
next
  case True
  have h: "holds p xs" using ok by (simp add: port_ok_def)
  have str: "str = left (dev p)" using True by (simp add: str_def)
  obtain r where r: "rgc_fill_buffer sr p = Some r" "\<forall>got p'. r = Inr (got, p') \<longrightarrow> (\<exists>xs'. filled ok left p xs got p' xs')"
    "\<forall>f. r = Inl f \<longrightarrow> \<not> eof p \<and> fillbarrier p \<noteq> 0 \<and> device_fails sr (dev p) f"
    using fill_spec [OF ok assms(2) small(1-3)] small(4) by auto
  have step: "rgc_buffer_eol_p sr p (int k) (bufpos p) = (case r of Inl f \<Rightarrow> Some (Inl f)
      | Inr (again, q) \<Rightarrow> if again then rgc_buffer_eol_p sr q (forward q) (bufpos q) else Some (Inr (False, q)))"
    using True holdsD(1) [OF h] r(1) by (subst rgc_buffer_eol_p.simps) simp
  show ?thesis
  proof (cases r)
    case (Inl f)
    then show ?thesis using step r(3) True by simp
  next
    case (Inr gq)
    obtain got q where gq: "gq = (got, q)" by fastforce
    then obtain xs' where "filled ok left p xs got q xs'" using r(2) Inr by blast
    then obtain bs where f: "port_ok ok left q xs'" "token q xs' = token p xs @ bs" "left (dev p) = bs @ left (dev q)"
      "got \<longleftrightarrow> bs \<noteq> []" "\<not> got \<longrightarrow> fillbarrier p = 0 \<or> left (dev q) = []"
      "forward q - matchstart q = int (length (token p xs))"
      unfolding filled_def by blast
    show ?thesis
    proof (cases got)
      case False
      then have "left (dev p) = []" using f(3,4,5) small(4) by simp
      with False Inr gq step str show ?thesis by simp
    next
      case got: True
      have hq: "holds q xs'" using f(1) by (simp add: port_ok_def)
      obtain sl where sl: "char0 (buf q) = map Some xs' @ sl" using holdsD(7) [OF hq] by blast
      obtain ms me where m: "matchstart q = int ms" "ms \<le> length xs'"
        using nat_matchstart [OF hq] by (metis order_trans)
      define i where "i = ms + length (token p xs)"
      have xs': "drop ms xs' = token p xs @ bs" using f(2) m(1) by (simp add: token_def)
      then have "length xs' - ms = length (token p xs) + length bs" by (metis length_append length_drop)
      moreover have "0 < length bs" using f(4) got by simp
      ultimately have "i < length xs'" unfolding i_def by linarith
      then have i: "i < length xs'" "xs' ! i = hd bs" "forward q = int i"
        using f(4,6) got m xs' nth_drop [of ms xs' "length (token p xs)"]
        by (auto simp: i_def nth_append hd_conv_nth)
      have "rgc_buffer_eol_p sr q (forward q) (bufpos q) = Some (Inr (xs' ! i = newline, q\<lparr>forward := forward q, bufpos := bufpos q\<rparr>))"
        using i holdsD(1) [OF hq] sl by (subst rgc_buffer_eol_p.simps) (simp add: RGC_BUFFER_REF_def mem_simps)
      then show ?thesis using got Inr gq step str f(3,4) i(2) by (simp add: hd_append)
    qed
  qed
qed

lemma eof2_spec:
  assumes ok: "port_ok ok left p xs" and "kindof p \<noteq> KINDOF_CLOSED" and "k \<le> length xs"
    and small: "0 < str_length (buf p)" "2 * str_length (buf p) < 2 ^ 31" "- (2 ^ 31) \<le> fillbarrier p" "fillbarrier p < 0"
  defines "str \<equiv> drop k xs @ left (dev p)"
  shows "\<exists>r. rgc_buffer_eof2_p sr p (int k) (bufpos p) = Some r \<and>
    (\<forall>f. r = Inl f \<longrightarrow> k = length xs \<and> \<not> eof p \<and> device_fails sr (dev p) f) \<and> (\<forall>b p'. r = Inr (b, p') \<longrightarrow> (b \<longleftrightarrow> str = []))"
proof -
  have h: "holds p xs" using ok by (simp add: port_ok_def)
  have "k < length xs \<or> k = length xs" using assms(3) by linarith
  then show ?thesis
  proof
    assume "k < length xs"
    then show ?thesis using holdsD(1) [OF h] by (simp add: rgc_buffer_eof2_p_def str_def)
  next
    assume k: "k = length xs"
    show ?thesis
    proof (cases "eof p")
      case True
      then show ?thesis using k ok holdsD(1) [OF h] by (simp add: rgc_buffer_eof2_p_def str_def port_ok_def)
    next
      case False
      obtain r where r: "rgc_fill_buffer sr p = Some r" "\<forall>got p'. r = Inr (got, p') \<longrightarrow> (\<exists>xs'. filled ok left p xs got p' xs')"
        "\<forall>f. r = Inl f \<longrightarrow> \<not> eof p \<and> fillbarrier p \<noteq> 0 \<and> device_fails sr (dev p) f"
        using fill_spec [OF ok assms(2) small(1-3)] small(4) by auto
      have "got \<longleftrightarrow> left (dev p) \<noteq> []" if got: "r = Inr (got, q)" for got q
      proof -
        obtain bs where "left (dev p) = bs @ left (dev q)" "got \<longleftrightarrow> bs \<noteq> []"
          "\<not> got \<longrightarrow> fillbarrier p = 0 \<or> left (dev q) = []"
          using r(2) [rule_format, OF got] unfolding filled_def by blast
        then show ?thesis using small(4) by auto
      qed
      then show ?thesis
        using r(1,3) k False holdsD(1) [OF h] by (cases r) (auto simp: rgc_buffer_eof2_p_def str_def)
    qed
  qed
qed

end

lemma bol_spec:
  assumes "holds p xs"
  shows "rgc_buffer_bol_p p = Some (before p xs = newline)"
proof -
  obtain sl where sl: "char0 (buf p) = map Some xs @ sl" using holdsD(7) [OF assms] by blast
  obtain ms me where m: "matchstart p = int ms" "ms \<le> length xs"
    using nat_matchstart [OF assms] by (metis order_trans)
  show ?thesis
  proof (cases "ms = 0")
    case False
    then have "idx (int ms - 1) = Some (ms - 1)" "ms - 1 < length xs" using m(2) by (simp_all add: idx_def nat_diff_distrib)
    with False m sl show ?thesis by (simp add: rgc_buffer_bol_p_def before_def RGC_BUFFER_REF_def mem_simps)
  qed (simp add: m rgc_buffer_bol_p_def before_def)
qed

text \<open>A device that always signals its end with the flag.\<close>

locale signalling_device = input_device +
  assumes signals: "ok d \<Longrightarrow> 0 < n \<Longrightarrow> sr d n = Some (Read [] e d') \<Longrightarrow> e"
begin

lemma blit_loop_eof: "eof p \<Longrightarrow> blit_loop sr io p s off l = Some (Inr (p, s, off))"
  by (simp add: blit_loop.simps)

lemma blit_loop_spec:
  assumes "if eof p then left (dev p) = [] else ok (dev p)" and "0 < l" and "0 < io" and "i + nat l \<le> length s"
    and "kindof p \<noteq> KINDOF_DATAGRAM"
  shows "\<exists>r. blit_loop sr io p s (int i) l = Some r \<and>
    (\<forall>f. r = Inl f \<longrightarrow> \<not> eof p \<and> (\<exists>d. read_on sr (dev p) d \<and> device_fails sr d f)) \<and> (\<forall>p' s' off. r = Inr (p', s', off) \<longrightarrow>
    (\<exists>bs d e. off = int (i + length bs) \<and> left (dev p) = bs @ left d \<and> s' = take i s @ map Some bs @ drop (i + length bs) s \<and>
      (if e then left d = [] else ok d) \<and> int (length bs) \<le> l \<and> (int (length bs) = l \<or> left d = []) \<and>
      p' = p\<lparr>dev := d, eof := e\<rparr>))"
  using assms
proof (induction "nat l" arbitrary: p s i l rule: less_induct)
  case less
  show ?case
  proof (cases "eof p")
    case True
    then show ?thesis using less.prems
      by (intro exI [of _ "Inr (p, s, int i)"]) (auto simp: blit_loop_eof intro!: exI [of _ "[]"] exI [of _ "dev p"] exI [of _ True])
  next
    case False
    define sz where "sz = (if l < io then l else io)"
    have sz: "0 < sz" "sz \<le> l" using less.prems(2,3) by (auto simp: sz_def)
    then have sz': "i + nat sz \<le> length s" using less.prems(4) by linarith
    have dev: "ok (dev p)" using less.prems(1) False by simp
    from sysread_spec [OF dev sz(1) sz']
    consider (fail) f where "sysread sr p s (int i) sz = Some (Inl f)" "device_fails sr (dev p) f"
      | (read) bs e d' where "sysread sr p s (int i) sz =
          Some (Inr (int (length bs), take i s @ map Some bs @ drop (i + length bs) s, p\<lparr>dev := d', eof := eof p \<or> e\<rparr>))"
        "int (length bs) \<le> sz" "left (dev p) = bs @ left d'" "e \<or> ok d'" "e \<or> bs = [] \<longrightarrow> left d' = []"
        "sr (dev p) sz = Some (Read bs e d')"
      by blast
    then show ?thesis
    proof cases
      case fail
      then have "blit_loop sr io p s (int i) l = Some (Inl f)"
        using False by (subst blit_loop.simps) (simp add: sz_def [symmetric])
      moreover have "\<exists>d. read_on sr (dev p) d \<and> device_fails sr d f" by (intro exI [of _ "dev p"] conjI read_none fail(2))
      ultimately show ?thesis using False by simp
    next
      case read
      let ?s = "take i s @ map Some bs @ drop (i + length bs) s" and ?p = "p\<lparr>dev := d', eof := e\<rparr>"
      have step: "blit_loop sr io p s (int i) l =
          (if l - int (length bs) > 0 then blit_loop sr io ?p ?s (int (i + length bs)) (l - int (length bs))
           else Some (Inr (?p, ?s, int (i + length bs))))"
        using False read(1) less.prems(5) by (subst blit_loop.simps) (simp add: sz_def [symmetric])
      have inv: "if e then left d' = [] else ok d'" using read(4,5) by auto
      show ?thesis
      proof (cases "l - int (length bs) > 0")
        case again: True
        show ?thesis
        proof (cases e)
          case True
          then have "left d' = []" using read(5) by simp
          with True again step read(2,3) sz(2) show ?thesis
            by (auto simp: blit_loop_eof intro!: exI [of _ bs] exI [of _ d'] exI [of _ e])
        next
          case going: False
          have "bs \<noteq> []"
          proof
            assume "bs = []"
            moreover obtain r where "sr (dev p) sz = Some r" using returns [OF dev sz(1)] by blast
            ultimately show False using read(1) going signals [OF dev sz(1)] False
              by (auto simp: sysread_def split: read_result.splits Option.bind_splits dest: arg_cong [of _ _ eof])
          qed
          then have "nat (l - int (length bs)) < nat l" using again by simp
          note IH = less.hyps [OF this, of ?p "i + length bs" ?s]
          have len: "length ?s = length s" using read(2) sz' by simp
          have "i + length bs + nat (l - int (length bs)) \<le> length ?s"
            unfolding len using less.prems(4) again by linarith
          moreover have "if eof ?p then left (dev ?p) = [] else ok (dev ?p)" "kindof ?p \<noteq> KINDOF_DATAGRAM"
            using inv less.prems(5) by simp_all
          ultimately obtain r where
            r: "blit_loop sr io ?p ?s (int (i + length bs)) (l - int (length bs)) = Some r" and
            fl: "\<forall>f. r = Inl f \<longrightarrow> (\<exists>d. read_on sr (dev ?p) d \<and> device_fails sr d f)" and
            sp: "\<forall>p' s' off. r = Inr (p', s', off) \<longrightarrow> (\<exists>cs d e'. off = int (i + length bs + length cs) \<and> left (dev ?p) = cs @ left d \<and>
              s' = take (i + length bs) ?s @ map Some cs @ drop (i + length bs + length cs) ?s \<and>
              (if e' then left d = [] else ok d) \<and> int (length cs) \<le> l - int (length bs) \<and>
              (int (length cs) = l - int (length bs) \<or> left d = []) \<and> p' = ?p\<lparr>dev := d, eof := e'\<rparr>)"
            using IH [OF _ again less.prems(3)] by blast
          have "\<exists>bs' d e. off = int (i + length bs') \<and> left (dev p) = bs' @ left d \<and>
              s' = take i s @ map Some bs' @ drop (i + length bs') s \<and> (if e then left d = [] else ok d) \<and>
              int (length bs') \<le> l \<and> (int (length bs') = l \<or> left d = []) \<and> p' = p\<lparr>dev := d, eof := e\<rparr>"
            if res: "r = Inr (p', s', off)" for p' s' off
          proof -
            obtain cs d e' where *: "off = int (i + length bs + length cs)" "left (dev ?p) = cs @ left d"
              "s' = take (i + length bs) ?s @ map Some cs @ drop (i + length bs + length cs) ?s"
              "if e' then left d = [] else ok d" "int (length cs) \<le> l - int (length bs)"
              "int (length cs) = l - int (length bs) \<or> left d = []" "p' = ?p\<lparr>dev := d, eof := e'\<rparr>"
              using sp [rule_format, OF res] by blast
            have "i \<le> length s" using sz' by simp
            then have "s' = take i s @ map Some (bs @ cs) @ drop (i + length (bs @ cs)) s"
              unfolding *(3) by (simp add: add_ac)
            with *(1,2,4,5,6,7) read(3) show ?thesis
              by (intro exI [of _ "bs @ cs"] exI [of _ d] exI [of _ e']) (auto split: if_splits)
          qed
          moreover have "\<exists>d. read_on sr (dev p) d \<and> device_fails sr d f" if "r = Inl f" for f
            using fl [rule_format, OF that] read_more [of sr "dev p" sz bs e d'] read(6) by auto
          ultimately show ?thesis unfolding step using again r False by auto
        qed
      next
        case over: False
        then have "int (length bs) = l" using read(2) sz(2) by linarith
        with over step read(3) inv show ?thesis
          by (auto intro!: exI [of _ bs] exI [of _ d'] exI [of _ e])
      qed
    qed
  qed
qed

text \<open>Reading a block: what the buffer has, then what the device delivers, in one piece.\<close>

lemma blit_string_spec:
  assumes ok: "port_ok ok left p xs" and kind: "kindof p \<noteq> KINDOF_CLOSED" "kindof p \<noteq> KINDOF_DATAGRAM"
    and l: "0 < io" "i + n \<le> length s"
  defines "str \<equiv> unread p xs @ left (dev p)"
  defines "k \<equiv> min n (length str)"
  shows "\<exists>r. bgl_rgc_blit_string sr io p s (int i) (int n) = Some r \<and>
    (\<forall>f. r = Inl f \<longrightarrow> \<not> eof p \<and> length (unread p xs) < n \<and> (\<exists>d. read_on sr (dev p) d \<and> device_fails sr d f)) \<and> (\<forall>m s' p'. r = Inr (m, s', p') \<longrightarrow>
    m = int k \<and> s' = take i s @ map Some (take k str) @ drop (i + k) s \<and> filepos p' = filepos p + int k \<and>
    (\<exists>xs'. port_ok ok left p' xs' \<and> unread p' xs' @ left (dev p') = drop k str))"
proof -
  have h: "holds p xs" and dev: "if eof p then left (dev p) = [] else ok (dev p)" using ok by (simp_all add: port_ok_def)
  obtain sl where sl: "char0 (buf p) = map Some xs @ sl" using holdsD(7) [OF h] by blast
  obtain ms me where m: "matchstart p = int ms" "matchstop p = int me" "ms \<le> me" "me \<le> length xs"
    using nat_matchstart [OF h] .
  note hd = holdsD [OF h]
  let ?u = "unread p xs"
  have u: "?u = drop me xs" "length ?u = length xs - me" using m by (simp_all add: unread_def)
  have avail: "RGC_BUFFER_AVAILABLE p = int (length ?u)" using m hd(1) u by (simp add: RGC_BUFFER_AVAILABLE_def of_nat_diff)
  let ?q = "RGC_START_MATCH p"
  let ?n = "if eof p then min n (length ?u) else n"
  have n: "(if eof ?q \<and> int n > int (length ?u) then int (length ?u) else int n) = int ?n"
    by (simp add: RGC_START_MATCH_def)
  have cells: "take (length ?u) (drop me (char0 (buf p))) = map Some ?u" by (simp add: sl u drop_map)
  show ?thesis
  proof (cases "?n \<le> length ?u")
    case True
    have "k = ?n" using True dev by (auto simp: k_def str_def)
    moreover have "blit s i (char0 (buf p)) me ?n = Some (take i s @ map Some (take ?n ?u) @ drop (i + ?n) s)"
      using True m(4) l(2) by (auto simp: blit_def sl u take_map drop_map)
    ultimately have eq: "bgl_rgc_blit_string sr io p s (int i) (int n) = Some (Inr (int k, take i s @ map Some (take k ?u) @ drop (i + k) s,
        p\<lparr>forward := int (me + k), matchstart := int (me + k), matchstop := int (me + k), filepos := filepos p + int k\<rparr>))"
      using True kind n m
      unfolding bgl_rgc_blit_string_def Let_def avail n INPUT_PORT_CLOSEP_def
      by (simp add: RGC_START_MATCH_def RGC_STOP_MATCH_def)
    moreover have "take k str = take k ?u" "drop k str = drop k ?u @ left (dev p)"
      using True \<open>k = ?n\<close> by (auto simp: str_def)
    moreover have "port_ok ok left (p\<lparr>forward := int (me + k), matchstart := int (me + k), matchstop := int (me + k),
        filepos := filepos p + int k\<rparr>) xs"
      using ok True \<open>k = ?n\<close> u hd(1) m(4) unfolding port_ok_def holds_def by (auto split: if_splits)
    moreover have "nat (int (me + k)) = me + k" "drop (me + k) xs = drop k ?u" by (simp_all add: u add.commute)
    ultimately show ?thesis by (auto simp: unread_def simp del: of_nat_add)
  next
    case False
    then have ne: "\<not> eof p" "length ?u < n" by (auto split: if_splits)
    let ?s = "take i s @ map Some ?u @ drop (i + length ?u) s"
    have copy: "blit s i (char0 (buf ?q)) me (length ?u) = Some ?s" "matchstart ?q = int me" "eof ?q = eof p"
      using ne(2) l(2) m(2,4) cells by (auto simp: RGC_START_MATCH_def blit_def sl u)
    have q: "\<not> int n \<le> int (length ?u)" "int n - int (length ?u) > 0" "\<not> eof ?q" using ne by (simp_all add: RGC_START_MATCH_def)
    have "if eof ?q then left (dev ?q) = [] else ok (dev ?q)" "kindof ?q \<noteq> KINDOF_DATAGRAM"
      "i + length ?u + nat (int n - int (length ?u)) \<le> length ?s"
      using dev kind ne l(2) by (simp_all add: RGC_START_MATCH_def)
    from blit_loop_spec [OF this(1) q(2) l(1) this(3,2)]
    obtain r where r: "blit_loop sr io ?q ?s (int (i + length ?u)) (int n - int (length ?u)) = Some r"
      and fl: "\<forall>f. r = Inl f \<longrightarrow> (\<exists>d. read_on sr (dev ?q) d \<and> device_fails sr d f)"
      and sp: "\<forall>p' s' off. r = Inr (p', s', off) \<longrightarrow> (\<exists>bs d e. off = int (i + length ?u + length bs) \<and> left (dev ?q) = bs @ left d \<and>
        s' = take (i + length ?u) ?s @ map Some bs @ drop (i + length ?u + length bs) ?s \<and>
        (if e then left d = [] else ok d) \<and> int (length bs) \<le> int n - int (length ?u) \<and>
        (int (length bs) = int n - int (length ?u) \<or> left d = []) \<and> p' = ?q\<lparr>dev := d, eof := e\<rparr>)"
      by blast
    have eq: "bgl_rgc_blit_string sr io p s (int i) (int n) = (case r of Inl f \<Rightarrow> Some (Inl f)
        | Inr (p, s, off) \<Rightarrow> Some (Inr (off - int i, s, p\<lparr>forward := 0, bufpos := 0, matchstart := 0, matchstop := 0,
                lastchar := newline, filepos := filepos p + (off - int i)\<rparr>)))"
      unfolding bgl_rgc_blit_string_def Let_def avail INPUT_PORT_CLOSEP_def
      using kind q copy r by (cases "?u = []") simp_all
    have "m' = int k \<and> s' = take i s @ map Some (take k str) @ drop (i + k) s \<and> filepos p' = filepos p + int k \<and>
        (\<exists>xs'. port_ok ok left p' xs' \<and> unread p' xs' @ left (dev p') = drop k str)"
      if res: "(case r of Inl f \<Rightarrow> Some (Inl f) | Inr (p, s, off) \<Rightarrow> Some (Inr (off - int i, s,
        p\<lparr>forward := 0, bufpos := 0, matchstart := 0, matchstop := 0, lastchar := newline, filepos := filepos p + (off - int i)\<rparr>))) =
        Some (Inr (m', s', p'))" for m' s' p'
    proof -
      obtain p1 off where p1: "r = Inr (p1, s', off)" "m' = off - int i"
        "p' = p1\<lparr>forward := 0, bufpos := 0, matchstart := 0, matchstop := 0, lastchar := newline, filepos := filepos p1 + (off - int i)\<rparr>"
        using res by (auto split: sum.splits)
      obtain bs d e where *: "off = int (i + length ?u + length bs)" "left (dev ?q) = bs @ left d"
        "s' = take (i + length ?u) ?s @ map Some bs @ drop (i + length ?u + length bs) ?s"
        "if e then left d = [] else ok d" "int (length bs) \<le> int n - int (length ?u)"
        "int (length bs) = int n - int (length ?u) \<or> left d = []" "p1 = ?q\<lparr>dev := d, eof := e\<rparr>"
        using sp [rule_format, OF p1(1)] by blast
      have str: "str = (?u @ bs) @ left d" using *(2) by (simp add: str_def RGC_START_MATCH_def)
      then have k: "k = length (?u @ bs)" using *(5,6) by (auto simp: k_def)
      have cells': "s' = take i s @ map Some (?u @ bs) @ drop (i + length (?u @ bs)) s"
        unfolding *(3) using ne(2) l(2) by (simp add: add_ac)
      have "port_ok ok left p' []" using *(4) hd(2,3) by (auto simp: p1(3) *(7) port_ok_def holds_def RGC_START_MATCH_def)
      moreover have "unread p' [] = []" "left (dev p') = left d" by (simp_all add: unread_def p1(3) *(7))
      moreover have "take k str = ?u @ bs" "drop k str = left d" unfolding k by (simp_all add: str)
      ultimately show ?thesis
        using p1(2) *(1) cells' by (auto simp: k p1(3) *(7) RGC_START_MATCH_def intro!: exI [of _ "[]"])
    qed
    note main = this
    obtain x where x: "bgl_rgc_blit_string sr io p s (int i) (int n) = Some x"
      unfolding eq by (cases r) auto
    have "\<exists>d. read_on sr (dev p) d \<and> device_fails sr d f" if "x = Inl f" for f
      using that x fl unfolding eq by (cases r) (auto simp: RGC_START_MATCH_def)
    then show ?thesis using ne by (intro exI [of _ x] conjI x allI impI main) (use x eq in simp_all)
  qed
qed

end

section \<open>Putting characters back\<close>

text \<open>Making room: the unread bytes move right when there are fewer than \<open>amount\<close> cells before them; \<open>d\<close> is the
  distance and \<open>pre\<close> what is in front of them.\<close>

definition reserved :: "'d input_port \<Rightarrow> u8 list \<Rightarrow> int \<Rightarrow> 'd input_port \<Rightarrow> bool" where
  "reserved p xs amount p' \<longleftrightarrow> (\<exists>b d pre sl. p' = p\<lparr>buf := b, bufpos := bufpos p + int d, matchstop := matchstop p + int d\<rparr> \<and>
     char0 b = pre @ map Some (unread p xs) @ sl \<and> int (length pre) = matchstop p + int d \<and> amount \<le> int (length pre) \<and>
     length pre + length (unread p xs) \<le> str_length b \<and> str_length b < length (char0 b) \<and>
     (d = 0 \<longrightarrow> pre = map Some (take (nat (matchstop p)) xs)) \<and> (0 < d \<longrightarrow> int (length pre) = amount))"

lemma reserved_buf: "reserved (p\<lparr>buf := b\<rparr>) xs amount p' \<longleftrightarrow> reserved p xs amount p'"
  by (simp add: reserved_def unread_def)

lemma reserve_spec:
  assumes "holds p xs" and "0 < str_length (buf p)"
  shows "\<exists>p'. rgc_reserve_space p amount = Some p' \<and> reserved p xs amount p'"
  using assms
proof (induction "nat (amount + bufpos p - matchstop p - int (str_length (buf p)))" arbitrary: p rule: less_induct)
  case less
  obtain sl where sl: "char0 (buf p) = map Some xs @ sl" "str_length (buf p) < length xs + length sl"
    using holds_cells [OF less.prems(1)] .
  obtain ms me where m: "matchstart p = int ms" "matchstop p = int me" "ms \<le> me" "me \<le> length xs"
    using nat_matchstart [OF less.prems(1)] .
  note h = holdsD [OF less.prems(1)]
  have u: "unread p xs = drop me xs" using m by (simp add: unread_def)
  consider (enough) "matchstop p \<ge> amount"
    | (shift) "matchstop p < amount" "matchstop p + (BGL_INPUT_PORT_BUFSIZ p - bufpos p) \<ge> amount"
    | (grow) "matchstop p < amount" "matchstop p + (BGL_INPUT_PORT_BUFSIZ p - bufpos p) < amount"
    by linarith
  then show ?case
  proof cases
    case enough
    then have "rgc_reserve_space p amount = Some p" by (simp add: rgc_reserve_space.simps)
    moreover have "reserved p xs amount p"
      unfolding reserved_def
    proof (intro exI conjI)
      show "p = p\<lparr>buf := buf p, bufpos := bufpos p + int 0, matchstop := matchstop p + int 0\<rparr>" by simp
      show "char0 (buf p) = map Some (take me xs) @ map Some (unread p xs) @ sl" by (simp add: sl u flip: map_append append_assoc)
    qed (use enough m h sl in \<open>simp_all add: u\<close>)
    ultimately show ?thesis by blast
  next
    case shift
    define k where "k = nat amount"
    have k: "amount = int k" "me < k" "k + (length xs - me) \<le> str_length (buf p)"
      using shift m h(1,2) by (auto simp: k_def BGL_INPUT_PORT_BUFSIZ_def)
    let ?m = "take k (char0 (buf p)) @ map Some (drop me xs) @ drop (k + (length xs - me)) (char0 (buf p))"
    let ?p = "p\<lparr>buf := (buf p)\<lparr>char0 := ?m\<rparr>, bufpos := bufpos p + int (k - me), matchstop := matchstop p + int (k - me)\<rparr>"
    have "blit (char0 (buf p)) k (char0 (buf p)) me (length xs - me) = Some ?m"
      using k m(4) sl by (simp add: blit_def drop_map)
    moreover have "idx (bufpos p - matchstop p) = Some (length xs - me)" using m(2,4) h(1) by simp
    ultimately have "rgc_reserve_space p amount = Some ?p"
      using shift k(2) m(2) by (subst rgc_reserve_space.simps) (simp add: k(1) of_nat_diff Let_def)
    moreover have "reserved p xs amount ?p"
      unfolding reserved_def
    proof (intro exI conjI)
      show "?p = p\<lparr>buf := (buf p)\<lparr>char0 := ?m\<rparr>, bufpos := bufpos p + int (k - me), matchstop := matchstop p + int (k - me)\<rparr>" ..
      show "char0 ((buf p)\<lparr>char0 := ?m\<rparr>) = take k (char0 (buf p)) @ map Some (unread p xs) @
          drop (k + (length xs - me)) (char0 (buf p))" by (simp add: u)
    qed (use k m h sl in \<open>simp_all add: u\<close>)
    ultimately show ?thesis by blast
  next
    case grow
    obtain b where b: "rgc_double_buffer p = Some (p\<lparr>buf := b\<rparr>)" "str_length b = 2 * str_length (buf p)"
      "holds (p\<lparr>buf := b\<rparr>) xs"
      using double_spec [OF less.prems(1)] by auto
    have "nat (amount + bufpos (p\<lparr>buf := b\<rparr>) - matchstop (p\<lparr>buf := b\<rparr>) - int (str_length (buf (p\<lparr>buf := b\<rparr>)))) <
        nat (amount + bufpos p - matchstop p - int (str_length (buf p)))"
      using grow(2) b(2) less.prems(2) by (simp add: BGL_INPUT_PORT_BUFSIZ_def)
    from less.hyps [OF this b(3)] b(2) less.prems(2)
    obtain p' where p': "rgc_reserve_space (p\<lparr>buf := b\<rparr>) amount = Some p'" "reserved (p\<lparr>buf := b\<rparr>) xs amount p'"
      by auto
    have "rgc_reserve_space p amount = Some p'"
      using grow b(1) p'(1) by (subst rgc_reserve_space.simps) simp
    moreover have "reserved p xs amount p'" using p'(2) by (simp only: reserved_buf)
    ultimately show ?thesis by blast
  qed
qed

lemma reservedD:
  assumes "reserved p xs amount q"
  shows "filepos q = filepos p" and "dev q = dev p" and "eof q = eof p"
  using assms unfolding reserved_def by (elim exE conjE; simp)+

lemma inserted_holds:
  assumes "holds p xs" and "reserved p xs (int (length zs)) q" and "0 < length zs"
  shows "\<exists>m ys. blit (char0 (buf q)) (nat (matchstop q) - length zs) (map Some zs) 0 (length zs) = Some m \<and>
    int (length zs) \<le> matchstop q \<and>
    (\<forall>fp. holds (q\<lparr>buf := (buf q)\<lparr>char0 := m\<rparr>, filepos := fp, matchstop := matchstop q - int (length zs),
        forward := matchstop q - int (length zs), matchstart := matchstop q - int (length zs)\<rparr>) ys \<and>
      unread (q\<lparr>buf := (buf q)\<lparr>char0 := m\<rparr>, filepos := fp, matchstop := matchstop q - int (length zs),
        forward := matchstop q - int (length zs), matchstart := matchstop q - int (length zs)\<rparr>) ys = zs @ unread p xs)"
proof -
  obtain ms me where m: "matchstart p = int ms" "matchstop p = int me" "ms \<le> me" "me \<le> length xs"
    using nat_matchstart [OF assms(1)] .
  obtain b d pre sl where q: "q = p\<lparr>buf := b, bufpos := bufpos p + int d, matchstop := matchstop p + int d\<rparr>"
    "char0 b = pre @ map Some (unread p xs) @ sl" "int (length pre) = matchstop p + int d" "int (length zs) \<le> int (length pre)"
    "length pre + length (unread p xs) \<le> str_length b" "str_length b < length (char0 b)"
    "d = 0 \<longrightarrow> pre = map Some (take (nat (matchstop p)) xs)" "0 < d \<longrightarrow> int (length pre) = int (length zs)"
    using assms(2) unfolding reserved_def by blast
  have u: "length (unread p xs) = length xs - me" using m by (simp add: unread_def)
  define j where "j = length pre - length zs"
  have j: "nat (matchstop q) - length zs = j" "matchstop q - int (length zs) = int j" "j + length zs = length pre"
    using q(1,3,4) by (simp_all add: j_def of_nat_diff)
  obtain ws where ws: "take j pre = map Some ws" "length ws = j"
  proof (cases "d = 0")
    case True
    then show ?thesis using that [of "take j (take me xs)"] q(7) m j(3) by (auto simp: take_map)
  next
    case False
    then have "j = 0" using q(8) by (simp add: j_def)
    then show ?thesis using that [of "[]"] by simp
  qed
  let ?m = "map Some (ws @ zs @ unread p xs) @ sl"
  have "blit (char0 (buf q)) j (map Some zs) 0 (length zs) = Some ?m"
    using q(1,2,4) j(3) ws by (simp add: blit_def)
  moreover have "matchstop q - int (length zs) \<ge> 0" using j(2) by simp
  moreover have "holds (q\<lparr>buf := (buf q)\<lparr>char0 := ?m\<rparr>, filepos := fp, matchstop := matchstop q - int (length zs),
        forward := matchstop q - int (length zs), matchstart := matchstop q - int (length zs)\<rparr>) (ws @ zs @ unread p xs)" for fp
    using q(1,2,3,5,6) j ws holdsD(1) [OF assms(1)] m u unfolding holds_def by (auto simp: j_def)
  moreover have "unread (q\<lparr>buf := (buf q)\<lparr>char0 := ?m\<rparr>, filepos := fp, matchstop := matchstop q - int (length zs),
        forward := matchstop q - int (length zs), matchstart := matchstop q - int (length zs)\<rparr>) (ws @ zs @ unread p xs) =
        zs @ unread p xs" for fp
    by (simp add: unread_def j(2) ws(2))
  ultimately show ?thesis unfolding j(1) by (intro exI [of _ ?m] exI [of _ "ws @ zs @ unread p xs"]) simp
qed

lemma insert_substring_spec:
  assumes "holds p xs" and "0 < str_length (buf p)" and "kindof p \<noteq> KINDOF_CLOSED" and "i < j" and "j \<le> length zs"
  shows "\<exists>p' ys. rgc_buffer_insert_substring p (str_rep zs sl) (int i) (int j) = Some (True, p') \<and> holds p' ys \<and>
    unread p' ys = take (j - i) (drop i zs) @ unread p xs \<and> matchstart p' = matchstop p' \<and> forward p' = matchstop p' \<and>
    filepos p' = max 0 (filepos p - int (j - i)) \<and> dev p' = dev p \<and> eof p' = eof p"
proof -
  let ?zs = "take (j - i) (drop i zs)"
  have len: "length ?zs = j - i" "int j - int i = int (length ?zs)" "0 < length ?zs" using assms(4,5) by auto
  obtain q where q: "rgc_reserve_space p (int (length ?zs)) = Some q" "reserved p xs (int (length ?zs)) q"
    using reserve_spec [OF assms(1,2)] by blast
  from inserted_holds [OF assms(1) q(2) len(3)]
  obtain m ys where m: "blit (char0 (buf q)) (nat (matchstop q) - length ?zs) (map Some ?zs) 0 (length ?zs) = Some m"
    "int (length ?zs) \<le> matchstop q" and
    h: "holds (q\<lparr>buf := (buf q)\<lparr>char0 := m\<rparr>, filepos := fp, matchstop := matchstop q - int (length ?zs),
        forward := matchstop q - int (length ?zs), matchstart := matchstop q - int (length ?zs)\<rparr>) ys"
    "unread (q\<lparr>buf := (buf q)\<lparr>char0 := m\<rparr>, filepos := fp, matchstop := matchstop q - int (length ?zs),
        forward := matchstop q - int (length ?zs), matchstart := matchstop q - int (length ?zs)\<rparr>) ys = ?zs @ unread p xs" for fp
    by blast
  have "idx (matchstop q - int (length ?zs)) = Some (nat (matchstop q) - length ?zs)"
    using m(2) by (simp add: idx_def nat_diff_distrib)
  moreover have "blit (char0 (buf q)) (nat (matchstop q) - length ?zs) (char0 (str_rep zs sl)) i (length ?zs) = Some m"
    using m(1) len(1) assms(4,5) take_drop_c_string [of i "length ?zs" zs sl] by (simp add: blit_def split: if_splits)
  moreover have dev: "filepos q = filepos p" "dev q = dev p" "eof q = eof p" by (rule reservedD [OF q(2)])+
  moreover have "(if filepos p \<ge> int (length ?zs) then filepos p - int (length ?zs) else 0) = max 0 (filepos p - int (length ?zs))"
    by simp
  ultimately have "rgc_buffer_insert_substring p (str_rep zs sl) (int i) (int j) =
      Some (True, q\<lparr>buf := (buf q)\<lparr>char0 := m\<rparr>, filepos := max 0 (filepos p - int (length ?zs)), matchstop := matchstop q - int (length ?zs),
        forward := matchstop q - int (length ?zs), matchstart := matchstop q - int (length ?zs)\<rparr>)"
    using q(1) assms(3,4)
    by (simp add: rgc_buffer_insert_substring_def INPUT_PORT_CLOSEP_def Let_def len(2) del: length_take length_drop)
  with h [of "max 0 (filepos p - int (length ?zs))"] dev show ?thesis
    unfolding len(1)
    by (intro exI [of _ "q\<lparr>buf := (buf q)\<lparr>char0 := m\<rparr>, filepos := max 0 (filepos p - int (j - i)),
      matchstop := matchstop q - int (j - i), forward := matchstop q - int (j - i), matchstart := matchstop q - int (j - i)\<rparr>"]
      exI [of _ ys]) simp
qed

lemma insert_char_spec:
  assumes "holds p xs" and "0 < str_length (buf p)" and "kindof p \<noteq> KINDOF_CLOSED"
  shows "\<exists>p' ys. rgc_buffer_insert_char p c = Some (True, p') \<and> holds p' ys \<and>
    unread p' ys = c # unread p xs \<and> matchstart p' = matchstop p' \<and> forward p' = matchstop p' \<and>
    filepos p' = max 0 (filepos p - 1) \<and> dev p' = dev p \<and> eof p' = eof p"
proof -
  have len: "length [c] = 1" "int 1 = 1" "[c] @ zs = c # zs" for zs by simp_all
  obtain q where q: "rgc_reserve_space p 1 = Some q" "reserved p xs 1 q"
    using reserve_spec [OF assms(1,2)] by blast
  from inserted_holds [OF assms(1), of "[c]" q, unfolded len, OF q(2) zero_less_one]
  obtain m ys where m: "blit (char0 (buf q)) (nat (matchstop q) - 1) (map Some [c]) 0 1 = Some m" "1 \<le> matchstop q" and
    h: "holds (q\<lparr>buf := (buf q)\<lparr>char0 := m\<rparr>, filepos := fp, matchstop := matchstop q - 1,
        forward := matchstop q - 1, matchstart := matchstop q - 1\<rparr>) ys"
    "unread (q\<lparr>buf := (buf q)\<lparr>char0 := m\<rparr>, filepos := fp, matchstop := matchstop q - 1,
        forward := matchstop q - 1, matchstart := matchstop q - 1\<rparr>) ys = c # unread p xs" for fp
    by blast
  let ?i = "nat (matchstop q) - 1"
  have "?i < length (char0 (buf q))" "m = (char0 (buf q))[?i := Some c]"
    using m(1) by (auto simp: blit_def upd_conv_take_nth_drop split: if_splits)
  moreover have "idx (matchstop q - 1) = Some ?i" using m(2) by (simp add: idx_def nat_diff_distrib)
  moreover have dev: "filepos q = filepos p" "dev q = dev p" "eof q = eof p" by (rule reservedD [OF q(2)])+
  moreover have "(if filepos p \<ge> 1 then filepos p - 1 else 0) = max 0 (filepos p - 1)" by simp
  ultimately have "rgc_buffer_insert_char p c = Some (True, q\<lparr>buf := (buf q)\<lparr>char0 := m\<rparr>, filepos := max 0 (filepos p - 1),
      matchstop := matchstop q - 1, forward := matchstop q - 1, matchstart := matchstop q - 1\<rparr>)"
    using q(1) assms(3) by (simp add: rgc_buffer_insert_char_def INPUT_PORT_CLOSEP_def Let_def RGC_BUFFER_SET_def)
  with h [of "max 0 (filepos p - 1)"] dev show ?thesis
    by (intro exI [of _ "q\<lparr>buf := (buf q)\<lparr>char0 := m\<rparr>, filepos := max 0 (filepos p - 1),
      matchstop := matchstop q - 1, forward := matchstop q - 1, matchstart := matchstop q - 1\<rparr>"] exI [of _ ys]) simp
qed

text \<open>Doubling an empty buffer leaves it empty, so that making room never ends.\<close>

lemma reserve_empty:
  assumes "str_length (buf p) = 0" and "bufpos p = matchstop p" and "matchstop p < amount" and "0 < amount"
  shows "rgc_reserve_space p amount = None"
proof (rule ccontr)
  assume "rgc_reserve_space p amount \<noteq> None"
  then obtain p' where "rgc_reserve_space p amount = Some p'" by blast
  then have "\<not> (str_length (buf p) = 0 \<and> bufpos p = matchstop p \<and> matchstop p < amount \<and> 0 < amount)"
  proof (induction rule: rgc_reserve_space.raw_induct [rotated 1, consumes 1, case_names step])
    case (step f p amount p')
    show ?case
    proof
      assume *: "str_length (buf p) = 0 \<and> bufpos p = matchstop p \<and> matchstop p < amount \<and> 0 < amount"
      then obtain q where q: "rgc_double_buffer p = Some q" "f q amount = Some p'"
        using step(2) by (auto simp: BGL_INPUT_PORT_BUFSIZ_def split: if_splits Option.bind_splits)
      have "str_length (buf q) = 0 \<and> bufpos q = matchstop q \<and> matchstop q = matchstop p"
        using q(1) * by (auto simp: rgc_double_buffer_def BGL_INPUT_PORT_BUFSIZ_def make_string_sans_fill_def split: Option.bind_splits)
      with step(1) [OF q(2)] * show False by simp
    qed
  qed
  with assms show False by blast
qed

end
