(* ===== verification/Iodev.thy ===== *)
theory Iodev
  imports Rgc
begin

text \<open>
  The functions behind the field \<open>sysread\<close> of input ports (\<open>runtime/Clib/cports.c\<close>) satisfy the
  interface of theory \<open>Rgc\<close>: string ports, mapped files, procedures, and files over the system call
  \<open>read\<close>. What a procedure or the system does is a parameter with its own locale.
\<close>

section \<open>String ports and mapped files\<close>

interpretation string_dev: input_device bgl_eof_read "\<lambda>_. True" "\<lambda>_. []"
  by unfold_locales (auto simp: bgl_eof_read_def)

definition mmap_left :: "mmap_port \<Rightarrow> u8 list" where
  "mmap_left d = (case rds (map_data d) (nat (map_offset d)) (nat (map_end d - map_offset d)) of None \<Rightarrow> [] | Some bs \<Rightarrow> bs)"

definition mmap_ok :: "mmap_port \<Rightarrow> bool" where
  "mmap_ok d \<longleftrightarrow> 0 \<le> map_offset d \<and> map_offset d < map_end d \<and>
     rds (map_data d) (nat (map_offset d)) (nat (map_end d - map_offset d)) \<noteq> None"

lemma mmap_read_spec:
  assumes "mmap_ok d" and "0 < n"
  shows "\<exists>bs d'. bgl_input_mmap_read d n = Some (Read bs (bs = mmap_left d) d') \<and> bs \<noteq> [] \<and> int (length bs) \<le> n \<and>
    mmap_left d = bs @ mmap_left d' \<and> (bs \<noteq> mmap_left d \<longrightarrow> mmap_ok d')"
proof -
  obtain i k where ik: "map_offset d = int i" "map_end d = int (i + k)" "0 < k"
  proof
    show "map_offset d = int (nat (map_offset d))" "map_end d = int (nat (map_offset d) + nat (map_end d - map_offset d))"
      "0 < nat (map_end d - map_offset d)"
      using assms(1) by (auto simp: mmap_ok_def)
  qed
  obtain cs where cs: "rds (map_data d) i k = Some cs" using assms(1) ik by (auto simp: mmap_ok_def)
  define j where "j = (if int k > n then nat n else k)"
  have j: "0 < j" "j \<le> k" "int j \<le> n" "(if int k > n then n else int k) = int j" using assms(2) ik(3) by (auto simp: j_def)
  obtain bs rest where bs: "rds (map_data d) i j = Some bs" "rds (map_data d) (i + j) (k - j) = Some rest" "cs = bs @ rest"
    using cs rds_add [of "map_data d" i j "k - j"] j(2) by (auto split: Option.bind_splits)
  let ?d = "d\<lparr>map_offset := map_offset d + int j\<rparr>"
  have len: "length bs = j" "length cs = k" "length rest = k - j" using length_rds bs cs by blast+
  have left: "mmap_left d = cs" using cs ik by (simp add: mmap_left_def)
  have d': "nat (map_offset ?d) = i + j" "nat (map_end ?d - map_offset ?d) = k - j" "map_offset ?d < map_end ?d \<longleftrightarrow> j < k"
    "0 \<le> map_offset ?d"
    using ik by auto
  have left': "mmap_left ?d = rest" unfolding mmap_left_def d' using bs(2) by simp
  have "bgl_input_mmap_read d n = Some (Read bs (j = k) ?d)"
    using ik j bs(1) by (simp add: bgl_input_mmap_read_def Let_def)
  moreover have "j = k \<longleftrightarrow> bs = mmap_left d" using len bs(3) left by auto
  moreover have "mmap_ok ?d" if "j < k"
    unfolding mmap_ok_def d' using that bs(2) ik(1) by simp
  ultimately show ?thesis using j left left' len bs(3) by (intro exI [of _ bs] exI [of _ ?d]) auto
qed

interpretation mmap_dev: signalling_device bgl_input_mmap_read mmap_ok mmap_left
proof
  fix d n bs e d'
  assume d: "mmap_ok d" "(0::int) < n"
  from mmap_read_spec [OF this] show "bgl_input_mmap_read d n \<noteq> None" by auto
  assume "bgl_input_mmap_read d n = Some (Read bs e d')"
  with mmap_read_spec [OF d] show "int (length bs) \<le> n \<and> mmap_left d = bs @ mmap_left d' \<and> (e \<or> mmap_ok d') \<and>
      (e \<or> bs = [] \<longrightarrow> mmap_left d' = [])"
    by auto
next
  fix d n e d'
  assume "mmap_ok d" "(0::int) < n" "bgl_input_mmap_read d n = Some (Read [] e d')"
  with mmap_read_spec [of d n] show e by auto
qed

section \<open>Procedures\<close>

text \<open>A procedure that returns non-empty strings, and false at the end.\<close>

locale procedure_source =
  fixes call :: "'s \<Rightarrow> proc_result \<times> 's" and okp :: "'s \<Rightarrow> bool" and leftp :: "'s \<Rightarrow> u8 list"
  assumes strings: "okp st \<Longrightarrow> call st = (Proc_String s, st') \<Longrightarrow> s \<noteq> [] \<and> okp st' \<and> leftp st = s @ leftp st'"
    and ends: "okp st \<Longrightarrow> call st = (Proc_False, st') \<Longrightarrow> leftp st = [] \<and> leftp st' = []"
begin

definition proc_ok :: "'s proc_port \<Rightarrow> bool" where
  "proc_ok d \<longleftrightarrow> okp (proc d) \<and> (\<forall>s. pbuffer d = Some s \<longrightarrow> 0 \<le> pbufpos d \<and> pbufpos d < int (length s)) \<and>
     (pbuffer d = None \<longrightarrow> pbufpos d = 0)"

definition proc_left :: "'s proc_port \<Rightarrow> u8 list" where
  "proc_left d = (case pbuffer d of None \<Rightarrow> [] | Some s \<Rightarrow> drop (nat (pbufpos d)) s) @ leftp (proc d)"

lemma proc_take_spec:
  assumes "proc_ok d" and "pbuffer d = Some s" and "0 < n"
  shows "\<exists>bs d'. proc_take s d n = Some (Read bs False d') \<and> bs \<noteq> [] \<and> int (length bs) \<le> n \<and>
    proc_left d = bs @ proc_left d' \<and> proc_ok d'"
proof -
  obtain i where i: "pbufpos d = int i" "i < length s" using assms(1,2) by (auto simp: proc_ok_def elim: nonneg_int_cases)
  show ?thesis
  proof (cases "int (length s) - int i \<le> n")
    case True
    with i assms show ?thesis by (simp add: proc_take_def Let_def proc_left_def proc_ok_def of_nat_diff)
  next
    case False
    obtain k where k: "n = int k" using assms(3) by (metis nonneg_int_cases order_less_imp_le)
    have "drop i s = take k (drop i s) @ drop (i + k) s" 
      using append_take_drop_id [of k "drop i s"] by (simp add: add.commute)
    with False i assms k show ?thesis
      by (simp add: proc_take_def Let_def proc_left_def proc_ok_def nat_add_distrib)
  qed
qed

end

sublocale procedure_source \<subseteq> signalling_device "bgl_proc_read call" proc_ok proc_left
proof
  fix d n
  assume d: "proc_ok d" "(0::int) < n"
  have main: "(\<exists>msg. bgl_proc_read call d n = Some (Read_Error False msg)) \<or>
    (\<exists>bs e d'. bgl_proc_read call d n = Some (Read bs e d') \<and> (e \<longleftrightarrow> bs = []) \<and> int (length bs) \<le> n \<and>
      proc_left d = bs @ proc_left d' \<and> (e \<or> proc_ok d') \<and> (e \<longrightarrow> proc_left d' = []))"
  proof (cases "pbuffer d")
    case (Some s)
    then show ?thesis using proc_take_spec [OF d(1) Some d(2)] by (auto simp: bgl_proc_read_def)
  next
    case None
    obtain r st where c: "call (proc d) = (r, st)" by fastforce
    show ?thesis
    proof (cases r)
      case (Proc_String s)
      let ?d = "d\<lparr>proc := st, pbuffer := Some s\<rparr>"
      have s: "s \<noteq> []" "okp st" "leftp (proc d) = s @ leftp st"
        using strings c Proc_String d(1) by (auto simp: proc_ok_def)
      then have "proc_ok ?d" "proc_left ?d = proc_left d" using d(1) None by (auto simp: proc_ok_def proc_left_def)
      with proc_take_spec [of ?d s n] d(2) None c Proc_String show ?thesis by (auto simp: bgl_proc_read_def)
    next
      case Proc_False
      then have "leftp (proc d) = []" "leftp st = []" using ends c d(1) by (auto simp: proc_ok_def)
      with None c Proc_False show ?thesis using d(2) by (simp add: bgl_proc_read_def proc_left_def)
    qed (use None c in \<open>simp add: bgl_proc_read_def\<close>)
  qed
  then show "bgl_proc_read call d n \<noteq> None" by auto
  fix bs e d'
  assume "bgl_proc_read call d n = Some (Read bs e d')"
  with main show "int (length bs) \<le> n \<and> proc_left d = bs @ proc_left d' \<and> (e \<or> proc_ok d') \<and>
      (e \<or> bs = [] \<longrightarrow> proc_left d' = [])"
    by auto
next
  fix d n e d'
  assume d: "proc_ok d" "(0::int) < n" "bgl_proc_read call d n = Some (Read [] e d')"
  show e
  proof (cases "pbuffer d")
    case (Some s)
    then show ?thesis using proc_take_spec [OF d(1) Some d(2)] d(3) by (auto simp: bgl_proc_read_def)
  next
    case None
    obtain r st where c: "call (proc d) = (r, st)" by fastforce
    show ?thesis
    proof (cases r)
      case (Proc_String s)
      let ?d = "d\<lparr>proc := st, pbuffer := Some s\<rparr>"
      have "s \<noteq> []" "okp st" using strings c Proc_String d(1) by (auto simp: proc_ok_def)
      then have "proc_ok ?d" using d(1) None by (auto simp: proc_ok_def)
      with proc_take_spec [of ?d s n] d None c Proc_String show ?thesis by (auto simp: bgl_proc_read_def)
    qed (use None c d(3) in \<open>auto simp: bgl_proc_read_def\<close>)
  qed
qed

text \<open>A procedure that delivers a list of strings.\<close>

fun deliver :: "u8 list list \<Rightarrow> proc_result \<times> u8 list list" where
  "deliver [] = (Proc_False, [])"
| "deliver (s # ss) = (Proc_String s, ss)"

interpretation list_source: procedure_source deliver "\<lambda>ss. [] \<notin> set ss" concat
proof
  fix ss s ss'
  show "[] \<notin> set ss \<Longrightarrow> deliver ss = (Proc_String s, ss') \<Longrightarrow> s \<noteq> [] \<and> [] \<notin> set ss' \<and> concat ss = s @ concat ss'"
    by (cases ss) auto
  show "[] \<notin> set ss \<Longrightarrow> deliver ss = (Proc_False, ss') \<Longrightarrow> concat ss = [] \<and> concat ss' = []"
    by (cases ss) auto
qed

section \<open>Files\<close>

text \<open>A file: \<open>read\<close> is interrupted a bounded number of times, delivers at most what is asked, and returns 0
  at the end of the file only.\<close>

locale os_file =
  fixes os_read :: "'f \<Rightarrow> int \<Rightarrow> os_read \<times> 'f" and okf :: "'f \<Rightarrow> bool" and leftf :: "'f \<Rightarrow> u8 list" and signals_due :: "'f \<Rightarrow> nat"
  assumes data: "okf f \<Longrightarrow> 0 < n \<Longrightarrow> os_read f n = (Os_data bs, f') \<Longrightarrow>
      int (length bs) \<le> n \<and> okf f' \<and> leftf f = bs @ leftf f' \<and> (bs = [] \<longrightarrow> leftf f' = [])"
    and interrupted: "okf f \<Longrightarrow> os_read f n = (Os_EINTR, f') \<Longrightarrow> okf f' \<and> leftf f = leftf f' \<and> signals_due f' < signals_due f"
begin

lemma read_spec:
  assumes "okf f" and "0 < n"
  shows "(\<exists>reset msg. bgl_read os_read f n = Some (Read_Error reset msg)) \<or>
    (\<exists>bs f'. bgl_read os_read f n = Some (Read bs (bs = []) f') \<and> int (length bs) \<le> n \<and> okf f' \<and> leftf f = bs @ leftf f' \<and>
      (bs = [] \<longrightarrow> leftf f' = []))"
  using assms
proof (induction "signals_due f" arbitrary: f rule: less_induct)
  case less
  obtain r f' where c: "os_read f n = (r, f')" by fastforce
  show ?case
  proof (cases r)
    case (Os_data bs)
    with c data [OF less.prems] show ?thesis by (subst (1 2) bgl_read.simps) auto
  next
    case Os_EINTR
    note i = interrupted [OF less.prems(1) c [unfolded Os_EINTR]]
    then have "bgl_read os_read f n = bgl_read os_read f' n" using c Os_EINTR by (subst bgl_read.simps) simp
    then show ?thesis using less.hyps [of f'] i less.prems(2) by simp
  next
    case (Os_error reset msg)
    with c show ?thesis by (subst (1 2) bgl_read.simps) auto
  qed
qed

end

sublocale os_file \<subseteq> signalling_device "bgl_read os_read" okf leftf
proof
  fix d n
  assume d: "okf d" "(0::int) < n"
  from read_spec [OF this] show "bgl_read os_read d n \<noteq> None" by auto
  fix bs e d'
  assume "bgl_read os_read d n = Some (Read bs e d')"
  with read_spec [OF d] show "int (length bs) \<le> n \<and> leftf d = bs @ leftf d' \<and> (e \<or> okf d') \<and> (e \<or> bs = [] \<longrightarrow> leftf d' = [])"
    by auto
next
  fix d n e d'
  assume "okf d" "(0::int) < n" "bgl_read os_read d n = Some (Read [] e d')"
  with read_spec [of d n] show e by auto
qed

text \<open>A file by the outcomes of its reads; a chunk that is longer than what is asked is split.\<close>

fun scripted :: "os_read list \<Rightarrow> int \<Rightarrow> os_read \<times> os_read list" where
  "scripted [] n = (Os_data [], [])"
| "scripted (Os_data bs # rs) n =
     (if int (length bs) \<le> n then (Os_data bs, rs) else (Os_data (take (nat n) bs), Os_data (drop (nat n) bs) # rs))"
| "scripted (r # rs) n = (r, rs)"

fun script_left :: "os_read list \<Rightarrow> u8 list" where
  "script_left [] = []"
| "script_left (Os_data bs # rs) = bs @ script_left rs"
| "script_left (r # rs) = script_left rs"

interpretation script_file: os_file scripted "\<lambda>rs. Os_data [] \<notin> set rs" script_left length
proof
  fix rs n bs rs'
  show "Os_data [] \<notin> set rs \<Longrightarrow> 0 < n \<Longrightarrow> scripted rs n = (Os_data bs, rs') \<Longrightarrow>
      int (length bs) \<le> n \<and> Os_data [] \<notin> set rs' \<and> script_left rs = bs @ script_left rs' \<and> (bs = [] \<longrightarrow> script_left rs' = [])"
    by (cases "(rs, n)" rule: scripted.cases) (auto split: if_splits)
  show "Os_data [] \<notin> set rs \<Longrightarrow> scripted rs n = (Os_EINTR, rs') \<Longrightarrow>
      Os_data [] \<notin> set rs' \<and> script_left rs = script_left rs' \<and> length rs' < length rs"
    by (cases "(rs, n)" rule: scripted.cases) (auto split: if_splits)
qed

end
