(* ===== verification/Ports.thy ===== *)
theory Ports
  imports Iodev
begin

text \<open>
  The properties of input ports: theories \<open>Iport\<close> and \<open>Rgc\<close> over the devices of theory \<open>Iodev\<close>.
\<close>

section \<open>String ports\<close>

text \<open>A string port is at its end from the start, so that it never calls \<open>bgl_eof_read\<close>.\<close>

lemma string_signals: "signalling_device bgl_eof_read (\<lambda>_. False) (\<lambda>_. [])"
  by unfold_locales auto

lemma open_substring:
  assumes "i \<le> j" and "j \<le> length zs"
  shows "\<exists>p. bgl_open_input_substring (str_rep zs sl) (int i) (int j) = Some p \<and> holds p (take (j - i) (drop i zs)) \<and>
    eof p \<and> kindof p = KINDOF_STRING \<and> matchstart p = 0 \<and> matchstop p = 0 \<and> filepos p = 0 \<and> dev p = 0 \<and>
    str_length (buf p) = j - i \<and> fillbarrier p = -1 \<and> iport_length p = int (j - i) \<and> lastchar p = newline"
proof -
  let ?xs = "take (j - i) (drop i zs)"
  have "take (j - i) (drop i (char0 (str_rep zs sl))) = map Some ?xs"
    using assms take_drop_c_string [of i "j - i" zs sl] by simp
  moreover have "i + (j - i) \<le> length (char0 (str_rep zs sl))" using assms by simp
  ultimately have "bgl_open_input_substring (str_rep zs sl) (int i) (int j) = Some (bgl_open_input_substring_bang
      \<lparr>str_length = j - i, char0 = map Some ?xs @ [Some 0]\<rparr> 0 (int (j - i)))"
    using assms by (simp add: bgl_open_input_substring_def make_string_sans_fill_def blit_def gc_malloc_def
        list_update_append of_nat_diff flip: replicate_append_same)
  with assms show ?thesis
    by (auto simp: bgl_open_input_substring_bang_def bgl_make_input_port_def holds_def of_nat_diff)
qed

section \<open>Properties\<close>

text \<open>C3: filling the buffer of an input port, over any device that delivers its contents in order: whether there
  is room, or the buffer is shifted, or it is doubled, the text from the start of the current match and the
  character before it are kept, the bytes of the device are appended to it in order, the cursors keep their
  distance to the start of the match, the barrier is obeyed, no cell outside the block is touched, and the answer is
  whether there are new bytes; when there are none, the barrier is reached or the device has nothing left. Nothing is
  raised but what the device reports to a read, and only when the port has not seen its end and the barrier allows a read;
  a closed port raises.\<close>

theorem rgc_fill:
  assumes "input_device sr ok left" and "port_ok ok left p xs" and "kindof p \<noteq> KINDOF_CLOSED"
    and "0 < str_length (buf p)" and "2 * str_length (buf p) < 2 ^ 31" and "- (2 ^ 31) \<le> fillbarrier p" and "fillbarrier p < 2 ^ 31"
  shows "((\<exists>got p' xs'. rgc_fill_buffer sr p = Some (Inr (got, p')) \<and> filled ok left p xs got p' xs') \<or>
      (\<exists>f. rgc_fill_buffer sr p = Some (Inl f) \<and> \<not> eof p \<and> fillbarrier p \<noteq> 0 \<and> device_fails sr (dev p) f)) \<and>
    rgc_fill_buffer sr (p\<lparr>kindof := KINDOF_CLOSED\<rparr>) =
      Some (Inl (C_System_Failure BGL_IO_READ_ERROR ''read'' ''input-port closed''))"
proof -
  obtain r where r: "rgc_fill_buffer sr p = Some r" "\<forall>f. r = Inl f \<longrightarrow> \<not> eof p \<and> fillbarrier p \<noteq> 0 \<and> device_fails sr (dev p) f"
    "\<forall>got p'. r = Inr (got, p') \<longrightarrow> (\<exists>xs'. filled ok left p xs got p' xs')"
    using input_device.fill_spec [OF assms] by blast
  then show ?thesis by (cases r) (auto simp: rgc_fill_buffer_def INPUT_PORT_CLOSEP_def)
qed

definition hello_mmap :: "mmap_port input_port" where
  "hello_mmap = bgl_open_input_mmap (map Some (bytes ''hello'')) (bstring_of (bytes ''..'')) 0 5"

lemma hello_ok: "port_ok mmap_ok mmap_left hello_mmap []"
  by (simp add: port_ok_def hello_mmap_def bgl_open_input_mmap_def bgl_make_input_port_def holds_def bytes_def mmap_ok_def
      mem_simps eval_nat_numeral)

lemma mmap_never_fails: "\<not> device_fails bgl_input_mmap_read d f"
  by (auto simp: device_fails_def bgl_input_mmap_read_def Let_def split: Option.bind_splits)

lemma hello_left: "unread hello_mmap [] = []" "token hello_mmap [] = []" "mmap_left (dev hello_mmap) = bytes ''hello''"
  by (simp_all add: unread_def token_def hello_mmap_def bgl_open_input_mmap_def bgl_make_input_port_def mmap_left_def mem_simps
      bytes_def eval_nat_numeral)

lemma hello_fields: "kindof hello_mmap = KINDOF_MMAP" "str_length (buf hello_mmap) = 2" "fillbarrier hello_mmap = - 1"
  "bufpos hello_mmap = 0" "matchstart hello_mmap = 0" "lastchar hello_mmap = newline" "filepos hello_mmap = 0" "eof hello_mmap = False"
  by (simp_all add: hello_mmap_def bgl_open_input_mmap_def bgl_make_input_port_def bytes_def)

theorem rgc_fill_witness:
  "\<exists>p' xs'. rgc_fill_buffer bgl_input_mmap_read hello_mmap = Some (Inr (True, p')) \<and> filled mmap_ok mmap_left hello_mmap [] True p' xs' \<and>
     \<not> eof hello_mmap \<and> token p' xs' @ mmap_left (dev p') = bytes ''hello'' \<and>
     rgc_fill_buffer bgl_input_mmap_read (hello_mmap\<lparr>kindof := KINDOF_CLOSED\<rparr>) =
       Some (Inl (C_System_Failure BGL_IO_READ_ERROR ''read'' ''input-port closed''))"
proof -
  obtain got p' xs' where *: "rgc_fill_buffer bgl_input_mmap_read hello_mmap = Some (Inr (got, p'))"
    "filled mmap_ok mmap_left hello_mmap [] got p' xs'"
    "rgc_fill_buffer bgl_input_mmap_read (hello_mmap\<lparr>kindof := KINDOF_CLOSED\<rparr>) =
       Some (Inl (C_System_Failure BGL_IO_READ_ERROR ''read'' ''input-port closed''))"
    using rgc_fill [OF mmap_dev.input_device_axioms hello_ok] mmap_never_fails by (auto simp: hello_fields)
  then obtain bs where "token p' xs' = bs" "bytes ''hello'' = bs @ mmap_left (dev p')" "got \<longleftrightarrow> bs \<noteq> []"
    "\<not> got \<longrightarrow> mmap_left (dev p') = []"
    by (auto simp: filled_def hello_left hello_fields)
  moreover from this have got by (auto simp: bytes_def)
  ultimately show ?thesis using * by (auto simp: hello_fields)
qed

text \<open>C5: reading a block through the buffer always ends, over a device that signals its end, and
  delivers exactly the next bytes of the stream, as many as were asked for or as there are left, into
  the cells that were given and no others; the position advances by as many. The only failure that is raised is one
  that the device reports, after reads of this call, and only when the buffer holds less than was asked for
  and the port has not seen its end; a closed port raises.\<close>

theorem rgc_blit:
  assumes "signalling_device sr ok left" and "port_ok ok left p xs" and "kindof p \<noteq> KINDOF_CLOSED" and "kindof p \<noteq> KINDOF_DATAGRAM"
    and "0 < io" and "i + n \<le> length s"
  shows "((\<exists>m s' p'. bgl_rgc_blit_string sr io p s (int i) (int n) = Some (Inr (m, s', p')) \<and>
        (let str = unread p xs @ left (dev p); k = min n (length str) in
          m = int k \<and> s' = take i s @ map Some (take k str) @ drop (i + k) s \<and> filepos p' = filepos p + int k \<and>
          (\<exists>xs'. port_ok ok left p' xs' \<and> unread p' xs' @ left (dev p') = drop k str))) \<or>
      (\<exists>f d. bgl_rgc_blit_string sr io p s (int i) (int n) = Some (Inl f) \<and> \<not> eof p \<and> length (unread p xs) < n \<and>
        read_on sr (dev p) d \<and> device_fails sr d f)) \<and>
    bgl_rgc_blit_string sr io (p\<lparr>kindof := KINDOF_CLOSED\<rparr>) s (int i) (int n) =
      Some (Inl (C_System_Failure BGL_IO_CLOSED_ERROR ''rgc-blit-string'' ''input-port closed''))"
proof -
  have closed: "bgl_rgc_blit_string sr io (p\<lparr>kindof := KINDOF_CLOSED\<rparr>) s (int i) (int n) =
      Some (Inl (C_System_Failure BGL_IO_CLOSED_ERROR ''rgc-blit-string'' ''input-port closed''))"
    by (simp add: bgl_rgc_blit_string_def INPUT_PORT_CLOSEP_def)
  obtain r where r: "bgl_rgc_blit_string sr io p s (int i) (int n) = Some r"
    "\<forall>f. r = Inl f \<longrightarrow> \<not> eof p \<and> length (unread p xs) < n \<and> (\<exists>d. read_on sr (dev p) d \<and> device_fails sr d f)"
    and res: "\<forall>m s' p'. r = Inr (m, s', p') \<longrightarrow> (let str = unread p xs @ left (dev p); k = min n (length str) in
      m = int k \<and> s' = take i s @ map Some (take k str) @ drop (i + k) s \<and> filepos p' = filepos p + int k \<and>
      (\<exists>xs'. port_ok ok left p' xs' \<and> unread p' xs' @ left (dev p') = drop k str))"
    using signalling_device.blit_string_spec [OF assms] unfolding Let_def by blast
  show ?thesis
  proof (cases r)
    case (Inl f)
    then show ?thesis using r closed by blast
  next
    case (Inr x)
    then show ?thesis using r(1) res closed by (cases x) blast
  qed
qed

theorem rgc_blit_witness:
  "\<exists>p'. bgl_rgc_blit_string bgl_input_mmap_read 8192 hello_mmap (gc_malloc 4) (int 1) (int 3) =
     Some (Inr (3, None # map Some (bytes ''hel''), p')) \<and> filepos p' = 3"
  using rgc_blit [OF mmap_dev.signalling_device_axioms hello_ok, of 8192 1 3 "gc_malloc 4"] mmap_never_fails
  by (simp add: hello_fields hello_left bytes_def gc_malloc_def eval_nat_numeral) blast

text \<open>C22: putting back: a substring or a character that is inserted becomes the next unread text, in front of what
  was unread, whatever room the buffer has, and the position moves back; a character that was matched can be put back
  too. But on a port opened on an empty string the buffer can never grow, and the insertion does not return.\<close>

theorem rgc_insert:
  assumes "holds p xs" and "0 < str_length (buf p)" and "kindof p \<noteq> KINDOF_CLOSED" and "i < j" and "j \<le> length zs"
  shows "(\<exists>p' ys. rgc_buffer_insert_substring p (str_rep zs sl) (int i) (int j) = Some (True, p') \<and> holds p' ys \<and>
      unread p' ys = take (j - i) (drop i zs) @ unread p xs \<and> filepos p' = max 0 (filepos p - int (j - i))) \<and>
    (\<exists>p' ys. rgc_buffer_insert_char p c = Some (True, p') \<and> holds p' ys \<and>
      unread p' ys = c # unread p xs \<and> filepos p' = max 0 (filepos p - 1)) \<and>
    (matchstart p < matchstop p \<longrightarrow> (\<exists>p'. rgc_buffer_unget_char p (xs ! (nat (matchstop p) - 1)) = Some p' \<and> holds p' xs \<and>
      unread p' xs = xs ! (nat (matchstop p) - 1) # unread p xs \<and> filepos p' = filepos p - 1)) \<and>
    (\<exists>q. bgl_open_input_string (str_rep [] sl') 0 = Some q \<and> rgc_buffer_insert_char q c = None)"
proof -
  have unget: "\<exists>p'. rgc_buffer_unget_char p (xs ! (nat (matchstop p) - 1)) = Some p' \<and> holds p' xs \<and>
      unread p' xs = xs ! (nat (matchstop p) - 1) # unread p xs \<and> filepos p' = filepos p - 1"
    if lt: "matchstart p < matchstop p"
  proof -
    let ?p = "p\<lparr>filepos := filepos p - 1, matchstop := matchstop p - 1\<rparr>"
    obtain ms me where m: "matchstart p = int ms" "matchstop p = int me" "ms \<le> me" "me \<le> length xs"
      using nat_matchstart [OF assms(1)] .
    have "rgc_buffer_unget_char p (xs ! (nat (matchstop p) - 1)) = Some ?p"
      using lt m by (simp add: rgc_buffer_unget_char_def Let_def)
    moreover have "holds ?p xs" using holdsD [OF assms(1)] lt unfolding holds_def by simp
    moreover have "me - 1 < length xs" "0 < me" "nat (int me - 1) = me - 1" using lt m by auto
    then have "unread ?p xs = xs ! (me - 1) # unread p xs"
      using m Cons_nth_drop_Suc [of "me - 1" xs] by (simp add: unread_def)
    ultimately show ?thesis using m by (intro exI [of _ ?p]) simp
  qed
  obtain q where q: "bgl_open_input_substring (str_rep [] sl') (int 0) (int 0) = Some q" "holds q []"
    "kindof q = KINDOF_STRING" "matchstop q = 0" "str_length (buf q) = 0"
    using open_substring [of 0 0 "[]" sl'] by auto
  have "rgc_reserve_space q 1 = None"
    using q holdsD(1) [OF q(2)] by (intro reserve_empty) simp_all
  then have "rgc_buffer_insert_char q c = None" using q(3) by (simp add: rgc_buffer_insert_char_def INPUT_PORT_CLOSEP_def)
  moreover have "bgl_open_input_string (str_rep [] sl') 0 = Some q" using q(1) by (simp add: bgl_open_input_string_def)
  moreover have "\<exists>p' ys. rgc_buffer_insert_substring p (str_rep zs sl) (int i) (int j) = Some (True, p') \<and> holds p' ys \<and>
      unread p' ys = take (j - i) (drop i zs) @ unread p xs \<and> filepos p' = max 0 (filepos p - int (j - i))"
    using insert_substring_spec [OF assms, of sl] by (elim exE conjE) (intro exI conjI)
  moreover have "\<exists>p' ys. rgc_buffer_insert_char p c = Some (True, p') \<and> holds p' ys \<and>
      unread p' ys = c # unread p xs \<and> filepos p' = max 0 (filepos p - 1)"
    using insert_char_spec [OF assms(1-3), of c] by (elim exE conjE) (intro exI conjI)
  ultimately show ?thesis using unget by (intro conjI impI exI [of _ q])
qed

theorem rgc_insert_witness:
  "\<exists>p' ys. rgc_buffer_insert_substring hello_mmap (str_rep (bytes ''abcdef'') []) (int 1) (int 5) = Some (True, p') \<and> holds p' ys \<and>
     unread p' ys = take (5 - 1) (drop 1 (bytes ''abcdef'')) @ unread hello_mmap [] \<and>
     filepos p' = max 0 (filepos hello_mmap - int (5 - 1))"
proof -
  have "holds hello_mmap []" "0 < str_length (buf hello_mmap)" "kindof hello_mmap \<noteq> KINDOF_CLOSED"
    using hello_ok by (simp_all add: port_ok_def)
      (simp_all add: hello_mmap_def bgl_open_input_mmap_def bgl_make_input_port_def bytes_def)
  from rgc_insert [OF this, of 1 5 "bytes ''abcdef''" "[]" 0 "[]"] show ?thesis by (simp add: bytes_def)
qed

lemma sum_result:
  assumes "\<exists>r. x = Some r \<and> (\<forall>f. r = Inl f \<longrightarrow> P f) \<and> (\<forall>b p'. r = Inr (b, p') \<longrightarrow> (b \<longleftrightarrow> Q))"
  shows "(\<exists>p'. x = Some (Inr (Q, p'))) \<or> (\<exists>f. x = Some (Inl f) \<and> P f)"
proof -
  obtain r where r: "x = Some r" "\<forall>f. r = Inl f \<longrightarrow> P f" "\<forall>b p'. r = Inr (b, p') \<longrightarrow> (b \<longleftrightarrow> Q)" using assms by blast
  then show ?thesis by (cases r) auto
qed

text \<open>C28: the tests of a grammar on positions: the beginning of a line is told by the character before the match,
  and the end of a line and the end of the input by the next character of the stream, filling the buffer when the
  match has used it up. The tests always answer, unless they have to fill the buffer and the device reports a failure
  to the read.\<close>

theorem rgc_position_tests:
  assumes "input_device sr ok left" and "port_ok ok left p xs" and "kindof p \<noteq> KINDOF_CLOSED"
    and "matchstart p \<le> int k" and "k \<le> length xs"
    and "0 < str_length (buf p)" and "2 * str_length (buf p) < 2 ^ 31" and "- (2 ^ 31) \<le> fillbarrier p" and "fillbarrier p < 0"
  shows "rgc_buffer_bol_p p = Some (before p xs = newline) \<and>
    ((\<exists>p'. rgc_buffer_eol_p sr p (int k) (bufpos p) =
        Some (Inr (drop k xs @ left (dev p) \<noteq> [] \<and> hd (drop k xs @ left (dev p)) = newline, p'))) \<or>
      (\<exists>f. rgc_buffer_eol_p sr p (int k) (bufpos p) = Some (Inl f) \<and> k = length xs \<and> \<not> eof p \<and> device_fails sr (dev p) f)) \<and>
    ((\<exists>p'. rgc_buffer_eof2_p sr p (int k) (bufpos p) = Some (Inr (drop k xs @ left (dev p) = [], p'))) \<or>
      (\<exists>f. rgc_buffer_eof2_p sr p (int k) (bufpos p) = Some (Inl f) \<and> k = length xs \<and> \<not> eof p \<and> device_fails sr (dev p) f))"
proof (intro conjI)
  show "rgc_buffer_bol_p p = Some (before p xs = newline)" using bol_spec [of p xs] assms(2) by (simp add: port_ok_def)
  show "(\<exists>p'. rgc_buffer_eol_p sr p (int k) (bufpos p) =
        Some (Inr (drop k xs @ left (dev p) \<noteq> [] \<and> hd (drop k xs @ left (dev p)) = newline, p'))) \<or>
      (\<exists>f. rgc_buffer_eol_p sr p (int k) (bufpos p) = Some (Inl f) \<and> k = length xs \<and> \<not> eof p \<and> device_fails sr (dev p) f)"
    using input_device.eol_spec [OF assms] by (rule sum_result)
  show "(\<exists>p'. rgc_buffer_eof2_p sr p (int k) (bufpos p) = Some (Inr (drop k xs @ left (dev p) = [], p'))) \<or>
      (\<exists>f. rgc_buffer_eof2_p sr p (int k) (bufpos p) = Some (Inl f) \<and> k = length xs \<and> \<not> eof p \<and> device_fails sr (dev p) f)"
    using input_device.eof2_spec [OF assms(1-3,5-9)] by (rule sum_result)
qed

theorem rgc_position_tests_witness:
  "rgc_buffer_bol_p hello_mmap = Some True \<and>
   (\<exists>p'. rgc_buffer_eol_p bgl_input_mmap_read hello_mmap (int 0) (bufpos hello_mmap) = Some (Inr (False, p'))) \<and>
   (\<exists>p'. rgc_buffer_eof2_p bgl_input_mmap_read hello_mmap (int 0) (bufpos hello_mmap) = Some (Inr (False, p')))"
  using rgc_position_tests [OF mmap_dev.input_device_axioms hello_ok, of 0] mmap_never_fails
  by (simp add: hello_fields hello_left before_def bytes_def newline_def)

end
