(* ===== verification/Rgctok.thy ===== *)
theory Rgctok
  imports Rgc Escape Intern Safearith
begin

text \<open>
  What a grammar extracts from the text it has matched: the second half of \<open>runtime/Clib/crgc.c\<close>. Strings,
  symbols and keywords are built by the operations of theories \<open>Bstring\<close>, \<open>Escape\<close> and \<open>Intern\<close>;
  integers are fixnums, elongs or bignums of theories \<open>Safearith\<close> and \<open>Bignum\<close>.
\<close>

section \<open>Strings, symbols and keywords\<close>

text \<open>The address \<open>&RGC_BUFFER_REF(ip, i)\<close>.\<close>

definition buffer_at :: "'d input_port \<Rightarrow> int \<Rightarrow> u8 cells option" where
  "buffer_at p i = do { k \<leftarrow> idx i; Some (drop k (char0 (buf p))) }"

definition rgc_buffer_substring :: "'d input_port \<Rightarrow> int \<Rightarrow> int \<Rightarrow> bgl_string option" where
  "rgc_buffer_substring p offset end' = do {
     let start = matchstart p;
     let len = end' - offset;
     s \<leftarrow> buffer_at p (start + offset);
     string_to_bstring_len (Some s) len }"

definition rgc_buffer_escape_substring :: "'d input_port \<Rightarrow> int \<Rightarrow> int \<Rightarrow> bool \<Rightarrow> bgl_string option" where
  "rgc_buffer_escape_substring p offset end' strict = do {
     s \<leftarrow> buffer_at p (matchstart p);
     if strict then bgl_escape_scheme_string s offset end' else bgl_escape_C_string s offset end' }"

definition rgc_buffer_symbol :: "'d input_port \<Rightarrow> globals \<Rightarrow> (addr \<times> globals) option" where
  "rgc_buffer_symbol p g = do {
     s \<leftarrow> buffer_at p (matchstart p);
     bgl_string_to_symbol_len s (RGC_BUFFER_MATCH_LENGTH p) g }"

definition rgc_buffer_subsymbol :: "'d input_port \<Rightarrow> int \<Rightarrow> int \<Rightarrow> globals \<Rightarrow> (addr \<times> globals) option" where
  "rgc_buffer_subsymbol p offset end' g = do {
     let len = end' - offset;
     s \<leftarrow> buffer_at p (matchstart p + offset);
     bgl_string_to_symbol_len s len g }"

definition toupper :: "u8 \<Rightarrow> u8" where
  "toupper c = (if 97 \<le> c \<and> c \<le> 122 then c - 32 else c)"

text \<open>\<open>for( i = 0; i < len; i++ ) if( isascii( s[ i ] ) ) s[ i ] = f( s[ i ] )\<close>, in the buffer of the port.\<close>

definition map_ascii :: "(u8 \<Rightarrow> u8) \<Rightarrow> int \<Rightarrow> int \<Rightarrow> 'd input_port \<Rightarrow> 'd input_port option" where
  "map_ascii f at len p = for_up 0 len (\<lambda>i p. do {
     c \<leftarrow> RGC_BUFFER_REF p (at + i);
     if c < 128 then RGC_BUFFER_SET p (at + i) (f c) else Some p }) p"

definition case_subsymbol :: "(u8 \<Rightarrow> u8) \<Rightarrow> 'd input_port \<Rightarrow> int \<Rightarrow> int \<Rightarrow> globals \<Rightarrow> (addr \<times> globals \<times> 'd input_port) option" where
  "case_subsymbol f p offset end' g = do {
     let len = end' - offset;
     p \<leftarrow> map_ascii f (matchstart p + offset) len p;
     s \<leftarrow> buffer_at p (matchstart p + offset);
     (a, g) \<leftarrow> bgl_string_to_symbol_len s len g;
     Some (a, g, p) }"

definition rgc_buffer_upcase_subsymbol :: "'d input_port \<Rightarrow> int \<Rightarrow> int \<Rightarrow> globals \<Rightarrow> (addr \<times> globals \<times> 'd input_port) option" where
  "rgc_buffer_upcase_subsymbol = case_subsymbol toupper"

definition rgc_buffer_downcase_subsymbol :: "'d input_port \<Rightarrow> int \<Rightarrow> int \<Rightarrow> globals \<Rightarrow> (addr \<times> globals \<times> 'd input_port) option" where
  "rgc_buffer_downcase_subsymbol = case_subsymbol tolower"

text \<open>The position of the name of a keyword, after a leading colon.\<close>

definition keyword_start :: "'d input_port \<Rightarrow> int option" where
  "keyword_start p = do {
     c \<leftarrow> RGC_BUFFER_REF p (matchstart p);
     Some (if c = 58 then matchstart p + 1 else matchstart p) }"

definition rgc_buffer_keyword :: "'d input_port \<Rightarrow> globals \<Rightarrow> (addr \<times> globals) option" where
  "rgc_buffer_keyword p g = do {
     k \<leftarrow> keyword_start p;
     s \<leftarrow> buffer_at p k;
     bgl_string_to_keyword_len s (RGC_BUFFER_MATCH_LENGTH p - 1) g }"

definition case_keyword :: "(u8 \<Rightarrow> u8) \<Rightarrow> 'd input_port \<Rightarrow> globals \<Rightarrow> (addr \<times> globals \<times> 'd input_port) option" where
  "case_keyword f p g = do {
     let len = RGC_BUFFER_MATCH_LENGTH p - 1;
     k \<leftarrow> keyword_start p;
     p \<leftarrow> map_ascii f k len p;
     s \<leftarrow> buffer_at p k;
     (a, g) \<leftarrow> bgl_string_to_keyword_len s len g;
     Some (a, g, p) }"

definition rgc_buffer_downcase_keyword :: "'d input_port \<Rightarrow> globals \<Rightarrow> (addr \<times> globals \<times> 'd input_port) option" where
  "rgc_buffer_downcase_keyword = case_keyword tolower"

definition rgc_buffer_upcase_keyword :: "'d input_port \<Rightarrow> globals \<Rightarrow> (addr \<times> globals \<times> 'd input_port) option" where
  "rgc_buffer_upcase_keyword = case_keyword toupper"

section \<open>Integers\<close>

text \<open>The loop of \<open>rgc_buffer_fixnum\<close>: the character is a \<open>char\<close>, and the sum wraps.\<close>

definition rgc_buffer_fixnum :: "'d input_port \<Rightarrow> c_long option" where
  "rgc_buffer_fixnum p = do {
     let start = matchstart p;
     c \<leftarrow> RGC_BUFFER_REF p start;
     let i = (if c = 45 \<or> c = 43 then start + 1 else start);
     res \<leftarrow> for_up i (matchstop p) (\<lambda>i res. do {
       c \<leftarrow> RGC_BUFFER_REF p i;
       Some (res * 10 + word_of_int (sint c - 48)) }) 0;
     Some (if c = 45 then - res else res) }"

definition rgc_buffer_bignum :: "gmp \<Rightarrow> 'd input_port \<Rightarrow> bignum option" where
  "rgc_buffer_bignum G p = do {
     let start = matchstart p;
     let stop = matchstop p;
     in_place \<leftarrow> (if stop < bufpos p then do { c \<leftarrow> RGC_BUFFER_REF p stop; Some (isspace c) } else Some False);
     if in_place then do { s \<leftarrow> buffer_at p start; bgl_string_to_bignum G s 10 }
     else do {
       sz \<leftarrow> idx (stop - start);
       k \<leftarrow> idx start;
       tmp \<leftarrow> blit (gc_malloc (sz + 1)) 0 (char0 (buf p)) k sz;
       tmp \<leftarrow> wr tmp sz 0;
       bgl_string_to_bignum G tmp 10 } }"

function skip_zeros :: "'d input_port \<Rightarrow> int \<Rightarrow> int \<Rightarrow> int option" where
  "skip_zeros p start stop =
     (if start < stop then do {
        c \<leftarrow> RGC_BUFFER_REF p start;
        if c = 48 then skip_zeros p (start + 1) stop else Some start }
      else Some start)"
  by pat_completeness auto
termination
  by (relation "measure (\<lambda>(p, start, stop). nat (stop - start))") auto

text \<open>The two loops, up to the bound that they test: left, the position and the value at the \<open>goto\<close>.\<close>

function digit_loop :: "'d input_port \<Rightarrow> int \<Rightarrow> int \<Rightarrow> c_long \<Rightarrow> (int \<times> c_long + c_long) option" where
  "digit_loop p start stop res =
     (if start < stop then do {
        c \<leftarrow> RGC_BUFFER_REF p start;
        let current = (scast (c - 48) :: c_long);
        if LONG_MAX div 10 - 9 <s res then Some (Inl (start, res))
        else digit_loop p (start + 1) stop (res * 10 + current) }
      else Some (Inr res))"
  by pat_completeness auto
termination
  by (relation "measure (\<lambda>(p, start, stop, res). nat (stop - start))") auto

declare skip_zeros.simps [simp del] digit_loop.simps [simp del]

definition rgc_buffer_integer :: "gmp \<Rightarrow> 'd input_port \<Rightarrow> num option" where
  "rgc_buffer_integer G p = do {
     let stop = matchstop p;
     let maxvalfx = signed_drop_bit TAG_SHIFT LONG_MAX;
     c \<leftarrow> RGC_BUFFER_REF p (matchstart p);
     let start = (if c = 43 \<or> c = 45 then matchstart p + 1 else matchstart p);
     let sg = (if c = 45 then -1 else 1 :: c_long);
     start \<leftarrow> skip_zeros p start stop;
     r \<leftarrow> digit_loop p start stop 0;
     case r of
       Inr res \<Rightarrow> Some (if res \<le>s maxvalfx then Fix (BINT (res * sg)) else Elong (res * sg))
     | Inl (start, res) \<Rightarrow> do {
         r \<leftarrow> digit_loop p start stop res;
         case r of
           Inr lres \<Rightarrow> Some (Llong (lres * sg))
         | Inl _ \<Rightarrow> map_option Big (rgc_buffer_bignum G p) } }"

section \<open>The value of digits\<close>

definition val_from :: "int \<Rightarrow> u8 list \<Rightarrow> int" where
  "val_from v ds = foldl (\<lambda>v d. 10 * v + (uint d - 48)) v ds"

lemma val_from_simps [simp]:
  "val_from v [] = v" "val_from v (d # ds) = val_from (10 * v + (uint d - 48)) ds" "dec_val ds = val_from 0 ds"
  by (simp_all add: val_from_def dec_val_def)

lemma digit_bounds: "digit d \<Longrightarrow> 0 \<le> uint d - 48 \<and> uint d - 48 \<le> 9"
  by (auto simp: digit_def word_le_def)

lemma val_from_ge: "list_all digit ds \<Longrightarrow> 0 \<le> v \<Longrightarrow> v \<le> val_from v ds"
proof (induction ds arbitrary: v)
  case (Cons d ds)
  then have d: "0 \<le> uint d - 48" using digit_bounds [of d] by simp
  then have "10 * v + (uint d - 48) \<le> val_from (10 * v + (uint d - 48)) ds" using Cons by (intro Cons.IH) auto
  then show ?case using d Cons.prems(2) by simp
qed simp

lemma val_from_butlast:
  "ds \<noteq> [] \<Longrightarrow> list_all digit ds \<Longrightarrow> val_from v (butlast ds) = val_from v ds div 10"
proof (induction ds arbitrary: v)
  case (Cons d ds)
  then have d: "0 \<le> uint d - 48 \<and> uint d - 48 \<le> 9" using digit_bounds [of d] by simp
  show ?case
  proof (cases "ds = []")
    case True
    have "(10 * v + (uint d - 48)) div 10 = v" using d by linarith
    with True show ?thesis by simp
  next
    case False
    with Cons show ?thesis by simp
  qed
qed simp

abbreviation bound10 :: int where "bound10 \<equiv> 922337203685477571"

lemma bound10: "LONG_MAX div 10 - 9 <s res \<longleftrightarrow> bound10 < sint res"
  by (simp add: LONG_MAX_def word_sless_alt)

text \<open>The bytes of the buffer from a position on.\<close>

definition buffer_has :: "'d input_port \<Rightarrow> nat \<Rightarrow> u8 list \<Rightarrow> bool" where
  "buffer_has p k cs \<longleftrightarrow> (\<forall>i<length cs. RGC_BUFFER_REF p (int (k + i)) = Some (cs ! i))"

lemma buffer_has_Cons: "buffer_has p k (c # cs) \<longleftrightarrow> RGC_BUFFER_REF p (int k) = Some c \<and> buffer_has p (Suc k) cs"
proof
  assume h: "buffer_has p k (c # cs)"
  have "RGC_BUFFER_REF p (int (Suc k + i)) = Some (cs ! i)" if "i < length cs" for i
    using h that unfolding buffer_has_def by (metis Suc_mono add_Suc_shift length_Cons nth_Cons_Suc)
  then show "RGC_BUFFER_REF p (int k) = Some c \<and> buffer_has p (Suc k) cs"
    using h unfolding buffer_has_def by fastforce
next
  assume h: "RGC_BUFFER_REF p (int k) = Some c \<and> buffer_has p (Suc k) cs"
  show "buffer_has p k (c # cs)"
    unfolding buffer_has_def
  proof (intro allI impI)
    fix i
    assume i: "i < length (c # cs)"
    show "RGC_BUFFER_REF p (int (k + i)) = Some ((c # cs) ! i)"
    proof (cases i)
      case (Suc j)
      then have "RGC_BUFFER_REF p (int (Suc k + j)) = Some (cs ! j)" using h i unfolding buffer_has_def by simp
      with Suc show ?thesis by simp
    qed (use h in simp)
  qed
qed

lemma digit_loop_spec:
  assumes "buffer_has p k ds" and "list_all digit ds" and "0 \<le> v" and "v < 2 ^ 63"
  shows "if ds = [] \<or> val_from v ds div 10 \<le> bound10
    then digit_loop p (int k) (int (k + length ds)) (word_of_int v) = Some (Inr (word_of_int (val_from v ds))) \<and> val_from v ds < 2 ^ 63
    else \<exists>j w. j < k + length ds \<and> bound10 < w \<and> w < 2 ^ 63 \<and> RGC_BUFFER_REF p (int j) \<noteq> None \<and>
      digit_loop p (int k) (int (k + length ds)) (word_of_int v) = Some (Inl (int j, word_of_int w))"
  using assms
proof (induction ds arbitrary: k v)
  case Nil
  then show ?case by (simp add: digit_loop.simps)
next
  case (Cons d ds)
  have d: "0 \<le> uint d - 48" "uint d - 48 \<le> 9" and dig: "list_all digit ds"
    using Cons.prems(2) digit_bounds [of d] by auto
  have rd: "RGC_BUFFER_REF p (int k) = Some d" "buffer_has p (Suc k) ds"
    using Cons.prems(1) by (simp_all add: buffer_has_Cons)
  have sv: "sint (word_of_int v :: c_long) = v" using Cons.prems(3,4) by (intro sint_word_of_int_in) simp_all
  have cur: "(scast (d - 48) :: c_long) = word_of_int (uint d - 48)"
  proof -
    have "d - 48 = word_of_int (uint d - 48)" by simp
    then have "sint (d - 48) = uint d - 48" using d sint_word_of_int_in [where 'a = 8, of "uint d - 48"] by simp
    then show ?thesis by (simp add: scast_eq)
  qed
  let ?v = "10 * v + (uint d - 48)"
  have all: "list_all digit (d # ds)" using Cons.prems(2) .
  have last10: "val_from v (d # ds) div 10 = val_from v (butlast (d # ds))"
    using val_from_butlast [OF _ all] by simp
  show ?case
  proof (cases "bound10 < v")
    case True
    have "list_all digit (butlast (d # ds))" using all by (metis in_set_butlastD list_all_iff)
    then have "v \<le> val_from v (butlast (d # ds))" using Cons.prems(3) by (rule val_from_ge)
    then have "\<not> (d # ds = [] \<or> val_from v (d # ds) div 10 \<le> bound10)" unfolding last10 using True by simp
    moreover have "digit_loop p (int k) (int (k + length (d # ds))) (word_of_int v) = Some (Inl (int k, word_of_int v))"
      using True rd(1) sv by (subst digit_loop.simps) (simp add: bound10 Let_def)
    ultimately show ?thesis using True Cons.prems(4) rd(1)
      by (intro if_not_P [THEN iffD2, rotated] exI [of _ k] exI [of _ v]) auto
  next
    case False
    have v': "0 \<le> ?v" "?v < 2 ^ 63" using d False Cons.prems(3) by simp_all
    have "(word_of_int v * 10 + word_of_int (uint d - 48) :: c_long) = word_of_int ?v" by simp
    then have step: "digit_loop p (int k) (int (k + length (d # ds))) (word_of_int v) =
        digit_loop p (int (Suc k)) (int (Suc k + length ds)) (word_of_int ?v)"
      using False rd(1) sv cur by (subst digit_loop.simps) (simp add: bound10 Let_def add.commute mult.commute)
    have cond: "d # ds = [] \<or> val_from v (d # ds) div 10 \<le> bound10 \<longleftrightarrow> ds = [] \<or> val_from ?v ds div 10 \<le> bound10"
    proof (cases "ds = []")
      case True
      have "?v div 10 = v" using d by linarith
      with True False show ?thesis by simp
    qed simp
    have n: "k + length (d # ds) = Suc k + length ds" by simp
    show ?thesis unfolding cond unfolding step unfolding n val_from_simps(2) by (rule Cons.IH [OF rd(2) dig v'])
  qed
qed

lemma skip_zeros_spec:
  assumes "buffer_has p k ds"
  shows "\<exists>i. i \<le> length ds \<and> skip_zeros p (int k) (int (k + length ds)) = Some (int (k + i)) \<and>
    buffer_has p (k + i) (drop i ds) \<and> val_from 0 (drop i ds) = val_from 0 ds"
  using assms
proof (induction ds arbitrary: k)
  case Nil
  then show ?case by (simp add: skip_zeros.simps)
next
  case (Cons d ds)
  then have rd: "RGC_BUFFER_REF p (int k) = Some d" "buffer_has p (Suc k) ds" by (simp_all add: buffer_has_Cons)
  show ?case
  proof (cases "d = 48")
    case True
    obtain i where i: "i \<le> length ds" "skip_zeros p (int (Suc k)) (int (Suc k + length ds)) = Some (int (Suc k + i))"
      "buffer_has p (Suc k + i) (drop i ds)" "val_from 0 (drop i ds) = val_from 0 ds"
      using Cons.IH [OF rd(2)] by blast
    have "skip_zeros p (int k) (int (k + length (d # ds))) = Some (int (k + Suc i))"
      using True rd(1) i(2) by (subst skip_zeros.simps) (simp add: add_ac)
    with i True show ?thesis by (intro exI [of _ "Suc i"]) simp
  next
    case False
    with rd(1) Cons.prems show ?thesis by (intro exI [of _ 0]) (subst skip_zeros.simps, simp)
  qed
qed

text \<open>The bytes of the match.\<close>

definition match_text :: "'d input_port \<Rightarrow> u8 list \<Rightarrow> u8 list" where
  "match_text p xs = take (nat (matchstop p - matchstart p)) (drop (nat (matchstart p)) xs)"

lemma match_has:
  assumes "holds p xs"
  shows "\<exists>ms. matchstart p = int ms \<and> buffer_has p ms (match_text p xs) \<and> matchstop p = int (ms + length (match_text p xs)) \<and>
    ms + length (match_text p xs) \<le> length xs"
proof -
  obtain sl where sl: "char0 (buf p) = map Some xs @ sl" using holdsD(7) [OF assms] by blast
  obtain ms me where m: "matchstart p = int ms" "matchstop p = int me" "ms \<le> me" "me \<le> length xs"
    using nat_matchstart [OF assms] .
  have t: "match_text p xs = take (me - ms) (drop ms xs)" using m by (simp add: match_text_def flip: of_nat_diff)
  then have "length (match_text p xs) = me - ms" using m(3,4) by simp
  moreover have "buffer_has p ms (match_text p xs)"
    using m t sl by (auto simp: buffer_has_def RGC_BUFFER_REF_def mem_simps simp flip: of_nat_add)
  ultimately show ?thesis using m by auto
qed

text \<open>A sign and digits.\<close>

fun signed_val :: "u8 list \<Rightarrow> u8 list \<Rightarrow> int" where
  "signed_val sg ds = (if sg = [45] then - dec_val ds else dec_val ds)"

definition integer_text :: "u8 list \<Rightarrow> u8 list \<Rightarrow> bool" where
  "integer_text sg ds \<longleftrightarrow> sg \<in> {[], [43], [45]} \<and> ds \<noteq> [] \<and> list_all digit ds"

lemma integer_scan:
  assumes "holds p xs" and "match_text p xs = sg @ ds" and "integer_text sg ds"
  shows "rgc_buffer_integer G p =
    (if dec_val ds div 10 \<le> bound10
     then Some (if dec_val ds < 2 ^ 60 then Fix (BINT (word_of_int (signed_val sg ds))) else Elong (word_of_int (signed_val sg ds)))
     else map_option Big (rgc_buffer_bignum G p)) \<and> (dec_val ds div 10 \<le> bound10 \<longrightarrow> dec_val ds < 2 ^ 63)"
proof -
  obtain ms where ms: "matchstart p = int ms" "buffer_has p ms (sg @ ds)" "matchstop p = int (ms + length (sg @ ds))"
    using match_has [OF assms(1)] assms(2) by auto
  have ds: "ds \<noteq> []" "list_all digit ds" "hd ds \<noteq> 43" "hd ds \<noteq> 45"
    using assms(3) by (auto simp: integer_text_def digit_def neq_Nil_conv)
  define k where "k = ms + length sg"
  have first: "RGC_BUFFER_REF p (matchstart p) = Some (hd (sg @ ds))"
    using ms(1,2) ds(1) by (cases "sg @ ds") (auto simp: buffer_has_Cons)
  have digits: "buffer_has p k ds"
    unfolding buffer_has_def
  proof (intro allI impI)
    fix i assume "i < length ds"
    then have "RGC_BUFFER_REF p (int (ms + (length sg + i))) = Some ((sg @ ds) ! (length sg + i))"
      using ms(2) unfolding buffer_has_def by (metis length_append nat_add_left_cancel_less)
    then show "RGC_BUFFER_REF p (int (k + i)) = Some (ds ! i)" by (simp add: k_def add.assoc)
  qed
  have start: "(if hd (sg @ ds) = 43 \<or> hd (sg @ ds) = 45 then matchstart p + 1 else matchstart p) = int k"
    using assms(3) ds(1,3,4) ms(1) by (auto simp: integer_text_def k_def)
  have sgn: "hd (sg @ ds) = 45 \<longleftrightarrow> sg = [45]"
    using assms(3) ds(1,4) by (auto simp: integer_text_def)
  have stop: "matchstop p = int (k + length ds)" using ms(3) by (simp add: k_def)
  obtain i where i: "i \<le> length ds" "skip_zeros p (int k) (int (k + length ds)) = Some (int (k + i))"
    "buffer_has p (k + i) (drop i ds)" "val_from 0 (drop i ds) = dec_val ds"
    using skip_zeros_spec [OF digits] by auto
  have dig: "list_all digit (drop i ds)" using ds(2) by (metis in_set_dropD list_all_iff)
  have stop': "k + i + length (drop i ds) = k + length ds" using i(1) by simp
  have nonneg: "0 \<le> dec_val ds" using val_from_ge [OF ds(2), of 0] by simp
  have cond: "drop i ds = [] \<or> val_from 0 (drop i ds) div 10 \<le> bound10 \<longleftrightarrow> dec_val ds div 10 \<le> bound10"
    using i(4) by (cases "drop i ds = []") auto
  note loop = digit_loop_spec [OF i(3) dig, of 0, unfolded cond, unfolded i(4) stop']
  let ?sg = "if sg = [45] then -1 else 1 :: c_long"
  have fx: "signed_drop_bit TAG_SHIFT LONG_MAX = (word_of_int (2 ^ 60 - 1) :: c_long)"
    by (simp add: LONG_MAX_def TAG_SHIFT_def)
  have unfold: "rgc_buffer_integer G p = do {
     r \<leftarrow> digit_loop p (int (k + i)) (int (k + length ds)) 0;
     case r of
       Inr res \<Rightarrow> Some (if res \<le>s word_of_int (2 ^ 60 - 1) then Fix (BINT (res * ?sg)) else Elong (res * ?sg))
     | Inl (start, res) \<Rightarrow> do {
         r \<leftarrow> digit_loop p start (int (k + length ds)) res;
         case r of
           Inr lres \<Rightarrow> Some (Llong (lres * ?sg))
         | Inl _ \<Rightarrow> map_option Big (rgc_buffer_bignum G p) } }"
    unfolding rgc_buffer_integer_def Let_def first bind.bind_lunit start
    unfolding sgn stop i(2) bind.bind_lunit fx ..
  show ?thesis
  proof (cases "dec_val ds div 10 \<le> bound10")
    case True
    then have r: "digit_loop p (int (k + i)) (int (k + length ds)) 0 = Some (Inr (word_of_int (dec_val ds)))" "dec_val ds < 2 ^ 63"
      using loop by simp_all
    then have "sint (word_of_int (dec_val ds) :: c_long) = dec_val ds"
      using nonneg by (intro sint_word_of_int_in) simp_all
    moreover have "sint (word_of_int (2 ^ 60 - 1) :: c_long) = 2 ^ 60 - 1" by simp
    ultimately have "(word_of_int (dec_val ds) :: c_long) \<le>s word_of_int (2 ^ 60 - 1) \<longleftrightarrow> dec_val ds < 2 ^ 60"
      unfolding word_sle_eq by (simp only:) linarith
    moreover have "(word_of_int (dec_val ds) :: c_long) * ?sg = word_of_int (signed_val sg ds)" by simp
    ultimately have "rgc_buffer_integer G p = Some (if dec_val ds < 2 ^ 60
        then Fix (BINT (word_of_int (signed_val sg ds))) else Elong (word_of_int (signed_val sg ds)))"
      unfolding unfold r(1) bind.bind_lunit sum.case by (simp only:)
    with True r(2) show ?thesis by simp
  next
    case False
    then obtain j w where j: "j < k + length ds" "bound10 < w" "w < 2 ^ 63" "RGC_BUFFER_REF p (int j) \<noteq> None"
      "digit_loop p (int (k + i)) (int (k + length ds)) 0 = Some (Inl (int j, word_of_int w))"
      using loop by auto
    then have "sint (word_of_int w :: c_long) = w" by (intro sint_word_of_int_in) simp_all
    then have "digit_loop p (int j) (int (k + length ds)) (word_of_int w) = Some (Inl (int j, word_of_int w))"
      using j by (subst digit_loop.simps) (auto simp: bound10)
    with False j(5) show ?thesis unfolding unfold by simp
  qed
qed

lemma isspace_digit: "digit d \<Longrightarrow> \<not> isspace d" and isspace_minus: "\<not> isspace 45"
  by (auto simp: digit_def isspace_def word_le_nat_alt)

lemma filter_digits: "list_all digit ds \<Longrightarrow> filter (\<lambda>c. \<not> isspace c) ds = ds"
  by (auto simp: list_all_iff isspace_digit intro: filter_True)

lemma string_to_bignum_denotes:
  assumes "gmp_ok G" and "strlen_from m 0 = Some (length s)" and "rds m 0 (length s) = Some s"
    and "filter (\<lambda>c. \<not> isspace c) s = sg @ ds" and "ds \<noteq> []" and "list_all digit ds" and "sg = [] \<or> sg = [45]"
  shows "\<exists>b. bgl_string_to_bignum G m 10 = Some b \<and> denotes b (signed_val sg ds)"
proof -
  have law: "(filter (\<lambda>c. \<not> isspace c) s = ds \<longrightarrow> mpz_is (mpz_init_set_str G s 10) (dec_val ds)) \<and>
      (filter (\<lambda>c. \<not> isspace c) s = 45 # ds \<longrightarrow> mpz_is (mpz_init_set_str G s 10) (- dec_val ds))"
    using gmp_okD(8) [OF assms(1)] assms(5,6) unfolding str_law_def by blast
  then have "mpz_is (mpz_init_set_str G s 10) (signed_val sg ds)"
    using assms(4,7) by (auto simp del: val_from_simps)
  from mpz_to_bignum_denotes [OF this] show ?thesis
    using assms(2,3) by (simp add: bgl_string_to_bignum_def del: signed_val.simps)
qed

text \<open>The copy of the match when no white space follows; otherwise the string that the buffer holds from the match on.\<close>

lemma rgc_bignum_copies:
  assumes "gmp_ok G" and "holds p xs" and "match_text p xs = sg @ ds" and "integer_text sg ds" and "sg \<noteq> [43]"
    and "unread p xs = [] \<or> \<not> isspace (hd (unread p xs))"
  shows "\<exists>b. rgc_buffer_bignum G p = Some b \<and> denotes b (signed_val sg ds)"
proof -
  obtain sl where sl: "char0 (buf p) = map Some xs @ sl" using holdsD(7) [OF assms(2)] by blast
  obtain ms me where m: "matchstart p = int ms" "matchstop p = int me" "ms \<le> me" "me \<le> length xs"
    using nat_matchstart [OF assms(2)] .
  let ?t = "sg @ ds"
  have t: "take (me - ms) (drop ms xs) = ?t" using assms(3) m by (simp add: match_text_def flip: of_nat_diff)
  then have len: "length ?t = me - ms" using m(3,4) by (metis length_drop length_take min.absorb2 diff_le_mono)
  have zero: "0 \<notin> set ?t"
    using assms(4,5) by (auto simp: integer_text_def list_all_iff digit_def word_le_nat_alt)
  have copy: "do { sz \<leftarrow> idx (matchstop p - matchstart p); k \<leftarrow> idx (matchstart p);
      tmp \<leftarrow> blit (gc_malloc (sz + 1)) 0 (char0 (buf p)) k sz; wr tmp sz 0 } = Some (c_string ?t)"
  proof -
    have "take (me - ms) (drop ms (char0 (buf p))) = map Some ?t" using m t by (simp add: sl drop_map take_map)
    moreover have "drop (me - ms) (gc_malloc (me - ms + 1) :: u8 cells) = [None]"
      by (simp add: gc_malloc_def del: replicate_Suc) (simp add: numeral_eq_Suc)
    ultimately have "blit (gc_malloc (me - ms + 1)) 0 (char0 (buf p)) ms (me - ms) = Some (map Some ?t @ [None])"
      using m(3,4) by (simp add: blit_def sl)
    moreover have "wr (map Some ?t @ [None]) (length ?t) 0 = Some (c_string ?t)"
      by (simp add: c_string_def list_update_append)
    then have "wr (map Some ?t @ [None]) (me - ms) 0 = Some (c_string ?t)" unfolding len .
    ultimately show ?thesis using m by simp
  qed
  have not_here: "(if matchstop p < bufpos p then do { c \<leftarrow> RGC_BUFFER_REF p (matchstop p); Some (isspace c) } else Some False) = Some False"
    using assms(6) m sl holdsD(1) [OF assms(2)]
    by (auto simp: unread_def RGC_BUFFER_REF_def mem_simps hd_drop_conv_nth)
  have "rgc_buffer_bignum G p = bgl_string_to_bignum G (c_string ?t) 10"
    using copy not_here by (auto simp: rgc_buffer_bignum_def Let_def split: Option.bind_splits)
  moreover have "filter (\<lambda>c. \<not> isspace c) ?t = sg @ ds"
    using assms(4,5) by (auto simp: integer_text_def filter_digits isspace_minus)
  ultimately show ?thesis
    using string_to_bignum_denotes [OF assms(1), of "c_string ?t" ?t sg ds] zero assms(4,5)
    by (auto simp: mem_simps integer_text_def simp del: signed_val.simps)
qed

text \<open>After the match come white space and more digits, up to the null character: they are read too.\<close>

lemma rgc_bignum_swallows:
  assumes "gmp_ok G" and "char0 (buf p) = map Some (pre @ ds @ [32] @ es @ [0]) @ sl" and "matchstart p = int (length pre)"
    and "matchstop p = int (length pre + length ds)" and "matchstop p < bufpos p"
    and "ds \<noteq> []" and "list_all digit ds" and "list_all digit es"
  shows "\<exists>b. rgc_buffer_bignum G p = Some b \<and> denotes b (dec_val (ds @ es))"
proof -
  let ?s = "ds @ [32] @ es"
  have "RGC_BUFFER_REF p (matchstop p) = Some 32"
    using assms(2,4) by (simp add: RGC_BUFFER_REF_def mem_simps nth_append flip: of_nat_add del: map_append)
  moreover have "buffer_at p (matchstart p) = Some (c_string ?s @ sl)"
    using assms(2,3) by (simp add: buffer_at_def c_string_def)
  ultimately have "rgc_buffer_bignum G p = bgl_string_to_bignum G (c_string ?s @ sl) 10"
    using assms(5) by (simp add: rgc_buffer_bignum_def Let_def isspace_def)
  moreover have "0 \<notin> set ?s" using assms(7,8) by (auto simp: list_all_iff digit_def word_le_nat_alt)
  then have "strlen_from (c_string ?s @ sl) 0 = Some (length ?s)"

    using strlen_from_zero [of "length ?s" "c_string ?s @ sl" 0]
    by (auto simp: mem_simps dest: nth_mem)
  moreover have "rds (c_string ?s @ sl) 0 (length ?s) = Some ?s"
    using rds_append_left [of 0 "length ?s" "c_string ?s" sl] rds_c_string [of 0 "length ?s" ?s] by simp
  moreover have "filter (\<lambda>c. \<not> isspace c) ?s = [] @ (ds @ es)"
    using assms(7,8) by (simp add: filter_digits isspace_def [of 32])
  ultimately show ?thesis
    using string_to_bignum_denotes [OF assms(1), of "c_string ?s @ sl" ?s "[]" "ds @ es"] assms(6-8) by simp
qed

text \<open>C23: reading an integer that a grammar has matched: up to nineteen digits or so it is the exact value, a fixnum
  when it fits in 61 bits and an elong otherwise; beyond, it is the exact bignum when the sign is not a plus and no
  white space follows in the buffer. When white space follows, the bignum is parsed in the buffer itself, where
  the digits that come after the white space are taken for digits of the same number.\<close>

theorem rgc_integer:
  assumes "gmp_ok G" and "holds p xs" and "match_text p xs = sg @ ds" and "integer_text sg ds"
  shows "(dec_val ds < 2 ^ 60 \<longrightarrow> (\<exists>n. rgc_buffer_integer G p = Some (Fix n) \<and> num_denotes (Fix n) (signed_val sg ds))) \<and>
    (2 ^ 60 \<le> dec_val ds \<and> dec_val ds div 10 \<le> bound10 \<longrightarrow>
      (\<exists>z. rgc_buffer_integer G p = Some (Elong z) \<and> num_denotes (Elong z) (signed_val sg ds))) \<and>
    (bound10 < dec_val ds div 10 \<and> sg \<noteq> [43] \<and> (unread p xs = [] \<or> \<not> isspace (hd (unread p xs))) \<longrightarrow>
      (\<exists>b. rgc_buffer_integer G p = Some (Big b) \<and> num_denotes (Big b) (signed_val sg ds))) \<and>
    (bound10 < dec_val ds div 10 \<and> list_all digit es \<and> sg = [] \<and> matchstop p < bufpos p \<and>
      (\<exists>pre sl. length pre = nat (matchstart p) \<and> char0 (buf p) = map Some (pre @ ds @ [32] @ es @ [0]) @ sl) \<longrightarrow>
      (\<exists>b. rgc_buffer_integer G p = Some (Big b) \<and> num_denotes (Big b) (dec_val (ds @ es))))"
proof -
  let ?v = "dec_val ds" and ?i = "signed_val sg ds"
  note scan = integer_scan [OF assms(2-4), of G]
  have ds: "ds \<noteq> []" "list_all digit ds" using assms(4) by (simp_all add: integer_text_def)
  have nonneg: "0 \<le> ?v" using val_from_ge [OF ds(2), of 0] by simp
  have val: "?i = ?v \<or> ?i = - ?v" by simp
  have small: "\<exists>n. rgc_buffer_integer G p = Some (Fix n) \<and> num_denotes (Fix n) ?i" if "?v < 2 ^ 60"
  proof -
    have "?v div 10 \<le> bound10" using that nonneg by (simp del: val_from_simps)
    moreover have "fixnum ?i" using that nonneg val unfolding fixnum_def by linarith
    ultimately show ?thesis using scan that by (auto simp del: signed_val.simps val_from_simps)
  qed
  have mid: "\<exists>z. rgc_buffer_integer G p = Some (Elong z) \<and> num_denotes (Elong z) ?i" if "2 ^ 60 \<le> ?v" "?v div 10 \<le> bound10"
  proof -
    have "?v < 2 ^ 63" using scan that(2) by blast
    then have "sint (word_of_int ?i :: c_long) = ?i"
      using nonneg val by (intro sint_word_of_int_in) (auto simp del: signed_val.simps val_from_simps)
    then show ?thesis using scan that by (auto simp del: signed_val.simps val_from_simps)
  qed
  have big: "rgc_buffer_integer G p = map_option Big (rgc_buffer_bignum G p)" if "bound10 < ?v div 10"
    using scan that by (simp del: signed_val.simps val_from_simps)
  have swallow: "\<exists>b. rgc_buffer_integer G p = Some (Big b) \<and> num_denotes (Big b) (dec_val (ds @ es))"
    if h: "bound10 < ?v div 10" "list_all digit es" "sg = []" "matchstop p < bufpos p" "length pre = nat (matchstart p)"
      "char0 (buf p) = map Some (pre @ ds @ [32] @ es @ [0]) @ sl" for pre sl
  proof -
    obtain ms where ms: "matchstart p = int ms" "matchstop p = int (ms + length ds)"
      using match_has [OF assms(2)] assms(3) h(3) by auto
    then show ?thesis
      using rgc_bignum_swallows [OF assms(1) h(6) _ _ h(4) ds h(2)] h(5) big [OF h(1)] by fastforce
  qed
  have exact: "\<exists>b. rgc_buffer_integer G p = Some (Big b) \<and> num_denotes (Big b) ?i"
    if "bound10 < ?v div 10" "sg \<noteq> [43]" "unread p xs = [] \<or> \<not> isspace (hd (unread p xs))"
    using rgc_bignum_copies [OF assms that(2,3)] big [OF that(1)] by fastforce
  show ?thesis using small mid exact swallow by meson
qed

definition digits_port :: "u8 list \<Rightarrow> int input_port" where
  "digits_port cs = RGC_STOP_MATCH
     (bgl_open_input_substring_bang \<lparr>str_length = length cs, char0 = c_string cs\<rparr> 0 (int (length cs))) (int (length cs))"

theorem rgc_integer_witness:
  "(\<exists>n. rgc_buffer_integer gmp_ref (digits_port (bytes ''-42'')) = Some (Fix n) \<and> num_denotes (Fix n) (- 42)) \<and>
   (\<exists>b. rgc_buffer_integer gmp_ref (digits_port (bytes ''-10000000000000000000'')) = Some (Big b) \<and>
     num_denotes (Big b) (- (10 ^ 19)))"
proof -
  have holds: "holds (digits_port cs) cs" "match_text (digits_port cs) cs = cs" "unread (digits_port cs) cs = []" for cs
    by (simp_all add: holds_def digits_port_def RGC_STOP_MATCH_def bgl_open_input_substring_bang_def
        bgl_make_input_port_def match_text_def unread_def c_string_def)
  have "integer_text [45] (bytes ''42'')" "integer_text [45] (bytes ''10000000000000000000'')"
    by (simp_all add: integer_text_def bytes_def digit_def)
  note t = this
  have v: "dec_val (bytes ''42'') = 42" "dec_val (bytes ''10000000000000000000'') = 10 ^ 19"
    "bytes ''-42'' = [45] @ bytes ''42''" "bytes ''-10000000000000000000'' = [45] @ bytes ''10000000000000000000''"
    by (simp_all add: dec_val_def bytes_def)
  show ?thesis
    using rgc_integer [OF gmp_ref_ok holds(1) trans [OF holds(2) v(3)] t(1)]
      rgc_integer [OF gmp_ref_ok holds(1) trans [OF holds(2) v(4)] t(2)]
    by (simp add: v(1,2) holds(3) del: val_from_simps)
qed

end
