(* ===== verification/Oport.thy ===== *)
theory Oport
  imports Iport
begin

text \<open>
  Output ports: the structure \<open>bgl_output_port\<close> and the operations of \<open>runtime/Clib/cports.c\<close> that
  create them, write through their buffer, flush, seek and close. The functions behind \<open>syswrite\<close>: files,
  procedures and strings. A mutex protects each operation, so each one is a step.
\<close>

section \<open>Ports\<close>

datatype buffer_mode = BGL_IONB | BGL_IOLBF | BGL_IOFBF | BGL_IOEBF

datatype stream_type = BGL_STREAM_TYPE_FD | BGL_STREAM_TYPE_FILE | BGL_STREAM_TYPE_CHANNEL

text \<open>
  \<open>optr\<close> and \<open>oend\<close> are the pointers as offsets in the buffer, \<open>flushbuf\<close> is \<open>None\<close> when it is not a
  string, and \<open>oerr\<close> tells whether \<open>err\<close> is not zero. \<open>stdout_from\<close> is the static variable of that name
  for the port \<open>_stdout\<close>, and \<open>None\<close> for all others. The last field is the file, the procedure or nothing.
\<close>

record 'd output_port =
  okindof :: port_kind
  ostream :: stream_type
  obuf :: bgl_string
  optr :: int
  oend :: int
  bufmode :: buffer_mode
  flushbuf :: "bgl_string option"
  oerr :: bool
  stdout_from :: "int option"
  odev :: 'd

definition BGL_OUTPUT_PORT_CNT :: "'d output_port \<Rightarrow> int" where
  "BGL_OUTPUT_PORT_CNT p = oend p - optr p"

definition bgl_output_port_buffer_set :: "'d output_port \<Rightarrow> bgl_string \<Rightarrow> 'd output_port" where
  "bgl_output_port_buffer_set p b = p\<lparr>obuf := b, optr := 0, oend := int (str_length b)\<rparr>"

definition bgl_make_output_port :: "'d \<Rightarrow> stream_type \<Rightarrow> port_kind \<Rightarrow> bgl_string \<Rightarrow> 'd output_port" where
  "bgl_make_output_port d stype kind b =
     bgl_output_port_buffer_set
       \<lparr>okindof = kind, ostream = stype, obuf = b, optr = 0, oend = 0, bufmode = BGL_IOFBF, flushbuf = None,
        oerr = False, stdout_from = None, odev = d\<rparr> b"

section \<open>Writing to the device\<close>

datatype errno =
    EINTR | EAGAIN | EPIPE | EBADF | EBADFD | ENAMETOOLONG | ENFILE | ENODEV | ENOMEM | ENOSPC | Errno int

definition bglerror :: "errno \<Rightarrow> int \<Rightarrow> io_error" where
  "bglerror err rw =
     (case err of
        EPIPE \<Rightarrow> BGL_IO_SIGPIPE_ERROR
      | EBADF \<Rightarrow> BGL_IO_PORT_ERROR
      | EBADFD \<Rightarrow> BGL_IO_PORT_ERROR
      | ENAMETOOLONG \<Rightarrow> BGL_IO_PORT_ERROR
      | ENFILE \<Rightarrow> BGL_IO_PORT_ERROR
      | ENODEV \<Rightarrow> BGL_IO_PORT_ERROR
      | ENOMEM \<Rightarrow> BGL_IO_WRITE_ERROR
      | ENOSPC \<Rightarrow> BGL_IO_WRITE_ERROR
      | _ \<Rightarrow> if rw = 1 then BGL_IO_WRITE_ERROR else if rw = 2 then BGL_IO_READ_ERROR else BGL_IO_ERROR)"

text \<open>A call of \<open>syswrite\<close>: the number of bytes taken, or a negative result with \<open>errno\<close> and its text.\<close>

datatype write_result = Written int | Write_Failed errno string

type_synonym 'd writer = "'d output_port \<Rightarrow> u8 list \<Rightarrow> (write_result \<times> 'd output_port) option"

text \<open>An operation on a port raises a failure, or returns; either way the port has changed.\<close>

type_synonym 'd port_step = "(failure \<times> 'd output_port + 'd output_port) option"

definition and_then :: "('e + 'a) option \<Rightarrow> ('a \<Rightarrow> ('e + 'b) option) \<Rightarrow> ('e + 'b) option" where
  "and_then m f = do { r \<leftarrow> m; case r of Inl e \<Rightarrow> Some (Inl e) | Inr x \<Rightarrow> f x }"

definition write_error :: "errno \<Rightarrow> string \<Rightarrow> 'd output_port \<Rightarrow> 'd port_step" where
  "write_error e msg p =
     Some (Inl (C_System_Failure (bglerror e 1) ''write/display'' msg, p\<lparr>oerr := True\<rparr>))"

partial_function (option) flush_string :: "'d writer \<Rightarrow> 'd output_port \<Rightarrow> u8 list \<Rightarrow> bool \<Rightarrow> 'd port_step" where
  "flush_string w p s err =
     (if s = [] then Some (Inr p)
      else do {
        (r, p) \<leftarrow> w p s;
        case r of
          Written n \<Rightarrow> flush_string w p (drop (nat n) s) err
        | Write_Failed e msg \<Rightarrow>
            if e = EINTR \<or> e = EAGAIN then flush_string w p s err
            else if err then write_error e msg p
            else Some (Inr p) })"

text \<open>The flush hook of the user is a parameter; it does not write to the port itself.\<close>

datatype hook_result = Hook_String "u8 list" | Hook_Int int | Hook_Other

type_synonym 'd flush_hook = "('d \<Rightarrow> int \<Rightarrow> hook_result \<times> 'd) option"

definition invoke_flush_hook :: "'d writer \<Rightarrow> 'd flush_hook \<Rightarrow> 'd output_port \<Rightarrow> int \<Rightarrow> bool \<Rightarrow> 'd port_step" where
  "invoke_flush_hook w hook p slen err =
     (case hook of
        None \<Rightarrow> Some (Inr p)
      | Some fhook \<Rightarrow>
          let (s, d) = fhook (odev p) slen; p = p\<lparr>odev := d\<rparr> in
          case s of
            Hook_String s \<Rightarrow> flush_string w p s err
          | Hook_Int n \<Rightarrow>
              (case flushbuf p of
                 Some b \<Rightarrow>
                   if n \<le> int (str_length b) \<and> n > 0
                   then do { s \<leftarrow> rds (char0 b) 0 (nat n); flush_string w p s err }
                   else Some (Inr p)
               | None \<Rightarrow> Some (Inr p))
          | Hook_Other \<Rightarrow> Some (Inr p))"

text \<open>The end of \<open>output_flush\<close>: the pointers, and \<open>stdout_from\<close> for \<open>_stdout\<close>.\<close>

definition flushed :: "bool \<Rightarrow> int \<Rightarrow> 'd output_port \<Rightarrow> 'd output_port" where
  "flushed is_read_flush use p =
     (let reset = p\<lparr>optr := 0, oend := int (str_length (obuf p))\<rparr> in
      case stdout_from p of
        None \<Rightarrow> reset
      | Some k \<Rightarrow> if is_read_flush then p\<lparr>stdout_from := Some (k + use)\<rparr> else reset\<lparr>stdout_from := Some 0\<rparr>)"

text \<open>The bytes to flush; a negative number of them is undefined.\<close>

definition to_flush :: "'d output_port \<Rightarrow> int \<Rightarrow> (int \<times> u8 list) option" where
  "to_flush p use =
     (let (start, use) = (case stdout_from p of None \<Rightarrow> (0, use) | Some k \<Rightarrow> (k, use - k)) in
      do { i \<leftarrow> idx start; n \<leftarrow> idx use; bs \<leftarrow> rds (char0 (obuf p)) i n; Some (use, bs) })"

definition output_flush :: "'d writer \<Rightarrow> 'd flush_hook \<Rightarrow> 'd output_port \<Rightarrow> u8 list \<Rightarrow> bool \<Rightarrow> bool \<Rightarrow> 'd port_step" where
  "output_flush w hook p str is_read_flush err =
     (if okindof p = KINDOF_CLOSED
      then Some (Inl (C_System_Failure BGL_IO_PORT_ERROR ''flush'' ''closed output port'', p))
      else
        let len = int32 (int (str_length (obuf p))); cnt = BGL_OUTPUT_PORT_CNT p; slen = int (length str) in
        if bufmode p \<noteq> BGL_IOEBF then do {
          (use, bs) \<leftarrow> to_flush p (len - cnt);
          and_then (invoke_flush_hook w hook p (use + slen) err) (\<lambda>p.
          and_then (flush_string w p bs err) (\<lambda>p.
          and_then (flush_string w p str err) (\<lambda>p.
          Some (Inr (flushed is_read_flush use p))))) }
        else
          and_then (invoke_flush_hook w hook p slen err) (\<lambda>p.
            if slen > 0 \<or> cnt = 0 then do {
              (r, p) \<leftarrow> w p str;
              case r of
                Written n \<Rightarrow> Some (Inr p)
              | Write_Failed e msg \<Rightarrow> if err then write_error e msg p else Some (Inr p) }
            else Some (Inr p)))"

definition bgl_output_flush :: "'d writer \<Rightarrow> 'd flush_hook \<Rightarrow> 'd output_port \<Rightarrow> u8 list \<Rightarrow> 'd port_step" where
  "bgl_output_flush w hook p str = output_flush w hook p str False True"

definition bgl_output_flush_char :: "'d writer \<Rightarrow> 'd flush_hook \<Rightarrow> 'd output_port \<Rightarrow> u8 \<Rightarrow> 'd port_step" where
  "bgl_output_flush_char w hook p c = output_flush w hook p [c] False True"

text \<open>\<open>sysflush\<close> is what the port has in this field; \<open>None\<close> is a null pointer, and the result then \<open>None\<close>.\<close>

definition bgl_flush_output_port ::
  "'d writer \<Rightarrow> 'd flush_hook \<Rightarrow> ('d output_port \<Rightarrow> 'r option) option \<Rightarrow> 'd output_port \<Rightarrow> (failure \<times> 'd output_port + 'r option \<times> 'd output_port) option" where
  "bgl_flush_output_port w hook sysflush p =
     and_then (bgl_output_flush w hook p []) (\<lambda>p.
       case sysflush of
         None \<Rightarrow> Some (Inr (None, p))
       | Some f \<Rightarrow> do { r \<leftarrow> f p; Some (Inr (Some r, p)) })"

section \<open>Writing to the buffer\<close>

text \<open>\<open>*ptr++ = c\<close>, and \<open>memcpy( ptr, s, n ), ptr += n\<close>.\<close>

definition oput :: "'d output_port \<Rightarrow> u8 \<Rightarrow> 'd output_port option" where
  "oput p c = do {
     k \<leftarrow> idx (optr p);
     m \<leftarrow> wr (char0 (obuf p)) k c;
     Some (p\<lparr>obuf := (obuf p)\<lparr>char0 := m\<rparr>, optr := optr p + 1\<rparr>) }"

definition oputs :: "'d output_port \<Rightarrow> u8 list \<Rightarrow> 'd output_port option" where
  "oputs p s = do {
     k \<leftarrow> idx (optr p);
     m \<leftarrow> blit (char0 (obuf p)) k (map Some s) 0 (length s);
     Some (p\<lparr>obuf := (obuf p)\<lparr>char0 := m\<rparr>, optr := optr p + int (length s)\<rparr>) }"

fun write_lines :: "'d writer \<Rightarrow> 'd flush_hook \<Rightarrow> 'd output_port \<Rightarrow> u8 list \<Rightarrow> 'd port_step" where
  "write_lines w hook p [] = Some (Inr p)"
| "write_lines w hook p (c # cs) = do {
     p \<leftarrow> oput p c;
     and_then (if c = newline then bgl_output_flush w hook p [] else Some (Inr p)) (\<lambda>p. write_lines w hook p cs) }"

text \<open>The pointers are in order, so that the comparison in \<open>size_t\<close> is the one of the integers.\<close>

definition bgl_write :: "'d writer \<Rightarrow> 'd flush_hook \<Rightarrow> 'd output_port \<Rightarrow> u8 list \<Rightarrow> 'd port_step" where
  "bgl_write w hook op str =
     (if BGL_OUTPUT_PORT_CNT op > int (length str)
      then if bufmode op = BGL_IOLBF then write_lines w hook op str
           else do { op \<leftarrow> oputs op str; Some (Inr op) }
      else bgl_output_flush w hook op str)"

section \<open>Files, procedures and strings\<close>

definition bgl_syswrite :: "('f \<Rightarrow> u8 list \<Rightarrow> write_result \<times> 'f) \<Rightarrow> 'f writer" where
  "bgl_syswrite os_write p s = (let (r, d) = os_write (odev p) s in Some (r, p\<lparr>odev := d\<rparr>))"

text \<open>The procedure maps its state and the string it is given to its state. The string is reused.\<close>

record 's proc_sink =
  wbuffer :: bgl_string
  wproc :: 's

definition procwrite :: "('s \<Rightarrow> u8 list \<Rightarrow> 's) \<Rightarrow> 's proc_sink writer" where
  "procwrite call p str = do {
     let buffer = wbuffer (odev p);
     let sz = int (length str);
     let len = int32 (int (str_length buffer));
     (buffer, len) \<leftarrow> (if sz > len then do { b \<leftarrow> make_string_sans_fill (sz + 1); Some (b, int32 (sz + 1)) }
       else Some (buffer, len));
     m \<leftarrow> blit (char0 buffer) 0 (map Some str) 0 (length str);
     m \<leftarrow> wr m (length str) 0;
     arg \<leftarrow> rds m 0 (length str);
     n \<leftarrow> idx len;
     Some (Written sz, p\<lparr>odev := \<lparr>wbuffer = \<lparr>str_length = n, char0 = m\<rparr>, wproc = call (wproc (odev p)) arg\<rparr>\<rparr>) }"

definition bgl_open_output_procedure :: "'s \<Rightarrow> bgl_string \<Rightarrow> 's proc_sink output_port option" where
  "bgl_open_output_procedure fn buffer = do {
     b \<leftarrow> make_string_sans_fill 0;
     Some ((bgl_make_output_port \<lparr>wbuffer = buffer, wproc = fn\<rparr> BGL_STREAM_TYPE_CHANNEL KINDOF_PROCEDURE b)
       \<lparr>bufmode := BGL_IONB\<rparr>) }"

definition strwrite :: "'d writer" where
  "strwrite p str = do {
     let buffer = obuf p;
     let count = int (length str);
     let cnt = BGL_OUTPUT_PORT_CNT p;
     let used = int (str_length buffer) - cnt;
     let nlen = (int (str_length buffer) + count) * 2;
     nbuf \<leftarrow> make_string_sans_fill nlen;
     u \<leftarrow> idx used;
     m \<leftarrow> blit (char0 nbuf) 0 (char0 buffer) 0 u;
     m \<leftarrow> blit m u (map Some str) 0 (length str);
     Some (Written count, p\<lparr>obuf := nbuf\<lparr>char0 := m\<rparr>, optr := used + count, oend := nlen\<rparr>) }"

definition bgl_open_output_string :: "bgl_string \<Rightarrow> unit output_port" where
  "bgl_open_output_string b =
     (bgl_make_output_port () BGL_STREAM_TYPE_CHANNEL KINDOF_STRING b)\<lparr>bufmode := BGL_IOEBF\<rparr>"

definition get_output_string :: "'d output_port \<Rightarrow> (failure + bgl_string) option" where
  "get_output_string p =
     (if okindof p = KINDOF_STRING then do {
        let cnt = int32 (BGL_OUTPUT_PORT_CNT p);
        s \<leftarrow> string_to_bstring_len (Some (char0 (obuf p))) (int (str_length (obuf p)) - cnt);
        Some (Inr s) }
      else Some (Inl (C_System_Failure BGL_IO_PORT_ERROR ''get-output-string'' ''Not a string port'')))"

definition bgl_reset_output_string_port :: "'d output_port \<Rightarrow> (failure + bgl_string \<times> 'd output_port) option" where
  "bgl_reset_output_string_port p =
     and_then (get_output_string p) (\<lambda>res. Some (Inr (res, bgl_output_port_buffer_set p (obuf p))))"

definition bgl_reset_output_port_error :: "'d output_port \<Rightarrow> 'd output_port" where
  "bgl_reset_output_port_error p = p\<lparr>oerr := False\<rparr>"

text \<open>
  Closing, for a port without close hook; \<open>sysclose\<close> acts on the device. The result is the string of a string
  port, and \<open>None\<close> stands for the port itself.
\<close>

definition bgl_close_output_port ::
  "'d writer \<Rightarrow> 'd flush_hook \<Rightarrow> ('d \<Rightarrow> 'd) \<Rightarrow> bool \<Rightarrow> 'd output_port \<Rightarrow> (failure \<times> 'd output_port + bgl_string option \<times> 'd output_port) option" where
  "bgl_close_output_port w hook sysclose stdio p =
     (if okindof p = KINDOF_CLOSED then Some (Inr (None, p))
      else if stdio then and_then (output_flush w hook p [] False False) (\<lambda>p. Some (Inr (None, p)))
      else
        and_then
          (if okindof p = KINDOF_STRING then do {
             let cnt = int32 (BGL_OUTPUT_PORT_CNT p);
             s \<leftarrow> bgl_string_shrink (obuf p) (int (str_length (obuf p)) - cnt);
             Some (Inr (Some s, p\<lparr>obuf := s\<rparr>)) }
           else if \<not> oerr p then and_then (output_flush w hook p [] False False) (\<lambda>p. Some (Inr (None, p)))
           else Some (Inr (None, p)))
          (\<lambda>(res, p). Some (Inr (res, p\<lparr>okindof := KINDOF_CLOSED, odev := sysclose (odev p)\<rparr>))))"

section \<open>Positions\<close>

datatype whence = SEEK_SET | SEEK_CUR | SEEK_END

type_synonym 'd seeker = "'d output_port \<Rightarrow> int \<Rightarrow> whence \<Rightarrow> int \<times> 'd output_port"

definition strseek :: "'d seeker" where
  "strseek p offset wh =
     (let len = int32 (int (str_length (obuf p)));
          cnt = int32 (BGL_OUTPUT_PORT_CNT p);
          offset = (case wh of SEEK_CUR \<Rightarrow> offset + optr p | SEEK_END \<Rightarrow> len + offset | SEEK_SET \<Rightarrow> offset) in
      if offset < 0 \<or> offset > cnt then (-1, p) else (offset, p\<lparr>optr := offset\<rparr>))"

text \<open>The three stream types pass their file to the same function; a null pointer is \<open>None\<close>.\<close>

definition bgl_output_port_filepos :: "'d seeker option \<Rightarrow> 'd output_port \<Rightarrow> int \<times> 'd output_port" where
  "bgl_output_port_filepos sysseek p =
     (let bufsz = optr p in
      case sysseek of None \<Rightarrow> (bufsz, p) | Some f \<Rightarrow> let (r, p) = f p 0 SEEK_CUR in (bufsz + r, p))"

definition bgl_output_port_seek :: "'d seeker option \<Rightarrow> 'd output_port \<Rightarrow> int \<Rightarrow> bool \<times> 'd output_port" where
  "bgl_output_port_seek sysseek p pos =
     (case sysseek of None \<Rightarrow> (False, p) | Some f \<Rightarrow> let (r, p) = f p pos SEEK_SET in (\<not> r < 0, p))"

end
