(* ===== verification/Ostream.thy ===== *)
theory Ostream
  imports Oport
begin

text \<open>
  Output ports as streams: what an operation writes is appended to what has been delivered and what the buffer
  holds. The interface \<open>output_device\<close> is the contract of \<open>syswrite\<close> on files and procedures, and
  \<open>output_stream\<close> is the contract of flushing on which the writing operations rest.
\<close>

section \<open>The bytes of the buffer\<close>

definition buffered :: "'d output_port \<Rightarrow> u8 list \<Rightarrow> bool" where
  "buffered p xs \<longleftrightarrow> (\<exists>sl. char0 (obuf p) = map Some xs @ sl) \<and> optr p = int (length xs) \<and>
     oend p = int (str_length (obuf p)) \<and> length xs \<le> str_length (obuf p) \<and>
     str_length (obuf p) < length (char0 (obuf p)) \<and> (\<forall>k. stdout_from p = Some k \<longrightarrow> 0 \<le> k \<and> k \<le> int (length xs))"

definition out_from :: "'d output_port \<Rightarrow> nat" where
  "out_from p = (case stdout_from p of None \<Rightarrow> 0 | Some k \<Rightarrow> nat k)"

text \<open>\<open>q\<close> is \<open>p\<close> with other cells in its buffer and another position.\<close>

definition rewritten :: "'d output_port \<Rightarrow> 'd output_port \<Rightarrow> bool" where
  "rewritten p q \<longleftrightarrow> (\<exists>m i. q = p\<lparr>obuf := (obuf p)\<lparr>char0 := m\<rparr>, optr := i\<rparr>)"

lemma rewrittenD:
  assumes "rewritten p q"
  shows "okindof q = okindof p" and "bufmode q = bufmode p" and "stdout_from q = stdout_from p" and "odev q = odev p"
    and "str_length (obuf q) = str_length (obuf p)" and "out_from q = out_from p" and "oerr q = oerr p"
  using assms by (auto simp: rewritten_def out_from_def)

lemma buffered_cnt: "buffered p xs \<Longrightarrow> BGL_OUTPUT_PORT_CNT p = int (str_length (obuf p)) - int (length xs)"
  by (simp add: buffered_def BGL_OUTPUT_PORT_CNT_def)

lemma oputs_spec:
  assumes "buffered p xs" and "length xs + length s \<le> str_length (obuf p)"
  shows "\<exists>q. oputs p s = Some q \<and> rewritten p q \<and> buffered q (xs @ s)"
proof -
  obtain sl where sl: "char0 (obuf p) = map Some xs @ sl" "str_length (obuf p) < length xs + length sl"
    using assms(1) by (auto simp: buffered_def)
  let ?m = "map Some (xs @ s) @ drop (length s) sl"
  have "blit (char0 (obuf p)) (length xs) (map Some s) 0 (length s) = Some ?m"
    using sl assms(2) by (simp add: blit_def)
  then have "oputs p s = Some (p\<lparr>obuf := (obuf p)\<lparr>char0 := ?m\<rparr>, optr := optr p + int (length s)\<rparr>)"
    using assms(1) by (simp add: oputs_def buffered_def)
  moreover have "buffered (p\<lparr>obuf := (obuf p)\<lparr>char0 := ?m\<rparr>, optr := optr p + int (length s)\<rparr>) (xs @ s)"
    using assms sl by (auto simp: buffered_def)
  ultimately show ?thesis by (auto simp: rewritten_def)
qed

lemma oput_oputs: "0 \<le> optr p \<Longrightarrow> oput p c = oputs p [c]"
  by (auto simp: oput_def oputs_def idx_def wr_def blit_def upd_conv_take_nth_drop)

lemma oput_spec:
  assumes "buffered p xs" and "length xs < str_length (obuf p)"
  shows "\<exists>q. oput p c = Some q \<and> rewritten p q \<and> buffered q (xs @ [c])"
  using oputs_spec [of p xs "[c]"] assms oput_oputs [of p c] by (simp add: buffered_def)

lemma to_flush_spec:
  assumes "buffered p xs"
  shows "to_flush p (int (length xs)) = Some (int (length xs - out_from p), drop (out_from p) xs)"
proof -
  obtain sl where sl: "char0 (obuf p) = map Some xs @ sl" using assms by (auto simp: buffered_def)
  have "out_from p \<le> length xs" using assms by (auto simp: buffered_def out_from_def split: option.splits)
  then have "rds (char0 (obuf p)) (out_from p) (length xs - out_from p) = Some (drop (out_from p) xs)"
    using sl by (simp add: rds_append_left rds_map_Some)
  moreover have "(case stdout_from p of None \<Rightarrow> (0, int (length xs)) | Some k \<Rightarrow> (k, int (length xs) - k)) =
      (int (out_from p), int (length xs) - int (out_from p))"
    using assms by (auto simp: buffered_def out_from_def split: option.splits)
  ultimately show ?thesis using \<open>out_from p \<le> length xs\<close> by (simp add: to_flush_def of_nat_diff)
qed

section \<open>Devices that take bytes\<close>

locale output_device =
  fixes w :: "'d writer" and ok :: "'d \<Rightarrow> bool" and sent :: "'d \<Rightarrow> u8 list" and stall :: "'d \<Rightarrow> nat"
  assumes returns: "ok (odev p) \<Longrightarrow> s \<noteq> [] \<Longrightarrow> \<exists>r d. w p s = Some (r, p\<lparr>odev := d\<rparr>)"
    and written: "ok (odev p) \<Longrightarrow> s \<noteq> [] \<Longrightarrow> w p s = Some (Written n, p\<lparr>odev := d\<rparr>) \<Longrightarrow>
      0 \<le> n \<and> nat n \<le> length s \<and> ok d \<and> sent d = sent (odev p) @ take (nat n) s \<and> (n = 0 \<longrightarrow> stall d < stall (odev p))"
    and failed: "ok (odev p) \<Longrightarrow> s \<noteq> [] \<Longrightarrow> w p s = Some (Write_Failed e msg, p\<lparr>odev := d\<rparr>) \<Longrightarrow>
      ok d \<and> sent d = sent (odev p) \<and> (e = EINTR \<or> e = EAGAIN \<longrightarrow> stall d < stall (odev p))"

text \<open>The devices that calls of \<open>syswrite\<close> lead to, and the failure of one of them: after such calls, a write of some
  bytes was refused, not because of an interrupt; the port is marked, and the failure has the error and its text.\<close>

inductive wrote_on :: "'d writer \<Rightarrow> 'd \<Rightarrow> 'd \<Rightarrow> bool" for w where
  wrote_none: "wrote_on w d d"
| wrote_more: "w p s = Some (r, q) \<Longrightarrow> wrote_on w (odev q) d \<Longrightarrow> wrote_on w (odev p) d"

lemma wrote_on_trans: "wrote_on w d d' \<Longrightarrow> wrote_on w d' d'' \<Longrightarrow> wrote_on w d d''"
  by (induction rule: wrote_on.induct) (auto intro: wrote_more)

lemma wrote_once: "w p s = Some (r, q) \<Longrightarrow> wrote_on w (odev p) (odev q)"
  by (rule wrote_more [OF _ wrote_none])

definition write_fails :: "'d writer \<Rightarrow> 'd \<Rightarrow> failure \<Rightarrow> 'd output_port \<Rightarrow> bool" where
  "write_fails w d f q \<longleftrightarrow> (\<exists>p0 s0 e msg q0. wrote_on w d (odev p0) \<and> s0 \<noteq> [] \<and> w p0 s0 = Some (Write_Failed e msg, q0) \<and>
     e \<noteq> EINTR \<and> e \<noteq> EAGAIN \<and> f = C_System_Failure (bglerror e 1) ''write/display'' msg \<and> q = q0\<lparr>oerr := True\<rparr>)"

lemma write_fails_later: "wrote_on w d d' \<Longrightarrow> write_fails w d' f q \<Longrightarrow> write_fails w d f q"
  unfolding write_fails_def by (elim exE conjE) (intro exI conjI, erule (1) wrote_on_trans)

text \<open>What flushing bytes does: all of them, or the first ones and a failure of the device.\<close>

definition delivers :: "'d writer \<Rightarrow> ('d \<Rightarrow> bool) \<Rightarrow> ('d \<Rightarrow> u8 list) \<Rightarrow> bool \<Rightarrow> 'd output_port \<Rightarrow> u8 list \<Rightarrow> 'd port_step \<Rightarrow> bool" where
  "delivers w ok sent err p s r \<longleftrightarrow>
     (\<exists>d. ok d \<and> wrote_on w (odev p) d \<and> sent d = sent (odev p) @ s \<and> r = Some (Inr (p\<lparr>odev := d\<rparr>))) \<or>
     (\<exists>d n f. ok d \<and> n < length s \<and> sent d = sent (odev p) @ take n s \<and>
       write_fails w (odev p) f (p\<lparr>odev := d, oerr := True\<rparr>) \<and>
       r = (if err then Some (Inl (f, p\<lparr>odev := d, oerr := True\<rparr>)) else Some (Inr (p\<lparr>odev := d\<rparr>))))"

lemma delivers_weaken:
  assumes "delivers w ok sent err (p\<lparr>odev := d\<rparr>) (drop n s) r" and "sent d = sent (odev p) @ take n s" and "n \<le> length s"
    and on: "wrote_on w (odev p) d"
  shows "delivers w ok sent err p s r"
  using assms(1) [unfolded delivers_def]
proof (elim disjE exE conjE)
  fix d'
  assume h: "ok d'" "wrote_on w (odev (p\<lparr>odev := d\<rparr>)) d'" "sent d' = sent (odev (p\<lparr>odev := d\<rparr>)) @ drop n s"
    "r = Some (Inr (p\<lparr>odev := d\<rparr>\<lparr>odev := d'\<rparr>))"
  have "wrote_on w (odev p) d'" using wrote_on_trans [OF on] h(2) by simp
  then show ?thesis using h assms(2) unfolding delivers_def by (intro disjI1 exI [of _ d']) simp
next
  fix d' k f
  assume h: "ok d'" "k < length (drop n s)" "sent d' = sent (odev (p\<lparr>odev := d\<rparr>)) @ take k (drop n s)"
    "write_fails w (odev (p\<lparr>odev := d\<rparr>)) f (p\<lparr>odev := d\<rparr>\<lparr>odev := d', oerr := True\<rparr>)"
    "r = (if err then Some (Inl (f, p\<lparr>odev := d\<rparr>\<lparr>odev := d', oerr := True\<rparr>)) else Some (Inr (p\<lparr>odev := d\<rparr>\<lparr>odev := d'\<rparr>)))"
  have "take n s @ take k (drop n s) = take (n + k) s" by (simp add: take_add)
  moreover have "write_fails w (odev p) f (p\<lparr>odev := d', oerr := True\<rparr>)" using write_fails_later [OF on] h(4) by simp
  ultimately show ?thesis using h assms(2,3) unfolding delivers_def
    by (intro disjI2 exI [of _ d'] exI [of _ "n + k"] exI [of _ f]) simp
qed

text \<open>A port over such a device, whose buffer holds \<open>xs\<close>, and what has been written to it.\<close>

definition dev_good :: "('d \<Rightarrow> bool) \<Rightarrow> 'd output_port \<Rightarrow> u8 list \<Rightarrow> bool" where
  "dev_good ok p xs \<longleftrightarrow> buffered p xs \<and> ok (odev p) \<and> bufmode p \<noteq> BGL_IOEBF \<and> okindof p \<noteq> KINDOF_CLOSED \<and>
     str_length (obuf p) < 2 ^ 31"

definition dev_text :: "('d \<Rightarrow> u8 list) \<Rightarrow> 'd output_port \<Rightarrow> u8 list \<Rightarrow> u8 list" where
  "dev_text sent p xs = sent (odev p) @ drop (out_from p) xs"

lemma and_then_simps [simp]:
  "and_then None f = None" "and_then (Some (Inl e)) f = Some (Inl e)" "and_then (Some (Inr x)) f = f x"
  by (simp_all add: and_then_def)

context output_device
begin

lemma flush_string_delivers:
  assumes "ok (odev p)"
  shows "delivers w ok sent err p s (flush_string w p s err)"
  using assms
proof (induction "length s" arbitrary: s p rule: less_induct)
  case (less s)
  note shorter = less.hyps
  show ?case using less.prems
  proof (induction "stall (odev p)" arbitrary: p rule: less_induct)
    case (less p)
    show ?case
    proof (cases "s = []")
      case True
      then have "flush_string w p s err = Some (Inr (p\<lparr>odev := odev p\<rparr>))" by (subst flush_string.simps) simp
      then show ?thesis unfolding delivers_def using less.prems True wrote_none by (intro disjI1 exI [of _ "odev p"]) simp
    next
      case False
      obtain r d where w: "w p s = Some (r, p\<lparr>odev := d\<rparr>)" using returns [OF less.prems False] by blast
      have on: "wrote_on w (odev p) d" using wrote_once [of w p s r "p\<lparr>odev := d\<rparr>"] w by simp
      show ?thesis
      proof (cases r)
        case (Written n)
        note n = written [OF less.prems False w [unfolded Written]]
        have step: "flush_string w p s err = flush_string w (p\<lparr>odev := d\<rparr>) (drop (nat n) s) err"
          using False w Written by (subst flush_string.simps) simp
        have "delivers w ok sent err (p\<lparr>odev := d\<rparr>) (drop (nat n) s) (flush_string w (p\<lparr>odev := d\<rparr>) (drop (nat n) s) err)"
        proof (cases "n = 0")
          case True
          then show ?thesis using less.hyps [of "p\<lparr>odev := d\<rparr>"] n by simp
        next
          case False
          then have "length (drop (nat n) s) < length s" using n by auto
          then show ?thesis using shorter [of "drop (nat n) s" "p\<lparr>odev := d\<rparr>"] n by simp
        qed
        then show ?thesis unfolding step by (rule delivers_weaken) (use n on in simp_all)
      next
        case (Write_Failed e msg)
        note f = failed [OF less.prems False w [unfolded Write_Failed]]
        show ?thesis
        proof (cases "e = EINTR \<or> e = EAGAIN")
          case True
          then have step: "flush_string w p s err = flush_string w (p\<lparr>odev := d\<rparr>) s err"
            using False w Write_Failed by (subst flush_string.simps) simp
          have "delivers w ok sent err (p\<lparr>odev := d\<rparr>) s (flush_string w (p\<lparr>odev := d\<rparr>) s err)"
            using less.hyps [of "p\<lparr>odev := d\<rparr>"] f True by simp
          then have "delivers w ok sent err (p\<lparr>odev := d\<rparr>) (drop 0 s) (flush_string w (p\<lparr>odev := d\<rparr>) s err)" by simp
          then show ?thesis unfolding step by (rule delivers_weaken) (use f on in simp_all)
        next
          case e: False
          then have "flush_string w p s err = (if err then write_error e msg (p\<lparr>odev := d\<rparr>) else Some (Inr (p\<lparr>odev := d\<rparr>)))"
            using False w Write_Failed by (subst flush_string.simps) simp
          moreover have "write_fails w (odev p) (C_System_Failure (bglerror e 1) ''write/display'' msg) (p\<lparr>odev := d, oerr := True\<rparr>)"
            unfolding write_fails_def using w Write_Failed e False wrote_none [of w "odev p"]
            by (intro exI [of _ p] exI [of _ s] exI [of _ e] exI [of _ msg] exI [of _ "p\<lparr>odev := d\<rparr>"]) simp
          ultimately show ?thesis unfolding delivers_def using f False
            by (intro disjI2 exI [of _ d] exI [of _ "0::nat"] exI [of _ "C_System_Failure (bglerror e 1) ''write/display'' msg"])
              (simp add: write_error_def)
        qed
      qed
    qed
  qed
qed

text \<open>Flushing a port without hook: everything goes out and the pointers are reset, or a failure is raised after
  some first bytes have gone out, and the buffer keeps its contents.\<close>

lemma output_flush_spec:
  assumes "dev_good ok p xs"
  shows "(\<exists>d. ok d \<and> wrote_on w (odev p) d \<and> sent d = dev_text sent p xs @ str \<and>
      output_flush w None p str rf True = Some (Inr (flushed rf (int (length xs - out_from p)) (p\<lparr>odev := d\<rparr>)))) \<or>
    (\<exists>d n f. ok d \<and> n < length (drop (out_from p) xs @ str) \<and>
      sent d = sent (odev p) @ take n (drop (out_from p) xs @ str) \<and> write_fails w (odev p) f (p\<lparr>odev := d, oerr := True\<rparr>) \<and>
      output_flush w None p str rf True = Some (Inl (f, p\<lparr>odev := d, oerr := True\<rparr>)))"
proof -
  let ?bs = "drop (out_from p) xs"
  have h: "buffered p xs" "ok (odev p)" "bufmode p \<noteq> BGL_IOEBF" "okindof p \<noteq> KINDOF_CLOSED" "str_length (obuf p) < 2 ^ 31"
    using assms by (simp_all add: dev_good_def)
  have use: "to_flush p (int32 (int (str_length (obuf p))) - BGL_OUTPUT_PORT_CNT p) = Some (int (length xs - out_from p), ?bs)"
    using to_flush_spec [OF h(1)] buffered_cnt [OF h(1)] h(5) by simp
  have flush: "output_flush w None p str rf True =
      and_then (flush_string w p ?bs True) (\<lambda>q. and_then (flush_string w q str True)
        (\<lambda>q. Some (Inr (flushed rf (int (length xs - out_from p)) q))))"
    using h(3,4) use by (simp add: output_flush_def Let_def invoke_flush_hook_def)
  from flush_string_delivers [OF h(2), of True ?bs]
  consider d where "ok d" "sent d = sent (odev p) @ ?bs" "flush_string w p ?bs True = Some (Inr (p\<lparr>odev := d\<rparr>))" "wrote_on w (odev p) d"
    | d n f where "ok d" "n < length ?bs" "sent d = sent (odev p) @ take n ?bs"
      "write_fails w (odev p) f (p\<lparr>odev := d, oerr := True\<rparr>)"
      "flush_string w p ?bs True = Some (Inl (f, p\<lparr>odev := d, oerr := True\<rparr>))"
    unfolding delivers_def if_True by blast
  then show ?thesis
  proof cases
    case 1
    note first = 1
    have "ok (odev (p\<lparr>odev := d\<rparr>))" using first(1) by simp
    from flush_string_delivers [OF this, of True str]
    consider d' where "ok d'" "sent d' = sent d @ str" "flush_string w (p\<lparr>odev := d\<rparr>) str True = Some (Inr (p\<lparr>odev := d'\<rparr>))" "wrote_on w d d'"
      | d' n f where "ok d'" "n < length str" "sent d' = sent d @ take n str" "write_fails w d f (p\<lparr>odev := d', oerr := True\<rparr>)"
        "flush_string w (p\<lparr>odev := d\<rparr>) str True = Some (Inl (f, p\<lparr>odev := d', oerr := True\<rparr>))"
      unfolding delivers_def by (simp del: length_greater_0_conv) blast
    then show ?thesis
    proof cases
      case 1
      then show ?thesis using first wrote_on_trans [OF first(4)]
        by (intro disjI1 exI [of _ d']) (simp add: flush dev_text_def)
    next
      case 2
      then show ?thesis using first write_fails_later [OF first(4)]
        by (intro disjI2 exI [of _ d'] exI [of _ "length ?bs + n"] exI [of _ f]) (simp add: flush)
    qed
  next
    case 2
    then show ?thesis
      by (intro disjI2 exI [of _ d] exI [of _ n] exI [of _ f]) (simp add: flush)
  qed
qed

end

section \<open>Streams\<close>

text \<open>A step returns: it has appended \<open>s\<close> to what has been written to the port, or it raises a failure of the device.\<close>

definition appends :: "'d writer \<Rightarrow> ('d output_port \<Rightarrow> u8 list \<Rightarrow> bool) \<Rightarrow> ('d output_port \<Rightarrow> u8 list \<Rightarrow> u8 list) \<Rightarrow>
    'd output_port \<Rightarrow> u8 list \<Rightarrow> u8 list \<Rightarrow> 'd port_step \<Rightarrow> bool" where
  "appends w good content p xs s r \<longleftrightarrow>
     (\<exists>p' ys. r = Some (Inr p') \<and> good p' ys \<and> content p' ys = content p xs @ s \<and> wrote_on w (odev p) (odev p')) \<or>
     (\<exists>f p'. r = Some (Inl (f, p')) \<and> write_fails w (odev p) f p')"

locale output_stream =
  fixes w :: "'d writer" and good :: "'d output_port \<Rightarrow> u8 list \<Rightarrow> bool"
    and content :: "'d output_port \<Rightarrow> u8 list \<Rightarrow> u8 list"
  assumes holds_bytes: "good p xs \<Longrightarrow> buffered p xs"
    and extend: "good p xs \<Longrightarrow> rewritten p q \<Longrightarrow> buffered q (xs @ s) \<Longrightarrow> good q (xs @ s) \<and> content q (xs @ s) = content p xs @ s"
    and flush: "good p xs \<Longrightarrow> appends w good content p xs s (output_flush w None p s False True)"
    and room: "good p xs \<Longrightarrow> output_flush w None p [] False True = Some (Inr q) \<Longrightarrow>
      BGL_OUTPUT_PORT_CNT p \<le> BGL_OUTPUT_PORT_CNT q"
begin

lemma appends_put:
  "good q ys \<Longrightarrow> content q ys = content p xs @ s \<Longrightarrow> odev q = odev p \<Longrightarrow> appends w good content p xs s (Some (Inr q))"
  by (simp add: appends_def) (metis wrote_none)

lemma appends_none: "good p xs \<Longrightarrow> appends w good content p xs [] (Some (Inr p))"
  by (rule appends_put) simp_all

lemma appends_then:
  assumes "appends w good content p xs s m"
    and "\<And>q ys. m = Some (Inr q) \<Longrightarrow> good q ys \<Longrightarrow> appends w good content q ys t (f q)"
  shows "appends w good content p xs (s @ t) (and_then m f)"
  using assms(1) [unfolded appends_def]
proof (elim disjE exE conjE)
  fix q ys
  assume q: "m = Some (Inr q)" "good q ys" "content q ys = content p xs @ s" "wrote_on w (odev p) (odev q)"
  then have "appends w good content q ys t (f q)" using assms(2) by blast
  then show ?thesis using q wrote_on_trans [OF q(4)] write_fails_later [OF q(4)] unfolding appends_def by auto
next
  fix e q
  assume "m = Some (Inl (e, q))" "write_fails w (odev p) e q"
  then show ?thesis by (simp add: appends_def)
qed

lemma puts_appends:
  assumes "good p xs" and "int (length s) \<le> BGL_OUTPUT_PORT_CNT p"
  shows "\<exists>q. oputs p s = Some q \<and> good q (xs @ s) \<and> content q (xs @ s) = content p xs @ s \<and> rewritten p q"
proof -
  note b = holds_bytes [OF assms(1)]
  have "length xs + length s \<le> str_length (obuf p)" using assms(2) buffered_cnt [OF b] by simp
  then show ?thesis using oputs_spec [OF b] extend [OF assms(1)] by blast
qed

lemma put_appends:
  assumes "good p xs" and "0 < BGL_OUTPUT_PORT_CNT p"
  shows "\<exists>q. oput p c = Some q \<and> good q (xs @ [c]) \<and> content q (xs @ [c]) = content p xs @ [c] \<and> rewritten p q"
  using puts_appends [of p xs "[c]"] oput_oputs [of p c] assms holds_bytes [OF assms(1)] by (simp add: buffered_def)

lemma cnt_rewritten:
  assumes "buffered p xs" and "rewritten p q" and "buffered q (xs @ s)"
  shows "BGL_OUTPUT_PORT_CNT q = BGL_OUTPUT_PORT_CNT p - int (length s)"
  using buffered_cnt [OF assms(1)] buffered_cnt [OF assms(3)] rewrittenD(5) [OF assms(2)] by simp

lemma write_lines_appends:
  assumes "good p xs" and "int (length s) \<le> BGL_OUTPUT_PORT_CNT p"
  shows "appends w good content p xs s (write_lines w None p s)"
  using assms
proof (induction s arbitrary: p xs)
  case Nil
  then show ?case by (simp add: appends_none)
next
  case (Cons c cs)
  obtain q where q: "oput p c = Some q" "good q (xs @ [c])" "content q (xs @ [c]) = content p xs @ [c]" "rewritten p q"
    using put_appends [OF Cons.prems(1)] Cons.prems(2) by fastforce
  have cnt: "int (length cs) \<le> BGL_OUTPUT_PORT_CNT q"
    using cnt_rewritten [OF holds_bytes [OF Cons.prems(1)] q(4) holds_bytes [OF q(2)]] Cons.prems(2) by simp
  let ?m = "if c = newline then bgl_output_flush w None q [] else Some (Inr q)"
  have "appends w good content q (xs @ [c]) [] ?m"
    using flush [OF q(2), of "[]"] appends_none [OF q(2)] by (cases "c = newline") (simp_all add: bgl_output_flush_def)
  then have "appends w good content q (xs @ [c]) ([] @ cs) (and_then ?m (\<lambda>p. write_lines w None p cs))"
  proof (rule appends_then)
    fix q' ys
    assume q': "?m = Some (Inr q')" "good q' ys"
    have "BGL_OUTPUT_PORT_CNT q \<le> BGL_OUTPUT_PORT_CNT q'"
      using q'(1) room [OF q(2)] by (simp add: bgl_output_flush_def split: if_splits)
    then show "appends w good content q' ys cs (write_lines w None q' cs)" using Cons.IH [OF q'(2)] cnt by simp
  qed
  then show ?case using q(1,3) rewrittenD(4) [OF q(4)] by (simp add: appends_def)
qed

lemma write_appends:
  assumes "good p xs"
  shows "appends w good content p xs s (bgl_write w None p s)"
proof (cases "BGL_OUTPUT_PORT_CNT p > int (length s)")
  case True
  show ?thesis
  proof (cases "bufmode p = BGL_IOLBF")
    case lines: True
    with True show ?thesis using write_lines_appends [OF assms] by (simp add: bgl_write_def)
  next
    case False
    obtain q where "oputs p s = Some q" "good q (xs @ s)" "content q (xs @ s) = content p xs @ s" "rewritten p q"
      using puts_appends [OF assms, of s] True by auto
    with True False show ?thesis using appends_put [of q "xs @ s" p xs s] rewrittenD(4) [of p q] by (simp add: bgl_write_def)
  qed
next
  case False
  then show ?thesis using flush [OF assms] by (simp add: bgl_write_def bgl_output_flush_def)
qed

end

section \<open>Files and procedures\<close>

lemma flushed_buffered:
  assumes "buffered p xs"
  shows "buffered (flushed False use (p\<lparr>odev := d\<rparr>)) []" and "out_from (flushed False use (p\<lparr>odev := d\<rparr>)) = 0"
  using assms by (auto simp: flushed_def Let_def buffered_def out_from_def split: option.splits)

lemma flushed_fields [simp]:
  "odev (flushed rf use p) = odev p" "okindof (flushed rf use p) = okindof p" "bufmode (flushed rf use p) = bufmode p"
  "obuf (flushed rf use p) = obuf p"
  by (simp_all add: flushed_def Let_def split: option.splits)

sublocale output_device \<subseteq> output_stream w "dev_good ok" "dev_text sent"
proof
  fix p xs q s
  assume good: "dev_good ok p xs"
  then show b: "buffered p xs" by (simp add: dev_good_def)
  assume "rewritten p q" "buffered q (xs @ s)"
  then show "dev_good ok q (xs @ s) \<and> dev_text sent q (xs @ s) = dev_text sent p xs @ s"
    using good rewrittenD [of p q] b
    by (auto simp: dev_good_def dev_text_def buffered_def out_from_def split: option.splits)
next
  fix p xs s
  assume good: "dev_good ok p xs"
  have emptied: "\<exists>ys. dev_good ok (flushed False use (p\<lparr>odev := d\<rparr>)) ys \<and>
      dev_text sent (flushed False use (p\<lparr>odev := d\<rparr>)) ys = sent d" if "ok d" for use d
    using that good flushed_buffered [of p xs use d] by (intro exI [of _ "[]"]) (simp add: dev_good_def dev_text_def)
  show "appends w (dev_good ok) (dev_text sent) p xs s (output_flush w None p s False True)"
    using output_flush_spec [OF good, of s False]
  proof (elim disjE exE conjE)
    fix d
    assume "ok d" "wrote_on w (odev p) d" "sent d = dev_text sent p xs @ s"
      "output_flush w None p s False True = Some (Inr (flushed False (int (length xs - out_from p)) (p\<lparr>odev := d\<rparr>)))"
    then show ?thesis using emptied [of d "int (length xs - out_from p)"] by (simp add: appends_def)
  qed (simp add: appends_def)
next
  fix p xs q
  assume good: "dev_good ok p xs" and q: "output_flush w None p [] False True = Some (Inr q)"
  obtain use d where "q = flushed False use (p\<lparr>odev := d\<rparr>)"
    using output_flush_spec [OF good, of "[]" False] q by auto
  then show "BGL_OUTPUT_PORT_CNT p \<le> BGL_OUTPUT_PORT_CNT q"
    using good flushed_buffered(1) [of p xs use d] by (simp add: dev_good_def BGL_OUTPUT_PORT_CNT_def buffered_def)
qed

text \<open>The system call \<open>write\<close> is a parameter.\<close>

locale output_file =
  fixes os_write :: "'f \<Rightarrow> u8 list \<Rightarrow> write_result \<times> 'f" and okf :: "'f \<Rightarrow> bool" and sentf :: "'f \<Rightarrow> u8 list"
    and stallf :: "'f \<Rightarrow> nat"
  assumes file_written: "okf f \<Longrightarrow> s \<noteq> [] \<Longrightarrow> os_write f s = (Written n, f') \<Longrightarrow>
      0 \<le> n \<and> nat n \<le> length s \<and> okf f' \<and> sentf f' = sentf f @ take (nat n) s \<and> (n = 0 \<longrightarrow> stallf f' < stallf f)"
    and file_failed: "okf f \<Longrightarrow> s \<noteq> [] \<Longrightarrow> os_write f s = (Write_Failed e msg, f') \<Longrightarrow>
      okf f' \<and> sentf f' = sentf f \<and> (e = EINTR \<or> e = EAGAIN \<longrightarrow> stallf f' < stallf f)"

lemma syswrite_inject: "p\<lparr>odev := d\<rparr> = p\<lparr>odev := d'\<rparr> \<longleftrightarrow> d = (d' :: 'd)"
  for p :: "'d output_port"
  by (cases p) simp

sublocale output_file \<subseteq> output_device "bgl_syswrite os_write" okf sentf stallf
  by unfold_locales
    (auto simp: bgl_syswrite_def syswrite_inject split: prod.splits dest: file_written file_failed)

text \<open>A system that answers from a list: the number of bytes it takes, or an error.\<close>

datatype reply = Takes nat | Fails errno

record replies =
  script :: "reply list"
  log :: "u8 list"

fun scripted_write :: "replies \<Rightarrow> u8 list \<Rightarrow> write_result \<times> replies" where
  "scripted_write f s =
     (case script f of
        [] \<Rightarrow> (Written (int (length s)), f\<lparr>log := log f @ s\<rparr>)
      | Takes n # rs \<Rightarrow> (Written (int (min n (length s))), f\<lparr>script := rs, log := log f @ take n s\<rparr>)
      | Fails e # rs \<Rightarrow> (Write_Failed e ''system error'', f\<lparr>script := rs\<rparr>))"

interpretation scripted: output_file scripted_write "\<lambda>_. True" log "\<lambda>f. length (script f)"
  by unfold_locales (auto split: list.splits reply.splits simp: min_def split: if_splits)

text \<open>A procedure port gives the procedure exactly the bytes of each write.\<close>

lemma procwrite_calls:
  assumes "str_length (wbuffer (odev p)) < length (char0 (wbuffer (odev p)))"
    and "str_length (wbuffer (odev p)) < 2 ^ 31" and "length s < 2 ^ 31 - 1"
  shows "\<exists>b. procwrite call p s = Some (Written (int (length s)), p\<lparr>odev := \<lparr>wbuffer = b, wproc = call (wproc (odev p)) s\<rparr>\<rparr>) \<and>
    length s \<le> str_length b \<and> str_length b < length (char0 b) \<and> str_length b < 2 ^ 31"
proof -
  let ?b = "wbuffer (odev p)"
  have call: "\<exists>m'. blit m 0 (map Some s) 0 (length s) = Some m' \<and> length s < length m' \<and> length m' = length m \<and>
      wr m' (length s) 0 = Some (m'[length s := Some 0]) \<and> rds (m'[length s := Some 0]) 0 (length s) = Some s"
    if m: "length s < length m" for m :: "u8 cells"
  proof -
    have "blit m 0 (map Some s) 0 (length s) = Some (map Some s @ drop (length s) m)" using m by (simp add: blit_def)
    moreover have "(map Some s @ drop (length s) m)[length s := Some 0] = map Some s @ (drop (length s) m)[0 := Some 0]"
      by (simp add: list_update_append)
    moreover have "rds (map Some s @ (drop (length s) m)[0 := Some 0]) 0 (length s) = Some s"
      by (simp add: rds_append_left rds_map_Some)
    ultimately show ?thesis using m by simp
  qed
  show ?thesis
  proof (cases "length s > str_length ?b")
    case True
    let ?n = "length s + 1"
    let ?m = "(gc_malloc (?n + 1) :: u8 cells)[?n := Some 0]"
    have "make_string_sans_fill (int (length s) + 1) = Some \<lparr>str_length = ?n, char0 = ?m\<rparr>"
      by (simp add: make_string_sans_fill_def idx_def nat_add_distrib)
    moreover have "idx (int (length s) + 1) = Some ?n" by (simp add: idx_def nat_add_distrib)
    moreover obtain m' where m': "blit ?m 0 (map Some s) 0 (length s) = Some m'" "length m' = length ?m"
      "wr m' (length s) 0 = Some (m'[length s := Some 0])" "rds (m'[length s := Some 0]) 0 (length s) = Some s"
      using call [of ?m] by auto
    moreover have "int32 (int (str_length ?b)) = int (str_length ?b)" "int32 (int (length s) + 1) = int (length s) + 1"
      using assms(2,3) by simp_all
    ultimately have "procwrite call p s = Some (Written (int (length s)), p\<lparr>odev :=
        \<lparr>wbuffer = \<lparr>str_length = ?n, char0 = m'[length s := Some 0]\<rparr>, wproc = call (wproc (odev p)) s\<rparr>\<rparr>)"
      using True by (simp add: procwrite_def Let_def)
    then show ?thesis using m'(2) assms(3)
      by (intro exI [of _ "\<lparr>str_length = ?n, char0 = m'[length s := Some 0]\<rparr>"]) simp
  next
    case False
    then obtain m' where m': "blit (char0 ?b) 0 (map Some s) 0 (length s) = Some m'" "length m' = length (char0 ?b)"
      "wr m' (length s) 0 = Some (m'[length s := Some 0])" "rds (m'[length s := Some 0]) 0 (length s) = Some s"
      using call [of "char0 ?b"] assms(1) by auto
    moreover have "int32 (int (str_length ?b)) = int (str_length ?b)" using assms(2) by simp
    ultimately have "procwrite call p s = Some (Written (int (length s)), p\<lparr>odev :=
        \<lparr>wbuffer = \<lparr>str_length = str_length ?b, char0 = m'[length s := Some 0]\<rparr>, wproc = call (wproc (odev p)) s\<rparr>\<rparr>)"
      using False by (simp add: procwrite_def Let_def)
    then show ?thesis using m'(2) False assms
      by (intro exI [of _ "\<lparr>str_length = str_length ?b, char0 = m'[length s := Some 0]\<rparr>"]) simp
  qed
qed

end
