(* ===== verification/Oports.thy ===== *)
theory Oports
  imports Ostream
begin

text \<open>
  String ports as streams, and the properties of output ports (\<open>runtime/Clib/cports.c\<close>) over the interfaces of
  theory \<open>Ostream\<close>.
\<close>

section \<open>String ports\<close>

definition str_good :: "'d output_port \<Rightarrow> u8 list \<Rightarrow> bool" where
  "str_good p xs \<longleftrightarrow> buffered p xs \<and> bufmode p = BGL_IOEBF \<and> okindof p = KINDOF_STRING \<and> stdout_from p = None"

text \<open>A write that does not fit doubles the room.\<close>

lemma strwrite_spec:
  assumes "str_good p xs"
  shows "\<exists>q. strwrite p s = Some (Written (int (length s)), q) \<and> str_good q (xs @ s) \<and>
    str_length (obuf q) = 2 * (str_length (obuf p) + length s)"
proof -
  let ?n = "2 * (str_length (obuf p) + length s)"
  have b: "buffered p xs" using assms by (simp add: str_good_def)
  obtain sl where sl: "char0 (obuf p) = map Some xs @ sl" "length xs \<le> str_length (obuf p)"
    using b by (auto simp: buffered_def)
  let ?m = "map Some (xs @ s) @ drop (length xs + length s) ((gc_malloc (?n + 1))[?n := Some 0])"
  let ?q = "p\<lparr>obuf := \<lparr>str_length = ?n, char0 = ?m\<rparr>, optr := int (length (xs @ s)), oend := int ?n\<rparr>"
  have n: "idx ((int (str_length (obuf p)) + int (length s)) * 2) = Some ?n" by (simp add: idx_def nat_add_distrib nat_mult_distrib)
  have "int (str_length (obuf p)) - BGL_OUTPUT_PORT_CNT p = int (length xs)" using buffered_cnt [OF b] by simp
  moreover have "blit ((gc_malloc (?n + 1))[?n := Some 0]) 0 (char0 (obuf p)) 0 (length xs) =
      Some (map Some xs @ drop (length xs) ((gc_malloc (?n + 1))[?n := Some 0]))"
    using sl by (simp add: blit_def)
  moreover have "blit (map Some xs @ drop (length xs) ((gc_malloc (?n + 1))[?n := Some 0])) (length xs) (map Some s) 0 (length s) = Some ?m"
    using sl(2) by (simp add: blit_def add.commute)
  ultimately have "strwrite p s = Some (Written (int (length s)), ?q)"
    using n by (simp add: strwrite_def Let_def make_string_sans_fill_def add.commute)
  moreover have "str_good ?q (xs @ s)"
    using assms sl(2) by (auto simp: str_good_def buffered_def)
  ultimately show ?thesis by (intro exI [of _ ?q]) simp
qed

lemma string_flush:
  assumes "str_good p xs"
  shows "\<exists>q. output_flush strwrite None p s False True = Some (Inr q) \<and> str_good q (xs @ s) \<and>
    wrote_on strwrite (odev p) (odev q) \<and> (s = [] \<longrightarrow> BGL_OUTPUT_PORT_CNT p \<le> BGL_OUTPUT_PORT_CNT q)"
proof -
  obtain q where q: "strwrite p s = Some (Written (int (length s)), q)" "str_good q (xs @ s)"
      "str_length (obuf q) = 2 * (str_length (obuf p) + length s)"
    using strwrite_spec [OF assms] by blast
  have cnt: "BGL_OUTPUT_PORT_CNT p \<le> BGL_OUTPUT_PORT_CNT q" if "s = []"
    using that assms q(2,3) buffered_cnt [of p xs] buffered_cnt [of q "xs @ s"] by (simp add: str_good_def)
  have "output_flush strwrite None p s False True =
      (if s \<noteq> [] \<or> BGL_OUTPUT_PORT_CNT p = 0 then Some (Inr q) else Some (Inr p))"
    using assms q(1) by (simp add: output_flush_def Let_def invoke_flush_hook_def str_good_def)
  then show ?thesis using assms q(2) cnt wrote_once [of strwrite p s "Written (int (length s))" q] wrote_none [of strwrite "odev p"] q(1) by (cases "s \<noteq> [] \<or> BGL_OUTPUT_PORT_CNT p = 0") auto
qed

interpretation string_stream: output_stream strwrite str_good "\<lambda>p xs. xs"
proof
  fix p :: "'d output_port" and xs q s
  assume good: "str_good p xs"
  then show "buffered p xs" by (simp add: str_good_def)
  assume "rewritten p q" "buffered q (xs @ s)"
  then show "str_good q (xs @ s) \<and> xs @ s = xs @ s" using good rewrittenD [of p q] by (simp add: str_good_def)
next
  fix p :: "'d output_port" and xs s
  assume "str_good p xs"
  from string_flush [OF this, of s]
  obtain q where q: "output_flush strwrite None p s False True = Some (Inr q)" "str_good q (xs @ s)" "wrote_on strwrite (odev p) (odev q)"
    by blast
  then show "appends strwrite str_good (\<lambda>p xs. xs) p xs s (output_flush strwrite None p s False True)"
    by (auto simp: appends_def)
next
  fix p q :: "'d output_port" and xs
  assume "str_good p xs" "output_flush strwrite None p [] False True = Some (Inr q)"
  with string_flush [of p xs "[]"] show "BGL_OUTPUT_PORT_CNT p \<le> BGL_OUTPUT_PORT_CNT q" by auto
qed

text \<open>A string port never fails.\<close>

lemma string_write:
  assumes "str_good p xs"
  shows "\<exists>q. bgl_write strwrite None p s = Some (Inr q) \<and> str_good q (xs @ s)"
proof (cases "BGL_OUTPUT_PORT_CNT p > int (length s)")
  case True
  then show ?thesis using assms string_stream.puts_appends [OF assms, of s] by (auto simp: bgl_write_def str_good_def)
next
  case False
  then show ?thesis using string_flush [OF assms, of s] by (auto simp: bgl_write_def bgl_output_flush_def)
qed

lemma int32_diff: "int32 (a - int32 b) = int32 (a - b)"
  unfolding int32_def by (metis signed_take_bit_diff signed_take_bit_signed_take_bit min.idem)

lemma get_output_string_spec:
  assumes "str_good p xs" and "length xs < 2 ^ 31"
  shows "get_output_string p = Some (Inr (bstring_of xs))"
proof -
  have b: "buffered p xs" using assms by (simp add: str_good_def)
  obtain sl where sl: "char0 (obuf p) = map Some xs @ sl" using b by (auto simp: buffered_def)
  have "int32 (int (str_length (obuf p)) - int32 (BGL_OUTPUT_PORT_CNT p)) = int32 (int (length xs))"
    unfolding int32_diff using buffered_cnt [OF b] by simp
  then have "string_to_bstring_len (Some (map Some xs @ sl)) (int (str_length (obuf p)) - int32 (BGL_OUTPUT_PORT_CNT p)) =
      Some (bstring_of xs)"
    using assms(2) by (simp add: string_to_bstring_len_def blit_def str_rep_def c_string_def list_update_append)
  then show ?thesis using assms sl by (simp add: get_output_string_def str_good_def)
qed

lemma close_string_spec:
  assumes "str_good p xs" and "str_length (obuf p) < 2 ^ 31"
  shows "\<exists>b q. bgl_close_output_port strwrite None sysclose False p = Some (Inr (Some b, q)) \<and> okindof q = KINDOF_CLOSED \<and>
    str_length b = length xs \<and> rds (char0 b) 0 (length xs) = Some xs"
proof -
  have b: "buffered p xs" and kind: "okindof p = KINDOF_STRING" using assms(1) by (simp_all add: str_good_def)
  obtain sl where sl: "char0 (obuf p) = map Some xs @ sl" "length xs \<le> str_length (obuf p)"
      "str_length (obuf p) < length xs + length sl"
    using b by (auto simp: buffered_def)
  have nlen: "int (str_length (obuf p)) - int32 (BGL_OUTPUT_PORT_CNT p) = int (length xs)"
    using buffered_cnt [OF b] assms(2) sl(2) by simp
  let ?b = "if length xs < str_length (obuf p)
    then (obuf p)\<lparr>str_length := length xs, char0 := map Some xs @ sl[0 := Some 0]\<rparr> else obuf p"
  have "sl \<noteq> []" using sl(2,3) by auto
  then have "bgl_string_shrink (obuf p) (int (length xs)) = Some ?b"
    using sl by (simp add: bgl_string_shrink_def list_update_append)
  moreover have "str_length ?b = length xs" "rds (char0 ?b) 0 (length xs) = Some xs"
    using sl by (simp_all add: rds_append_left rds_map_Some)
  ultimately show ?thesis using kind nlen by (simp add: bgl_close_output_port_def)
qed

section \<open>Properties\<close>

text \<open>C4: flushing an output port without flush hook, over any device that takes bytes, however few at a time and
  however often it is interrupted: it returns. Either the contents of the buffer and the string after them have gone
  out in this order and the buffer is empty; or the device, after the writes of this call, has refused a write with an
  error that is no interrupt: then its failure is raised, some first bytes of these have gone out, the port is marked and
  the buffer keeps its contents. Before a read from the console, standard output is flushed but keeps its position in
  the line. A closed port raises.\<close>

theorem flush_delivers:
  assumes "output_device w ok sent stall" and "dev_good ok p xs"
  shows "((\<exists>q. bgl_output_flush w None p s = Some (Inr q) \<and> dev_good ok q [] \<and>
        sent (odev q) = sent (odev p) @ drop (out_from p) xs @ s) \<or>
      (\<exists>f q n. bgl_output_flush w None p s = Some (Inl (f, q)) \<and> write_fails w (odev p) f q \<and> dev_good ok q xs \<and> oerr q \<and>
        n < length (drop (out_from p) xs @ s) \<and> sent (odev q) = sent (odev p) @ take n (drop (out_from p) xs @ s))) \<and>
    (stdout_from p \<noteq> None \<longrightarrow>
      (\<exists>q. output_flush w None p [] True True = Some (Inr q) \<and> dev_good ok q xs \<and>
        sent (odev q) = sent (odev p) @ drop (out_from p) xs \<and> out_from q = length xs \<and> optr q = optr p) \<or>
      (\<exists>f q. output_flush w None p [] True True = Some (Inl (f, q)) \<and> write_fails w (odev p) f q \<and> dev_good ok q xs \<and> oerr q)) \<and>
    bgl_output_flush w None (p\<lparr>okindof := KINDOF_CLOSED\<rparr>) s =
      Some (Inl (C_System_Failure BGL_IO_PORT_ERROR ''flush'' ''closed output port'', p\<lparr>okindof := KINDOF_CLOSED\<rparr>))"
proof (intro conjI impI)
  note spec = output_device.output_flush_spec [OF assms]
  have good: "buffered p xs" "bufmode p \<noteq> BGL_IOEBF" "okindof p \<noteq> KINDOF_CLOSED" "str_length (obuf p) < 2 ^ 31"
    using assms(2) by (simp_all add: dev_good_def)
  have kept: "dev_good ok (p\<lparr>odev := d, oerr := True\<rparr>) xs" if "ok d" for d
    using good that by (simp add: dev_good_def buffered_def)
  have emptied: "dev_good ok (flushed False use (p\<lparr>odev := d\<rparr>)) []" if "ok d" for use d
    using good that flushed_buffered [of p xs use d] by (simp add: dev_good_def)
  show "(\<exists>q. bgl_output_flush w None p s = Some (Inr q) \<and> dev_good ok q [] \<and>
        sent (odev q) = sent (odev p) @ drop (out_from p) xs @ s) \<or>
      (\<exists>f q n. bgl_output_flush w None p s = Some (Inl (f, q)) \<and> write_fails w (odev p) f q \<and> dev_good ok q xs \<and> oerr q \<and>
        n < length (drop (out_from p) xs @ s) \<and> sent (odev q) = sent (odev p) @ take n (drop (out_from p) xs @ s))"
    using spec [of s False]
  proof (elim disjE exE conjE)
    fix d
    assume "ok d" "sent d = dev_text sent p xs @ s"
      "output_flush w None p s False True = Some (Inr (flushed False (int (length xs - out_from p)) (p\<lparr>odev := d\<rparr>)))"
    then show ?thesis using emptied by (intro disjI1) (simp add: bgl_output_flush_def dev_text_def)
  next
    fix d n f
    assume "ok d" "n < length (drop (out_from p) xs @ s)" "sent d = sent (odev p) @ take n (drop (out_from p) xs @ s)"
      "write_fails w (odev p) f (p\<lparr>odev := d, oerr := True\<rparr>)"
      "output_flush w None p s False True = Some (Inl (f, p\<lparr>odev := d, oerr := True\<rparr>))"
    then show ?thesis using kept
      by (intro disjI2 exI [of _ f] exI [of _ "p\<lparr>odev := d, oerr := True\<rparr>"] exI [of _ n]) (simp add: bgl_output_flush_def)
  qed
  assume "stdout_from p \<noteq> None"
  then obtain k where k: "stdout_from p = Some k" "0 \<le> k" "k \<le> int (length xs)" using good(1) by (auto simp: buffered_def)
  have moved: "flushed True (int (length xs - out_from p)) (p\<lparr>odev := d\<rparr>) = p\<lparr>odev := d, stdout_from := Some (int (length xs))\<rparr>" for d
    using k by (simp add: flushed_def out_from_def Let_def of_nat_diff nat_le_iff)
  have still: "dev_good ok (p\<lparr>odev := d, stdout_from := Some (int (length xs))\<rparr>) xs" if "ok d" for d
    using good that by (simp add: dev_good_def buffered_def)
  show "(\<exists>q. output_flush w None p [] True True = Some (Inr q) \<and> dev_good ok q xs \<and>
        sent (odev q) = sent (odev p) @ drop (out_from p) xs \<and> out_from q = length xs \<and> optr q = optr p) \<or>
      (\<exists>f q. output_flush w None p [] True True = Some (Inl (f, q)) \<and> write_fails w (odev p) f q \<and> dev_good ok q xs \<and> oerr q)"
    using spec [of "[]" True]
  proof (elim disjE exE conjE)
    fix d
    assume "ok d" "sent d = dev_text sent p xs @ []"
      "output_flush w None p [] True True = Some (Inr (flushed True (int (length xs - out_from p)) (p\<lparr>odev := d\<rparr>)))"
    then show ?thesis using moved still [of d] by (intro disjI1) (simp add: dev_text_def out_from_def)
  next
    fix d n f
    assume "ok d" "write_fails w (odev p) f (p\<lparr>odev := d, oerr := True\<rparr>)"
      "output_flush w None p [] True True = Some (Inl (f, p\<lparr>odev := d, oerr := True\<rparr>))"
    then show ?thesis using kept by (intro disjI2 exI [of _ f] exI [of _ "p\<lparr>odev := d, oerr := True\<rparr>"]) simp
  qed
next
  show "bgl_output_flush w None (p\<lparr>okindof := KINDOF_CLOSED\<rparr>) s =
      Some (Inl (C_System_Failure BGL_IO_PORT_ERROR ''flush'' ''closed output port'', p\<lparr>okindof := KINDOF_CLOSED\<rparr>))"
    by (simp add: bgl_output_flush_def output_flush_def)
qed

definition log_port :: "reply list \<Rightarrow> nat \<Rightarrow> replies output_port" where
  "log_port rs n = bgl_make_output_port \<lparr>script = rs, log = []\<rparr> BGL_STREAM_TYPE_FD KINDOF_FILE (bstring_of (replicate n 0))"

lemma log_port_good: "n < 2 ^ 31 \<Longrightarrow> dev_good (\<lambda>_. True) (log_port rs n) []"
  by (simp add: dev_good_def buffered_def log_port_def bgl_make_output_port_def bgl_output_port_buffer_set_def)

text \<open>A scripted device whose only errors are interrupts never fails.\<close>

lemma scripted_never_fails:
  assumes "wrote_on (bgl_syswrite scripted_write) d d'"
  shows "set (script d) \<subseteq> insert (Fails EINTR) (insert (Fails EAGAIN) (range Takes)) \<Longrightarrow>
    set (script d') \<subseteq> insert (Fails EINTR) (insert (Fails EAGAIN) (range Takes))"
  using assms
  by induction (auto simp: bgl_syswrite_def split: list.splits reply.splits prod.splits)

lemma interrupts_only:
  assumes "set (script d) \<subseteq> insert (Fails EINTR) (insert (Fails EAGAIN) (range Takes))"
  shows "\<not> write_fails (bgl_syswrite scripted_write) d f q"
proof
  assume "write_fails (bgl_syswrite scripted_write) d f q"
  then obtain p0 s0 e msg q0 where *: "wrote_on (bgl_syswrite scripted_write) d (odev p0)"
    "bgl_syswrite scripted_write p0 s0 = Some (Write_Failed e msg, q0)" "e \<noteq> EINTR" "e \<noteq> EAGAIN"
    by (auto simp: write_fails_def)
  have "set (script (odev p0)) \<subseteq> insert (Fails EINTR) (insert (Fails EAGAIN) (range Takes))"
    using scripted_never_fails [OF *(1) assms] .
  then show False using *(2-4) by (auto simp: bgl_syswrite_def split: list.splits reply.splits prod.splits)
qed

theorem flush_delivers_witness:
  "\<exists>q. bgl_output_flush (bgl_syswrite scripted_write) None (log_port [Fails EINTR, Takes 2, Fails EAGAIN] 8) (bytes ''hello'') =
      Some (Inr q) \<and> log (odev q) = bytes ''hello''"
proof -
  have fields: "log (odev (log_port rs n)) = []" "script (odev (log_port rs n)) = rs" "out_from (log_port rs n) = 0" for rs n
    by (simp_all add: log_port_def bgl_make_output_port_def bgl_output_port_buffer_set_def out_from_def)
  have "\<not> write_fails (bgl_syswrite scripted_write) (odev (log_port [Fails EINTR, Takes 2, Fails EAGAIN] 8)) f q" for f q
    by (rule interrupts_only) (simp add: fields)
  then show ?thesis
    using flush_delivers [OF scripted.output_device_axioms log_port_good, of 8 "[Fails EINTR, Takes 2, Fails EAGAIN]" "bytes ''hello''"]
    by (auto simp: fields)
qed

text \<open>C19: a string port keeps everything that is written to it: a write never fails, whatever room the buffer has;
  reading the string, resetting, flushing and closing all give the characters written since the port was opened or
  reset.\<close>

theorem string_port_keeps:
  assumes "str_good p xs" and "length xs < 2 ^ 31" and "str_length (obuf p) < 2 ^ 31" and "str_length b < length (char0 b)"
  shows "str_good (bgl_open_output_string b) [] \<and>
    (\<exists>q. bgl_write strwrite None p s = Some (Inr q) \<and> str_good q (xs @ s)) \<and>
    get_output_string p = Some (Inr (bstring_of xs)) \<and>
    (\<exists>q. bgl_reset_output_string_port p = Some (Inr (bstring_of xs, q)) \<and> str_good q []) \<and>
    (\<exists>q. bgl_flush_output_port strwrite None (Some get_output_string) p = Some (Inr (Some (Inr (bstring_of xs)), q)) \<and>
      str_good q xs) \<and>
    (\<exists>c q. bgl_close_output_port strwrite None sysclose False p = Some (Inr (Some c, q)) \<and> okindof q = KINDOF_CLOSED \<and>
      str_length c = length xs \<and> rds (char0 c) 0 (length xs) = Some xs)"
proof (intro conjI)
  note str = get_output_string_spec [OF assms(1,2)]
  show "str_good (bgl_open_output_string b) []"
    using assms(4) by (simp add: str_good_def buffered_def bgl_open_output_string_def bgl_make_output_port_def
        bgl_output_port_buffer_set_def)
  show "\<exists>q. bgl_reset_output_string_port p = Some (Inr (bstring_of xs, q)) \<and> str_good q []"
    using str assms(1) by (auto simp: bgl_reset_output_string_port_def bgl_output_port_buffer_set_def str_good_def buffered_def)
  obtain q where q: "output_flush strwrite None p [] False True = Some (Inr q)" "str_good q (xs @ [])"
    using string_flush [OF assms(1), of "[]"] by blast
  show "\<exists>q. bgl_flush_output_port strwrite None (Some get_output_string) p = Some (Inr (Some (Inr (bstring_of xs)), q)) \<and>
      str_good q xs"
    using q get_output_string_spec [of q xs] assms(2) by (simp add: bgl_flush_output_port_def bgl_output_flush_def)
qed (use string_write [OF assms(1)] get_output_string_spec [OF assms(1,2)] close_string_spec [OF assms(1,3)] in simp_all)

lemma open_good: "str_length b < length (char0 b) \<Longrightarrow> str_good (bgl_open_output_string b) []"
  by (simp add: str_good_def buffered_def bgl_open_output_string_def bgl_make_output_port_def bgl_output_port_buffer_set_def)

theorem string_port_keeps_witness:
  "\<exists>q. bgl_write strwrite None (bgl_open_output_string (bstring_of (bytes ''..''))) (bytes ''hello'') = Some (Inr q) \<and>
     str_good q ([] @ bytes ''hello'')"
  using string_port_keeps [OF open_good, of "bstring_of (bytes ''..'')" "bstring_of []"]
  by (simp add: bytes_def bgl_open_output_string_def bgl_make_output_port_def bgl_output_port_buffer_set_def)

text \<open>The ports that the properties of printing are about: over any device that takes bytes, and string ports.\<close>

definition open_port :: "'d writer \<Rightarrow> ('d output_port \<Rightarrow> u8 list \<Rightarrow> bool) \<Rightarrow> ('d output_port \<Rightarrow> u8 list \<Rightarrow> u8 list) \<Rightarrow> bool" where
  "open_port w good content \<longleftrightarrow>
     (\<exists>ok sent stall. output_device w ok sent stall \<and> good = dev_good ok \<and> content = dev_text sent) \<or>
     (w = strwrite \<and> good = str_good \<and> content = (\<lambda>p xs. xs))"

context output_device
begin

lemma as_stream: "output_stream w (dev_good ok) (dev_text sent)"
  by (rule output_stream_axioms)

end

lemma open_port_stream: "open_port w good content \<Longrightarrow> output_stream w good content"
  using output_device.as_stream string_stream.output_stream_axioms unfolding open_port_def by blast

text \<open>Positions in output ports: the position that a string port reports counts its characters twice, or is one
  too small when less room is left than used; moving is refused beyond the room that is left, whatever has been
  written, and where it succeeds the text after the position is lost. After a read from the console, giving standard
  output a new buffer makes the next flush write a negative number of bytes.\<close>

theorem output_positions:
  assumes "str_good p xs" and "str_length (obuf p) < 2 ^ 31"
  shows "fst (bgl_output_port_filepos (Some strseek) p) =
      (if 2 * length xs \<le> str_length (obuf p) then 2 * int (length xs) else int (length xs) - 1) \<and>
    (fst (bgl_output_port_seek (Some strseek) p pos) \<longleftrightarrow> 0 \<le> pos \<and> pos \<le> int (str_length (obuf p) - length xs)) \<and>
    (fst (bgl_output_port_seek (Some strseek) p pos) \<and> pos \<le> int (length xs) \<longrightarrow>
      str_good (snd (bgl_output_port_seek (Some strseek) p pos)) (take (nat pos) xs)) \<and>
    (bufmode q \<noteq> BGL_IOEBF \<and> okindof q \<noteq> KINDOF_CLOSED \<and> stdout_from q = Some k \<and> 0 < k \<and> str_length b < 2 ^ 31 \<longrightarrow>
      bgl_output_flush w hook (bgl_output_port_buffer_set q b) s = None)"
proof (intro conjI impI)
  have b: "buffered p xs" "bufmode p = BGL_IOEBF" "okindof p = KINDOF_STRING" "stdout_from p = None"
    using assms(1) by (simp_all add: str_good_def)
  have ptr: "optr p = int (length xs)" "length xs \<le> str_length (obuf p)" using b(1) by (simp_all add: buffered_def)
  have cnt: "int32 (BGL_OUTPUT_PORT_CNT p) = int (str_length (obuf p)) - int (length xs)"
    using buffered_cnt [OF b(1)] assms(2) ptr(2) by simp
  show "fst (bgl_output_port_filepos (Some strseek) p) =
      (if 2 * length xs \<le> str_length (obuf p) then 2 * int (length xs) else int (length xs) - 1)"
    using ptr cnt by (auto simp: bgl_output_port_filepos_def strseek_def Let_def)
  have seek: "bgl_output_port_seek (Some strseek) p pos =
      (if 0 \<le> pos \<and> pos \<le> int (str_length (obuf p) - length xs) then (True, p\<lparr>optr := pos\<rparr>) else (False, p))"
    using ptr cnt by (auto simp: bgl_output_port_seek_def strseek_def Let_def of_nat_diff)
  show "fst (bgl_output_port_seek (Some strseek) p pos) \<longleftrightarrow> 0 \<le> pos \<and> pos \<le> int (str_length (obuf p) - length xs)"
    by (simp add: seek)
  assume h: "fst (bgl_output_port_seek (Some strseek) p pos) \<and> pos \<le> int (length xs)"
  obtain sl where sl: "char0 (obuf p) = map Some xs @ sl" using b(1) by (auto simp: buffered_def)
  have "0 \<le> pos" "nat pos \<le> length xs" "fst (bgl_output_port_seek (Some strseek) p pos)" using h by (auto simp: seek split: if_splits)
  moreover have "char0 (obuf p) = map Some (take (nat pos) xs) @ map Some (drop (nat pos) xs) @ sl"
    using sl by (metis append.assoc append_take_drop_id map_append)
  then have "\<exists>sl. char0 (obuf p) = map Some (take (nat pos) xs) @ sl" by blast
  ultimately show "str_good (snd (bgl_output_port_seek (Some strseek) p pos)) (take (nat pos) xs)"
    using b ptr(2) by (auto simp: seek str_good_def buffered_def split: if_splits)
next
  assume "bufmode q \<noteq> BGL_IOEBF \<and> okindof q \<noteq> KINDOF_CLOSED \<and> stdout_from q = Some k \<and> 0 < k \<and> str_length b < 2 ^ 31"
  then show "bgl_output_flush w hook (bgl_output_port_buffer_set q b) s = None"
    by (simp add: bgl_output_flush_def output_flush_def bgl_output_port_buffer_set_def Let_def to_flush_def
        BGL_OUTPUT_PORT_CNT_def idx_def)
qed

theorem output_positions_witness:
  "fst (bgl_output_port_filepos (Some strseek) (the (oputs (bgl_open_output_string (bstring_of (replicate 8 0))) (bytes ''abc'')))) = 6"
proof -
  let ?p = "bgl_open_output_string (bstring_of (replicate 8 0))"
  have "str_good ?p []" by (rule open_good) simp
  moreover have "int (length (bytes ''abc'')) \<le> BGL_OUTPUT_PORT_CNT ?p" "str_length (obuf ?p) = 8"
    by (simp_all add: bytes_def bgl_open_output_string_def bgl_make_output_port_def bgl_output_port_buffer_set_def
        BGL_OUTPUT_PORT_CNT_def)
  ultimately obtain q where q: "oputs ?p (bytes ''abc'') = Some q" "str_good q ([] @ bytes ''abc'')" "str_length (obuf q) = 8"
    using string_stream.puts_appends [of ?p "[]" "bytes ''abc''"] rewrittenD(5) by fastforce
  have "str_length (obuf q) < 2 ^ 31" using q(3) by simp
  from output_positions [OF q(2) this, THEN conjunct1] show ?thesis using q(1,3) by (simp add: bytes_def)
qed

end
