(* ===== verification/Cwriter.thy ===== *)
theory Cwriter
  imports Oports Rgctok Gensym
begin

text \<open>
  The printing of atomic objects, \<open>runtime/Clib/cwriter.c\<close>, on the output ports of theory \<open>Oport\<close>. What the
  Scheme function \<open>bgl_display_obj\<close> prints is a parameter.
\<close>

section \<open>The macros\<close>

type_synonym 'd printer = "'d output_port \<Rightarrow> 'd port_step"

text \<open>Statements in sequence: a failure leaves the function.\<close>

fun steps :: "'d printer list \<Rightarrow> 'd printer" where
  "steps [] op = Some (Inr op)"
| "steps (f # fs) op = and_then (f op) (steps fs)"

definition PUTC :: "'d writer \<Rightarrow> 'd flush_hook \<Rightarrow> u8 \<Rightarrow> 'd printer" where
  "PUTC w hook c op =
     (if optr op \<ge> oend op then bgl_output_flush_char w hook op c
      else do { op \<leftarrow> oput op c; Some (Inr op) })"

definition PUTS :: "'d writer \<Rightarrow> 'd flush_hook \<Rightarrow> string \<Rightarrow> 'd printer" where
  "PUTS w hook s op =
     (if optr op + int (length s) < oend op then do { op \<leftarrow> oputs op (bytes s); Some (Inr op) }
      else bgl_output_flush w hook op (bytes s))"

text \<open>
  \<open>PRINTF1\<close>, \<open>PRINTF2\<close> and \<open>PRINTF3\<close>: \<open>s\<close> is the text that \<open>sprintf\<close> makes of the format and its
  arguments, \<open>sz\<close> the size of the local buffer. \<open>sprintf\<close> writes a null character too.
\<close>

definition PRINTF :: "'d writer \<Rightarrow> 'd flush_hook \<Rightarrow> int \<Rightarrow> u8 list \<Rightarrow> 'd printer" where
  "PRINTF w hook sz s op =
     (if BGL_OUTPUT_PORT_CNT op > sz then do {
        k \<leftarrow> idx (optr op);
        m \<leftarrow> blit (char0 (obuf op)) k (c_string s) 0 (length s + 1);
        Some (Inr (op\<lparr>obuf := (obuf op)\<lparr>char0 := m\<rparr>, optr := optr op + int (length s)\<rparr>)) }
      else if int (length s) + 1 \<le> sz then bgl_output_flush w hook op s
      else None)"

text \<open>The conversion \<open>%0nx\<close>: at least \<open>n\<close> hexadecimal digits.\<close>

definition hex :: "nat \<Rightarrow> nat \<Rightarrow> u8 list" where
  "hex n k = (let ds = map letter (number_digits 16 k) in replicate (n - length ds) (of_char CHR ''0'') @ ds)"

definition char_name :: "string list" where
  "char_name =
     replicate 9 [] @ [''tab'', ''newline'', [], [], ''return''] @ replicate 18 [] @
     [''space'', ''!'', [CHR 0x22], ''#'', ''$'', ''%'', ''&'', [CHR 0x27],
      ''('', '')'', ''*'', ''+'', '','', ''-'', ''.'', ''/'',
      ''0'', ''1'', ''2'', ''3'', ''4'', ''5'', ''6'', ''7'',
      ''8'', ''9'', '':'', '';'', ''<'', ''='', ''>'', ''?'',
      ''@'', ''A'', ''B'', ''C'', ''D'', ''E'', ''F'', ''G'',
      ''H'', ''I'', ''J'', ''K'', ''L'', ''M'', ''N'', ''O'',
      ''P'', ''Q'', ''R'', ''S'', ''T'', ''U'', ''V'', ''W'',
      ''X'', ''Y'', ''Z'', ''['', [CHR 0x5C], '']'', ''^'', ''_'',
      [CHR 0x60], ''a'', ''b'', ''c'', ''d'', ''e'', ''f'', ''g'',
      ''h'', ''i'', ''j'', ''k'', ''l'', ''m'', ''n'', ''o'',
      ''p'', ''q'', ''r'', ''s'', ''t'', ''u'', ''v'', ''w'',
      ''x'', ''y'', ''z'', ''{'', ''|'', ''}'', ''~'', []]"

section \<open>Strings and characters\<close>

definition bgl_display_substring :: "'d writer \<Rightarrow> 'd flush_hook \<Rightarrow> bgl_string \<Rightarrow> int \<Rightarrow> int \<Rightarrow> 'd printer" where
  "bgl_display_substring w hook s start end' op = do {
     i \<leftarrow> idx start; n \<leftarrow> idx (end' - start);
     bs \<leftarrow> rds (char0 s) i n;
     bgl_write w hook op bs }"

definition bgl_display_string :: "'d writer \<Rightarrow> 'd flush_hook \<Rightarrow> bgl_string \<Rightarrow> 'd printer" where
  "bgl_display_string w hook s op = do {
     bs \<leftarrow> rds (char0 s) 0 (str_length s);
     bgl_write w hook op bs }"

definition bgl_write_string :: "'d writer \<Rightarrow> 'd flush_hook \<Rightarrow> bgl_string \<Rightarrow> bool \<Rightarrow> 'd printer" where
  "bgl_write_string w hook s esc =
     steps ((if esc then [PUTC w hook 35] else []) @ [PUTC w hook 34, bgl_display_string w hook s, PUTC w hook 34])"

definition bgl_display_char :: "'d writer \<Rightarrow> 'd flush_hook \<Rightarrow> u8 \<Rightarrow> 'd printer" where
  "bgl_display_char w hook c = PUTC w hook c"

definition bgl_write_char :: "'d writer \<Rightarrow> 'd flush_hook \<Rightarrow> u8 \<Rightarrow> 'd printer" where
  "bgl_write_char w hook c =
     (if 0 < c \<and> c < 128 \<and> char_name ! unat c \<noteq> []
      then steps [PUTC w hook 35, PUTC w hook 92, \<lambda>op. bgl_write w hook op (bytes (char_name ! unat c))]
      else steps [PUTC w hook 35, PUTC w hook 92, PUTC w hook (of_char CHR ''x''), PRINTF w hook 3 (hex 2 (unat c))])"

definition bgl_write_ucs2 :: "'d writer \<Rightarrow> 'd flush_hook \<Rightarrow> u16 \<Rightarrow> 'd printer" where
  "bgl_write_ucs2 w hook ch = PRINTF w hook 7 (bytes ''#u'' @ hex 4 (unat ch))"

definition bgl_display_ucs2 :: "'d writer \<Rightarrow> 'd flush_hook \<Rightarrow> u16 \<Rightarrow> 'd printer" where
  "bgl_display_ucs2 w hook ch = (if ch < 256 then PUTC w hook (ucast ch) else bgl_write_ucs2 w hook ch)"

text \<open>\<open>UCS2_DISPLAYABLE\<close> is 0.\<close>

definition bgl_display_ucs2string :: "'d writer \<Rightarrow> 'd flush_hook \<Rightarrow> bgl_ucs2_string \<Rightarrow> 'd printer" where
  "bgl_display_ucs2string w hook s op = do {
     n \<leftarrow> idx (int32 (int (str_length s)));
     us \<leftarrow> rds (char0 s) 0 n;
     steps (map (\<lambda>ch. if ch < 256 then PUTC w hook (ucast ch) else (\<lambda>op. Some (Inr op))) us) op }"

definition bgl_write_utf8string :: "'d writer \<Rightarrow> 'd flush_hook \<Rightarrow> bgl_string \<Rightarrow> 'd printer" where
  "bgl_write_utf8string w hook s =
     steps [PUTS w hook [CHR ''#'', CHR ''u'', CHR 0x22], bgl_display_string w hook s, PUTC w hook 34]"

section \<open>Numbers\<close>

definition bgl_display_fixnum :: "'d writer \<Rightarrow> 'd flush_hook \<Rightarrow> c_long \<Rightarrow> 'd printer" where
  "bgl_display_fixnum w hook obj = PRINTF w hook 32 (decimal (sint (CINT obj)))"

definition bgl_display_elong :: "'d writer \<Rightarrow> 'd flush_hook \<Rightarrow> c_long \<Rightarrow> 'd printer" where
  "bgl_display_elong w hook x = PRINTF w hook 32 (decimal (sint x))"

definition bgl_write_elong :: "'d writer \<Rightarrow> 'd flush_hook \<Rightarrow> c_long \<Rightarrow> 'd printer" where
  "bgl_write_elong w hook x = PRINTF w hook 32 (bytes ''#e'' @ decimal (sint x))"

definition bgl_display_llong :: "'d writer \<Rightarrow> 'd flush_hook \<Rightarrow> c_long \<Rightarrow> 'd printer" where
  "bgl_display_llong w hook x op = do { s \<leftarrow> llong_to_string x 10; bgl_display_string w hook s op }"

definition bgl_write_llong :: "'d writer \<Rightarrow> 'd flush_hook \<Rightarrow> c_long \<Rightarrow> 'd printer" where
  "bgl_write_llong w hook x op = do {
     s \<leftarrow> llong_to_string x 10;
     steps [PUTS w hook ''#l'', bgl_display_string w hook s] op }"

text \<open>\<open>get_str\<close> is \<open>mpz_get_str\<close> of GMP, which needs the size of the local buffer.\<close>

definition bgl_bignum_to_string :: "gmp \<Rightarrow> (mpz \<Rightarrow> nat \<Rightarrow> u8 list) \<Rightarrow> bignum \<Rightarrow> nat \<Rightarrow> bgl_string option" where
  "bgl_bignum_to_string G get_str obj radix =
     (let buffer = mpz_sizeinbase G obj radix + 2; s = get_str obj radix in
      if length s + 1 \<le> buffer then string_to_bstring (Some (c_string s)) else None)"

definition bgl_display_bignum :: "gmp \<Rightarrow> (mpz \<Rightarrow> nat \<Rightarrow> u8 list) \<Rightarrow> 'd writer \<Rightarrow> 'd flush_hook \<Rightarrow> bignum \<Rightarrow> 'd printer" where
  "bgl_display_bignum G get_str w hook x op = do { s \<leftarrow> bgl_bignum_to_string G get_str x 10; bgl_display_string w hook s op }"

definition bgl_write_bignum :: "gmp \<Rightarrow> (mpz \<Rightarrow> nat \<Rightarrow> u8 list) \<Rightarrow> 'd writer \<Rightarrow> 'd flush_hook \<Rightarrow> bignum \<Rightarrow> 'd printer" where
  "bgl_write_bignum G get_str w hook x op = do {
     s \<leftarrow> bgl_bignum_to_string G get_str x 10;
     steps [PUTS w hook ''#z'', bgl_display_string w hook s] op }"

section \<open>Opaque objects\<close>

definition bgl_write_cnst :: "'d writer \<Rightarrow> 'd flush_hook \<Rightarrow> int \<Rightarrow> 'd printer" where
  "bgl_write_cnst w hook ccnst = PRINTF w hook 8 (bytes ''#<'' @ hex 4 (nat (ccnst mod 2 ^ 32)) @ bytes ''>'')"

definition bgl_write_opaque :: "'d writer \<Rightarrow> 'd flush_hook \<Rightarrow> int \<Rightarrow> c_long \<Rightarrow> 'd printer" where
  "bgl_write_opaque w hook type obj =
     PRINTF w hook 40 (bytes ''#<opaque:'' @ decimal type @ bytes '':'' @ hex 8 (unat obj) @ bytes ''>'')"

definition bgl_write_procedure :: "'d writer \<Rightarrow> 'd flush_hook \<Rightarrow> bool \<Rightarrow> c_long \<Rightarrow> c_long \<Rightarrow> int \<Rightarrow> 'd printer" where
  "bgl_write_procedure w hook va va_entry entry' arity =
     PRINTF w hook 96 (bytes ''#<procedure:'' @ hex 1 (unat (if va then va_entry else entry')) @ bytes ''.'' @
       decimal arity @ bytes ''>'')"

definition bgl_write_output_port :: "'d writer \<Rightarrow> 'd flush_hook \<Rightarrow> 'd printer \<Rightarrow> 'd printer" where
  "bgl_write_output_port w hook display_name = steps [PUTS w hook ''#<output_port:'', display_name, PUTS w hook ''>'']"

definition bgl_write_input_port :: "'d writer \<Rightarrow> 'd flush_hook \<Rightarrow> 'd printer \<Rightarrow> 'e input_port \<Rightarrow> 'd printer" where
  "bgl_write_input_port w hook display_name p =
     steps [PUTS w hook ''#<input_port:'', display_name,
       PRINTF w hook 10 (bytes ''.'' @ decimal (BGL_INPUT_PORT_BUFSIZ p) @ bytes ''>'')]"

definition bgl_write_binary_port :: "'d writer \<Rightarrow> 'd flush_hook \<Rightarrow> u8 list \<Rightarrow> bool \<Rightarrow> 'd printer" where
  "bgl_write_binary_port w hook name inp =
     PRINTF w hook (40 + int (length name))
       (bytes ''#<binary_'' @ bytes (if inp then ''input'' else ''output'') @ bytes ''_port:'' @ takeWhile (\<lambda>c. c \<noteq> 0) name @ bytes ''>'')"

definition bgl_write_foreign :: "'d writer \<Rightarrow> 'd flush_hook \<Rightarrow> 'd printer \<Rightarrow> c_long \<Rightarrow> 'd printer" where
  "bgl_write_foreign w hook display_id cobj =
     steps [PUTS w hook ''#<foreign:'', display_id, PRINTF w hook 16 (bytes '':'' @ hex 1 (unat cobj) @ bytes ''>'')]"

text \<open>\<open>%p\<close> prints \<open>0x\<close> and the hexadecimal digits.\<close>

definition bgl_write_dynamic_env :: "'d writer \<Rightarrow> 'd flush_hook \<Rightarrow> c_long \<Rightarrow> 'd printer" where
  "bgl_write_dynamic_env w hook obj =
     steps [PUTS w hook ''#<dynamic-env:'', PRINTF w hook 16 (bytes '':0x'' @ hex 1 (unat obj) @ bytes ''>'')]"

definition bgl_write_process :: "'d writer \<Rightarrow> 'd flush_hook \<Rightarrow> int \<Rightarrow> 'd printer" where
  "bgl_write_process w hook pid = steps [PUTS w hook ''#<process:'', PRINTF w hook 20 (decimal pid @ bytes ''>'')]"

definition bgl_write_regexp :: "'d writer \<Rightarrow> 'd flush_hook \<Rightarrow> u8 list \<Rightarrow> 'd printer" where
  "bgl_write_regexp w hook pat =
     PRINTF w hook (11 + int (length pat)) (bytes ''#<regexp:'' @ takeWhile (\<lambda>c. c \<noteq> 0) pat @ bytes ''>'')"

definition bgl_write_mmap :: "'d writer \<Rightarrow> 'd flush_hook \<Rightarrow> 'd printer \<Rightarrow> int \<Rightarrow> 'd printer" where
  "bgl_write_mmap w hook display_name len =
     steps [PUTS w hook ''#<mmap:'', display_name, PRINTF w hook 16 (bytes '':'' @ decimal len @ bytes ''>'')]"

definition bgl_write_semaphore :: "'d writer \<Rightarrow> 'd flush_hook \<Rightarrow> 'd printer \<Rightarrow> 'd printer" where
  "bgl_write_semaphore w hook display_name = steps [PUTS w hook ''#<semaphore:'', display_name, PUTS w hook ''>'']"

definition bgl_write_unknown :: "'d writer \<Rightarrow> 'd flush_hook \<Rightarrow> int option \<Rightarrow> c_long \<Rightarrow> 'd printer" where
  "bgl_write_unknown w hook pointer_type obj =
     (case pointer_type of
        Some type \<Rightarrow> PRINTF w hook 40 (bytes ''#<???:'' @ decimal type @ bytes '':'' @ hex 8 (unat obj) @ bytes ''>'')
      | None \<Rightarrow> PRINTF w hook 40 (bytes ''#<???:'' @ hex 8 (unat obj) @ bytes ''>''))"

definition bgl_ill_char_rep :: "u8 \<Rightarrow> bgl_string option" where
  "bgl_ill_char_rep c =
     c_constant_string_to_string
       (Some (c_string (bytes ''#a'' @ replicate (3 - length (decimal (uint c))) (of_char CHR ''0'') @ decimal (uint c))))"

section \<open>Lengths of numbers\<close>

lemma length_digits:
  assumes "2 \<le> r" and "n < r ^ k"
  shows "length (radix_digits r n) \<le> k"
  using assms(2)
proof (induction k arbitrary: n)
  case (Suc k)
  then have "n div r < r ^ k" using assms(1) by (simp add: less_mult_imp_div_less mult.commute)
  with Suc.IH show ?case by (subst radix_digits.simps) simp
qed simp

lemma length_hex: "k < 16 ^ m \<Longrightarrow> 0 < m \<Longrightarrow> length (hex n k) \<le> max n m"
  using length_digits [of 16 k m] by (auto simp: hex_def number_digits_def Let_def)

lemma digits_longer:
  assumes "2 \<le> r" and "r ^ m \<le> k"
  shows "m < length (number_digits r k)"
proof (rule ccontr)
  assume short: "\<not> m < length (number_digits r k)"
  have "digits_value r ds < r ^ length ds" if "list_all (\<lambda>d. d < r) ds" for ds
    using that
  proof (induction ds rule: rev_induct)
    case (snoc d ds)
    then have "digits_value r ds + 1 \<le> r ^ length ds" "d < r" by simp_all
    then have "(digits_value r ds + 1) * r \<le> r ^ length ds * r" by (intro mult_le_mono1)
    then show ?case using \<open>d < r\<close> by (simp add: mult.commute)
  qed (simp add: digits_value_def)
  moreover have "list_all (\<lambda>d. d < r) (number_digits r k)"
    using number_digits_spec(2) [OF assms(1), of _ k] by (simp add: list_all_iff)
  ultimately have "k < r ^ length (number_digits r k)" using number_digits_spec(1) [OF assms(1), of k] by fastforce
  also have "\<dots> \<le> r ^ m" using short assms(1) by (intro power_increasing) simp_all
  finally show False using assms(2) by simp
qed

lemma decimal_neg: "k < 0 \<Longrightarrow> decimal k = 45 # decimal (- k)"
  by (simp add: decimal_def)

lemma length_decimal_sint: "length (decimal (sint (x :: c_long))) \<le> 20"
proof -
  have "- (2 ^ 63) \<le> sint x" "sint x < 2 ^ 63" using sint_bounds [of x] by simp_all
  then have "nat \<bar>sint x\<bar> < 10 ^ 19" by simp
  then have "length (number_digits 10 (nat \<bar>sint x\<bar>)) \<le> 19"
    using length_digits [of 10 "nat \<bar>sint x\<bar>" 19] by (simp add: number_digits_def)
  then show ?thesis by (cases "sint x < 0") (simp_all add: decimal_def)
qed

lemma letter_digit: "d < 10 \<Longrightarrow> letter d = digit_char d"
  by (simp add: letter_def digit_char_def bytes_def less_Suc_eq eval_nat_numeral) (elim disjE; simp)

lemma decimal_letters: "decimal k = (if k < 0 then [45] else []) @ map letter (number_digits 10 (nat \<bar>k\<bar>))"
proof -
  have "map letter (number_digits 10 n) = map digit_char (number_digits 10 n)" for n
    using number_digits_spec(2) [of 10 _ n] by (intro map_cong refl letter_digit) simp
  then show ?thesis by (simp add: decimal_def digit_char_def)
qed

lemma llong_to_string_decimal: "llong_to_string x 10 = Some (bstring_of (decimal (sint x)))"
  using digits_to_string_radix [of 10 llong_letters x] rd_llong_letters
  by (simp add: llong_to_string_def decimal_letters mag_def)

section \<open>What is printed\<close>

definition prints :: "'d writer \<Rightarrow> ('d output_port \<Rightarrow> u8 list \<Rightarrow> bool) \<Rightarrow> ('d output_port \<Rightarrow> u8 list \<Rightarrow> u8 list) \<Rightarrow> 'd printer \<Rightarrow> u8 list \<Rightarrow> bool" where
  "prints w good content f t \<longleftrightarrow> (\<forall>p xs. good p xs \<longrightarrow> appends w good content p xs t (f p))"

context output_stream
begin

lemma prints_Nil: "prints w good content (steps []) []"
  by (simp add: prints_def appends_none)

lemma prints_skip: "prints w good content (\<lambda>op. Some (Inr op)) []"
  by (simp add: prints_def appends_none)

lemma prints_Cons:
  assumes "prints w good content f t" and "prints w good content (steps fs) ts"
  shows "prints w good content (steps (f # fs)) (t @ ts)"
  unfolding prints_def steps.simps
proof (intro allI impI)
  fix p xs
  assume "good p xs"
  then have "appends w good content p xs t (f p)" using assms(1) by (simp add: prints_def)
  then show "appends w good content p xs (t @ ts) (and_then (f p) (steps fs))"
    by (rule appends_then) (use assms(2) in \<open>simp add: prints_def\<close>)
qed

lemma prints_write: "prints w good content (\<lambda>op. bgl_write w None op bs) bs"
  by (simp add: prints_def write_appends)

lemma prints_putc: "prints w good content (PUTC w None c) [c]"
  unfolding prints_def
proof (intro allI impI)
  fix p xs
  assume p: "good p xs"
  show "appends w good content p xs [c] (PUTC w None c p)"
  proof (cases "optr p \<ge> oend p")
    case True
    then show ?thesis using flush [OF p, of "[c]"] by (simp add: PUTC_def bgl_output_flush_char_def)
  next
    case False
    then have "0 < BGL_OUTPUT_PORT_CNT p" by (simp add: BGL_OUTPUT_PORT_CNT_def)
    from put_appends [OF p this, of c] obtain q where q: "oput p c = Some q" "good q (xs @ [c])"
      "content q (xs @ [c]) = content p xs @ [c]" "rewritten p q"
      by blast
    with False show ?thesis using appends_put [of q "xs @ [c]" p xs "[c]"] rewrittenD(4) [OF q(4)] by (simp add: PUTC_def)
  qed
qed

lemma prints_puts: "prints w good content (PUTS w None s) (bytes s)"
  unfolding prints_def
proof (intro allI impI)
  fix p xs
  assume p: "good p xs"
  show "appends w good content p xs (bytes s) (PUTS w None s p)"
  proof (cases "optr p + int (length s) < oend p")
    case True
    then have "int (length (bytes s)) \<le> BGL_OUTPUT_PORT_CNT p" by (simp add: BGL_OUTPUT_PORT_CNT_def)
    from puts_appends [OF p this] obtain q where q: "oputs p (bytes s) = Some q" "good q (xs @ bytes s)"
      "content q (xs @ bytes s) = content p xs @ bytes s" "rewritten p q"
      by blast
    with True show ?thesis using appends_put [of q "xs @ bytes s" p xs "bytes s"] rewrittenD(4) [OF q(4)] by (simp add: PUTS_def)
  next
    case False
    then show ?thesis using flush [OF p, of "bytes s"] by (simp add: PUTS_def bgl_output_flush_def)
  qed
qed

lemma prints_printf:
  assumes "int (length s) < sz"
  shows "prints w good content (PRINTF w None sz s) s"
  unfolding prints_def
proof (intro allI impI)
  fix p xs
  assume p: "good p xs"
  note b = holds_bytes [OF p]
  show "appends w good content p xs s (PRINTF w None sz s p)"
  proof (cases "BGL_OUTPUT_PORT_CNT p > sz")
    case True
    obtain sl where sl: "char0 (obuf p) = map Some xs @ sl" "str_length (obuf p) < length xs + length sl"
      using b by (auto simp: buffered_def)
    have room: "length xs + length s + 1 < str_length (obuf p)" using True assms buffered_cnt [OF b] by simp
    let ?m = "map Some (xs @ s) @ Some 0 # drop (length s + 1) sl"
    let ?q = "p\<lparr>obuf := (obuf p)\<lparr>char0 := ?m\<rparr>, optr := optr p + int (length s)\<rparr>"
    have ptr: "idx (optr p) = Some (length xs)" using b by (simp add: buffered_def)
    have "blit (char0 (obuf p)) (length xs) (c_string s) 0 (length s + 1) = Some ?m"
      using sl room by (simp add: blit_def c_string_def)
    then have "PRINTF w None sz s p = Some (Inr ?q)" using True ptr by (simp add: PRINTF_def)
    moreover have "rewritten p ?q" by (auto simp: rewritten_def)
    moreover have "buffered ?q (xs @ s)" using b sl room by (auto simp: buffered_def)
    ultimately show ?thesis using extend [OF p, of ?q s] appends_put [of ?q "xs @ s" p xs s] by simp
  next
    case False
    then show ?thesis using flush [OF p, of s] assms by (simp add: PRINTF_def bgl_output_flush_def)
  qed
qed

lemma prints_string:
  assumes "rds (char0 s) 0 (str_length s) = Some bs"
  shows "prints w good content (bgl_display_string w None s) bs"
  using assms prints_write by (simp add: prints_def bgl_display_string_def)

lemma prints_map:
  assumes "\<And>u. prints w good content (f u) (t u)"
  shows "prints w good content (steps (map f us)) (concat (map t us))"
  using assms by (induction us) (simp_all add: prints_Nil prints_Cons del: steps.simps)

lemmas printing_rules = prints_Nil prints_Cons prints_putc prints_puts prints_printf prints_string prints_write

end

lemma concat_filter: "concat (map (\<lambda>u. if P u then [f u] else []) us) = map f (filter P us)"
  by (induction us) simp_all

context output_stream
begin

lemma prints_ucs2string:
  assumes "length us < 2 ^ 31"
  shows "prints w good content (bgl_display_ucs2string w None (str_rep us sl)) (map ucast (filter (\<lambda>u. u < 256) us))"
proof -
  have "prints w good content (if u < 256 then PUTC w None (ucast u) else (\<lambda>op. Some (Inr op)))
      (if u < 256 then [ucast u] else [])" for u :: u16
    using prints_putc prints_skip by simp
  from prints_map [of "\<lambda>u. if u < 256 then PUTC w None (ucast u) else (\<lambda>op. Some (Inr op))", OF this]
  have "prints w good content (steps (map (\<lambda>u. if u < 256 then PUTC w None (ucast u) else (\<lambda>op. Some (Inr op))) us))
      (map ucast (filter (\<lambda>u. u < 256) us))"
    by (simp add: concat_filter)
  moreover have "rds (c_string us @ sl) 0 (length us) = Some us" by (simp add: c_string_def rds_append_left rds_map_Some)
  moreover have "int32 (int (length us)) = int (length us)" using assms by simp
  ultimately show ?thesis by (simp add: bgl_display_ucs2string_def prints_def)
qed

lemma prints_substring:
  assumes "rds (char0 s) 0 n = Some bs" and "i \<le> j" and "j \<le> n"
  shows "prints w good content (bgl_display_substring w None s (int i) (int j)) (take (j - i) (drop i bs))"
proof -
  have len: "length bs = n" using assms(1) by (rule length_rds)
  have "rds (char0 s) i (n - i) = Some (drop i bs)"
    using assms(1) rds_add [of "char0 s" 0 i "n - i"] assms(2,3) length_rds [of "char0 s" 0 i]
    by (auto split: Option.bind_splits)
  moreover have "n - i = (j - i) + (n - j)" using assms(2,3) by simp
  ultimately have "rds (char0 s) i (j - i) = Some (take (j - i) (drop i bs))"
    using rds_add [of "char0 s" i "j - i" "n - j"] length_rds [of "char0 s" i "j - i"]
    by (auto split: Option.bind_splits dest!: sym [of _ "drop i bs"])
  then show ?thesis using assms(2) prints_write by (simp add: bgl_display_substring_def prints_def)
qed

lemma prints_numbers:
  shows "prints w good content (bgl_display_elong w None x) (decimal (sint x))"
    and "prints w good content (bgl_write_elong w None x) (bytes ''#e'' @ decimal (sint x))"
    and "prints w good content (bgl_display_fixnum w None x) (decimal (sint (CINT x)))"
    and "prints w good content (bgl_display_llong w None x) (decimal (sint x))"
    and "prints w good content (bgl_write_llong w None x) (bytes ''#l'' @ decimal (sint x))"
proof -
  show "prints w good content (bgl_display_elong w None x) (decimal (sint x))"
    "prints w good content (bgl_display_fixnum w None x) (decimal (sint (CINT x)))"
    using length_decimal_sint [of x] length_decimal_sint [of "CINT x"] prints_printf
    by (simp_all add: bgl_display_elong_def bgl_display_fixnum_def)
  show "prints w good content (bgl_write_elong w None x) (bytes ''#e'' @ decimal (sint x))"
    unfolding bgl_write_elong_def using length_decimal_sint [of x] by (intro prints_printf) simp
  have str: "rds (char0 (bstring_of (decimal (sint x)))) 0 (str_length (bstring_of (decimal (sint x)))) = Some (decimal (sint x))"
    by (simp add: rds_c_string)
  show "prints w good content (bgl_display_llong w None x) (decimal (sint x))"
    using prints_string [OF str] by (simp add: bgl_display_llong_def llong_to_string_decimal prints_def)
  show "prints w good content (bgl_write_llong w None x) (bytes ''#l'' @ decimal (sint x))"
    using prints_Cons [OF prints_puts [of "''#l''"] prints_Cons [OF prints_string [OF str] prints_Nil]]
    by (simp add: bgl_write_llong_def llong_to_string_decimal prints_def)
qed

lemma prints_characters:
  shows "prints w good content (bgl_write_char w None c) (bytes [CHR ''#'', CHR 0x5C] @
      (if 0 < c \<and> c < 128 \<and> char_name ! unat c \<noteq> [] then bytes (char_name ! unat c) else bytes ''x'' @ hex 2 (unat c)))"
    and "prints w good content (bgl_display_ucs2 w None u) (if u < 256 then [ucast u] else bytes ''#u'' @ hex 4 (unat u))"
proof -
  have "length (hex 2 (unat c)) \<le> 2" using length_hex [of "unat c" 2 2] unsigned_less [where ?'a = nat, of c] by simp
  then have h: "prints w good content (PRINTF w None 3 (hex 2 (unat c))) (hex 2 (unat c))" by (intro prints_printf) simp
  show "prints w good content (bgl_write_char w None c) (bytes [CHR ''#'', CHR 0x5C] @
      (if 0 < c \<and> c < 128 \<and> char_name ! unat c \<noteq> [] then bytes (char_name ! unat c) else bytes ''x'' @ hex 2 (unat c)))"
    using prints_Cons [OF prints_putc [of 35] prints_Cons [OF prints_putc [of 92]
        prints_Cons [OF prints_write [of "bytes (char_name ! unat c)"] prints_Nil]]]
      prints_Cons [OF prints_putc [of 35] prints_Cons [OF prints_putc [of 92]
        prints_Cons [OF prints_putc [of 120] prints_Cons [OF h prints_Nil]]]]
    by (simp add: bgl_write_char_def bytes_def del: steps.simps)
  have "length (hex 4 (unat u)) \<le> 4" using length_hex [of "unat u" 4 4] unsigned_less [where ?'a = nat, of u] by simp
  then have "prints w good content (PRINTF w None 7 (bytes ''#u'' @ hex 4 (unat u))) (bytes ''#u'' @ hex 4 (unat u))"
    by (intro prints_printf) simp
  then show "prints w good content (bgl_display_ucs2 w None u) (if u < 256 then [ucast u] else bytes ''#u'' @ hex 4 (unat u))"
    using prints_putc by (simp add: bgl_display_ucs2_def bgl_write_ucs2_def)
qed

end

text \<open>C9: printing: on every open output port without flush hook, a string port or a port over any device that takes
  bytes, whatever its buffering and the room in its buffer, each of the printers returns: it has appended exactly the
  text of its object to what was written before, or it raises a failure with which the device has refused a write. The
  texts are the characters of strings, the decimal representation of integers of every type, the name or the
  hexadecimal code of characters. Of a UCS-2 string only the characters below 256 are printed.\<close>

theorem printers_append:
  assumes port: "open_port w good content" and "rds (char0 s) 0 (str_length s) = Some bs" and "i \<le> j" and "j \<le> str_length s"
    and "length us < 2 ^ 31"
  shows "prints w good content (bgl_display_string w None s) bs \<and>
    prints w good content (bgl_display_substring w None s (int i) (int j)) (take (j - i) (drop i bs)) \<and>
    prints w good content (bgl_write_string w None s esc) ((if esc then [35] else []) @ [34] @ bs @ [34]) \<and>
    prints w good content (bgl_write_utf8string w None s) ([35, 117, 34] @ bs @ [34]) \<and>
    prints w good content (bgl_display_ucs2string w None (str_rep us sl)) (map ucast (filter (\<lambda>u. u < 256) us)) \<and>
    prints w good content (bgl_display_char w None c) [c] \<and>
    prints w good content (bgl_write_char w None c) (bytes [CHR ''#'', CHR 0x5C] @
      (if 0 < c \<and> c < 128 \<and> char_name ! unat c \<noteq> [] then bytes (char_name ! unat c) else bytes ''x'' @ hex 2 (unat c))) \<and>
    prints w good content (bgl_display_ucs2 w None u) (if u < 256 then [ucast u] else bytes ''#u'' @ hex 4 (unat u)) \<and>
    prints w good content (bgl_display_fixnum w None x) (decimal (sint (CINT x))) \<and>
    prints w good content (bgl_display_elong w None x) (decimal (sint x)) \<and>
    prints w good content (bgl_write_elong w None x) (bytes ''#e'' @ decimal (sint x)) \<and>
    prints w good content (bgl_display_llong w None x) (decimal (sint x)) \<and>
    prints w good content (bgl_write_llong w None x) (bytes ''#l'' @ decimal (sint x))"
proof (intro conjI)
  note stream = open_port_stream [OF port]
  note rules = output_stream.prints_Nil [OF stream] output_stream.prints_Cons [OF stream]
    output_stream.prints_putc [OF stream] output_stream.prints_string [OF stream assms(2)]
  have quoted: "prints w good content (steps [PUTC w None 34, bgl_display_string w None s, PUTC w None 34]) ([34] @ bs @ [34] @ [])"
    by (intro rules)
  have "prints w good content (steps (PUTC w None 35 # [PUTC w None 34, bgl_display_string w None s, PUTC w None 34]))
      ([35] @ [34] @ bs @ [34] @ [])"
    by (intro rules quoted)
  with quoted show "prints w good content (bgl_write_string w None s esc) ((if esc then [35] else []) @ [34] @ bs @ [34])"
    by (cases esc) (simp_all add: bgl_write_string_def del: steps.simps)
  have "prints w good content (steps [PUTS w None [CHR ''#'', CHR ''u'', CHR 0x22], bgl_display_string w None s, PUTC w None 34])
      (bytes [CHR ''#'', CHR ''u'', CHR 0x22] @ bs @ [34] @ [])"
    by (intro rules output_stream.prints_puts [OF stream])
  then show "prints w good content (bgl_write_utf8string w None s) ([35, 117, 34] @ bs @ [34])"
    by (simp add: bgl_write_utf8string_def bytes_def del: steps.simps)
  show "prints w good content (bgl_display_string w None s) bs" by (intro rules)
  show "prints w good content (bgl_display_char w None c) [c]" unfolding bgl_display_char_def by (intro rules)
  show "prints w good content (bgl_display_substring w None s (int i) (int j)) (take (j - i) (drop i bs))"
    by (rule output_stream.prints_substring [OF stream assms(2-4)])
  show "prints w good content (bgl_display_ucs2string w None (str_rep us sl)) (map ucast (filter (\<lambda>u. u < 256) us))"
    by (rule output_stream.prints_ucs2string [OF stream assms(5)])
qed (rule output_stream.prints_characters [OF open_port_stream [OF port]] output_stream.prints_numbers [OF open_port_stream [OF port]])+

lemma strwrite_never_fails: "\<not> write_fails strwrite d f q"
  by (auto simp: write_fails_def strwrite_def Let_def split: Option.bind_splits)

theorem printers_append_witness:
  "\<exists>q. bgl_write_string strwrite None (bstring_of (bytes ''abc'')) True (bgl_open_output_string (bstring_of [])) = Some (Inr q) \<and>
     str_good q ([35, 34] @ bytes ''abc'' @ [34]) \<and>
   prints (bgl_syswrite scripted_write) (dev_good (\<lambda>_. True)) (dev_text log)
     (bgl_display_elong (bgl_syswrite scripted_write) None (-42)) (bytes ''-42'')"
proof -
  have str: "rds (char0 (bstring_of (bytes ''abc''))) 0 (str_length (bstring_of (bytes ''abc''))) = Some (bytes ''abc'')"
    by (simp add: bytes_def rd_c_string)
  have dec: "decimal (sint (-42 :: c_long)) = bytes ''-42''"
    by (simp add: decimal_def number_digits_def radix_digits.simps bytes_def)
  have ports: "open_port strwrite str_good (\<lambda>p xs. xs)" "open_port (bgl_syswrite scripted_write) (dev_good (\<lambda>_. True)) (dev_text log)"
    using scripted.output_device_axioms unfolding open_port_def by blast+
  have "str_good (bgl_open_output_string (bstring_of [])) []" by (rule open_good) simp
  moreover have "prints strwrite str_good (\<lambda>p xs. xs) (bgl_write_string strwrite None (bstring_of (bytes ''abc'')) True)
      ((if True then [35] else []) @ [34] @ bytes ''abc'' @ [34])"
    by (rule printers_append [OF ports(1) str, of 0 0 "[]" True, THEN conjunct2, THEN conjunct2, THEN conjunct1]) simp_all
  ultimately have "appends strwrite str_good (\<lambda>p xs. xs) (bgl_open_output_string (bstring_of [])) []
      ([35, 34] @ bytes ''abc'' @ [34])
      (bgl_write_string strwrite None (bstring_of (bytes ''abc'')) True (bgl_open_output_string (bstring_of [])))"
    unfolding prints_def by fastforce
  then have "\<exists>q. bgl_write_string strwrite None (bstring_of (bytes ''abc'')) True (bgl_open_output_string (bstring_of [])) = Some (Inr q) \<and>
     str_good q ([35, 34] @ bytes ''abc'' @ [34])"
    by (auto simp: appends_def strwrite_never_fails)
  moreover have "prints (bgl_syswrite scripted_write) (dev_good (\<lambda>_. True)) (dev_text log)
     (bgl_display_elong (bgl_syswrite scripted_write) None (-42)) (bytes ''-42'')"
    using printers_append [OF ports(2) str, of 0 0 "[]" True _ _ _ "-42"] dec by simp
  ultimately show ?thesis by blast
qed

section \<open>Local buffers\<close>

context output_device
begin

lemma puts_unbuffered:
  assumes "dev_good ok p xs" and "str_length (obuf p) = 0" and "PUTS w None s p = Some (Inr q)"
  shows "BGL_OUTPUT_PORT_CNT q = 0"
proof -
  have "optr p = 0" "oend p = 0" using assms(1,2) by (auto simp: dev_good_def buffered_def)
  then have "output_flush w None p (bytes s) False True = Some (Inr q)"
    using assms(3) by (simp add: PUTS_def bgl_output_flush_def)
  then obtain use d where "q = flushed False use (p\<lparr>odev := d\<rparr>)"
    using output_flush_spec [OF assms(1), of "bytes s" False] by auto
  then have "q = p\<lparr>odev := d, optr := 0, oend := 0\<rparr> \<or> q = p\<lparr>odev := d, optr := 0, oend := 0, stdout_from := Some 0\<rparr>"
    using assms(2) by (auto simp: flushed_def Let_def split: option.splits)
  then show ?thesis by (auto simp: BGL_OUTPUT_PORT_CNT_def)
qed

lemma printf_overrun:
  assumes "BGL_OUTPUT_PORT_CNT q = 0" and "0 \<le> sz" and "sz \<le> int (length s)"
  shows "PRINTF w None sz s q = None"
  using assms by (simp add: PRINTF_def)

end

text \<open>The local buffers of the printers. On every stream the address of a dynamic environment of up to eleven
  hexadecimal digits and the size of the buffer of an input port of up to seven decimal digits are printed. On a port
  without buffer, longer ones make \<open>sprintf\<close> write past the end of the local buffer of 16 or 10 characters.\<close>

theorem printer_buffers:
  assumes "output_device w ok sent stall" and "dev_good ok p xs" and "str_length (obuf p) = 0"
  shows "(unat obj < 16 ^ 11 \<longrightarrow> prints w (dev_good ok) (dev_text sent) (bgl_write_dynamic_env w None obj)
      (bytes ''#<dynamic-env:'' @ bytes '':0x'' @ hex 1 (unat obj) @ bytes ''>'')) \<and>
    (16 ^ 11 \<le> unat obj \<longrightarrow> (\<forall>q. PUTS w None ''#<dynamic-env:'' p = Some (Inr q) \<longrightarrow> bgl_write_dynamic_env w None obj p = None)) \<and>
    (str_length (buf ip) < 10 ^ 7 \<longrightarrow> prints w (dev_good ok) (dev_text sent) (bgl_write_input_port w None (steps []) ip)
      (bytes ''#<input_port:'' @ bytes ''.'' @ decimal (int (str_length (buf ip))) @ bytes ''>'')) \<and>
    (10 ^ 7 \<le> str_length (buf ip) \<longrightarrow>
      (\<forall>q. PUTS w None ''#<input_port:'' p = Some (Inr q) \<longrightarrow> bgl_write_input_port w None (steps []) ip p = None))"
proof (intro conjI impI allI)
  have "output_stream w (dev_good ok) (dev_text sent)" by (rule output_device.as_stream [OF assms(1)])
  note rules = output_stream.prints_Cons [OF this] output_stream.prints_Nil [OF this] output_stream.prints_puts [OF this]
    output_stream.prints_printf [OF this]
  note cnt = output_device.puts_unbuffered [OF assms]
  have dec: "length (decimal (int n)) = length (number_digits 10 n)" for n by (simp add: decimal_def)
  show "prints w (dev_good ok) (dev_text sent) (bgl_write_dynamic_env w None obj)
      (bytes ''#<dynamic-env:'' @ bytes '':0x'' @ hex 1 (unat obj) @ bytes ''>'')" if "unat obj < 16 ^ 11"
  proof -
    have "int (length (bytes '':0x'' @ hex 1 (unat obj) @ bytes ''>'')) < 16"
      using length_hex [OF that, of 1] by simp
    from rules(1) [OF rules(3) [of "''#<dynamic-env:''"] rules(1) [OF rules(4) [OF this] rules(2)]]
    show ?thesis by (simp add: bgl_write_dynamic_env_def del: steps.simps)
  qed
  show "bgl_write_dynamic_env w None obj p = None" if "16 ^ 11 \<le> unat obj" "PUTS w None ''#<dynamic-env:'' p = Some (Inr q)" for q
  proof -
    have "11 < length (hex 1 (unat obj))" using digits_longer [OF _ that(1)] by (simp add: hex_def Let_def)
    then show ?thesis using that(2) output_device.printf_overrun [OF assms(1) cnt [OF that(2)], of 16]
      by (simp add: bgl_write_dynamic_env_def)
  qed
  show "prints w (dev_good ok) (dev_text sent) (bgl_write_input_port w None (steps []) ip)
      (bytes ''#<input_port:'' @ bytes ''.'' @ decimal (int (str_length (buf ip))) @ bytes ''>'')" if "str_length (buf ip) < 10 ^ 7"
  proof -
    have "length (decimal (int (str_length (buf ip)))) \<le> 7"
      using length_digits [of 10 "str_length (buf ip)" 7] that by (simp add: dec number_digits_def)
    then have fit: "int (length (bytes ''.'' @ decimal (int (str_length (buf ip))) @ bytes ''>'')) < 10" by simp
    have skip: "prints w (dev_good ok) (dev_text sent) (steps []) []" by (rule rules(2))
    from rules(1) [OF rules(3) [of "''#<input_port:''"] rules(1) [OF skip rules(1) [OF rules(4) [OF fit] rules(2)]]]
    show ?thesis by (simp add: bgl_write_input_port_def BGL_INPUT_PORT_BUFSIZ_def del: steps.simps)
  qed
  show "bgl_write_input_port w None (steps []) ip p = None"
    if "10 ^ 7 \<le> str_length (buf ip)" "PUTS w None ''#<input_port:'' p = Some (Inr q)" for q
  proof -
    have "7 < length (decimal (int (str_length (buf ip))))" using digits_longer [of 10 7 "str_length (buf ip)"] that(1) by (simp add: dec)
    then show ?thesis using that(2) output_device.printf_overrun [OF assms(1) cnt [OF that(2)], of 10]
      by (simp add: bgl_write_input_port_def BGL_INPUT_PORT_BUFSIZ_def)
  qed
qed

theorem printer_buffers_witness:
  "bgl_write_dynamic_env (bgl_syswrite scripted_write) None 0x7F0012345678 (log_port [] 0) = None"
proof -
  have unbuffered: "str_length (obuf (log_port [] 0)) = 0"
    by (simp add: log_port_def bgl_make_output_port_def bgl_output_port_buffer_set_def)
  have sent: "\<exists>q. flush_string (bgl_syswrite scripted_write) p s True = Some (Inr q)" if "script (odev p) = []" for p s
    using that by (subst flush_string.simps, cases s; subst flush_string.simps) (simp_all add: bgl_syswrite_def)
  have "flush_string (bgl_syswrite scripted_write) p [] True = Some (Inr p)" for p
    by (subst flush_string.simps) simp
  then have "\<exists>q. PUTS (bgl_syswrite scripted_write) None s (log_port [] 0) = Some (Inr q)" for s
    using sent [of "log_port [] 0" "bytes s"]
    by (auto simp: PUTS_def bgl_output_flush_def output_flush_def log_port_def bgl_make_output_port_def invoke_flush_hook_def
        bgl_output_port_buffer_set_def to_flush_def BGL_OUTPUT_PORT_CNT_def and_then_def)
  moreover have "16 ^ 11 \<le> unat (0x7F0012345678 :: c_long)" by simp
  ultimately show ?thesis
    using printer_buffers [OF scripted.output_device_axioms log_port_good unbuffered, of "0x7F0012345678",
        THEN conjunct2, THEN conjunct1] by auto
qed

section \<open>Bignums\<close>

text \<open>
  \<open>mpz_get_str\<close> gives the digits and the sign, and as \<open>mpz_sizeinbase\<close> never falls short of the number of
  digits, two characters more make room for the sign and the null character.
\<close>

definition get_str_law :: "gmp \<Rightarrow> (mpz \<Rightarrow> nat \<Rightarrow> u8 list) \<Rightarrow> bool" where
  "get_str_law G get_str \<longleftrightarrow> (\<forall>x i. denotes x i \<longrightarrow> get_str x 10 = decimal i \<and>
     length (number_digits 10 (nat \<bar>i\<bar>)) \<le> mpz_sizeinbase G x 10)"

lemma length_decimal_digits: "length (decimal i) \<le> length (number_digits 10 (nat \<bar>i\<bar>)) + 1"
  by (simp add: decimal_def)

lemma decimal_parse:
  obtains sg ds where "decimal i = sg @ ds" and "ds \<noteq> []" and "list_all digit ds" and "sg = [] \<or> sg = [45]"
    and "signed_val sg ds = i"
proof -
  let ?n = "nat \<bar>i\<bar>" let ?ds = "map digit_char (number_digits 10 ?n)"
  have small: "\<forall>d \<in> set (number_digits 10 ?n). d < 10" using number_digits_spec(2) [of 10 _ ?n] by simp
  have "dec_val (map digit_char ds) = int (digits_value 10 ds)" if "\<forall>d \<in> set ds. d < 10" for ds
    using that
  proof (induction ds rule: rev_induct)
    case (snoc d ds)
    then have "uint (digit_char d) = 48 + int d" using digit_char [of d] by (simp add: uint_nat del: digit_char_def)
    moreover have "dec_val (es @ [c]) = 10 * dec_val es + (uint c - 48)" for es c by (simp add: dec_val_def del: val_from_simps)
    ultimately show ?case using snoc by (simp del: val_from_simps)
  qed (simp add: digits_value_def)
  then have val: "dec_val ?ds = \<bar>i\<bar>" using small number_digits_spec(1) [of 10 ?n] by simp
  have "digit (digit_char d)" if "d < 10" for d using digit_char [OF that] that by (simp add: digit_def word_le_nat_alt)
  then have digits: "list_all digit ?ds" "?ds \<noteq> []" using small number_digits_spec(3) [of 10 ?n] by (auto simp: list_all_iff)
  show ?thesis
  proof (cases "i < 0")
    case True
    then show ?thesis using that [of "[45]" ?ds] val digits decimal_neg [of i] decimal_nonneg [of "- i"] by simp
  next
    case False
    then show ?thesis using that [of "[]" ?ds] val digits decimal_nonneg [of i] by simp
  qed
qed

text \<open>C20: the decimal text of a bignum: it is the one of the integer, the local buffer of \<open>bgl_bignum_to_string\<close>
  is large enough for the sign and the null character, reading the text gives the integer again, and on every
  output port without flush hook \<open>display\<close> appends it, \<open>write\<close> with the prefix \<open>#z\<close>.\<close>

theorem bignum_print_read:
  assumes "gmp_ok G" and "get_str_law G get_str" and "denotes x i" and "length (decimal i) < 2 ^ 31"
    and "output_stream w good content"
  shows "bgl_bignum_to_string G get_str x 10 = Some (bstring_of (decimal i)) \<and>
    (\<exists>y. bgl_string_to_bignum G (char0 (bstring_of (decimal i))) 10 = Some y \<and> denotes y i) \<and>
    prints w good content (bgl_display_bignum G get_str w None x) (decimal i) \<and>
    prints w good content (bgl_write_bignum G get_str w None x) (bytes ''#z'' @ decimal i)"
proof -
  note rules = output_stream.prints_Cons [OF assms(5)] output_stream.prints_Nil [OF assms(5)]
    output_stream.prints_puts [OF assms(5)] output_stream.prints_string [OF assms(5)]
  obtain sg ds where t: "decimal i = sg @ ds" "ds \<noteq> []" "list_all digit ds" "sg = [] \<or> sg = [45]" "signed_val sg ds = i"
    by (rule decimal_parse)
  have zero: "0 \<notin> set (decimal i)"
    using t(1,3,4) by (auto simp: list_all_iff digit_def word_le_nat_alt)
  have "get_str x 10 = decimal i" "length (decimal i) + 1 \<le> mpz_sizeinbase G x 10 + 2"
    using assms(2,3) length_decimal_digits [of i] by (fastforce simp: get_str_law_def)+
  then have str: "bgl_bignum_to_string G get_str x 10 = Some (bstring_of (decimal i))"
    using string_to_bstring_rep [OF zero assms(4), of "[]"] by (simp add: bgl_bignum_to_string_def Let_def)
  have "filter (\<lambda>c. \<not> isspace c) (decimal i) = sg @ ds"
    using t(1,3,4) by (auto simp: filter_digits isspace_minus)
  then have read: "\<exists>y. bgl_string_to_bignum G (char0 (bstring_of (decimal i))) 10 = Some y \<and> denotes y i"
    using string_to_bignum_denotes [OF assms(1), of "c_string (decimal i)" "decimal i" sg ds] zero t(2-5)
    by (simp add: mem_simps rds_c_string str_rep_def del: signed_val.simps)
  have bs: "rds (char0 (bstring_of (decimal i))) 0 (str_length (bstring_of (decimal i))) = Some (decimal i)"
    by (simp add: rds_c_string)
  show ?thesis
    using str read rules(4) [OF bs] rules(1) [OF rules(3) [of "''#z''"] rules(1) [OF rules(4) [OF bs] rules(2)]]
    by (simp add: prints_def bgl_display_bignum_def bgl_write_bignum_def del: steps.simps)
qed

lemma get_str_ref: "get_str_law gmp_ref (\<lambda>x r. decimal (mpz_value x))"
  unfolding get_str_law_def
proof (intro allI impI conjI)
  fix x i
  assume x: "denotes x i"
  then have v: "mpz_value x = i" by (rule mpz_value_denotes)
  then show "decimal (mpz_value x) = decimal i" by simp
  have "nat \<bar>i\<bar> < 10 ^ max 1 (bit_count \<bar>i\<bar>)"
  proof (cases "i = 0")
    case False
    then have "\<bar>i\<bar> < 2 ^ bit_count \<bar>i\<bar>" "0 < bit_count \<bar>i\<bar>" using bit_count_bounds [of "\<bar>i\<bar>"] by simp_all
    moreover have "(2::int) ^ bit_count \<bar>i\<bar> \<le> 10 ^ bit_count \<bar>i\<bar>" by (intro power_mono) simp_all
    ultimately have "\<bar>i\<bar> < 10 ^ bit_count \<bar>i\<bar>" by (metis less_le_trans)
    then show ?thesis using \<open>0 < bit_count \<bar>i\<bar>\<close> by (simp add: nat_less_iff max_def)
  qed simp
  then have "length (radix_digits 10 (nat \<bar>i\<bar>)) \<le> max 1 (bit_count \<bar>i\<bar>)" by (rule length_digits [rotated]) simp
  then show "length (number_digits 10 (nat \<bar>i\<bar>)) \<le> mpz_sizeinbase gmp_ref x 10"
    using v by (simp add: gmp_ref_def number_digits_def)
qed

theorem bignum_print_read_witness:
  "bgl_bignum_to_string gmp_ref (\<lambda>x r. decimal (mpz_value x)) (mpz_of (- 123)) 10 = Some (bstring_of (bytes ''-123''))"
proof -
  have "decimal (- 123) = bytes ''-123''"
    by (simp add: decimal_def number_digits_def radix_digits.simps bytes_def)
  with bignum_print_read [OF gmp_ref_ok get_str_ref mpz_of_denotes _ string_stream.output_stream_axioms, of "- 123", THEN conjunct1]
  show ?thesis by (simp add: bytes_def)
qed

end
