(* ===== verification/Cvector.thy ===== *)
theory Cvector
  imports Prelude "HOL-Library.Multiset"
begin

text \<open>
  Vectors, structures and homogeneous vectors (\<open>runtime/Clib/cvector.c\<close>, \<open>cstruct.c\<close>, \<open>csrfi4.c\<close>): allocation,
  filling, and the Shell sort \<open>sort_vector\<close>.
\<close>

section \<open>Vectors\<close>

text \<open>The length is a field of its own: shrinking changes it and keeps the block.\<close>

record 'a bgl_vector =
  vlength :: nat
  obj0 :: "'a cells"

text \<open>
  The structure holds the length and the first element. The number of bytes is a \<open>long\<close>: the product is one of signed
  integers, whose overflow is undefined, the sum is one of unsigned integers, because \<open>sizeof\<close> is unsigned. The
  collector gives a block of as many bytes as asked for; for a negative number it gives nothing. The cells are what the
  block has behind the field of the length.
\<close>

definition VECTOR_SIZE :: int where "VECTOR_SIZE = 16"

definition OBJ_SIZE :: int where "OBJ_SIZE = 8"

definition vector_bytes :: "int \<Rightarrow> int option" where
  "vector_bytes len =
     (let n = (len - 1) * OBJ_SIZE in
      if - (2 ^ 63) \<le> n \<and> n < 2 ^ 63 then Some (signed_take_bit 63 (VECTOR_SIZE + n)) else None)"

definition create_vector :: "int \<Rightarrow> 'a bgl_vector option" where
  "create_vector len = do {
     byte_size \<leftarrow> vector_bytes len;
     n \<leftarrow> idx (byte_size div OBJ_SIZE - 1);
     Some \<lparr>vlength = nat (len mod 2 ^ 64), obj0 = gc_malloc n\<rparr> }"

definition create_vector_uncollectable :: "int \<Rightarrow> 'a bgl_vector option" where
  "create_vector_uncollectable len = do {
     byte_size \<leftarrow> vector_bytes len;
     n \<leftarrow> idx (byte_size div OBJ_SIZE - 1);
     Some \<lparr>vlength = nat (len mod 2 ^ 64), obj0 = gc_malloc n\<rparr> }"

definition fill_cells :: "'a cells \<Rightarrow> int \<Rightarrow> int \<Rightarrow> 'a \<Rightarrow> 'a cells option" where
  "fill_cells m start end' init = for_up start end' (\<lambda>walker m. do { k \<leftarrow> idx walker; wr m k init }) m"

definition bgl_fill_vector :: "'a bgl_vector \<Rightarrow> int \<Rightarrow> int \<Rightarrow> 'a \<Rightarrow> 'a bgl_vector option" where
  "bgl_fill_vector v start end' init = do { m \<leftarrow> fill_cells (obj0 v) start end' init; Some (v\<lparr>obj0 := m\<rparr>) }"

definition fill_vector :: "'a bgl_vector \<Rightarrow> int \<Rightarrow> 'a \<Rightarrow> 'a bgl_vector option" where
  "fill_vector v len init = bgl_fill_vector v 0 len init"

definition make_vector_uncollectable :: "int \<Rightarrow> 'a \<Rightarrow> 'a bgl_vector option" where
  "make_vector_uncollectable len init = do { v \<leftarrow> create_vector_uncollectable len; bgl_fill_vector v 0 len init }"

definition make_vector :: "int \<Rightarrow> 'a \<Rightarrow> 'a bgl_vector option" where
  "make_vector len init = do { v \<leftarrow> create_vector len; bgl_fill_vector v 0 len init }"

definition BGL_VECTOR_SHRINK :: "'a bgl_vector \<Rightarrow> int \<Rightarrow> 'a bgl_vector" where
  "BGL_VECTOR_SHRINK v l = (if l \<ge> 0 \<and> l < int (vlength v) then v\<lparr>vlength := nat l\<rparr> else v)"

section \<open>Structures and homogeneous vectors\<close>

text \<open>
  The number of bytes is computed in \<open>int\<close>. The collector gives a block of as many bytes as asked for; for a
  negative number it gives nothing.
\<close>

record ('k, 'a) bgl_struct =
  struct_key :: 'k
  struct_length :: int
  slots :: "'a cells"

definition STRUCT_SIZE :: int where "STRUCT_SIZE = 32"

definition create_struct :: "'k \<Rightarrow> int \<Rightarrow> ('k, 'a) bgl_struct option" where
  "create_struct key len = do {
     n \<leftarrow> idx (int32 (STRUCT_SIZE + (len - 1) * 8) div 8 - 3);
     Some \<lparr>struct_key = key, struct_length = len, slots = gc_malloc n\<rparr> }"

definition fill_struct :: "('k, 'a) bgl_struct \<Rightarrow> int \<Rightarrow> 'a \<Rightarrow> ('k, 'a) bgl_struct option" where
  "fill_struct st len init = do { m \<leftarrow> fill_cells (slots st) 0 len init; Some (st\<lparr>slots := m\<rparr>) }"

definition make_struct :: "'k \<Rightarrow> int \<Rightarrow> 'a \<Rightarrow> ('k, 'a) bgl_struct option" where
  "make_struct key len init = do { st \<leftarrow> create_struct key len; fill_struct st len init }"

record bgl_hvector =
  hlength :: int
  hbytes :: "u8 cells"

definition alloc_hvector :: "int \<Rightarrow> int \<Rightarrow> bgl_hvector option" where
  "alloc_hvector len isize = do {
     n \<leftarrow> idx (int32 (16 + int32 (len * isize)) - 16);
     Some \<lparr>hlength = len, hbytes = gc_malloc n\<rparr> }"

section \<open>Sorting\<close>

text \<open>The Scheme procedure has a state of its own and may raise; it does not change the vector.\<close>

type_synonym ('s, 'a) predicate = "'s \<Rightarrow> 'a \<Rightarrow> 'a \<Rightarrow> (failure + bool) \<times> 's"

type_synonym ('s, 'a) sort_result = "((failure + unit) \<times> 'a cells \<times> 's) option"

text \<open>The loops on \<open>j\<close>, on \<open>i\<close> and on \<open>incr\<close>.\<close>

partial_function (option) sort_down ::
  "('s, 'a) predicate \<Rightarrow> int \<Rightarrow> int \<Rightarrow> 'a cells \<Rightarrow> 's \<Rightarrow> ('s, 'a) sort_result" where
  "sort_down pr incr j v s =
     (if j \<ge> 0 then do {
        k \<leftarrow> idx j; l \<leftarrow> idx (j + incr);
        a \<leftarrow> rd v k; b \<leftarrow> rd v l;
        (case pr s a b of
           (Inl e, s) \<Rightarrow> Some (Inl e, v, s)
         | (Inr stop, s) \<Rightarrow>
             if stop then Some (Inr (), v, s)
             else do { v \<leftarrow> wr v l a; v \<leftarrow> wr v k b; sort_down pr incr (j - incr) v s }) }
      else Some (Inr (), v, s))"

function sort_up :: "('s, 'a) predicate \<Rightarrow> nat \<Rightarrow> nat \<Rightarrow> nat \<Rightarrow> 'a cells \<Rightarrow> 's \<Rightarrow> ('s, 'a) sort_result" where
  "sort_up pr n incr i v s =
     (if i < n then do {
        (r, v, s) \<leftarrow> sort_down pr (int incr) (int i - int incr) v s;
        case r of Inl e \<Rightarrow> Some (Inl e, v, s) | Inr _ \<Rightarrow> sort_up pr n incr (i + 1) v s }
      else Some (Inr (), v, s))"
  by pat_completeness auto
termination by (relation "measure (\<lambda>(pr, n, incr, i, v, s). n - i)") auto

declare sort_up.simps [simp del]

fun sort_gaps :: "('s, 'a) predicate \<Rightarrow> nat \<Rightarrow> nat \<Rightarrow> 'a cells \<Rightarrow> 's \<Rightarrow> ('s, 'a) sort_result" where
  "sort_gaps pr n incr v s =
     (if incr \<noteq> 0 then do {
        (r, v, s) \<leftarrow> sort_up pr n incr incr v s;
        case r of Inl e \<Rightarrow> Some (Inl e, v, s) | Inr _ \<Rightarrow> sort_gaps pr n (incr div 2) v s }
      else Some (Inr (), v, s))"

declare sort_gaps.simps [simp del]

definition sort_vector :: "('s, 'a) predicate \<Rightarrow> 'a bgl_vector \<Rightarrow> 's \<Rightarrow> ((failure + unit) \<times> 'a bgl_vector \<times> 's) option" where
  "sort_vector pr obj s = do {
     (r, v, s) \<leftarrow> sort_gaps pr (vlength obj) (vlength obj div 2) (obj0 obj) s;
     Some (r, obj\<lparr>obj0 := v\<rparr>, s) }"

section \<open>Every pass permutes the elements\<close>

text \<open>Predicates without effects, as a special case.\<close>

definition pure :: "('a \<Rightarrow> 'a \<Rightarrow> bool) \<Rightarrow> ('s, 'a) predicate" where
  "pure le s a b = (Inr (le a b), s)"

text \<open>A block that holds \<open>xs\<close> and further cells, which sorting leaves alone; a pure predicate never stops it.\<close>

definition sorts_to :: "('s, 'a) predicate \<Rightarrow> 's \<Rightarrow> 'a list \<Rightarrow> 'a cells \<Rightarrow> ('s, 'a) sort_result \<Rightarrow> bool" where
  "sorts_to pr s xs sl r \<longleftrightarrow> (\<exists>e ys s'. r = Some (e, map Some ys @ sl, s') \<and> mset ys = mset xs \<and>
     (\<forall>le. pr = pure le \<longrightarrow> e = Inr () \<and> s' = s))"

lemma sorts_to_here: "(\<And>le. pr = pure le \<Longrightarrow> e = Inr () \<and> s' = s) \<Longrightarrow> sorts_to pr s xs sl (Some (e, map Some xs @ sl, s'))"
  by (auto simp: sorts_to_def)

lemma sorts_to_trans:
  "sorts_to pr s' xs sl r \<Longrightarrow> mset xs = mset ys \<Longrightarrow> (\<And>le. pr = pure le \<Longrightarrow> s' = s) \<Longrightarrow> sorts_to pr s ys sl r"
  by (auto simp: sorts_to_def)

lemma sorts_to_then:
  assumes "sorts_to pr s xs sl r"
    and "\<And>ys s'. mset ys = mset xs \<Longrightarrow> sorts_to pr s' ys sl (f (map Some ys @ sl) s')"
  shows "sorts_to pr s xs sl (do { (e, v, s) \<leftarrow> r; case e of Inl e \<Rightarrow> Some (Inl e, v, s) | Inr _ \<Rightarrow> f v s })"
proof -
  obtain e ys s' where r: "r = Some (e, map Some ys @ sl, s')" "mset ys = mset xs" "\<And>le. pr = pure le \<Longrightarrow> e = Inr () \<and> s' = s"
    using assms(1) by (auto simp: sorts_to_def)
  have "sorts_to pr s ys sl (case e of Inl e \<Rightarrow> Some (Inl e, map Some ys @ sl, s') | Inr _ \<Rightarrow> f (map Some ys @ sl) s')"
  proof (cases e)
    case Inl
    then show ?thesis using r(3) by (auto intro: sorts_to_here)
  next
    case Inr
    then show ?thesis using sorts_to_trans [OF assms(2) [OF r(2)]] r(3) by auto
  qed
  then show ?thesis using r sorts_to_trans by fastforce
qed

lemma mset_exchange: "i < length xs \<Longrightarrow> j < length xs \<Longrightarrow> mset (xs[j := xs ! i, i := xs ! j]) = mset xs"
  using mset_swap [of i xs j] by (cases "i = j") (simp_all add: list_update_swap)

lemma sort_down_permutes:
  assumes "0 < incr" and "j + int incr < int (length xs)"
  shows "sorts_to pr s xs sl (sort_down pr (int incr) j (map Some xs @ sl) s)"
  using assms(2)
proof (induction "nat (j + 1)" arbitrary: j xs s rule: less_induct)
  case less
  show ?case
  proof (cases "j \<ge> 0")
    case False
    then show ?thesis by (subst sort_down.simps) (simp add: sorts_to_here)
  next
    case True
    then obtain k where k: "j = int k" by (metis nonneg_int_cases)
    then have l: "k + incr < length xs" using less.prems by simp
    let ?ys = "xs[k + incr := xs ! k, k := xs ! (k + incr)]"
    have perm: "mset ?ys = mset xs" using l mset_exchange [of k xs "k + incr"] by simp
    have rest: "sorts_to pr s' ?ys sl (sort_down pr (int incr) (j - int incr) (map Some ?ys @ sl) s')" for s'
      by (rule less.hyps) (use True k l assms(1) in auto)
    obtain r s' where pr: "pr s (xs ! k) (xs ! (k + incr)) = (r, s')" by fastforce
    have calm: "s' = s \<and> (\<exists>stop. r = Inr stop)" if "pr = pure le" for le using pr that by (auto simp: pure_def)
    have step: "sort_down pr (int incr) j (map Some xs @ sl) s =
        (case r of
           Inl e \<Rightarrow> Some (Inl e, map Some xs @ sl, s')
         | Inr stop \<Rightarrow> if stop then Some (Inr (), map Some xs @ sl, s')
             else sort_down pr (int incr) (j - int incr) (map Some ?ys @ sl) s')"
      using k l
      by (subst sort_down.simps) (simp add: pr idx_def rd_def wr_def nth_append list_update_append map_update nat_add_distrib
          split: sum.split)
    show ?thesis
      unfolding step using sorts_to_trans [OF rest perm, of s' s] calm sorts_to_here [of pr _ s' s xs sl]
      by (auto split: sum.split)
  qed
qed

lemma sort_up_permutes:
  assumes "0 < incr" and "n \<le> length xs" and "incr \<le> i"
  shows "sorts_to pr s xs sl (sort_up pr n incr i (map Some xs @ sl) s)"
  using assms(2,3)
proof (induction "n - i" arbitrary: i xs s)
  case 0
  then show ?case by (subst sort_up.simps) (simp add: sorts_to_here)
next
  case (Suc d)
  have "sorts_to pr s xs sl (sort_down pr (int incr) (int i - int incr) (map Some xs @ sl) s)"
    using Suc.hyps(2) Suc.prems by (intro sort_down_permutes assms(1)) simp
  moreover have "sorts_to pr s' ys sl (sort_up pr n incr (i + 1) (map Some ys @ sl) s')" if "mset ys = mset xs" for ys s'
    using Suc.hyps(2) Suc.prems mset_eq_length [OF that] by (intro Suc.hyps(1)) simp_all
  ultimately show ?case using Suc.hyps(2) by (subst sort_up.simps) (auto intro: sorts_to_then)
qed

lemma sort_gaps_permutes:
  assumes "n \<le> length xs"
  shows "sorts_to pr s xs sl (sort_gaps pr n incr (map Some xs @ sl) s)"
  using assms
proof (induction incr arbitrary: xs s rule: less_induct)
  case (less incr)
  show ?case
  proof (cases "incr = 0")
    case True
    then show ?thesis by (subst sort_gaps.simps) (simp add: sorts_to_here)
  next
    case False
    then have "sorts_to pr s xs sl (sort_up pr n incr incr (map Some xs @ sl) s)"
      using less.prems by (intro sort_up_permutes) simp_all
    moreover have "sorts_to pr s' ys sl (sort_gaps pr n (incr div 2) (map Some ys @ sl) s')" if "mset ys = mset xs" for ys s'
      using False less.prems mset_eq_length [OF that] by (intro less.IH) simp_all
    ultimately show ?thesis using False by (subst sort_gaps.simps) (auto intro: sorts_to_then)
  qed
qed

section \<open>The last pass sorts\<close>

text \<open>
  The order a predicate sorts by: the predicate may be reflexive, such as \<open><=\<close>, or not, such as \<open><\<close>; the code
  stops when it holds and exchanges when it does not.
\<close>

definition before :: "('a \<Rightarrow> 'a \<Rightarrow> bool) \<Rightarrow> 'a \<Rightarrow> 'a \<Rightarrow> bool" where
  "before le a b \<longleftrightarrow> le a b \<or> \<not> le b a"

lemma sort_down_inserts:
  assumes "transp (before le)" and "sorted_wrt (before le) (as @ bs)" and "\<forall>b \<in> set bs. before le x b"
  shows "\<exists>ys. sort_down (pure le) 1 (int (length as) - 1) (map Some (as @ x # bs) @ sl) s = Some (Inr (), map Some ys @ sl, s) \<and>
    sorted_wrt (before le) ys \<and> mset ys = mset (as @ x # bs)"
  using assms(2,3)
proof (induction as arbitrary: bs rule: rev_induct)
  case Nil
  then show ?case by (subst sort_down.simps) (intro exI [of _ "x # bs"], simp)
next
  case (snoc a as)
  have step: "sort_down (pure le) 1 (int (length (as @ [a])) - 1) (map Some ((as @ [a]) @ x # bs) @ sl) s =
      (if le a x then Some (Inr (), map Some ((as @ [a]) @ x # bs) @ sl, s)
       else sort_down (pure le) 1 (int (length as) - 1) (map Some (as @ x # a # bs) @ sl) s)"
    by (subst sort_down.simps) (simp add: pure_def idx_def rd_def wr_def nth_append list_update_append nat_add_distrib)
  show ?case
  proof (cases "le a x")
    case True
    then have ax: "before le a x" by (simp add: before_def)
    have "before le c x" if "c \<in> set (as @ [a])" for c
      using that ax snoc.prems(1) transpD [OF assms(1), of c a x] by (auto simp: sorted_wrt_append)
    then have "sorted_wrt (before le) ((as @ [a]) @ x # bs)" using snoc.prems by (simp add: sorted_wrt_append)
    then show ?thesis using True step by (intro exI [of _ "(as @ [a]) @ x # bs"]) simp
  next
    case False
    then have "before le x a" by (simp add: before_def)
    moreover have "sorted_wrt (before le) (as @ a # bs)" using snoc.prems(1) by simp
    ultimately show ?thesis using snoc.IH [of "a # bs"] snoc.prems(2) False step by auto
  qed
qed

lemma sort_up_sorts:
  assumes "transp (before le)" and "n \<le> length xs" and "0 < i" and "sorted_wrt (before le) (take i xs)"
  shows "\<exists>ys. sort_up (pure le) n 1 i (map Some xs @ sl) s = Some (Inr (), map Some ys @ sl, s) \<and>
    sorted_wrt (before le) (take (max i n) ys) \<and> mset ys = mset xs"
  using assms(2-4)
proof (induction "n - i" arbitrary: i xs)
  case 0
  then show ?case by (subst sort_up.simps) (auto simp: max_def)
next
  case (Suc d)
  then have i: "i < n" "i < length xs" by simp_all
  let ?as = "take i xs" let ?x = "xs ! i" let ?cs = "drop (Suc i) xs"
  have xs: "map Some xs @ sl = map Some (?as @ ?x # []) @ map Some ?cs @ sl"
    using id_take_nth_drop [OF i(2)] by (metis append.assoc append_Cons append_Nil map_append)
  from sort_down_inserts [OF assms(1), of ?as "[]" ?x "map Some ?cs @ sl" s] Suc.prems(3) i
  obtain ys where ys: "sort_down (pure le) 1 (int i - 1) (map Some xs @ sl) s = Some (Inr (), map Some (ys @ ?cs) @ sl, s)"
      "sorted_wrt (before le) ys" "mset ys = mset (?as @ [?x])"
    by (auto simp: xs min_def)
  have len: "length ys = Suc i" using mset_eq_length [OF ys(3)] i by simp
  have perm: "mset (ys @ ?cs) = mset xs"
    using ys(3) by (metis id_take_nth_drop [OF i(2)] append.assoc append_Cons append_Nil mset_append)
  have "n \<le> length (ys @ ?cs)" using Suc.prems(1) mset_eq_length [OF perm] by simp
  moreover have "d = n - Suc i" using Suc.hyps(2) by simp
  ultimately obtain zs where "sort_up (pure le) n 1 (Suc i) (map Some (ys @ ?cs) @ sl) s = Some (Inr (), map Some zs @ sl, s)"
      "sorted_wrt (before le) (take (max (Suc i) n) zs)" "mset zs = mset (ys @ ?cs)"
    using Suc.hyps(1) [of "Suc i" "ys @ ?cs"] len ys(2) by auto
  then show ?case using ys(1) perm i by (subst sort_up.simps) (auto simp: max_def split: if_splits)
qed

lemma sort_gaps_sorts:
  assumes "transp (before le)" and "n \<le> length xs" and "0 < incr"
  shows "\<exists>ys. sort_gaps (pure le) n incr (map Some xs @ sl) s = Some (Inr (), map Some ys @ sl, s) \<and>
    sorted_wrt (before le) (take n ys) \<and> mset ys = mset xs"
  using assms(2,3)
proof (induction incr arbitrary: xs s rule: less_induct)
  case (less incr)
  show ?case
  proof (cases "incr = 1")
    case True
    obtain ys where ys: "sort_up (pure le) n 1 1 (map Some xs @ sl) s = Some (Inr (), map Some ys @ sl, s)"
        "sorted_wrt (before le) (take (max 1 n) ys)" "mset ys = mset xs"
      using sort_up_sorts [OF assms(1) less.prems(1), of 1 sl s] by (cases xs) auto
    have "sorted_wrt (before le) (take n ys)" using ys(2) by (cases "n = 0") (simp_all add: max_def split: if_splits)
    moreover have "sort_gaps (pure le) n 0 v s = Some (Inr (), v, s)" for v by (subst sort_gaps.simps) simp
    ultimately show ?thesis using True ys(1,3) by (subst sort_gaps.simps) (intro exI [of _ ys], simp)
  next
    case False
    have "sorts_to (pure le) s xs sl (sort_up (pure le) n incr incr (map Some xs @ sl) s)"
      using less.prems by (intro sort_up_permutes) simp_all
    then obtain ys where ys: "sort_up (pure le) n incr incr (map Some xs @ sl) s = Some (Inr (), map Some ys @ sl, s)" "mset ys = mset xs"
      by (auto simp: sorts_to_def)
    have "0 < incr div 2" "incr div 2 < incr" "n \<le> length ys"
      using False less.prems mset_eq_length [OF ys(2)] by auto
    then show ?thesis
      using less.IH [of "incr div 2" ys s] ys less.prems(2) by (subst sort_gaps.simps) simp
  qed
qed

section \<open>Properties\<close>

text \<open>C14: sorting a vector: whatever the predicate answers, and even when it raises, the sort ends and the vector holds
  the same elements; when the predicate is an order without effects, reflexive or not, the elements are sorted by it.\<close>

theorem sort_vector_sorts:
  assumes "obj0 obj = map Some xs @ sl" and "vlength obj = length xs"
  shows "(\<exists>e ys s'. sort_vector pr obj s = Some (e, obj\<lparr>obj0 := map Some ys @ sl\<rparr>, s') \<and> mset ys = mset xs) \<and>
    (transp (before le) \<longrightarrow> (\<exists>ys. sort_vector (pure le) obj s = Some (Inr (), obj\<lparr>obj0 := map Some ys @ sl\<rparr>, s) \<and>
      sorted_wrt (before le) ys \<and> mset ys = mset xs))"
proof (intro conjI impI)
  show "\<exists>e ys s'. sort_vector pr obj s = Some (e, obj\<lparr>obj0 := map Some ys @ sl\<rparr>, s') \<and> mset ys = mset xs"
    using sort_gaps_permutes [of "length xs" xs pr s sl "length xs div 2"] assms by (auto simp: sort_vector_def sorts_to_def)
  assume le: "transp (before le)"
  have "\<exists>ys. sort_gaps (pure le) (length xs) (length xs div 2) (map Some xs @ sl) s = Some (Inr (), map Some ys @ sl, s) \<and>
      sorted_wrt (before le) ys \<and> mset ys = mset xs"
  proof (cases "length xs div 2 = 0")
    case True
    then have "length xs < 2" by (simp add: div_eq_0_iff)
    then have "sorted_wrt (before le) xs" by (cases xs) auto
    then show ?thesis using True by (subst sort_gaps.simps) auto
  next
    case False
    then obtain ys where "sort_gaps (pure le) (length xs) (length xs div 2) (map Some xs @ sl) s = Some (Inr (), map Some ys @ sl, s)"
        "sorted_wrt (before le) (take (length xs) ys)" "mset ys = mset xs"
      using sort_gaps_sorts [OF le, of "length xs" xs "length xs div 2" sl s] by auto
    then show ?thesis using mset_eq_length [of ys xs] by auto
  qed
  then show "\<exists>ys. sort_vector (pure le) obj s = Some (Inr (), obj\<lparr>obj0 := map Some ys @ sl\<rparr>, s) \<and>
      sorted_wrt (before le) ys \<and> mset ys = mset xs"
    using assms by (auto simp: sort_vector_def)
qed

theorem sort_vector_sorts_witness:
  "\<exists>ys. sort_vector (pure (<)) \<lparr>vlength = 3, obj0 = map Some [3, 1, 2 :: int] @ [None]\<rparr> () =
      Some (Inr (), \<lparr>vlength = 3, obj0 = map Some ys @ [None]\<rparr>, ()) \<and>
    sorted_wrt (before (<)) ys \<and> mset ys = mset [3, 1, 2]"
proof -
  have "transp (before ((<) :: int \<Rightarrow> int \<Rightarrow> bool))" by (intro transpI) (auto simp: before_def)
  then show ?thesis
    using sort_vector_sorts [of "\<lparr>vlength = 3, obj0 = map Some [3, 1, 2 :: int] @ [None]\<rparr>" "[3, 1, 2]" "[None]" "pure (<)" "()" "(<)"]
    by simp
qed

lemma fill_cells_spec:
  assumes "i \<le> n"
  shows "fill_cells m (int i) (int n) x =
    (if n \<le> length m \<or> i = n then Some (take i m @ replicate (n - i) (Some x) @ drop n m) else None)"
  using assms
proof (induction "n - i" arbitrary: i m)
  case 0
  then show ?case by (subst fill_cells_def, subst for_up.simps) simp
next
  case (Suc d)
  then have i: "i < n" by simp
  have step: "fill_cells m (int i) (int n) x = (if i < length m then fill_cells (m[i := Some x]) (int (Suc i)) (int n) x else None)"
    using i unfolding fill_cells_def by (subst for_up.simps) (simp add: idx_def wr_def add.commute)
  show ?case
  proof (cases "i < length m")
    case True
    have "fill_cells (m[i := Some x]) (int (Suc i)) (int n) x =
        (if n \<le> length m \<or> Suc i = n then Some (take (Suc i) (m[i := Some x]) @ replicate (n - Suc i) (Some x) @ drop n m) else None)"
      using Suc.hyps(1) [of "Suc i" "m[i := Some x]"] Suc.hyps(2) i by simp
    then show ?thesis
      using True i by (auto simp: step take_Suc_conv_app_nth Suc_diff_Suc [symmetric] simp del: replicate.simps(2))
        (simp add: replicate_app_Cons_same)
  next
    case False
    then show ?thesis using i by (simp add: step)
  qed
qed

lemma create_struct_bytes:
  "create_struct key (int n) = do {
     k \<leftarrow> idx (int32 (8 * (int n + 3)) div 8 - 3);
     Some \<lparr>struct_key = key, struct_length = int n, slots = gc_malloc k\<rparr> }"
proof -
  have "STRUCT_SIZE + (int n - 1) * 8 = 8 * (int n + 3)" by (simp add: STRUCT_SIZE_def)
  then show ?thesis by (simp only: create_struct_def)
qed

text \<open>The number of bytes of a vector.\<close>

lemma create_vector_spec:
  assumes "n < 2 ^ 60 - 1"
  shows "create_vector (int n) = Some \<lparr>vlength = n, obj0 = gc_malloc n\<rparr>"
    and "create_vector_uncollectable (int n) = Some \<lparr>vlength = n, obj0 = gc_malloc n\<rparr>"
proof -
  have n: "int n < 2 ^ 60 - 1" using assms by simp
  then have "vector_bytes (int n) = Some (8 * int n + 8)"
    by (simp add: vector_bytes_def VECTOR_SIZE_def OBJ_SIZE_def signed_take_bit_int_eq_self)
  moreover have "int n mod 2 ^ 64 = int n" using n by simp
  moreover have "(8 * int n + 8) div 8 - 1 = int n" by simp
  ultimately show "create_vector (int n) = Some \<lparr>vlength = n, obj0 = gc_malloc n\<rparr>"
    "create_vector_uncollectable (int n) = Some \<lparr>vlength = n, obj0 = gc_malloc n\<rparr>"
    by (simp_all add: create_vector_def create_vector_uncollectable_def OBJ_SIZE_def)
qed

lemma create_vector_too_long:
  assumes "2 ^ 60 - 1 \<le> n"
  shows "create_vector (int n) = None" and "create_vector_uncollectable (int n) = None"
proof -
  have n: "2 ^ 60 - 1 \<le> int n" using assms by simp
  have "b < 0" if "vector_bytes (int n) = Some b" for b
  proof -
    have le: "(int n - 1) * 8 < 2 ^ 63" and b: "b = signed_take_bit 63 (16 + (int n - 1) * 8)"
      using that by (auto simp: vector_bytes_def VECTOR_SIZE_def OBJ_SIZE_def Let_def split: if_splits)
    define v where "v = 16 + (int n - 1) * 8 - 2 ^ 63"
    have v: "0 \<le> v" "v < 2 ^ 63" using le n by (simp_all add: v_def)
    have "(v + 2 ^ 64) mod 2 ^ 64 = v" using v by (simp add: mod_pos_pos_trivial)
    moreover have "b = (v + 2 ^ 64) mod 2 ^ 64 - 2 ^ 63"
      by (simp add: b v_def signed_take_bit_eq_take_bit_shift take_bit_eq_mod)
    ultimately show ?thesis using v by simp
  qed
  then show "create_vector (int n) = None" "create_vector_uncollectable (int n) = None"
    by (auto simp: create_vector_def create_vector_uncollectable_def idx_def OBJ_SIZE_def div_less_dividend
        split: Option.bind_splits)
qed



end
