(* ===== verification/Cobject.thy ===== *)
theory Cobject
  imports Prelude
begin

unbundle bit_operations_syntax

text \<open>
  Objects and classes: the headers of objects (\<open>runtime/Include/bigloo.h\<close>, \<open>bigloo_object.h\<close>), \<open>bgl_make_class\<close>
  (\<open>runtime/Clib/cobject.c\<close>) and, because the layout serves them only, the registration of classes and the two
  instance tests of \<open>runtime/Llib/object.scm\<close>, on 64 bits.
\<close>

section \<open>Headers\<close>

type_synonym header_t = "64 word"

definition BGL_HEADER_SHIFT :: nat where "BGL_HEADER_SHIFT = 3"
definition BGL_HEADER_TYPE_BIT_SIZE :: nat where "BGL_HEADER_TYPE_BIT_SIZE = 20"
definition BGL_HEADER_SIZE_BIT_SIZE :: nat where "BGL_HEADER_SIZE_BIT_SIZE = 16"
definition BGL_HEADER_DATA_BIT_SIZE :: nat where "BGL_HEADER_DATA_BIT_SIZE = 25"
definition BGL_HEADER_TYPE_SHIFT :: nat where "BGL_HEADER_TYPE_SHIFT = BGL_HEADER_SHIFT"
definition BGL_HEADER_SIZE_SHIFT :: nat where "BGL_HEADER_SIZE_SHIFT = BGL_HEADER_TYPE_BIT_SIZE + BGL_HEADER_TYPE_SHIFT"
definition BGL_HEADER_DATA_SHIFT :: nat where "BGL_HEADER_DATA_SHIFT = BGL_HEADER_SIZE_BIT_SIZE + BGL_HEADER_SIZE_SHIFT"
definition BGL_HEADER_TYPE_MASK :: header_t where "BGL_HEADER_TYPE_MASK = push_bit BGL_HEADER_TYPE_BIT_SIZE 1 - 1"
definition BGL_HEADER_SIZE_MASK :: header_t where "BGL_HEADER_SIZE_MASK = push_bit BGL_HEADER_SIZE_BIT_SIZE 1 - 1"
definition BGL_HEADER_DATA_MASK :: header_t where "BGL_HEADER_DATA_MASK = push_bit BGL_HEADER_DATA_BIT_SIZE 1 - 1"

definition BGL_MAKE_HEADER :: "header_t \<Rightarrow> header_t \<Rightarrow> header_t" where
  "BGL_MAKE_HEADER ty sz = push_bit BGL_HEADER_TYPE_SHIFT ty OR push_bit BGL_HEADER_SIZE_SHIFT sz"

definition BGL_HEADER_TYPE :: "header_t \<Rightarrow> header_t" where
  "BGL_HEADER_TYPE hdr = drop_bit BGL_HEADER_TYPE_SHIFT hdr AND BGL_HEADER_TYPE_MASK"

definition BGL_HEADER_TYPE_SIZE_DATA :: "header_t \<Rightarrow> header_t" where
  "BGL_HEADER_TYPE_SIZE_DATA hdr = drop_bit BGL_HEADER_TYPE_SHIFT hdr"

definition BGL_HEADER_SIZE :: "header_t \<Rightarrow> header_t" where
  "BGL_HEADER_SIZE hdr = drop_bit BGL_HEADER_SIZE_SHIFT hdr AND BGL_HEADER_SIZE_MASK"

definition BGL_HEADER_DATA :: "header_t \<Rightarrow> header_t" where
  "BGL_HEADER_DATA hdr = drop_bit BGL_HEADER_DATA_SHIFT hdr AND BGL_HEADER_DATA_MASK"

definition BGL_HEADER_FULLSIZE :: "header_t \<Rightarrow> header_t" where
  "BGL_HEADER_FULLSIZE hdr = drop_bit BGL_HEADER_SIZE_SHIFT hdr"

definition BGL_OBJECT_CLASS_NUM :: "header_t \<Rightarrow> header_t" where
  "BGL_OBJECT_CLASS_NUM hdr = BGL_HEADER_TYPE hdr"

definition BGL_OBJECT_CLASS_NUM_SET :: "header_t \<Rightarrow> header_t" where
  "BGL_OBJECT_CLASS_NUM_SET cnum = BGL_MAKE_HEADER cnum 0"

definition BGL_OBJECT_HEADER_SIZE_SET :: "header_t \<Rightarrow> header_t \<Rightarrow> header_t" where
  "BGL_OBJECT_HEADER_SIZE_SET hdr s =
     BGL_MAKE_HEADER
       (BGL_HEADER_TYPE_SIZE_DATA hdr AND NOT (push_bit (BGL_HEADER_SIZE_SHIFT - BGL_HEADER_SHIFT) BGL_HEADER_SIZE_MASK)) s"

definition BGL_OBJECT_INHERITANCE_NUM :: "header_t \<Rightarrow> header_t" where
  "BGL_OBJECT_INHERITANCE_NUM hdr = BGL_HEADER_DATA hdr"

section \<open>Classes\<close>

text \<open>Classes are named by their addresses; \<open>'o\<close> stands for the other objects of the fields.\<close>

record 'o bgl_class =
  cname :: 'o
  alloc_fun :: 'o
  new_fun :: 'o
  chash :: int
  nil_fun :: 'o
  cnil :: "'o option"
  constructor :: 'o
  virtual_fields :: 'o
  cshrink :: 'o
  direct_fields :: 'o
  all_fields :: 'o
  cmodule :: 'o
  cindex :: header_t
  inheritance_index :: header_t
  cdepth :: int
  evdata :: 'o
  csuper :: "nat option"
  subclasses :: 'o
  ancestor0 :: "nat cells"

type_synonym 'o class_heap = "nat \<rightharpoonup> 'o bgl_class"

definition BGL_CLASS_NUM :: "'o bgl_class \<Rightarrow> header_t" where
  "BGL_CLASS_NUM k = cindex k + inheritance_index k"

definition BGL_CLASS_ANCESTORS_REF :: "'o class_heap \<Rightarrow> nat \<Rightarrow> int \<Rightarrow> nat option" where
  "BGL_CLASS_ANCESTORS_REF h f i = do { k \<leftarrow> h f; n \<leftarrow> idx i; rd (ancestor0 k) n }"

text \<open>The array of ancestors at the end of the object.\<close>

definition class_ancestors :: "'o class_heap \<Rightarrow> nat \<Rightarrow> nat option \<Rightarrow> int \<Rightarrow> nat cells option" where
  "class_ancestors h klass super depth = do {
     n \<leftarrow> idx depth;
     let anc = gc_malloc (n + 1);
     anc \<leftarrow> (if depth > 0 then do { s \<leftarrow> super; k \<leftarrow> h s; blit anc 0 (ancestor0 k) 0 n } else Some anc);
     wr anc n klass }"

text \<open>\<open>klass\<close> is the address that the collector returns; the field \<open>nil\<close> is \<open>None\<close> for \<open>BFALSE\<close>.\<close>

definition bgl_make_class ::
  "'o class_heap \<Rightarrow> nat \<Rightarrow> 'o \<Rightarrow> 'o \<Rightarrow> header_t \<Rightarrow> header_t \<Rightarrow> nat option \<Rightarrow> 'o \<Rightarrow> 'o \<Rightarrow> int \<Rightarrow> 'o \<Rightarrow> 'o \<Rightarrow> 'o \<Rightarrow> 'o \<Rightarrow> 'o \<Rightarrow> 'o \<Rightarrow>
    'o \<Rightarrow> int \<Rightarrow> 'o \<Rightarrow> 'o class_heap option" where
  "bgl_make_class h klass name module num inheritance_num super sub alloc hash fd allfd constr virt new nil shrink depth evd = do {
     anc \<leftarrow> class_ancestors h klass super depth;
     Some (h(klass \<mapsto>
       \<lparr>cname = name, alloc_fun = alloc, new_fun = new, chash = hash, nil_fun = nil, cnil = None, constructor = constr,
        virtual_fields = virt, cshrink = shrink, direct_fields = fd, all_fields = allfd, cmodule = module, cindex = num,
        inheritance_index = push_bit (BGL_HEADER_DATA_SHIFT - BGL_HEADER_TYPE_SHIFT) inheritance_num,
        cdepth = depth, evdata = evd, csuper = super, subclasses = sub, ancestor0 = anc\<rparr>)) }"

section \<open>The class registry\<close>

text \<open>The global variables: \<open>None\<close> in the vector is \<open>#f\<close>.\<close>

record 'o registry =
  classes :: "'o class_heap"
  nb_classes :: nat
  inheritance_cnt :: nat
  inheritance_max_depth :: int
  inheritances :: "nat option cells"

definition initialize_objects :: "'o registry" where
  "initialize_objects = \<lparr>classes = Map.empty, nb_classes = 0, inheritance_cnt = 0, inheritance_max_depth = 128,
     inheritances = replicate 256 (Some None)\<rparr>"

definition extend_vector :: "nat option cells \<Rightarrow> int \<Rightarrow> nat option cells" where
  "extend_vector v n = v @ replicate (nat n) (Some None)"

definition inheritance_room :: "nat option cells \<Rightarrow> int \<Rightarrow> int \<Rightarrow> nat option cells" where
  "inheritance_room v ind maxd = (if ind \<ge> int (length v) then extend_vector v (int (length v) + maxd) else v)"

text \<open>
  The part of \<open>new-class!\<close> in \<open>register-class!\<close> on the class and the inheritance vector; \<open>object_type\<close> is the first class
  number. The vector of classes, the fields, the lists of subclasses and the generic functions are left out.
\<close>

definition new_class :: "header_t \<Rightarrow> 'o registry \<Rightarrow> nat \<Rightarrow> nat option \<Rightarrow> 'o \<Rightarrow> 'o registry option" where
  "new_class object_type r klass super other = do {
     depth \<leftarrow> (case super of None \<Rightarrow> Some 0 | Some s \<Rightarrow> do { k \<leftarrow> classes r s; Some (cdepth k + 1) });
     h \<leftarrow> bgl_make_class (classes r) klass other other (object_type + word_of_nat (nb_classes r)) (word_of_nat (inheritance_cnt r)) super
       other other 0 other other other other other other other depth other;
     let maxd = (if depth > inheritance_max_depth r then depth else inheritance_max_depth r);
     v \<leftarrow> for_up 0 (depth + 1) (\<lambda>i v. do {
       a \<leftarrow> BGL_CLASS_ANCESTORS_REF h klass i; n \<leftarrow> idx i;
       wr v (inheritance_cnt r + n) (Some a) }) (inheritance_room (inheritances r) (int (inheritance_cnt r) + depth) maxd);
     Some \<lparr>classes = h, nb_classes = nb_classes r + 1, inheritance_cnt = inheritance_cnt r + nat (depth + 1),
       inheritance_max_depth = maxd, inheritances = v\<rparr> }"

text \<open>The tests whether an object of class \<open>oclass\<close>, with header \<open>hdr\<close>, is an instance of a class.\<close>

definition isa32 :: "'o class_heap \<Rightarrow> nat \<Rightarrow> nat \<Rightarrow> int \<Rightarrow> bool option" where
  "isa32 h oclass c depth =
     (if c = oclass then Some True
      else do {
        k \<leftarrow> h oclass;
        if depth < cdepth k then do { a \<leftarrow> BGL_CLASS_ANCESTORS_REF h oclass depth; Some (a = c) } else Some False })"

definition isa64 :: "'o registry \<Rightarrow> header_t \<Rightarrow> nat \<Rightarrow> int \<Rightarrow> bool option" where
  "isa64 r hdr c depth = do {
     n \<leftarrow> idx (uint (BGL_OBJECT_INHERITANCE_NUM hdr) + depth);
     e \<leftarrow> rd (inheritances r) n;
     Some (e = Some c) }"

section \<open>The fields of a header\<close>

lemmas header_layout = BGL_HEADER_SHIFT_def BGL_HEADER_TYPE_BIT_SIZE_def BGL_HEADER_SIZE_BIT_SIZE_def BGL_HEADER_DATA_BIT_SIZE_def
  BGL_HEADER_TYPE_SHIFT_def BGL_HEADER_SIZE_SHIFT_def BGL_HEADER_DATA_SHIFT_def

lemma header_masks: "BGL_HEADER_TYPE_MASK = mask 20" "BGL_HEADER_SIZE_MASK = mask 16" "BGL_HEADER_DATA_MASK = mask 25"
  by (simp_all add: BGL_HEADER_TYPE_MASK_def BGL_HEADER_SIZE_MASK_def BGL_HEADER_DATA_MASK_def header_layout mask_eq_exp_minus_1
      push_bit_eq_mult)

lemma small_bits:
  assumes "(w :: header_t) < 2 ^ n" and "bit w i"
  shows "i < n"
proof -
  have "take_bit n w = w" using assms(1) by (simp add: take_bit_eq_mod mod_word_less)
  then show ?thesis using assms(2) by (metis bit_take_bit_iff)
qed

lemma header_word:
  assumes "(t :: header_t) < 2 ^ 20"
  shows "t + push_bit 36 d = t OR push_bit 36 d"
proof (rule disjunctive_add)
  show "\<not> bit t i \<or> \<not> bit (push_bit 36 d) i" for i using small_bits [OF assms, of i] by (auto simp: bit_simps)
qed

lemmas header_defs = BGL_OBJECT_CLASS_NUM_SET_def BGL_OBJECT_HEADER_SIZE_SET_def BGL_OBJECT_CLASS_NUM_def BGL_OBJECT_INHERITANCE_NUM_def
  BGL_HEADER_SIZE_def BGL_HEADER_TYPE_def BGL_HEADER_DATA_def BGL_MAKE_HEADER_def BGL_HEADER_TYPE_SIZE_DATA_def
  BGL_HEADER_FULLSIZE_def header_layout header_masks

lemma header_class:
  assumes "t < 2 ^ 20" and "d < 2 ^ 25"
  shows "BGL_OBJECT_CLASS_NUM (BGL_OBJECT_CLASS_NUM_SET (t + push_bit 36 d)) = t"
    and "BGL_OBJECT_INHERITANCE_NUM (BGL_OBJECT_CLASS_NUM_SET (t + push_bit 36 d)) = d"
    and "BGL_HEADER_SIZE (BGL_OBJECT_CLASS_NUM_SET (t + push_bit 36 d)) = 0"
  unfolding header_word [OF assms(1)]
  by (rule bit_word_eqI; fastforce simp: header_defs bit_simps dest: small_bits [OF assms(1)] small_bits [OF assms(2)])+

text \<open>C37: the three fields of a header are independent: the class number and the inheritance number of a class of
  fewer than 2^20 and 2^25 come back from the header of its objects; setting the size of an object, whatever its
  header was, changes no other field, and the size comes back.\<close>

theorem header_fields:
  assumes "t < 2 ^ 20" and "d < 2 ^ 25" and "s < 2 ^ 16" and "n < 2 ^ 41"
  shows "(let h = BGL_OBJECT_CLASS_NUM_SET (t + push_bit (BGL_HEADER_DATA_SHIFT - BGL_HEADER_TYPE_SHIFT) d) in
      BGL_OBJECT_CLASS_NUM h = t \<and> BGL_OBJECT_INHERITANCE_NUM h = d \<and> BGL_HEADER_SIZE h = 0) \<and>
    BGL_HEADER_SIZE (BGL_OBJECT_HEADER_SIZE_SET hdr s) = s \<and>
    BGL_OBJECT_CLASS_NUM (BGL_OBJECT_HEADER_SIZE_SET hdr s) = BGL_OBJECT_CLASS_NUM hdr \<and>
    BGL_OBJECT_INHERITANCE_NUM (BGL_OBJECT_HEADER_SIZE_SET hdr s) = BGL_OBJECT_INHERITANCE_NUM hdr \<and>
    BGL_HEADER_FULLSIZE (BGL_MAKE_HEADER t n) = n"
proof -
  note b = small_bits [OF assms(1)] small_bits [OF assms(2)] small_bits [OF assms(3)] small_bits [OF assms(4)]
  have "BGL_HEADER_SIZE (BGL_OBJECT_HEADER_SIZE_SET hdr s) = s"
    "BGL_OBJECT_CLASS_NUM (BGL_OBJECT_HEADER_SIZE_SET hdr s) = BGL_OBJECT_CLASS_NUM hdr"
    "BGL_OBJECT_INHERITANCE_NUM (BGL_OBJECT_HEADER_SIZE_SET hdr s) = BGL_OBJECT_INHERITANCE_NUM hdr"
    "BGL_HEADER_FULLSIZE (BGL_MAKE_HEADER t n) = n"
    by (rule bit_word_eqI; fastforce simp: header_defs bit_simps dest: b)+
  then show ?thesis
    using header_class [OF assms(1,2)] by (simp add: header_layout Let_def)
qed

theorem header_fields_witness:
  "BGL_HEADER_SIZE (BGL_OBJECT_HEADER_SIZE_SET (BGL_OBJECT_HEADER_SIZE_SET 0 9) 6) = 6"
  using header_fields [of 5 3 6 1000000 "BGL_OBJECT_HEADER_SIZE_SET 0 9"] by simp

section \<open>Ancestors\<close>

definition wf_classes :: "'o class_heap \<Rightarrow> bool" where
  "wf_classes h \<longleftrightarrow> (\<forall>c k. h c = Some k \<longrightarrow>
     (case csuper k of
        None \<Rightarrow> cdepth k = 0 \<and> ancestor0 k = [Some c]
      | Some s \<Rightarrow> \<exists>ks. h s = Some ks \<and> cdepth k = cdepth ks + 1 \<and> ancestor0 k = ancestor0 ks @ [Some c]))"

inductive superclass :: "'o class_heap \<Rightarrow> nat \<Rightarrow> nat \<Rightarrow> bool" for h where
  superclass_refl: "h c = Some k \<Longrightarrow> superclass h c c"
| superclass_step: "h c = Some k \<Longrightarrow> csuper k = Some s \<Longrightarrow> superclass h a s \<Longrightarrow> superclass h a c"

inductive_cases superclassE: "superclass h a c"

lemma superclass_root: "h c = Some k \<Longrightarrow> csuper k = None \<Longrightarrow> superclass h a c \<longleftrightarrow> a = c"
  by (auto elim: superclassE intro: superclass_refl)

lemma superclass_sub: "h c = Some k \<Longrightarrow> csuper k = Some s \<Longrightarrow> superclass h a c \<longleftrightarrow> a = c \<or> superclass h a s"
  by (auto elim: superclassE intro: superclass_refl superclass_step)

definition ancestors :: "'o class_heap \<Rightarrow> nat \<Rightarrow> nat list" where
  "ancestors h c = (case h c of None \<Rightarrow> [] | Some k \<Rightarrow> map the (ancestor0 k))"

text \<open>The ancestors of a class are the path from the root to it, and an ancestor stands at its depth.\<close>

lemma ancestors_spec:
  assumes "wf_classes h" and "h c = Some k"
  shows "ancestor0 k = map Some (ancestors h c) \<and> length (ancestors h c) = nat (cdepth k) + 1 \<and> 0 \<le> cdepth k \<and>
    (\<forall>i < length (ancestors h c). \<exists>ki. h (ancestors h c ! i) = Some ki \<and> cdepth ki = int i) \<and>
    (\<forall>a. a \<in> set (ancestors h c) \<longleftrightarrow> superclass h a c) \<and> last (ancestors h c) = c"
  using assms(2)
proof (induction "length (ancestor0 k)" arbitrary: c k rule: less_induct)
  case less
  have wf: "case csuper k of None \<Rightarrow> cdepth k = 0 \<and> ancestor0 k = [Some c]
      | Some s \<Rightarrow> \<exists>ks. h s = Some ks \<and> cdepth k = cdepth ks + 1 \<and> ancestor0 k = ancestor0 ks @ [Some c]"
    using assms(1) less.prems by (simp add: wf_classes_def)
  show ?case
  proof (cases "csuper k")
    case None
    then show ?thesis using wf less.prems superclass_root [of h c k] by (simp add: ancestors_def)
  next
    case (Some s)
    then obtain ks where ks: "h s = Some ks" "cdepth k = cdepth ks + 1" "ancestor0 k = ancestor0 ks @ [Some c]"
      using wf by auto
    have IH: "ancestor0 ks = map Some (ancestors h s) \<and> length (ancestors h s) = nat (cdepth ks) + 1 \<and> 0 \<le> cdepth ks \<and>
      (\<forall>i < length (ancestors h s). \<exists>ki. h (ancestors h s ! i) = Some ki \<and> cdepth ki = int i) \<and>
      (\<forall>a. a \<in> set (ancestors h s) \<longleftrightarrow> superclass h a s) \<and> last (ancestors h s) = s"
      using less.hyps [OF _ ks(1)] ks(3) by simp
    have path: "ancestors h c = ancestors h s @ [c]"
    proof -
      have "ancestors h c = map the (ancestor0 k)" using less.prems by (simp add: ancestors_def)
      then show ?thesis using IH by (simp add: ks(3) comp_def)
    qed
    have "length (ancestors h c) = nat (cdepth k) + 1" "0 \<le> cdepth k" using IH ks(2) by (simp_all add: path nat_add_distrib)
    moreover have "\<exists>ki. h (ancestors h c ! i) = Some ki \<and> cdepth ki = int i" if "i < length (ancestors h c)" for i
    proof (cases "i < length (ancestors h s)")
      case True
      then show ?thesis using IH by (simp add: path nth_append)
    next
      case False
      then have "i = nat (cdepth ks) + 1" using that IH by (simp add: path)
      then show ?thesis using IH ks(2) less.prems by (simp add: path nth_append)
    qed
    ultimately show ?thesis
      using IH ks(3) superclass_sub [of h c k s] less.prems Some by (simp add: path)
  qed
qed

lemma make_class_wf:
  assumes "wf_classes h" and "h klass = None"
    and "bgl_make_class h klass name module num inum super sub alloc hash fd allfd constr virt new nil shrink depth evd = Some h'"
    and "case super of None \<Rightarrow> depth = 0 | Some s \<Rightarrow> \<exists>ks. h s = Some ks \<and> depth = cdepth ks + 1"
  shows "wf_classes h' \<and> (\<exists>k. h' = h(klass \<mapsto> k) \<and> cdepth k = depth \<and> cindex k = num \<and>
    inheritance_index k = push_bit (BGL_HEADER_DATA_SHIFT - BGL_HEADER_TYPE_SHIFT) inum)"
proof -
  obtain anc k where h': "h' = h(klass \<mapsto> k)" "csuper k = super" "cdepth k = depth" "cindex k = num" "ancestor0 k = anc"
      "inheritance_index k = push_bit (BGL_HEADER_DATA_SHIFT - BGL_HEADER_TYPE_SHIFT) inum"
    and anc: "class_ancestors h klass super depth = Some anc"
    using assms(3) by (auto simp: bgl_make_class_def split: Option.bind_splits)
  have new: "case super of None \<Rightarrow> anc = [Some klass] | Some s \<Rightarrow> \<exists>ks. h s = Some ks \<and> anc = ancestor0 ks @ [Some klass]"
  proof (cases super)
    case None
    then show ?thesis using assms(4) anc by (simp add: class_ancestors_def idx_def wr_def gc_malloc_def)
  next
    case (Some s)
    then obtain ks where ks: "h s = Some ks" "depth = cdepth ks + 1" using assms(4) by auto
    note spec = ancestors_spec [OF assms(1) ks(1)]
    then have len: "length (ancestor0 ks) = nat depth" "0 < depth" using ks(2) by (simp_all add: nat_add_distrib)
    have "blit (gc_malloc (nat depth + 1)) 0 (ancestor0 ks) 0 (nat depth) = Some (ancestor0 ks @ [None])"
      using len by (simp add: blit_def gc_malloc_def replicate_append_same [symmetric] del: replicate_Suc) simp
    then have "anc = ancestor0 ks @ [Some klass]" using anc Some ks(1) len by (simp add: class_ancestors_def idx_def wr_def list_update_append)
    then show ?thesis using Some ks(1) by auto
  qed
  have "wf_classes h'"
    unfolding wf_classes_def
  proof (intro allI impI)
    fix c kc
    assume c: "h' c = Some kc"
    show "case csuper kc of None \<Rightarrow> cdepth kc = 0 \<and> ancestor0 kc = [Some c]
        | Some s \<Rightarrow> \<exists>ks. h' s = Some ks \<and> cdepth kc = cdepth ks + 1 \<and> ancestor0 kc = ancestor0 ks @ [Some c]"
    proof (cases "c = klass")
      case True
      then have "kc = k" using c h'(1) by simp
      then show ?thesis using True new assms(2,4) h' by (auto split: option.splits)
    next
      case False
      then have "h c = Some kc" using c h'(1) by simp
      then show ?thesis using assms(1,2) h'(1) unfolding wf_classes_def by (fastforce split: option.splits)
    qed
  qed
  then show ?thesis using h' by auto
qed

section \<open>The inheritance vector\<close>

lemma for_up_stores:
  assumes "\<forall>j < length xs. f (int j) = Some (xs ! j)" and "i \<le> length xs"
  shows "for_up (int i) (int (length xs)) (\<lambda>j v. do { a \<leftarrow> f j; n \<leftarrow> idx j; wr v (off + n) (Some a) }) v =
    (if off + length xs \<le> length v \<or> i = length xs
     then Some (take (off + i) v @ map (Some \<circ> Some) (drop i xs) @ drop (off + length xs) v) else None)"
  using assms(2)
proof (induction "length xs - i" arbitrary: i v)
  case 0
  then show ?case by (subst for_up.simps) simp
next
  case (Suc d)
  then have i: "i < length xs" by simp
  have step: "for_up (int i) (int (length xs)) (\<lambda>j v. do { a \<leftarrow> f j; n \<leftarrow> idx j; wr v (off + n) (Some a) }) v =
      (if off + i < length v
       then for_up (int (Suc i)) (int (length xs)) (\<lambda>j v. do { a \<leftarrow> f j; n \<leftarrow> idx j; wr v (off + n) (Some a) }) (v[off + i := Some (Some (xs ! i))])
       else None)"
    using i assms(1) by (subst for_up.simps) (simp add: idx_def wr_def add.commute)
  show ?case
  proof (cases "off + i < length v")
    case True
    note IH = Suc.hyps(1) [of "Suc i" "v[off + i := Some (Some (xs ! i))]"]
    show ?thesis
      using True i Suc.hyps(2) IH
      by (auto simp: step Cons_nth_drop_Suc [symmetric, of i xs] take_Suc_conv_app_nth)
  next
    case False
    then show ?thesis using i by (simp add: step)
  qed
qed

definition flat :: "'o class_heap \<Rightarrow> nat list \<Rightarrow> nat list" where
  "flat h cs = concat (map (ancestors h) cs)"

text \<open>\<open>cs\<close> are the classes in the order of their registration: the vector holds their ancestors one after the other.\<close>

definition reg_ok :: "header_t \<Rightarrow> 'o registry \<Rightarrow> nat list \<Rightarrow> bool" where
  "reg_ok object_type r cs \<longleftrightarrow> wf_classes (classes r) \<and> dom (classes r) = set cs \<and> distinct cs \<and> nb_classes r = length cs \<and>
     inheritance_cnt r = length (flat (classes r) cs) \<and>
     (\<exists>n. inheritances r = map (Some \<circ> Some) (flat (classes r) cs) @ replicate n (Some None)) \<and>
     (\<forall>as c bs. cs = as @ c # bs \<longrightarrow> (\<exists>k. classes r c = Some k \<and> cindex k = object_type + word_of_nat (length as) \<and>
       inheritance_index k = push_bit (BGL_HEADER_DATA_SHIFT - BGL_HEADER_TYPE_SHIFT) (word_of_nat (length (flat (classes r) as)))))"

text \<open>The registries that a program can make.\<close>

inductive registry_made :: "header_t \<Rightarrow> 'o registry \<Rightarrow> bool" for object_type where
  made_init: "registry_made object_type initialize_objects"
| made_class: "registry_made object_type r \<Longrightarrow> classes r klass = None \<Longrightarrow>
    new_class object_type r klass super other = Some r' \<Longrightarrow> registry_made object_type r'"

lemma flat_append [simp]: "flat h (xs @ ys) = flat h xs @ flat h ys"
  by (simp add: flat_def)

lemma flat_other: "klass \<notin> set cs \<Longrightarrow> flat (h(klass \<mapsto> k)) cs = flat h cs"
  by (induction cs) (auto simp: flat_def ancestors_def)

lemma new_class_parts:
  assumes "new_class object_type r klass super other = Some r'"
  obtains depth n where
    "case super of None \<Rightarrow> depth = 0 | Some s \<Rightarrow> \<exists>ks. classes r s = Some ks \<and> depth = cdepth ks + 1"
    and "bgl_make_class (classes r) klass other other (object_type + word_of_nat (nb_classes r)) (word_of_nat (inheritance_cnt r)) super
       other other 0 other other other other other other other depth other = Some (classes r')"
    and "for_up 0 (depth + 1) (\<lambda>i v. do { a \<leftarrow> BGL_CLASS_ANCESTORS_REF (classes r') klass i; n \<leftarrow> idx i;
       wr v (inheritance_cnt r + n) (Some a) }) (inheritances r @ replicate n (Some None)) = Some (inheritances r')"
    and "nb_classes r' = nb_classes r + 1" and "inheritance_cnt r' = inheritance_cnt r + nat (depth + 1)"
proof -
  have room: "\<exists>n. inheritance_room v ind maxd = v @ replicate n (Some None)" for v ind maxd
    unfolding inheritance_room_def extend_vector_def by (metis append_Nil2 replicate_0)
  have depth: "case super of None \<Rightarrow> d = 0 | Some s \<Rightarrow> \<exists>ks. classes r s = Some ks \<and> d = cdepth ks + 1"
    if "(case super of None \<Rightarrow> Some 0 | Some s \<Rightarrow> do { k \<leftarrow> classes r s; Some (cdepth k + 1) }) = Some d" for d
    using that by (auto split: option.splits Option.bind_splits)
  show ?thesis
    using assms unfolding new_class_def Let_def bind_eq_Some_conv
  proof (elim exE conjE)
    fix d h v
    assume d: "(case super of None \<Rightarrow> Some 0 | Some s \<Rightarrow> do { k \<leftarrow> classes r s; Some (cdepth k + 1) }) = Some d"
      and h: "bgl_make_class (classes r) klass other other (object_type + word_of_nat (nb_classes r)) (word_of_nat (inheritance_cnt r)) super
       other other 0 other other other other other other other d other = Some h"
      and v: "for_up 0 (d + 1) (\<lambda>i v. do { a \<leftarrow> BGL_CLASS_ANCESTORS_REF h klass i; n \<leftarrow> idx i;
         wr v (inheritance_cnt r + n) (Some a) })
       (inheritance_room (inheritances r) (int (inheritance_cnt r) + d) (if d > inheritance_max_depth r then d else inheritance_max_depth r)) = Some v"
      and r': "Some \<lparr>classes = h, nb_classes = nb_classes r + 1, inheritance_cnt = inheritance_cnt r + nat (d + 1),
       inheritance_max_depth = if d > inheritance_max_depth r then d else inheritance_max_depth r, inheritances = v\<rparr> = Some r'"
    obtain n where n: "inheritance_room (inheritances r) (int (inheritance_cnt r) + d) (if d > inheritance_max_depth r then d else inheritance_max_depth r)
        = inheritances r @ replicate n (Some None)"
      using room by blast
    from r' have "r' = \<lparr>classes = h, nb_classes = nb_classes r + 1, inheritance_cnt = inheritance_cnt r + nat (d + 1),
       inheritance_max_depth = if d > inheritance_max_depth r then d else inheritance_max_depth r, inheritances = v\<rparr>" by simp
    then show thesis using that [OF depth [OF d], of n] h v unfolding n by simp
  qed
qed

lemma new_class_ok:
  assumes "reg_ok object_type r cs" and "classes r klass = None" and "new_class object_type r klass super other = Some r'"
  shows "reg_ok object_type r' (cs @ [klass])"
proof -
  obtain depth n where d: "case super of None \<Rightarrow> depth = 0 | Some s \<Rightarrow> \<exists>ks. classes r s = Some ks \<and> depth = cdepth ks + 1"
    and mk: "bgl_make_class (classes r) klass other other (object_type + word_of_nat (nb_classes r)) (word_of_nat (inheritance_cnt r)) super
       other other 0 other other other other other other other depth other = Some (classes r')"
    and loop: "for_up 0 (depth + 1) (\<lambda>i v. do { a \<leftarrow> BGL_CLASS_ANCESTORS_REF (classes r') klass i; n \<leftarrow> idx i;
       wr v (inheritance_cnt r + n) (Some a) }) (inheritances r @ replicate n (Some None)) = Some (inheritances r')"
    and nb: "nb_classes r' = nb_classes r + 1" and cnt: "inheritance_cnt r' = inheritance_cnt r + nat (depth + 1)"
    by (rule new_class_parts [OF assms(3)])
  have ok: "wf_classes (classes r)" "dom (classes r) = set cs" "distinct cs" "nb_classes r = length cs"
      "inheritance_cnt r = length (flat (classes r) cs)"
    using assms(1) by (simp_all add: reg_ok_def)
  then have new: "klass \<notin> set cs" using assms(2) by blast
  obtain k where wf: "wf_classes (classes r')" and k: "classes r' = (classes r)(klass \<mapsto> k)" "cdepth k = depth"
      "cindex k = object_type + word_of_nat (length cs)"
      "inheritance_index k = push_bit (BGL_HEADER_DATA_SHIFT - BGL_HEADER_TYPE_SHIFT) (word_of_nat (length (flat (classes r) cs)))"
    using make_class_wf [OF ok(1) assms(2) mk d] ok(4,5) by auto
  let ?anc = "ancestors (classes r') klass"
  have "classes r' klass = Some k" using k(1) by simp
  note spec = ancestors_spec [OF wf this]
  have ref: "\<forall>j < length ?anc. BGL_CLASS_ANCESTORS_REF (classes r') klass (int j) = Some (?anc ! j)"
    using spec \<open>classes r' klass = Some k\<close> by (simp add: BGL_CLASS_ANCESTORS_REF_def idx_def rd_map_Some)
  have len: "depth + 1 = int (length ?anc)" using spec k(2) by simp
  have old: "flat (classes r') as = flat (classes r) as" if "set as \<subseteq> set cs" for as
    using that new flat_other [of klass as "classes r" k] by (auto simp: k(1))
  obtain m where m: "inheritances r = map (Some \<circ> Some) (flat (classes r) cs) @ replicate m (Some None)"
    using assms(1) by (auto simp: reg_ok_def)
  have "for_up (int 0) (int (length ?anc)) (\<lambda>i v. do { a \<leftarrow> BGL_CLASS_ANCESTORS_REF (classes r') klass i; n \<leftarrow> idx i;
       wr v (inheritance_cnt r + n) (Some a) }) (inheritances r @ replicate n (Some None)) = Some (inheritances r')"
    using loop by (simp add: len)
  then have "inheritances r' = map (Some \<circ> Some) (flat (classes r) cs @ ?anc) @ replicate (m + n - length ?anc) (Some None)"
    unfolding for_up_stores [OF ref le0]
    using ok(5) spec by (auto simp: m replicate_add [symmetric] drop_replicate split: if_splits simp del: replicate_add)
  moreover have "\<exists>k. classes r' c = Some k \<and> cindex k = object_type + word_of_nat (length as) \<and>
       inheritance_index k = push_bit (BGL_HEADER_DATA_SHIFT - BGL_HEADER_TYPE_SHIFT) (word_of_nat (length (flat (classes r') as)))"
    if split: "cs @ [klass] = as @ c # bs" for as c bs
  proof (cases bs rule: rev_cases)
    case Nil
    then show ?thesis using split k old [of as] by simp
  next
    case (snoc bs' b)
    then have "cs = as @ c # bs'" using split by simp
    moreover from this have "c \<noteq> klass" "set as \<subseteq> set cs" using new by auto
    ultimately show ?thesis using assms(1) k(1) old [of as] by (auto simp: reg_ok_def)
  qed
  ultimately show ?thesis
    using ok wf new nb cnt k(1) len old [of cs] by (auto simp: reg_ok_def flat_def [of _ "[klass]"])
qed

lemma made_ok: "registry_made object_type r \<Longrightarrow> \<exists>cs. reg_ok object_type r cs"
proof (induction rule: registry_made.induct)
  case made_init
  show ?case
    by (intro exI [of _ "[]"]) (simp add: reg_ok_def initialize_objects_def wf_classes_def flat_def)
qed (blast intro: new_class_ok)

lemma reg_ok_class:
  assumes "reg_ok object_type r (as @ c # bs)" and "classes r c = Some k"
  shows "inheritance_index k = push_bit 36 (word_of_nat (length (flat (classes r) as)))"
    and "cindex k = object_type + word_of_nat (length as)"
  using assms by (fastforce simp: reg_ok_def header_layout)+

section \<open>The instance tests\<close>

text \<open>Where an entry of the flat table comes from.\<close>

lemma flat_position:
  "p < length (flat h cs) \<Longrightarrow> \<exists>as c bs i. cs = as @ c # bs \<and> p = length (flat h as) + i \<and> i < length (ancestors h c) \<and>
     flat h cs ! p = ancestors h c ! i"
proof (induction cs arbitrary: p)
  case (Cons x cs)
  show ?case
  proof (cases "p < length (ancestors h x)")
    case True
    then show ?thesis by (intro exI [of _ "[]"] exI [of _ x] exI [of _ cs] exI [of _ p]) (simp add: flat_def nth_append)
  next
    case False
    then have "p - length (ancestors h x) < length (flat h cs)" using Cons.prems by (simp add: flat_def)
    then obtain as c bs i where "cs = as @ c # bs" "p - length (ancestors h x) = length (flat h as) + i" "i < length (ancestors h c)"
        "flat h cs ! (p - length (ancestors h x)) = ancestors h c ! i"
      using Cons.IH by blast
    then show ?thesis using False
      by (intro exI [of _ "x # as"] exI [of _ c] exI [of _ bs] exI [of _ i]) (simp add: flat_def nth_append)
  qed
qed (simp add: flat_def)

text \<open>A class of depth \<open>d\<close> stands at position \<open>d\<close> of a block, so that it is found at the distance \<open>d\<close> of the
  beginning of a block only when it belongs to this block.\<close>

lemma flat_instance:
  assumes "wf_classes h" and "set cs \<subseteq> dom h" and "cs = as @ c # bs" and "h a = Some ka" and "0 \<le> cdepth ka"
    and "p = length (flat h as) + nat (cdepth ka)"
  shows "p < length (flat h cs) \<and> flat h cs ! p = a \<longleftrightarrow> superclass h a c"
proof
  obtain k where k: "h c = Some k" using assms(2,3) by auto
  note spec = ancestors_spec [OF assms(1) k]
  assume "superclass h a c"
  then obtain i where i: "i < length (ancestors h c)" "ancestors h c ! i = a"
    using spec by (metis in_set_conv_nth)
  then have "cdepth ka = int i" using spec assms(4) by fastforce
  moreover have "flat h cs = flat h as @ ancestors h c @ flat h bs" by (simp add: assms(3) flat_def)
  ultimately show "p < length (flat h cs) \<and> flat h cs ! p = a" using i assms(6) by (simp add: nth_append)
next
  assume p: "p < length (flat h cs) \<and> flat h cs ! p = a"
  then obtain as' c' bs' i where pos: "cs = as' @ c' # bs'" "p = length (flat h as') + i" "i < length (ancestors h c')"
      "a = ancestors h c' ! i"
    using flat_position by metis
  obtain k' where k': "h c' = Some k'" using assms(2) pos(1) by auto
  note spec = ancestors_spec [OF assms(1) k']
  then have "cdepth ka = int i" using pos(3,4) assms(4) by fastforce
  then have eq: "length (flat h as) = length (flat h as')" using assms(6) pos(2) by simp
  have nonempty: "ancestors h x \<noteq> []" if "x \<in> set cs" for x
    using that assms(2) ancestors_spec [OF assms(1), of x] by (metis Suc_eq_plus1 domD length_0_conv nat.distinct(1) subsetD)
  have "as = as'"
  proof (rule ccontr)
    assume "as \<noteq> as'"
    moreover have "as @ c # bs = as' @ c' # bs'" using assms(3) pos(1) by simp
    ultimately obtain us where "(\<exists>x. as' = as @ x # us) \<or> (\<exists>x. as = as' @ x # us)"
      by (metis append_eq_append_conv2 append_Nil2 neq_Nil_conv)
    then show False
    proof (elim disjE exE)
      fix x assume "as' = as @ x # us"
      then show False using eq nonempty [of x] pos(1) by (simp add: flat_def)
    next
      fix x assume "as = as' @ x # us"
      then show False using eq nonempty [of x] assms(3) by (simp add: flat_def)
    qed
  qed
  then have "c' = c" using assms(3) pos(1) by simp
  then show "superclass h a c" using spec pos(3,4) nth_mem by metis
qed

text \<open>C13: the tests for instances on every hierarchy that a program can declare: the test over the array of ancestors
  and the test by one access to the inheritance vector both decide whether the class is the one of the object or
  one of its super classes, as long as the vector is long enough; the registration does not make it so.\<close>

theorem instance_tests:
  assumes "registry_made object_type r" and "classes r oc = Some ko" and "classes r c = Some kc"
    and "cindex ko < 2 ^ 20" and "inheritance_cnt r \<le> 2 ^ 25"
  shows "isa32 (classes r) oc c (cdepth kc) = Some (superclass (classes r) c oc) \<and>
    (let hdr = BGL_OBJECT_CLASS_NUM_SET (BGL_CLASS_NUM ko) in
     isa64 r hdr c (cdepth kc) =
       (if unat (BGL_OBJECT_INHERITANCE_NUM hdr) + nat (cdepth kc) < length (inheritances r)
        then Some (superclass (classes r) c oc) else None))"
proof -
  obtain cs where cs: "reg_ok object_type r cs" using made_ok [OF assms(1)] by blast
  then have ok: "wf_classes (classes r)" "dom (classes r) = set cs" "inheritance_cnt r = length (flat (classes r) cs)"
    by (simp_all add: reg_ok_def)
  note so = ancestors_spec [OF ok(1) assms(2)] note sc = ancestors_spec [OF ok(1) assms(3)]
  have "oc \<in> set cs" using ok(2) assms(2) by auto
  then obtain as bs where split: "cs = as @ oc # bs" by (meson split_list)
  define n where "n = length (flat (classes r) as)"
  have inh: "inheritance_index ko = push_bit 36 (word_of_nat n)"
    using reg_ok_class(1) [of object_type r as oc bs] cs assms(2) by (simp add: n_def split)
  have "n < inheritance_cnt r" using so by (simp add: ok(3) split n_def flat_def)
  then have n: "n < 2 ^ 25" using assms(5) by simp
  then have "(word_of_nat n :: header_t) < 2 ^ 25" by (simp add: word_less_nat_alt unat_of_nat)
  then have "BGL_OBJECT_INHERITANCE_NUM (BGL_OBJECT_CLASS_NUM_SET (BGL_CLASS_NUM ko)) = word_of_nat n"
    using header_class(2) [OF assms(4)] by (simp add: BGL_CLASS_NUM_def inh)
  then have num: "uint (BGL_OBJECT_INHERITANCE_NUM (BGL_OBJECT_CLASS_NUM_SET (BGL_CLASS_NUM ko))) = int n"
    using n by (simp add: unsigned_of_nat take_bit_nat_eq_self)
  obtain m where m: "inheritances r = map (Some \<circ> Some) (flat (classes r) cs) @ replicate m (Some None)"
    using cs by (auto simp: reg_ok_def)
  have "p < length (flat (classes r) cs) \<and> flat (classes r) cs ! p = c \<longleftrightarrow> superclass (classes r) c oc"
    if "p = n + nat (cdepth kc)" for p
    using flat_instance [OF ok(1) _ split assms(3) _ that [unfolded n_def]] sc ok(2) by simp
  then have isa64: "isa64 r (BGL_OBJECT_CLASS_NUM_SET (BGL_CLASS_NUM ko)) c (cdepth kc) =
      (if n + nat (cdepth kc) < length (inheritances r) then Some (superclass (classes r) c oc) else None)"
    using sc by (auto simp: isa64_def num idx_def rd_def nat_add_distrib m nth_append)
  have own: "nat (cdepth kc) < length (ancestors (classes r) oc) \<and> ancestors (classes r) oc ! nat (cdepth kc) = c \<longleftrightarrow>
      superclass (classes r) c oc"
    using flat_instance [OF ok(1) _ _ assms(3), of "[oc]" "[]" oc "[]" "nat (cdepth kc)"] domI [of "classes r" oc ko] assms(2) sc
    by (simp add: flat_def)
  have "isa32 (classes r) oc c (cdepth kc) = Some (superclass (classes r) c oc)"
  proof (cases "c = oc")
    case True
    then show ?thesis using assms(2) by (simp add: isa32_def superclass_refl)
  next
    case False
    have "cdepth kc < cdepth ko" if "superclass (classes r) c oc"
    proof (rule ccontr)
      assume "\<not> cdepth kc < cdepth ko"
      moreover have "nat (cdepth kc) < nat (cdepth ko) + 1" using that own so by simp
      ultimately have "nat (cdepth kc) = length (ancestors (classes r) oc) - 1" using so sc by linarith
      then have "c = oc" using that own so last_conv_nth [of "ancestors (classes r) oc"] by fastforce
      then show False using False by simp
    qed
    moreover have "BGL_CLASS_ANCESTORS_REF (classes r) oc (cdepth kc) = Some (ancestors (classes r) oc ! nat (cdepth kc))"
      if "cdepth kc < cdepth ko"
      using that so sc assms(2) by (simp add: BGL_CLASS_ANCESTORS_REF_def idx_def rd_map_Some)
    ultimately show ?thesis using False own so sc assms(2) by (auto simp: isa32_def nat_less_iff)
  qed
  moreover have "unat (BGL_OBJECT_INHERITANCE_NUM (BGL_OBJECT_CLASS_NUM_SET (BGL_CLASS_NUM ko))) = n"
    using num by (metis nat_int unat_eq_nat_uint)
  ultimately show ?thesis using isa64 by (simp add: Let_def)
qed

text \<open>Registration succeeds when the vector has room for the ancestors.\<close>

lemma new_class_returns:
  assumes "reg_ok object_type r cs" and "classes r klass = None"
    and "case super of None \<Rightarrow> depth = 0 | Some s \<Rightarrow> \<exists>ks. classes r s = Some ks \<and> depth = cdepth ks + 1"
    and "inheritance_cnt r + nat depth < length (inheritances r)"
  shows "\<exists>r' k. new_class object_type r klass super other = Some r' \<and> classes r' = (classes r)(klass \<mapsto> k) \<and> cdepth k = depth \<and>
    inheritance_cnt r' = inheritance_cnt r + nat (depth + 1) \<and> length (inheritances r') = length (inheritances r) \<and> nb_classes r' = nb_classes r + 1"
proof -
  have wf: "wf_classes (classes r)" using assms(1) by (simp add: reg_ok_def)
  have depth: "0 \<le> depth \<and> (depth > 0 \<longrightarrow> (\<exists>s ks. super = Some s \<and> classes r s = Some ks \<and> length (ancestor0 ks) = nat depth))"
    using assms(3) ancestors_spec [OF wf] by (cases super) (auto simp: nat_add_distrib)
  have "(case super of None \<Rightarrow> Some 0 | Some s \<Rightarrow> do { k \<leftarrow> classes r s; Some (cdepth k + 1) }) = Some depth"
    using assms(3) by (auto split: option.splits)
  moreover have "\<exists>anc. class_ancestors (classes r) klass super depth = Some anc"
    using depth by (cases "depth = 0") (auto simp: class_ancestors_def idx_def gc_malloc_def blit_def wr_def)
  then obtain h where h: "bgl_make_class (classes r) klass other other (object_type + word_of_nat (nb_classes r)) (word_of_nat (inheritance_cnt r)) super
       other other 0 other other other other other other other depth other = Some h"
    by (auto simp: bgl_make_class_def)
  moreover obtain k where k: "wf_classes h" "h = (classes r)(klass \<mapsto> k)" "cdepth k = depth"
    using make_class_wf [OF wf assms(2) h assms(3)] by blast
  let ?anc = "ancestors h klass"
  have "h klass = Some k" using k(2) by simp
  note spec = ancestors_spec [OF k(1) this]
  have ref: "\<forall>j < length ?anc. BGL_CLASS_ANCESTORS_REF h klass (int j) = Some (?anc ! j)"
    using spec \<open>h klass = Some k\<close> by (simp add: BGL_CLASS_ANCESTORS_REF_def idx_def rd_map_Some)
  have len: "depth + 1 = int (length ?anc)" using spec k(3) by simp
  have room: "inheritance_room (inheritances r) (int (inheritance_cnt r) + depth) m = inheritances r" for m
  proof -
    have "int (inheritance_cnt r) + depth < int (length (inheritances r))" using assms(4) depth by linarith
    then show ?thesis by (simp add: inheritance_room_def)
  qed
  obtain v where "for_up 0 (depth + 1) (\<lambda>i v. do { a \<leftarrow> BGL_CLASS_ANCESTORS_REF h klass i; n \<leftarrow> idx i;
       wr v (inheritance_cnt r + n) (Some a) }) (inheritances r) = Some v" and "length v = length (inheritances r)"
    using for_up_stores [OF ref, of 0 "inheritance_cnt r" "inheritances r"] assms(4) spec k(3) by (simp add: len)
  ultimately have "new_class object_type r klass super other = Some \<lparr>classes = h, nb_classes = nb_classes r + 1,
      inheritance_cnt = inheritance_cnt r + nat (depth + 1),
      inheritance_max_depth = if depth > inheritance_max_depth r then depth else inheritance_max_depth r, inheritances = v\<rparr>"
    by (simp add: new_class_def Let_def room)
  then show ?thesis using k(2,3) \<open>length v = length (inheritances r)\<close> by (intro exI [of _ "\<lparr>classes = h, nb_classes = nb_classes r + 1,
      inheritance_cnt = inheritance_cnt r + nat (depth + 1),
      inheritance_max_depth = if depth > inheritance_max_depth r then depth else inheritance_max_depth r, inheritances = v\<rparr>"]
      exI [of _ k]) simp
qed

lemma new_class_made:
  assumes "registry_made object_type r" and "classes r klass = None"
    and "case super of None \<Rightarrow> depth = 0 | Some s \<Rightarrow> \<exists>ks. classes r s = Some ks \<and> depth = cdepth ks + 1"
    and "inheritance_cnt r + nat depth < length (inheritances r)"
  shows "\<exists>r' k. registry_made object_type r' \<and> classes r' = (classes r)(klass \<mapsto> k) \<and> cdepth k = depth \<and>
    cindex k = object_type + word_of_nat (nb_classes r) \<and> inheritance_index k = push_bit 36 (word_of_nat (inheritance_cnt r)) \<and>
    inheritance_cnt r' = inheritance_cnt r + nat (depth + 1) \<and> length (inheritances r') = length (inheritances r) \<and>
    nb_classes r' = nb_classes r + 1"
proof -
  obtain cs where cs: "reg_ok object_type r cs" using made_ok [OF assms(1)] by blast
  obtain r' k where r': "new_class object_type r klass super undefined = Some r'" "classes r' = (classes r)(klass \<mapsto> k)" "cdepth k = depth"
    "inheritance_cnt r' = inheritance_cnt r + nat (depth + 1)" "length (inheritances r') = length (inheritances r)" "nb_classes r' = nb_classes r + 1"
    using new_class_returns [OF cs assms(2-4)] by blast
  have "reg_ok object_type r' (cs @ klass # [])" using new_class_ok [OF cs assms(2) r'(1)] by simp
  note reg_ok_class [OF this, of k]
  moreover have "flat (classes r') cs = flat (classes r) cs"
    using cs assms(2) flat_other [of klass cs "classes r" k] by (auto simp: r'(2) reg_ok_def)
  ultimately show ?thesis
    using made_class [OF assms(1,2) r'(1)] r' cs by (intro exI [of _ r'] exI [of _ k]) (simp add: reg_ok_def)
qed

lemma roots_made:
  assumes "registry_made object_type r" and "inheritance_cnt r + n \<le> length (inheritances r)" and "\<forall>i < n. classes r (a + i) = None"
  shows "\<exists>r'. registry_made object_type r' \<and> inheritance_cnt r' = inheritance_cnt r + n \<and> length (inheritances r') = length (inheritances r) \<and>
    nb_classes r' = nb_classes r + n \<and> (\<forall>c. (c < a \<or> a + n \<le> c) \<longrightarrow> classes r' c = classes r c) \<and>
    (0 < n \<longrightarrow> (\<exists>k. classes r' (a + n - 1) = Some k \<and> cindex k = object_type + word_of_nat (nb_classes r + n - 1) \<and>
      inheritance_index k = push_bit 36 (word_of_nat (inheritance_cnt r + n - 1))))"
  using assms(2,3)
proof (induction n)
  case 0
  then show ?case using assms(1) by auto
next
  case (Suc n)
  then obtain r' where r': "registry_made object_type r'" "inheritance_cnt r' = inheritance_cnt r + n"
      "length (inheritances r') = length (inheritances r)" "nb_classes r' = nb_classes r + n" "\<forall>c. (c < a \<or> a + n \<le> c) \<longrightarrow> classes r' c = classes r c"
    by auto
  have new: "classes r' (a + n) = None" using r'(5) Suc.prems(2) by simp
  have room: "inheritance_cnt r' + nat 0 < length (inheritances r')" using r'(2,3) Suc.prems(1) by simp
  obtain r'' k where "registry_made object_type r''" "classes r'' = (classes r')(a + n \<mapsto> k)" "cdepth k = 0"
    "cindex k = object_type + word_of_nat (nb_classes r')" "inheritance_index k = push_bit 36 (word_of_nat (inheritance_cnt r'))"
    "inheritance_cnt r'' = inheritance_cnt r' + nat (0 + 1)" "length (inheritances r'') = length (inheritances r')" "nb_classes r'' = nb_classes r' + 1"
    using new_class_made [OF r'(1) new, where super = None and depth = 0] room by auto
  then show ?case using r' by (intro exI [of _ r'']) auto
qed

text \<open>A root, a class under it and 253 more roots fill the vector: the last object is tested outside of it.\<close>

theorem instance_tests_witness:
  "\<exists>(r :: unit registry) ko kc. registry_made 100 r \<and> classes r 254 = Some ko \<and> classes r 1 = Some kc \<and> cdepth kc = 1 \<and>
     (\<exists>b. isa32 (classes r) 254 1 (cdepth kc) = Some b) \<and> isa64 r (BGL_OBJECT_CLASS_NUM_SET (BGL_CLASS_NUM ko)) 1 (cdepth kc) = None"
proof -
  let ?r0 = "initialize_objects :: unit registry"
  have r0: "registry_made 100 ?r0" "inheritance_cnt ?r0 = 0" "length (inheritances ?r0) = 256" "nb_classes ?r0 = 0" "classes ?r0 = Map.empty"
    by (simp_all add: made_init) (simp_all add: initialize_objects_def)
  obtain r1 k1 where r1: "registry_made 100 r1" "classes r1 = (classes ?r0)(0 \<mapsto> k1)" "cdepth k1 = 0"
    "inheritance_cnt r1 = inheritance_cnt ?r0 + nat (0 + 1)" "length (inheritances r1) = length (inheritances ?r0)" "nb_classes r1 = nb_classes ?r0 + 1"
    using new_class_made [OF r0(1), where klass = 0 and super = None and depth = 0] r0(2,3,5) by simp blast
  obtain r2 k2 where r2: "registry_made 100 r2" "classes r2 = (classes r1)(1 \<mapsto> k2)" "cdepth k2 = 1"
    "inheritance_cnt r2 = inheritance_cnt r1 + nat (1 + 1)" "length (inheritances r2) = length (inheritances r1)" "nb_classes r2 = nb_classes r1 + 1"
    using new_class_made [OF r1(1), where klass = 1 and super = "Some 0" and depth = 1] r1(2-5) r0(2,3,5) by simp blast
  obtain r k where r: "registry_made 100 r" "inheritance_cnt r = 256" "length (inheritances r) = 256" "classes r 1 = Some k2"
      "classes r 254 = Some k" "cindex k = 354" "inheritance_index k = push_bit 36 255"
    using roots_made [OF r2(1), of 253 2] r2 r1 r0(2-5) by auto
  have t: "BGL_OBJECT_INHERITANCE_NUM (BGL_OBJECT_CLASS_NUM_SET (BGL_CLASS_NUM k)) = 255"
    using header_class(2) [of 354 255] r(6,7) by (simp add: BGL_CLASS_NUM_def)
  from instance_tests [OF r(1,5,4)] r(2,3,6) r2(3) t
  have "isa32 (classes r) 254 1 1 = Some (superclass (classes r) 1 254) \<and> isa64 r (BGL_OBJECT_CLASS_NUM_SET (BGL_CLASS_NUM k)) 1 1 = None"
    by (simp add: Let_def)
  then have "registry_made 100 r \<and> classes r 254 = Some k \<and> classes r 1 = Some k2 \<and> cdepth k2 = 1 \<and>
     (\<exists>b. isa32 (classes r) 254 1 (cdepth k2) = Some b) \<and> isa64 r (BGL_OBJECT_CLASS_NUM_SET (BGL_CLASS_NUM k)) 1 (cdepth k2) = None"
    using r r2(3) by simp
  then show ?thesis by blast
qed

end
