(* ===== verification/Cbinary.thy ===== *)
theory Cbinary
  imports Bstring
begin

text \<open>
  Binary ports, \<open>runtime/Clib/cbinary.c\<close>: strings and objects over streams of the C library. The functions of
  \<open>stdio.h\<close> on regular files are modelled; the Scheme functions \<open>obj_to_string\<close> and \<open>string_to_obj\<close> are
  parameters.
\<close>

section \<open>Streams of the C library\<close>

text \<open>
  A stream holds its file: the bytes, the position and the end-of-file indicator. \<open>fspace\<close> is the number of bytes
  that the device can still store. The bytes reach the file system when the stream is flushed or closed.
\<close>

record FILE =
  fname :: "u8 list"
  fdata :: "u8 list"
  fpos :: nat
  feof :: bool
  freadable :: bool
  fwritable :: bool
  fspace :: nat

type_synonym file_system = "u8 list \<rightharpoonup> u8 list"

datatype open_mode = Mode_wb | Mode_ab | Mode_rb

text \<open>\<open>may_open\<close> tells whether the system lets the file be opened, \<open>space\<close> how much room the device has.\<close>

definition fopen :: "(u8 list \<Rightarrow> bool) \<Rightarrow> nat \<Rightarrow> file_system \<Rightarrow> u8 list \<Rightarrow> open_mode \<Rightarrow> FILE option \<times> file_system" where
  "fopen may_open space fs name mode =
     (if \<not> may_open name then (None, fs)
      else case mode of
        Mode_wb \<Rightarrow>
          (Some \<lparr>fname = name, fdata = [], fpos = 0, feof = False, freadable = False, fwritable = True, fspace = space\<rparr>, fs(name \<mapsto> []))
      | Mode_ab \<Rightarrow>
          let bs = (case fs name of None \<Rightarrow> [] | Some bs \<Rightarrow> bs) in
          (Some \<lparr>fname = name, fdata = bs, fpos = 0, feof = False, freadable = True, fwritable = True, fspace = space\<rparr>, fs(name \<mapsto> bs))
      | Mode_rb \<Rightarrow>
          (case fs name of
             None \<Rightarrow> (None, fs)
           | Some bs \<Rightarrow>
               (Some \<lparr>fname = name, fdata = bs, fpos = 0, feof = False, freadable = True, fwritable = False, fspace = 0\<rparr>, fs)))"

definition fflush :: "FILE \<Rightarrow> file_system \<Rightarrow> file_system" where
  "fflush f fs = (if fwritable f then fs(fname f \<mapsto> fdata f) else fs)"

text \<open>\<open>fwrite( s, length, 1, f )\<close>: nothing in the code moves the position of a stream, so that writes go to the end.\<close>

definition fwrite :: "u8 list \<Rightarrow> FILE \<Rightarrow> int \<times> FILE" where
  "fwrite bs f =
     (if \<not> fwritable f \<or> bs = [] then (0, f)
      else let k = min (length bs) (fspace f) in
        (if k = length bs then 1 else 0,
         f\<lparr>fdata := fdata f @ take k bs, fpos := length (fdata f) + k, fspace := fspace f - k\<rparr>))"

text \<open>\<open>fread\<close> of \<open>n\<close> bytes: the bytes that it stores.\<close>

definition fread :: "nat \<Rightarrow> FILE \<Rightarrow> u8 list \<times> FILE" where
  "fread n f =
     (if \<not> freadable f \<or> feof f \<or> n = 0 then ([], f)
      else let bs = take n (drop (fpos f) (fdata f)) in
        (bs, f\<lparr>fpos := fpos f + length bs, feof := length bs < n\<rparr>))"

text \<open>\<open>fread( buf, n, 1, f )\<close>: the same bytes, and the result tells whether they are all there.\<close>

definition fread1 :: "nat \<Rightarrow> FILE \<Rightarrow> int \<times> u8 list \<times> FILE" where
  "fread1 n f = (let (bs, f) = fread n f in (if n \<noteq> 0 \<and> length bs = n then 1 else 0, bs, f))"

section \<open>Ports\<close>

text \<open>A pointer to a stream that has been closed is \<open>None\<close>: its use is undefined.\<close>

record binary_port =
  bname :: bgl_string
  bfile :: "FILE option"
  bio :: int

definition BINARY_PORT_IN :: int where "BINARY_PORT_IN = 0"
definition BINARY_PORT_OUT :: int where "BINARY_PORT_OUT = 1"

definition bgl_make_binary_port :: "u8 cells \<Rightarrow> FILE \<Rightarrow> int \<Rightarrow> binary_port option" where
  "bgl_make_binary_port name file inout = do {
     s \<leftarrow> string_to_bstring (Some name);
     Some \<lparr>bname = s, bfile = Some file, bio = inout\<rparr> }"

text \<open>The result \<open>None\<close> in the pair is \<open>BFALSE\<close>.\<close>

definition open_binary_file :: "open_mode \<Rightarrow> int \<Rightarrow> (u8 list \<Rightarrow> bool) \<Rightarrow> nat \<Rightarrow> file_system \<Rightarrow> bgl_string \<Rightarrow> (binary_port option \<times> file_system) option" where
  "open_binary_file mode inout may_open space fs name = do {
     n \<leftarrow> strlen_from (char0 name) 0;
     cname \<leftarrow> rds (char0 name) 0 n;
     let (file, fs) = fopen may_open space fs cname mode;
     case file of
       None \<Rightarrow> Some (None, fs)
     | Some f \<Rightarrow> do { p \<leftarrow> bgl_make_binary_port (char0 name) f inout; Some (Some p, fs) } }"

definition open_output_binary_file :: "(u8 list \<Rightarrow> bool) \<Rightarrow> nat \<Rightarrow> file_system \<Rightarrow> bgl_string \<Rightarrow> (binary_port option \<times> file_system) option" where
  "open_output_binary_file = open_binary_file Mode_wb BINARY_PORT_OUT"

definition append_output_binary_file :: "(u8 list \<Rightarrow> bool) \<Rightarrow> nat \<Rightarrow> file_system \<Rightarrow> bgl_string \<Rightarrow> (binary_port option \<times> file_system) option" where
  "append_output_binary_file = open_binary_file Mode_ab BINARY_PORT_OUT"

definition open_input_binary_file :: "(u8 list \<Rightarrow> bool) \<Rightarrow> nat \<Rightarrow> file_system \<Rightarrow> bgl_string \<Rightarrow> (binary_port option \<times> file_system) option" where
  "open_input_binary_file = open_binary_file Mode_rb BINARY_PORT_IN"

definition close_binary_port :: "binary_port \<Rightarrow> file_system \<Rightarrow> (binary_port \<times> file_system) option" where
  "close_binary_port p fs =
     (if bio p < 2 then do { f \<leftarrow> bfile p; Some (p\<lparr>bio := 2, bfile := None\<rparr>, fflush f fs) }
      else Some (p, fs))"

definition bgl_flush_binary_port :: "binary_port \<Rightarrow> file_system \<Rightarrow> file_system option" where
  "bgl_flush_binary_port p fs = do { f \<leftarrow> bfile p; Some (fflush f fs) }"

section \<open>Strings\<close>

definition bgl_output_string :: "binary_port \<Rightarrow> bgl_string \<Rightarrow> (int \<times> binary_port) option" where
  "bgl_output_string p s = do {
     f \<leftarrow> bfile p;
     bs \<leftarrow> rds (char0 s) 0 (str_length s);
     let (n, f) = fwrite bs f;
     Some (n, p\<lparr>bfile := Some f\<rparr>) }"

definition bgl_input_string :: "binary_port \<Rightarrow> int \<Rightarrow> (bgl_string \<times> binary_port) option" where
  "bgl_input_string p len = do {
     f \<leftarrow> bfile p;
     s \<leftarrow> make_string_sans_fill len;
     let (bs, f) = fread (nat len) f;
     let sz = int (length bs);
     m \<leftarrow> blit (char0 s) 0 (map Some bs) 0 (length bs);
     r \<leftarrow> (if sz < len div 2 then bgl_string_shrink (s\<lparr>char0 := m\<rparr>) sz else string_to_bstring_len (Some m) sz);
     Some (r, p\<lparr>bfile := Some f\<rparr>) }"

definition bgl_input_fill_string :: "binary_port \<Rightarrow> bgl_string \<Rightarrow> (int \<times> bgl_string \<times> binary_port) option" where
  "bgl_input_fill_string p s = do {
     f \<leftarrow> bfile p;
     len \<leftarrow> idx (int32 (int (str_length s)));
     let (bs, f) = fread len f;
     m \<leftarrow> blit (char0 s) 0 (map Some bs) 0 (length bs);
     Some (int (length bs), s\<lparr>char0 := m\<rparr>, p\<lparr>bfile := Some f\<rparr>) }"

section \<open>Objects\<close>

definition MAGIC_WORD :: "u8 list" where "MAGIC_WORD = bytes ''1966''"

definition STRING_SIZE :: nat where "STRING_SIZE = 16"

definition output_obj :: "('o \<Rightarrow> bgl_string) \<Rightarrow> binary_port \<Rightarrow> 'o \<Rightarrow> ('o \<times> binary_port) option" where
  "output_obj obj_to_string p obj = do {
     f \<leftarrow> bfile p;
     let string = obj_to_string obj;
     let (_, f) = fwrite MAGIC_WORD f;
     let clen = (word_of_nat (str_length string) :: c_long);
     let slen = [ucast clen, ucast (signed_drop_bit 8 clen), ucast (signed_drop_bit 16 clen), ucast (signed_drop_bit 24 clen)];
     let (_, f) = fwrite slen f;
     bs \<leftarrow> rds (char0 string) 0 (str_length string);
     let (_, f) = fwrite bs f;
     Some (obj, p\<lparr>bfile := Some f\<rparr>) }"

definition corrupted :: failure where
  "corrupted = C_System_Failure BGL_IO_READ_ERROR ''input_obj'' ''corrupted file''"

definition no_memory :: failure where
  "no_memory = C_System_Failure BGL_IO_ERROR ''input_obj'' (''can'' @ CHR 0x27 # ''t allocate string'')"

text \<open>
  The string of the object, in the local buffer or in a block of \<open>malloc\<close>; no null character is written. \<open>mem\<close> tells
  which sizes \<open>malloc\<close> can serve.
\<close>

definition input_body :: "(nat \<Rightarrow> bool) \<Rightarrow> (bgl_string \<Rightarrow> failure + 'o) \<Rightarrow> FILE \<Rightarrow> nat \<Rightarrow> ((failure + 'o option) \<times> FILE) option" where
  "input_body mem string_to_obj f clen =
     (if 1024 \<le> clen \<and> \<not> mem (STRING_SIZE + clen) then Some (Inl no_memory, f)
      else do {
        let block = (if clen < 1024 then 1024 + STRING_SIZE else STRING_SIZE + clen);
        let (size, bs, f) = fread1 clen f;
        m \<leftarrow> blit (gc_malloc (block - 8)) 0 (map Some bs) 0 (length bs);
        if size = 0 then Some (Inl corrupted, f)
        else case string_to_obj \<lparr>str_length = clen, char0 = m\<rparr> of
          Inl e \<Rightarrow> Some (Inl e, f)
        | Inr obj \<Rightarrow> Some (Inr (Some obj), f) })"

text \<open>The object \<open>None\<close> is \<open>BEOF\<close>.\<close>

definition input_file :: "(nat \<Rightarrow> bool) \<Rightarrow> (bgl_string \<Rightarrow> failure + 'o) \<Rightarrow> FILE \<Rightarrow> ((failure + 'o option) \<times> FILE) option" where
  "input_file mem string_to_obj f =
     (if feof f then Some (Inr None, f)
      else
        let (size, magic, f) = fread1 4 f in
        if feof f \<or> size = 0 then Some (Inr None, f)
        else if size \<noteq> 1 \<or> magic \<noteq> MAGIC_WORD then Some (Inl corrupted, f)
        else
          let (size, slen, f) = fread1 4 f in
          if size \<noteq> 1 then Some (Inl corrupted, f)
          else
            let clen = unat (slen ! 0) + unat (slen ! 1) * 2 ^ 8 + unat (slen ! 2) * 2 ^ 16 + unat (slen ! 3) * 2 ^ 24 in
            input_body mem string_to_obj f clen)"

definition input_obj :: "(nat \<Rightarrow> bool) \<Rightarrow> (bgl_string \<Rightarrow> failure + 'o) \<Rightarrow> binary_port \<Rightarrow> ((failure + 'o option) \<times> binary_port) option" where
  "input_obj mem string_to_obj p = do {
     f \<leftarrow> bfile p;
     (r, f) \<leftarrow> input_file mem string_to_obj f;
     Some (r, p\<lparr>bfile := Some f\<rparr>) }"

section \<open>One stream operation\<close>

lemma fwrite_fits:
  assumes "fwritable f" and "length bs \<le> fspace f"
  shows "snd (fwrite bs f) = f\<lparr>fdata := fdata f @ bs, fspace := fspace f - length bs, fpos := if bs = [] then fpos f else length (fdata f @ bs)\<rparr>"
  using assms by (simp add: fwrite_def Let_def)

text \<open>What is still to be read.\<close>

definition unread :: "FILE \<Rightarrow> u8 list" where
  "unread f = drop (fpos f) (fdata f)"

lemma fread_all:
  assumes "freadable f" and "\<not> feof f" and "unread f = bs @ rest" and "n = length bs"
  shows "fread n f = (bs, f\<lparr>fpos := fpos f + n\<rparr>)" and "unread (f\<lparr>fpos := fpos f + n\<rparr>) = rest"
proof -
  show "fread n f = (bs, f\<lparr>fpos := fpos f + n\<rparr>)"
    using assms by (cases "n = 0") (simp_all add: fread_def unread_def)
  show "unread (f\<lparr>fpos := fpos f + n\<rparr>) = rest"
    using assms(3,4) by (simp add: unread_def) (metis append_eq_conv_conj drop_drop add.commute)
qed

lemma fread_short:
  assumes "freadable f" and "\<not> feof f" and "length (unread f) < n"
  shows "fread n f = (unread f, f\<lparr>fpos := fpos f + length (unread f), feof := True\<rparr>)"
  using assms by (simp add: fread_def unread_def Let_def)

section \<open>One object\<close>

text \<open>The bytes of an object in a file: the magic word, the length and the string.\<close>

definition le32 :: "nat \<Rightarrow> u8 list" where
  "le32 n = [word_of_nat n, word_of_nat (n div 2 ^ 8), word_of_nat (n div 2 ^ 16), word_of_nat (n div 2 ^ 24)]"

definition obj_bytes :: "u8 list \<Rightarrow> u8 list" where
  "obj_bytes bs = MAGIC_WORD @ le32 (length bs) @ bs"

lemma length_layout [simp]: "length MAGIC_WORD = 4" "length (le32 n) = 4" "MAGIC_WORD \<noteq> []" "le32 n \<noteq> []"
  by (simp_all add: MAGIC_WORD_def bytes_def le32_def)

lemma slen_le32:
  assumes "n < 2 ^ 63"
  shows "[ucast (word_of_nat n :: c_long), ucast (signed_drop_bit 8 (word_of_nat n :: c_long)),
     ucast (signed_drop_bit 16 (word_of_nat n :: c_long)), ucast (signed_drop_bit 24 (word_of_nat n :: c_long))] = le32 n"
proof -
  have "ucast (signed_drop_bit k (word_of_nat n :: c_long)) = (word_of_nat (n div 2 ^ k) :: u8)" if "k \<le> 24" for k
  proof (rule bit_word_eqI)
    fix i assume "i < LENGTH(8)"
    then have i: "i < 8" by simp
    then have "\<not> 64 - k \<le> i" using that by linarith
    then show "bit (ucast (signed_drop_bit k (word_of_nat n :: c_long)) :: u8) i \<longleftrightarrow> bit (word_of_nat (n div 2 ^ k) :: u8) i"
      using i that by (simp add: bit_simps drop_bit_eq_div [symmetric])
  qed
  from this [of 8] this [of 16] this [of 24] this [of 0] show ?thesis by (simp add: le32_def)
qed

lemma le32_value:
  "unat (le32 n ! 0) + unat (le32 n ! 1) * 2 ^ 8 + unat (le32 n ! 2) * 2 ^ 16 + unat (le32 n ! 3) * 2 ^ 24 = n mod 2 ^ 32"
proof -
  have "unat (word_of_nat k :: u8) = k mod 256" for k by (simp add: unat_of_nat)
  then have "unat (le32 n ! 0) = n mod 256" "unat (le32 n ! 1) = n div 256 mod 256" "unat (le32 n ! 2) = n div 256 div 256 mod 256"
      "unat (le32 n ! 3) = n div 256 div 256 div 256 mod 256"
    by (simp_all add: le32_def nth_Cons' div_mult2_eq [symmetric])
  moreover have "n mod 2 ^ 32 = 256 * (n div 256 mod 2 ^ 24) + n mod 256" for n :: nat
    using mod_mult2_eq [of n 256 "2 ^ 24"] by simp
  moreover have "n mod 2 ^ 24 = 256 * (n div 256 mod 2 ^ 16) + n mod 256" for n :: nat
    using mod_mult2_eq [of n 256 "2 ^ 16"] by simp
  moreover have "n mod 2 ^ 16 = 256 * (n div 256 mod 256) + n mod 256" for n :: nat
    using mod_mult2_eq [of n 256 256] by simp
  ultimately show ?thesis by simp
qed

lemma output_obj_spec:
  assumes "bfile p = Some f" and "fwritable f" and "rds (char0 (obj_to_string obj)) 0 (str_length (obj_to_string obj)) = Some bs"
    and "length bs < 2 ^ 63" and "length (obj_bytes bs) \<le> fspace f"
  shows "output_obj obj_to_string p obj = Some (obj, p\<lparr>bfile := Some (f\<lparr>fdata := fdata f @ obj_bytes bs,
    fpos := length (fdata f @ obj_bytes bs), fspace := fspace f - length (obj_bytes bs)\<rparr>)\<rparr>)"
proof -
  have len: "str_length (obj_to_string obj) = length bs" using length_rds [OF assms(3)] by simp
  have room: "length (MAGIC_WORD @ le32 (length bs) @ bs) \<le> fspace f" using assms(5) by (simp add: obj_bytes_def)
  show ?thesis
    using assms(1-3) room slen_le32 [OF assms(4)]
    by (auto simp: output_obj_def Let_def case_prod_unfold len fwrite_fits obj_bytes_def)
qed

text \<open>Reading: what the parts of \<open>input_obj\<close> do on a readable stream that has not met its end.\<close>

definition at :: "FILE \<Rightarrow> u8 list \<Rightarrow> bool" where
  "at f bs \<longleftrightarrow> freadable f \<and> \<not> feof f \<and> unread f = bs"

lemma fread_at:
  assumes "at f (bs @ rest)"
  shows "\<exists>f'. fread (length bs) f = (bs, f') \<and> at f' rest"
  using assms fread_all [of f bs rest "length bs"] by (simp add: at_def)

lemma fread1_at:
  assumes "at f (bs @ rest)" and "length bs = n" and "n \<noteq> 0"
  shows "\<exists>f'. fread1 n f = (1, bs, f') \<and> at f' rest"
  using fread_at [OF assms(1)] assms(2,3) by (auto simp: fread1_def)

lemma fread1_short:
  assumes "at f bs" and "length bs < n"
  shows "\<exists>f'. fread1 n f = (0, bs, f') \<and> feof f'"
  using assms fread_short [of f n] by (simp add: fread1_def at_def)

lemma input_body_spec:
  assumes "at f tail"
  shows "clen < 1024 \<or> mem (STRING_SIZE + clen) \<Longrightarrow> clen = 0 \<or> length tail < clen \<Longrightarrow>
      \<exists>f'. input_body mem string_to_obj f clen = Some (Inl corrupted, f')"
    and "clen < 1024 \<or> mem (STRING_SIZE + clen) \<Longrightarrow> 0 < clen \<Longrightarrow> clen \<le> length tail \<Longrightarrow> \<exists>f' sl. at f' (drop clen tail) \<and> input_body mem string_to_obj f clen =
      Some (map_sum id Some (string_to_obj \<lparr>str_length = clen, char0 = map Some (take clen tail) @ sl\<rparr>), f')"
proof -
  assume "clen < 1024 \<or> mem (STRING_SIZE + clen)" and "clen = 0 \<or> length tail < clen"
  moreover from this(2) obtain bs f' where "fread1 clen f = (0, bs, f')" "length bs \<le> clen"
    using fread1_short [OF assms, of clen] by (cases "clen = 0") (auto simp: fread1_def fread_def)
  ultimately show "\<exists>f'. input_body mem string_to_obj f clen = Some (Inl corrupted, f')"
    by (auto simp: input_body_def Let_def blit_def gc_malloc_def STRING_SIZE_def)
next
  assume granted: "clen < 1024 \<or> mem (STRING_SIZE + clen)" and clen: "0 < clen" "clen \<le> length tail"
  then obtain f' where f': "fread1 clen f = (1, take clen tail, f')" "at f' (drop clen tail)"
    using fread1_at [of f "take clen tail" "drop clen tail" clen] assms by auto
  let ?block = "if clen < 1024 then 1024 + STRING_SIZE else STRING_SIZE + clen"
  have "blit (gc_malloc (?block - 8)) 0 (map Some (take clen tail)) 0 (length (take clen tail)) =
      Some (map Some (take clen tail) @ drop clen (gc_malloc (?block - 8)))"
    using clen by (simp add: blit_def gc_malloc_def STRING_SIZE_def)
  then show "\<exists>f' sl. at f' (drop clen tail) \<and> input_body mem string_to_obj f clen =
      Some (map_sum id Some (string_to_obj \<lparr>str_length = clen, char0 = map Some (take clen tail) @ sl\<rparr>), f')"
    using f' granted by (intro exI [of _ f'] exI [of _ "drop clen (gc_malloc (?block - 8))"])
      (simp add: input_body_def [of mem string_to_obj f clen, unfolded Let_def] not_le [symmetric] disj_imp split: sum.split)
qed

lemma input_body_refused:
  "1024 \<le> clen \<and> \<not> mem (STRING_SIZE + clen) \<Longrightarrow> input_body mem string_to_obj f clen = Some (Inl no_memory, f)"
  by (simp add: input_body_def)

lemma input_file_header:
  assumes "at f (MAGIC_WORD @ le32 n @ tail)"
  shows "\<exists>f'. at f' tail \<and> input_file mem string_to_obj f = input_body mem string_to_obj f' (n mod 2 ^ 32)"
proof -
  obtain f1 where f1: "fread1 4 f = (1, MAGIC_WORD, f1)" "at f1 (le32 n @ tail)"
    using fread1_at [OF assms, of 4] by auto
  obtain f2 where f2: "fread1 4 f1 = (1, le32 n, f2)" "at f2 tail" using fread1_at [OF f1(2), of 4] by auto
  have "\<not> feof f" "\<not> feof f1" using assms f1(2) by (simp_all add: at_def)
  then show ?thesis using f1(1) f2 le32_value [of n]
    by (intro exI [of _ f2]) (simp add: input_file_def Let_def)
qed

lemma input_file_broken:
  shows "at f bs \<Longrightarrow> length bs < 4 \<Longrightarrow> \<exists>f'. input_file mem string_to_obj f = Some (Inr None, f')"
    and "at f (bs @ rest) \<Longrightarrow> length bs = 4 \<Longrightarrow> bs \<noteq> MAGIC_WORD \<Longrightarrow> \<exists>f'. input_file mem string_to_obj f = Some (Inl corrupted, f')"
    and "at f (MAGIC_WORD @ bs) \<Longrightarrow> length bs < 4 \<Longrightarrow> \<exists>f'. input_file mem string_to_obj f = Some (Inl corrupted, f')"
proof -
  assume "at f bs" "length bs < 4"
  with fread1_short [of f bs 4] show "\<exists>f'. input_file mem string_to_obj f = Some (Inr None, f')"
    by (auto simp: input_file_def at_def)
next
  assume f: "at f (bs @ rest)" "length bs = 4" "bs \<noteq> MAGIC_WORD"
  with fread1_at [OF f(1), of 4] show "\<exists>f'. input_file mem string_to_obj f = Some (Inl corrupted, f')"
    by (auto simp: input_file_def at_def)
next
  assume f: "at f (MAGIC_WORD @ bs)" "length bs < 4"
  obtain f1 where f1: "fread1 4 f = (1, MAGIC_WORD, f1)" "at f1 bs" using fread1_at [OF f(1), of 4] by auto
  with fread1_short [OF f1(2) f(2)] f(1) show "\<exists>f'. input_file mem string_to_obj f = Some (Inl corrupted, f')"
    by (auto simp: input_file_def at_def)
qed

section \<open>Files of objects\<close>

text \<open>A program that writes objects, and one that reads as many.\<close>

fun output_objs :: "('o \<Rightarrow> bgl_string) \<Rightarrow> binary_port \<Rightarrow> 'o list \<Rightarrow> binary_port option" where
  "output_objs obj_to_string p [] = Some p"
| "output_objs obj_to_string p (obj # objs) = do { (_, p) \<leftarrow> output_obj obj_to_string p obj; output_objs obj_to_string p objs }"

fun input_objs :: "(nat \<Rightarrow> bool) \<Rightarrow> (bgl_string \<Rightarrow> failure + 'o) \<Rightarrow> binary_port \<Rightarrow> nat \<Rightarrow> (failure + 'o option) list option" where
  "input_objs mem string_to_obj p 0 = Some []"
| "input_objs mem string_to_obj p (Suc n) = do {
     (r, p) \<leftarrow> input_obj mem string_to_obj p;
     rs \<leftarrow> input_objs mem string_to_obj p n;
     Some (r # rs) }"

text \<open>What the code relies on: the text of an object is not empty, and reading it gives the object.\<close>

definition text_of :: "('o \<Rightarrow> bgl_string) \<Rightarrow> 'o \<Rightarrow> u8 list" where
  "text_of obj_to_string obj = the (rds (char0 (obj_to_string obj)) 0 (str_length (obj_to_string obj)))"

definition serial_law :: "('o \<Rightarrow> bgl_string) \<Rightarrow> (bgl_string \<Rightarrow> failure + 'o) \<Rightarrow> bool" where
  "serial_law obj_to_string string_to_obj \<longleftrightarrow>
     (\<forall>obj. rds (char0 (obj_to_string obj)) 0 (str_length (obj_to_string obj)) = Some (text_of obj_to_string obj) \<and>
        text_of obj_to_string obj \<noteq> [] \<and>
        (\<forall>sl. string_to_obj \<lparr>str_length = length (text_of obj_to_string obj),
           char0 = map Some (text_of obj_to_string obj) @ sl\<rparr> = Inr obj))"

definition file_bytes :: "('o \<Rightarrow> bgl_string) \<Rightarrow> 'o list \<Rightarrow> u8 list" where
  "file_bytes obj_to_string objs = concat (map (\<lambda>obj. obj_bytes (text_of obj_to_string obj)) objs)"

lemma output_objs_spec:
  assumes "serial_law obj_to_string string_to_obj" and "bfile p = Some f" and "fwritable f"
    and "\<forall>obj \<in> set objs. length (text_of obj_to_string obj) < 2 ^ 32"
    and "length (file_bytes obj_to_string objs) \<le> fspace f"
  shows "\<exists>g. output_objs obj_to_string p objs = Some (p\<lparr>bfile := Some g\<rparr>) \<and> fdata g = fdata f @ file_bytes obj_to_string objs \<and>
    fwritable g \<and> fname g = fname f"
  using assms(2-5)
proof (induction objs arbitrary: p f)
  case Nil
  then show ?case by (simp add: file_bytes_def) (metis binary_port.surjective binary_port.update_convs(2))
next
  case (Cons obj objs)
  let ?bs = "text_of obj_to_string obj"
  let ?f = "f\<lparr>fdata := fdata f @ obj_bytes ?bs, fpos := length (fdata f @ obj_bytes ?bs), fspace := fspace f - length (obj_bytes ?bs)\<rparr>"
  have "rds (char0 (obj_to_string obj)) 0 (str_length (obj_to_string obj)) = Some ?bs"
    using assms(1) by (simp add: serial_law_def)
  moreover have "length ?bs < 2 ^ 63" using Cons.prems(3) by fastforce
  moreover have "length (obj_bytes ?bs) \<le> fspace f" using Cons.prems(4) by (simp add: file_bytes_def)
  ultimately have step: "output_obj obj_to_string p obj = Some (obj, p\<lparr>bfile := Some ?f\<rparr>)"
    using Cons.prems(1,2) by (intro output_obj_spec)
  have "\<exists>g. output_objs obj_to_string (p\<lparr>bfile := Some ?f\<rparr>) objs = Some (p\<lparr>bfile := Some ?f\<rparr>\<lparr>bfile := Some g\<rparr>) \<and>
      fdata g = fdata ?f @ file_bytes obj_to_string objs \<and> fwritable g \<and> fname g = fname ?f"
    using Cons.prems by (intro Cons.IH) (simp_all add: file_bytes_def)
  then show ?case by (auto simp: step file_bytes_def)
qed

lemma input_objs_spec:
  assumes "serial_law obj_to_string string_to_obj" and "bfile p = Some f" and "at f (file_bytes obj_to_string objs)"
    and "\<forall>obj \<in> set objs. length (text_of obj_to_string obj) < 2 ^ 32"
    and "\<forall>obj \<in> set objs. length (text_of obj_to_string obj) < 1024 \<or> mem (STRING_SIZE + length (text_of obj_to_string obj))"
  shows "input_objs mem string_to_obj p (length objs + 1) = Some (map (Inr \<circ> Some) objs @ [Inr None])"
  using assms(2-5)
proof (induction objs arbitrary: p f)
  case Nil
  then obtain g where "input_file mem string_to_obj f = Some (Inr None, g)"
    using input_file_broken(1) [of f "[]"] by (auto simp: file_bytes_def)
  then show ?case using Nil.prems(1) by (simp add: input_obj_def)
next
  case (Cons obj objs)
  let ?bs = "text_of obj_to_string obj"
  have law: "?bs \<noteq> []" "\<And>sl. string_to_obj \<lparr>str_length = length ?bs, char0 = map Some ?bs @ sl\<rparr> = Inr obj"
    using assms(1) by (simp_all add: serial_law_def)
  have "at f (MAGIC_WORD @ le32 (length ?bs) @ ?bs @ file_bytes obj_to_string objs)"
    using Cons.prems(2) by (simp add: file_bytes_def obj_bytes_def)
  then obtain f1 where f1: "at f1 (?bs @ file_bytes obj_to_string objs)" "input_file mem string_to_obj f = input_body mem string_to_obj f1 (length ?bs)"
    using input_file_header Cons.prems(3) by fastforce
  obtain g where g: "at g (file_bytes obj_to_string objs)" "input_file mem string_to_obj f = Some (Inr (Some obj), g)"
    using input_body_spec(2) [OF f1(1), of "length ?bs" mem string_to_obj] f1(2) law Cons.prems(4) by auto
  have rest: "input_objs mem string_to_obj (p\<lparr>bfile := Some g\<rparr>) (length objs + 1) = Some (map (Inr \<circ> Some) objs @ [Inr None])"
    using g(1) Cons.prems(3,4) by (intro Cons.IH [of _ g]) simp_all
  have "input_obj mem string_to_obj p = Some (Inr (Some obj), p\<lparr>bfile := Some g\<rparr>)"
    using Cons.prems(1) g(2) by (simp add: input_obj_def)
  then have "input_objs mem string_to_obj p (Suc (length objs + 1)) = Some (map (Inr \<circ> Some) (obj # objs) @ [Inr None])"
    by (simp add: rest del: One_nat_def add_Suc_right)
  then show ?case by simp
qed

lemma open_file:
  assumes "0 \<notin> set nm" and "length nm < 2 ^ 31" and "fopen may_open space fs nm mode = (Some f, fs')"
  shows "open_binary_file mode inout may_open space fs (str_rep nm sl) =
    Some (Some \<lparr>bname = bstring_of nm, bfile = Some f, bio = inout\<rparr>, fs')"
  using assms by (simp add: open_binary_file_def bgl_make_binary_port_def str_rep_def mem_simps bstr rds_append_left)

text \<open>C10: files of objects: whatever objects a program writes to a new file, a program that reads the file gets the same
  objects in the same order, and then the end of the file, when the device has room for them and the memory serves the
  blocks that reading asks for. Closing twice is harmless.\<close>

theorem object_files:
  assumes "serial_law obj_to_string string_to_obj" and "0 \<notin> set nm" and "length nm < 2 ^ 31" and "may_open nm"
    and "\<forall>obj \<in> set objs. length (text_of obj_to_string obj) < 2 ^ 32"
    and "\<forall>obj \<in> set objs. length (text_of obj_to_string obj) < 1024 \<or> mem (STRING_SIZE + length (text_of obj_to_string obj))"
    and "length (file_bytes obj_to_string objs) \<le> space"
  shows "\<exists>p q c fs1 fs2 p'.
    open_output_binary_file may_open space fs (str_rep nm sl) = Some (Some p, fs1) \<and>
    output_objs obj_to_string p objs = Some q \<and>
    close_binary_port q fs1 = Some (c, fs2) \<and> close_binary_port c fs2 = Some (c, fs2) \<and>
    open_input_binary_file may_open space fs2 (str_rep nm sl) = Some (Some p', fs2) \<and>
    input_objs mem string_to_obj p' (length objs + 1) = Some (map (Inr \<circ> Some) objs @ [Inr None])"
proof -
  let ?f = "\<lparr>fname = nm, fdata = [], fpos = 0, feof = False, freadable = False, fwritable = True, fspace = space\<rparr>"
  let ?p = "\<lparr>bname = bstring_of nm, bfile = Some ?f, bio = BINARY_PORT_OUT\<rparr>"
  obtain g where g: "output_objs obj_to_string ?p objs = Some (?p\<lparr>bfile := Some g\<rparr>)" "fdata g = file_bytes obj_to_string objs"
      "fwritable g" "fname g = nm"
    using output_objs_spec [OF assms(1), of ?p ?f objs] assms(5,7) by auto
  let ?fs = "fs(nm \<mapsto> file_bytes obj_to_string objs)"
  let ?c = "?p\<lparr>bfile := None, bio := 2\<rparr>"
  let ?g = "\<lparr>fname = nm, fdata = file_bytes obj_to_string objs, fpos = 0, feof = False, freadable = True, fwritable = False, fspace = 0\<rparr>"
  let ?p' = "\<lparr>bname = bstring_of nm, bfile = Some ?g, bio = BINARY_PORT_IN\<rparr>"
  have "at ?g (file_bytes obj_to_string objs)" by (simp add: at_def unread_def)
  then have "input_objs mem string_to_obj ?p' (length objs + 1) = Some (map (Inr \<circ> Some) objs @ [Inr None])"
    using assms(5,6) by (intro input_objs_spec [OF assms(1)]) simp_all
  moreover have "open_output_binary_file may_open space fs (str_rep nm sl) = Some (Some ?p, fs(nm \<mapsto> []))"
    unfolding open_output_binary_file_def by (rule open_file [OF assms(2,3)]) (simp add: fopen_def assms(4))
  moreover have "open_input_binary_file may_open space ?fs (str_rep nm sl) = Some (Some ?p', ?fs)"
    unfolding open_input_binary_file_def by (rule open_file [OF assms(2,3)]) (simp add: fopen_def assms(4))
  moreover have "close_binary_port (?p\<lparr>bfile := Some g\<rparr>) (fs(nm \<mapsto> [])) = Some (?c, ?fs)"
    using g(2-4) by (simp add: close_binary_port_def BINARY_PORT_OUT_def fflush_def)
  moreover have "close_binary_port ?c ?fs = Some (?c, ?fs)" by (simp add: close_binary_port_def)
  ultimately show ?thesis using g(1) by blast
qed

text \<open>A coding of texts that satisfies the law: the text itself, with a first character that makes it not empty.\<close>

definition tagged :: "u8 list \<Rightarrow> bgl_string" where
  "tagged t = bstring_of (34 # t)"

definition untagged :: "bgl_string \<Rightarrow> failure + u8 list" where
  "untagged s = (case rds (char0 s) 0 (str_length s) of Some (c # t) \<Rightarrow> Inr t | _ \<Rightarrow> Inl corrupted)"

lemma tagged_text [simp]: "text_of tagged t = 34 # t"
  using rds_c_string [of 0 "Suc (length t)" "34 # t"] by (simp add: text_of_def tagged_def str_rep_def)

lemma tagged_law: "serial_law tagged untagged"
proof -
  have "rds (char0 (tagged t)) 0 (str_length (tagged t)) = Some (34 # t)" for t
    using rds_c_string [of 0 "Suc (length t)" "34 # t"] by (simp add: tagged_def str_rep_def)
  moreover have "rds (map Some (34 # t) @ sl) 0 (length (34 # t)) = Some (34 # t)" for t :: "u8 list" and sl
    by (simp only: rds_append_left rds_map_Some add_0 order_refl length_map) simp
  ultimately show ?thesis by (simp add: serial_law_def untagged_def)
qed

theorem object_files_witness:
  "\<exists>p q c fs1 fs2 p'.
    open_output_binary_file (\<lambda>_. True) 100 Map.empty (str_rep (bytes ''o.bin'') []) = Some (Some p, fs1) \<and>
    output_objs tagged p [bytes ''one'', [], bytes ''two''] = Some q \<and>
    close_binary_port q fs1 = Some (c, fs2) \<and> close_binary_port c fs2 = Some (c, fs2) \<and>
    open_input_binary_file (\<lambda>_. True) 100 fs2 (str_rep (bytes ''o.bin'') []) = Some (Some p', fs2) \<and>
    input_objs (\<lambda>_. True) untagged p' (length [bytes ''one'', [], bytes ''two''] + 1) =
      Some (map (Inr \<circ> Some) [bytes ''one'', [], bytes ''two''] @ [Inr None])"
  by (rule object_files [OF tagged_law]) (simp_all add: bytes_def file_bytes_def obj_bytes_def)

text \<open>C38: files that do not hold a whole object: a file that ends inside of the magic word reads as the end of the file;
  one that ends later inside of an object, or does not begin with the magic word, raises. An object of 1024 bytes or
  more raises before its bytes are read when the memory has no block for it. An object whose text is empty cannot be
  read back, and of a text of 2^32 bytes or more only the length modulo 2^32 is written: an object is read from that
  many bytes, and the rest of its text is taken for the next object.\<close>

theorem object_file_errors:
  assumes "bfile p = Some f" and "at f bs"
  shows "(length bs < 4 \<longrightarrow> (\<exists>q. input_obj mem string_to_obj p = Some (Inr None, q))) \<and>
    (4 \<le> length bs \<and> take 4 bs \<noteq> MAGIC_WORD \<longrightarrow> (\<exists>q. input_obj mem string_to_obj p = Some (Inl corrupted, q))) \<and>
    (4 \<le> k \<and> k < length (obj_bytes t) \<and> bs = take k (obj_bytes t) \<and> length t < 2 ^ 32 \<longrightarrow>
      (\<exists>q. input_obj mem string_to_obj p =
        Some (Inl (if 8 \<le> k \<and> 1024 \<le> length t \<and> \<not> mem (STRING_SIZE + length t) then no_memory else corrupted), q))) \<and>
    (bs = obj_bytes [] @ rest \<longrightarrow> (\<exists>q. input_obj mem string_to_obj p = Some (Inl corrupted, q))) \<and>
    (bs = obj_bytes t @ rest \<and> length t mod 2 ^ 32 \<noteq> 0 \<longrightarrow>
      (if 1024 \<le> length t mod 2 ^ 32 \<and> \<not> mem (STRING_SIZE + length t mod 2 ^ 32)
       then \<exists>g. at g (t @ rest) \<and> input_obj mem string_to_obj p = Some (Inl no_memory, p\<lparr>bfile := Some g\<rparr>)
       else \<exists>g sl. at g (drop (length t mod 2 ^ 32) t @ rest) \<and> input_obj mem string_to_obj p =
        Some (map_sum id Some (string_to_obj \<lparr>str_length = length t mod 2 ^ 32, char0 = map Some (take (length t mod 2 ^ 32) t) @ sl\<rparr>),
          p\<lparr>bfile := Some g\<rparr>)))"
proof (intro conjI impI)
  have obj: "\<exists>q. input_obj mem string_to_obj p = Some (r, q)" if "\<exists>g. input_file mem string_to_obj f = Some (r, g)" for r
    using that assms(1) by (auto simp: input_obj_def)
  show "\<exists>q. input_obj mem string_to_obj p = Some (Inr None, q)" if "length bs < 4"
    using input_file_broken(1) [OF assms(2) that] by (rule obj)
  show "\<exists>q. input_obj mem string_to_obj p = Some (Inl corrupted, q)" if "4 \<le> length bs \<and> take 4 bs \<noteq> MAGIC_WORD"
    using input_file_broken(2) [of f "take 4 bs" "drop 4 bs"] assms(2) that by (intro obj) simp
  have body: "\<exists>q. input_obj mem string_to_obj p =
      Some (Inl (if 1024 \<le> n mod 2 ^ 32 \<and> \<not> mem (STRING_SIZE + n mod 2 ^ 32) then no_memory else corrupted), q)"
    if "bs = MAGIC_WORD @ le32 n @ tail" "n mod 2 ^ 32 = 0 \<or> length tail < n mod 2 ^ 32" for n tail
  proof -
    have at: "at f (MAGIC_WORD @ le32 n @ tail)" using assms(2) that(1) by simp
    obtain f' where f': "at f' tail" "input_file mem string_to_obj f = input_body mem string_to_obj f' (n mod 2 ^ 32)"
      using input_file_header [OF at] by blast
    show ?thesis using input_body_spec(1) [OF f'(1) _ that(2), of mem string_to_obj] f'(2)
      by (intro obj) (auto simp: input_body_refused not_le)
  qed
  show "\<exists>q. input_obj mem string_to_obj p =
      Some (Inl (if 8 \<le> k \<and> 1024 \<le> length t \<and> \<not> mem (STRING_SIZE + length t) then no_memory else corrupted), q)"
    if k: "4 \<le> k \<and> k < length (obj_bytes t) \<and> bs = take k (obj_bytes t) \<and> length t < 2 ^ 32"
  proof (cases "k < 8")
    case True
    then have "bs = MAGIC_WORD @ take (k - 4) (le32 (length t))" "length (take (k - 4) (le32 (length t))) < 4"
      using k by (simp_all add: obj_bytes_def)
    moreover have "k - 4 < 4" using True k by simp
    ultimately show ?thesis using input_file_broken(3) [of f "take (k - 4) (le32 (length t))"] assms(2) True by (intro obj) simp
  next
    case False
    then have "bs = MAGIC_WORD @ le32 (length t) @ take (k - 8) t" "length (take (k - 8) t) < length t"
      using k False by (auto simp: obj_bytes_def)
    then show ?thesis using body [of "length t" "take (k - 8) t"] k False by (simp del: length_take)
  qed
  show "\<exists>q. input_obj mem string_to_obj p = Some (Inl corrupted, q)" if "bs = obj_bytes [] @ rest"
    using body [of 0 rest] that by (simp add: obj_bytes_def)
  let ?n = "length t mod 2 ^ 32"
  show "if 1024 \<le> ?n \<and> \<not> mem (STRING_SIZE + ?n)
       then \<exists>g. at g (t @ rest) \<and> input_obj mem string_to_obj p = Some (Inl no_memory, p\<lparr>bfile := Some g\<rparr>)
       else \<exists>g sl. at g (drop ?n t @ rest) \<and> input_obj mem string_to_obj p =
        Some (map_sum id Some (string_to_obj \<lparr>str_length = ?n, char0 = map Some (take ?n t) @ sl\<rparr>), p\<lparr>bfile := Some g\<rparr>)"
    if t: "bs = obj_bytes t @ rest \<and> ?n \<noteq> 0"
  proof -
    obtain f' where f': "at f' (t @ rest)" "input_file mem string_to_obj f = input_body mem string_to_obj f' ?n"
      using input_file_header [of f "length t" "t @ rest"] assms(2) t by (auto simp: obj_bytes_def)
    have le: "?n \<le> length t" by (rule mod_less_eq_dividend)
    show ?thesis
    proof (cases "1024 \<le> ?n \<and> \<not> mem (STRING_SIZE + ?n)")
      case True
      then show ?thesis using f' assms(1) by (simp add: input_obj_def input_body_refused) blast
    next
      case False
      then obtain g sl where "at g (drop ?n (t @ rest))" "input_body mem string_to_obj f' ?n =
          Some (map_sum id Some (string_to_obj \<lparr>str_length = ?n, char0 = map Some (take ?n (t @ rest)) @ sl\<rparr>), g)"
        using input_body_spec(2) [OF f'(1), of ?n mem string_to_obj] t trans_le_add1 [OF le, of "length rest"] by auto
      then have "\<exists>g sl. at g (drop ?n t @ rest) \<and> input_obj mem string_to_obj p =
          Some (map_sum id Some (string_to_obj \<lparr>str_length = ?n, char0 = map Some (take ?n t) @ sl\<rparr>), p\<lparr>bfile := Some g\<rparr>)"
        using f'(2) assms(1) le by (intro exI [of _ g] exI [of _ sl]) (simp add: input_obj_def)
      then show ?thesis using False by (simp only: if_False)
    qed
  qed
qed

text \<open>A file whose object is cut after its first ten bytes, and a memory that serves no block: 2000 bytes were announced.\<close>

theorem object_file_errors_witness:
  "(\<exists>q. input_obj (\<lambda>_. True) untagged \<lparr>bname = bstring_of [], bfile = Some \<lparr>fname = [], fdata = bytes ''1967...'', fpos = 0,
      feof = False, freadable = True, fwritable = False, fspace = 0\<rparr>, bio = 0\<rparr> = Some (Inl corrupted, q)) \<and>
   (\<exists>q. input_obj (\<lambda>_. False) untagged \<lparr>bname = bstring_of [], bfile = Some \<lparr>fname = [],
      fdata = take 10 (obj_bytes (replicate 2000 65)), fpos = 0,
      feof = False, freadable = True, fwritable = False, fspace = 0\<rparr>, bio = 0\<rparr> = Some (Inl no_memory, q))"
proof
  let ?f = "\<lambda>bs. \<lparr>fname = [], fdata = bs, fpos = 0, feof = False, freadable = True, fwritable = False, fspace = 0\<rparr>"
  have at: "at (?f bs) bs" for bs by (simp add: at_def unread_def)
  have "take 4 (bytes ''1967...'') \<noteq> MAGIC_WORD" by (simp add: bytes_def MAGIC_WORD_def)
  then show "\<exists>q. input_obj (\<lambda>_. True) untagged \<lparr>bname = bstring_of [], bfile = Some (?f (bytes ''1967...'')), bio = 0\<rparr> = Some (Inl corrupted, q)"
    using object_file_errors [of "\<lparr>bname = bstring_of [], bfile = Some (?f (bytes ''1967...'')), bio = 0\<rparr>"
        "?f (bytes ''1967...'')" "bytes ''1967...''" "\<lambda>_. True" untagged, OF _ at, THEN conjunct2, THEN conjunct1]
    by (simp add: bytes_def)
  let ?t = "replicate 2000 (65 :: u8)"
  show "\<exists>q. input_obj (\<lambda>_. False) untagged \<lparr>bname = bstring_of [], bfile = Some (?f (take 10 (obj_bytes ?t))), bio = 0\<rparr> = Some (Inl no_memory, q)"
    using object_file_errors [of "\<lparr>bname = bstring_of [], bfile = Some (?f (take 10 (obj_bytes ?t))), bio = 0\<rparr>"
        "?f (take 10 (obj_bytes ?t))" "take 10 (obj_bytes ?t)" "\<lambda>_. False" untagged 10 ?t, OF _ at,
        THEN conjunct2, THEN conjunct2, THEN conjunct1]
    by (simp add: obj_bytes_def)
qed

lemma rds_beyond: "length xs \<le> i \<Longrightarrow> length xs \<le> length ys \<Longrightarrow> rds (xs @ drop (length xs) ys) i n = rds ys i n"
  by (induction n arbitrary: i) (auto simp: rd_def nth_append)

lemma fread_take:
  assumes "at f rest"
  shows "\<exists>g. fread n f = (take n rest, g) \<and> unread g = drop n rest"
proof (cases "n \<le> length rest")
  case True
  then show ?thesis using fread_at [of f "take n rest" "drop n rest"] assms by (auto simp: at_def)
next
  case False
  then show ?thesis using assms fread_short [of f n] by (auto simp: at_def unread_def)
qed

lemma input_result:
  assumes "length xs \<le> n" and "n < 2 ^ 31"
  shows "\<exists>t. do {
      s \<leftarrow> make_string_sans_fill (int n);
      m \<leftarrow> blit (char0 s) 0 (map Some xs) 0 (length xs);
      if int (length xs) < int n div 2 then bgl_string_shrink (s\<lparr>char0 := m\<rparr>) (int (length xs))
      else string_to_bstring_len (Some m) (int (length xs)) } = Some t \<and>
    str_length t = length xs \<and> rds (char0 t) 0 (length xs) = Some xs"
proof -
  obtain c where c: "make_string_sans_fill (int n) = Some \<lparr>str_length = n, char0 = c\<rparr>" "length c = n + 1"
    by (simp add: make_string_sans_fill_def)
  then have m: "blit c 0 (map Some xs) 0 (length xs) = Some (map Some xs @ drop (length xs) c)" using assms by (simp add: blit_def)
  show ?thesis
  proof (cases "int (length xs) < int n div 2")
    case True
    then have "length xs < n" by linarith
    then show ?thesis using True c m
      by (simp add: bgl_string_shrink_def list_update_append rds_append_left rds_map_Some)
  next
    case False
    have "string_to_bstring_len (Some (map Some xs @ drop (length xs) c)) (int (length xs)) = Some (bstring_of xs)"
      using assms by (simp add: string_to_bstring_len_def int32_small blit_def str_rep_def c_string_def list_update_append)
    then show ?thesis using False c m by (simp add: rds_c_string str_rep_def)
  qed
qed

text \<open>Strings: writing a string appends its characters and answers 1, or 0 when the device is full or the string is
  empty, and then the first characters may have been written; reading \<open>n\<close> characters gives a string with the next
  \<open>n\<close> ones, or all that are left, whichever way the result is built; filling a string replaces as many characters
  and keeps the others.\<close>

theorem binary_strings:
  assumes "bfile p = Some f" and "rds (char0 s) 0 (str_length s) = Some bs"
  shows "(fwritable f \<longrightarrow> (\<exists>g. bgl_output_string p s =
      Some (if bs \<noteq> [] \<and> length bs \<le> fspace f then 1 else 0, p\<lparr>bfile := Some g\<rparr>) \<and> fdata g = fdata f @ take (fspace f) bs)) \<and>
    (at f rest \<and> n < 2 ^ 31 \<longrightarrow> (\<exists>g t. bgl_input_string p (int n) = Some (t, p\<lparr>bfile := Some g\<rparr>) \<and> unread g = drop n rest \<and>
      str_length t = min n (length rest) \<and> rds (char0 t) 0 (str_length t) = Some (take n rest))) \<and>
    (at f rest \<and> str_length s < length (char0 s) \<and> str_length s < 2 ^ 31 \<longrightarrow>
      (\<exists>g t. bgl_input_fill_string p s = Some (int (min (str_length s) (length rest)), t, p\<lparr>bfile := Some g\<rparr>) \<and>
        unread g = drop (str_length s) rest \<and> str_length t = str_length s \<and>
        rds (char0 t) 0 (str_length s) = Some (take (str_length s) rest @ drop (length rest) bs))) \<and>
    (\<exists>c fs'. close_binary_port (p\<lparr>bio := 0\<rparr>) fs = Some (c, fs') \<and> bgl_output_string c s = None)"
proof (intro conjI impI)
  show "\<exists>g. bgl_output_string p s =
      Some (if bs \<noteq> [] \<and> length bs \<le> fspace f then 1 else 0, p\<lparr>bfile := Some g\<rparr>) \<and> fdata g = fdata f @ take (fspace f) bs"
    if "fwritable f"
    using that assms by (intro exI [of _ "snd (fwrite bs f)"]) (simp add: bgl_output_string_def fwrite_def Let_def min_def)
  show "\<exists>g t. bgl_input_string p (int n) = Some (t, p\<lparr>bfile := Some g\<rparr>) \<and> unread g = drop n rest \<and>
      str_length t = min n (length rest) \<and> rds (char0 t) 0 (str_length t) = Some (take n rest)" if at: "at f rest \<and> n < 2 ^ 31"
  proof -
    obtain g where g: "fread n f = (take n rest, g)" "unread g = drop n rest" using fread_take at by blast
    define xs where "xs = take n rest"
    then have xs: "length xs \<le> n" "length xs = min n (length rest)" "fread n f = (xs, g)" using g(1) by simp_all
    then obtain t where t: "do {
        s \<leftarrow> make_string_sans_fill (int n);
        m \<leftarrow> blit (char0 s) 0 (map Some xs) 0 (length xs);
        if int (length xs) < int n div 2 then bgl_string_shrink (s\<lparr>char0 := m\<rparr>) (int (length xs))
        else string_to_bstring_len (Some m) (int (length xs)) } = Some t"
      "str_length t = length xs" "rds (char0 t) 0 (length xs) = Some xs"
      using input_result [of xs n] at by blast
    from t(1) obtain s m where "make_string_sans_fill (int n) = Some s" "blit (char0 s) 0 (map Some xs) 0 (length xs) = Some m"
        "(if int (length xs) < int n div 2 then bgl_string_shrink (s\<lparr>char0 := m\<rparr>) (int (length xs))
        else string_to_bstring_len (Some m) (int (length xs))) = Some t"
      unfolding bind_eq_Some_conv by blast
    then have "bgl_input_string p (int n) = Some (t, p\<lparr>bfile := Some g\<rparr>)"
      using assms(1) xs(3) by (simp add: bgl_input_string_def Let_def)
    then show ?thesis using g(2) t(2,3) xs(2) by (intro exI [of _ g] exI [of _ t]) (simp add: xs_def)
  qed
  show "\<exists>g t. bgl_input_fill_string p s = Some (int (min (str_length s) (length rest)), t, p\<lparr>bfile := Some g\<rparr>) \<and>
      unread g = drop (str_length s) rest \<and> str_length t = str_length s \<and>
      rds (char0 t) 0 (str_length s) = Some (take (str_length s) rest @ drop (length rest) bs)"
    if at: "at f rest \<and> str_length s < length (char0 s) \<and> str_length s < 2 ^ 31"
  proof -
    let ?n = "str_length s" let ?k = "min (str_length s) (length rest)"
    obtain g where g: "fread ?n f = (take ?n rest, g)" "unread g = drop ?n rest" using fread_take at by blast
    have "idx (int32 (int ?n)) = Some ?n" using at by (simp add: idx_def)
    moreover have "blit (char0 s) 0 (map Some (take ?n rest)) 0 ?k = Some (map Some (take ?n rest) @ drop ?k (char0 s))"
      using at by (auto simp: blit_def min_def)
    ultimately have fill: "bgl_input_fill_string p s = Some (int ?k, s\<lparr>char0 := map Some (take ?n rest) @ drop ?k (char0 s)\<rparr>, p\<lparr>bfile := Some g\<rparr>)"
      using assms(1) g(1) by (simp add: bgl_input_fill_string_def Let_def min.commute)
    have "rds (map Some (take ?n rest) @ drop ?k (char0 s)) 0 ?n = Some (take ?n rest @ drop (length rest) bs)"
    proof (cases "?n \<le> length rest")
      case True
      then show ?thesis using length_rds [OF assms(2)] by (simp add: rds_append_left rds_map_Some)
    next
      case False
      then have "rds (char0 s) (length rest) (?n - length rest) = Some (drop (length rest) bs)"
        using assms(2) rds_add [of "char0 s" 0 "length rest" "?n - length rest"] length_rds [of "char0 s" 0 "length rest"]
        by (auto split: Option.bind_splits)
      then have "rds (map Some rest @ drop (length rest) (char0 s)) (length rest) (?n - length rest) = Some (drop (length rest) bs)"
        using rds_beyond [of "map Some rest" "length rest" "char0 s"] at False by simp
      then show ?thesis
        using False rds_add [of "map Some rest @ drop (length rest) (char0 s)" 0 "length rest" "?n - length rest"]
        by (simp add: rds_append_left rds_map_Some)
    qed
    then show ?thesis using fill g(2)
      by (intro exI [of _ g] exI [of _ "s\<lparr>char0 := map Some (take ?n rest) @ drop ?k (char0 s)\<rparr>"]) simp
  qed
qed (simp add: assms(1) close_binary_port_def bgl_output_string_def)

theorem binary_strings_witness:
  "\<exists>g. bgl_output_string \<lparr>bname = bstring_of [], bfile = Some \<lparr>fname = [], fdata = bytes ''ab'', fpos = 0, feof = False,
      freadable = False, fwritable = True, fspace = 2\<rparr>, bio = 1\<rparr> (bstring_of (bytes ''cde'')) =
    Some (0, \<lparr>bname = bstring_of [], bfile = Some g, bio = 1\<rparr>) \<and> fdata g = bytes ''abcd''"
proof -
  let ?f = "\<lparr>fname = [], fdata = bytes ''ab'', fpos = 0, feof = False, freadable = False, fwritable = True, fspace = 2\<rparr>"
  have "rds (char0 (bstring_of (bytes ''cde''))) 0 (str_length (bstring_of (bytes ''cde''))) = Some (bytes ''cde'')"
    by (simp add: rds_c_string str_rep_def)
  from binary_strings [OF _ this, of "\<lparr>bname = bstring_of [], bfile = Some ?f, bio = 1\<rparr>" ?f, THEN conjunct1]
  show ?thesis by (simp add: bytes_def)
qed

end
