(* ===== verification/Cproc.thy ===== *)
theory Cproc
  imports Cobject Cvector Cwriter
begin

text \<open>
  Procedures (\<open>runtime/Clib/ccontrol.c\<close>, \<open>runtime/Include/bigloo.h\<close>): their layout, creation and copies, the
  entries for variable and optional arguments, generic functions, the marks of the evaluator.
\<close>

section \<open>Representation\<close>

text \<open>
  Objects as far as the calls look at them, procedures by their addresses. \<open>BEOA\<close> ends the arguments of a call
  with a variable number of them.
\<close>

datatype obj = Other nat | Bproc nat | BEOA | BNIL | BFALSE | BUNSPEC | Pair obj obj | Vector "obj list"

text \<open>
  Pointers to C functions: code of the compiler at an address, with the number of its parameters after the
  procedure itself, and the entries of the runtime.
\<close>

datatype function_t =
    NULL | Code "64 word" nat | Va_generic_entry | Va_stack_entry | Opt_generic_entry
  | Generic_entry | Generic_entry1 | Generic_entry2 | Generic_entry3 | Generic_entry4 | Generic_entry5

record procedure =
  pheader :: header_t
  entry :: function_t
  va_entry :: function_t
  attr :: obj
  arity :: int
  penv :: "obj cells"

type_synonym procedures = "nat \<rightharpoonup> procedure"

definition PROCEDURE_TYPE :: header_t where "PROCEDURE_TYPE = 4"

definition BGL_HEADER_MAX_SIZE :: int where "BGL_HEADER_MAX_SIZE = push_bit BGL_HEADER_SIZE_BIT_SIZE 1 - 1"

definition PROCEDURE_LENGTH :: "procedure \<Rightarrow> header_t" where
  "PROCEDURE_LENGTH p = BGL_HEADER_SIZE (pheader p)"

definition VA_PROCEDUREP :: "procedure \<Rightarrow> bool" where
  "VA_PROCEDUREP p \<longleftrightarrow> arity p < 0"

definition OPT_PROCEDUREP :: "procedure \<Rightarrow> bool" where
  "OPT_PROCEDUREP p \<longleftrightarrow> attr p = BFALSE"

definition PROCEDURE_CORRECT_ARITYP :: "procedure \<Rightarrow> int \<Rightarrow> bool" where
  "PROCEDURE_CORRECT_ARITYP p num \<longleftrightarrow> arity p = num \<or> (VA_PROCEDUREP p \<and> - num - 1 \<le> arity p)"

definition PROCEDURE_REF :: "procedures \<Rightarrow> nat \<Rightarrow> int \<Rightarrow> obj option" where
  "PROCEDURE_REF h f i = do { p \<leftarrow> h f; n \<leftarrow> idx i; rd (penv p) n }"

definition PROCEDURE_SET :: "procedures \<Rightarrow> nat \<Rightarrow> int \<Rightarrow> obj \<Rightarrow> procedures option" where
  "PROCEDURE_SET h f i x = do { p \<leftarrow> h f; n \<leftarrow> idx i; m \<leftarrow> wr (penv p) n x; Some (h(f \<mapsto> p\<lparr>penv := m\<rparr>)) }"

section \<open>Creation\<close>

text \<open>\<open>f\<close> is the address that the collector returns. The sum is the Scheme error.\<close>

definition BGL_INIT_FX_PROCEDURE :: "obj cells \<Rightarrow> function_t \<Rightarrow> int \<Rightarrow> int \<Rightarrow> procedure" where
  "BGL_INIT_FX_PROCEDURE env ent ar sz =
     \<lparr>pheader = BGL_MAKE_HEADER PROCEDURE_TYPE (word_of_int sz), entry = ent, va_entry = NULL, attr = BUNSPEC,
      arity = ar, penv = env\<rparr>"

definition bgl_init_fx_procedure :: "procedures \<Rightarrow> nat \<Rightarrow> obj cells \<Rightarrow> function_t \<Rightarrow> int \<Rightarrow> int \<Rightarrow> failure + procedures" where
  "bgl_init_fx_procedure h f env ent ar sz =
     (if sz \<ge> BGL_HEADER_MAX_SIZE then Inl (C_Failure ''make-fx-procedure'' ''Environment to large'' sz)
      else Inr (h(f \<mapsto> BGL_INIT_FX_PROCEDURE env ent ar sz)))"

definition make_fx_procedure :: "procedures \<Rightarrow> nat \<Rightarrow> function_t \<Rightarrow> int \<Rightarrow> int \<Rightarrow> (failure + procedures) option" where
  "make_fx_procedure h f ent ar sz =
     (if sz \<ge> BGL_HEADER_MAX_SIZE then Some (Inl (C_Failure ''make-fx-procedure'' ''Environment to large'' sz))
      else do { n \<leftarrow> idx sz; Some (Inr (h(f \<mapsto> BGL_INIT_FX_PROCEDURE (gc_malloc n) ent ar sz))) })"

definition make_va_procedure :: "procedures \<Rightarrow> nat \<Rightarrow> function_t \<Rightarrow> int \<Rightarrow> int \<Rightarrow> (failure + procedures) option" where
  "make_va_procedure h f ent ar sz =
     (if sz > BGL_HEADER_MAX_SIZE then Some (Inl (C_Failure ''make-va-procedure'' ''Environment to large'' sz))
      else do {
        n \<leftarrow> idx sz;
        Some (Inr (h(f \<mapsto> \<lparr>pheader = BGL_MAKE_HEADER PROCEDURE_TYPE (word_of_int sz), entry = Va_generic_entry, va_entry = ent,
          attr = BUNSPEC, arity = ar, penv = gc_malloc n\<rparr>))) })"

definition bgl_make_procedure :: "procedures \<Rightarrow> nat \<Rightarrow> function_t \<Rightarrow> int \<Rightarrow> int \<Rightarrow> (failure + procedures) option" where
  "bgl_make_procedure h f ent ar sz =
     (if ar \<ge> 0 then make_fx_procedure h f ent ar sz else make_va_procedure h f ent ar sz)"

text \<open>The loop copies from the last cell to the first.\<close>

fun copy_env :: "obj cells \<Rightarrow> obj cells \<Rightarrow> nat \<Rightarrow> obj cells option" where
  "copy_env dst src 0 = Some dst"
| "copy_env dst src (Suc n) = do { x \<leftarrow> rd src n; dst \<leftarrow> wr dst n x; copy_env dst src n }"

definition bgl_dup_procedure :: "procedures \<Rightarrow> nat \<Rightarrow> nat \<Rightarrow> procedures option" where
  "bgl_dup_procedure h f n_proc = do {
     p \<leftarrow> h f;
     let n = unat (PROCEDURE_LENGTH p);
     env \<leftarrow> copy_env (gc_malloc n) (penv p) n;
     Some (h(n_proc \<mapsto> \<lparr>pheader = pheader p, entry = entry p, va_entry = va_entry p, attr = attr p, arity = arity p, penv = env\<rparr>)) }"

definition generic_code :: "int \<Rightarrow> function_t" where
  "generic_code k =
     (if k = 1 then Generic_entry1 else if k = 2 then Generic_entry2 else if k = 3 then Generic_entry3
      else if k = 4 then Generic_entry4 else if k = 5 then Generic_entry5 else Generic_entry)"

definition bgl_make_generic :: "procedures \<Rightarrow> nat \<Rightarrow> nat \<Rightarrow> (failure + procedures) option" where
  "bgl_make_generic h f prc = do {
     p \<leftarrow> h prc;
     r \<leftarrow> make_fx_procedure h f (generic_code (arity p)) (arity p) 4;
     case r of
       Inl e \<Rightarrow> Some (Inl e)
     | Inr h \<Rightarrow> do { h \<leftarrow> PROCEDURE_SET h f 3 (Bproc prc); Some (Inr h) } }"

section \<open>Calls\<close>

text \<open>
  Every body below ends with a call, which is its value: of a C function with its arguments, or of \<open>apply\<close>.
\<close>

datatype call = Enter function_t nat "obj list" | Apply nat obj

text \<open>
  The macros \<open>BGL_PROCEDURE_CALL0\<close> to \<open>BGL_PROCEDURE_CALL32\<close>, for the two settings of \<open>BGL_STRICT_STDC\<close>. An
  argument that the function does not expect is ignored by the calling convention.
\<close>

definition BGL_PROCEDURE_CALL_loose :: "procedures \<Rightarrow> nat \<Rightarrow> obj list \<Rightarrow> call option" where
  "BGL_PROCEDURE_CALL_loose h f args =
     (if length args \<le> 32 then do { p \<leftarrow> h f; Some (Enter (entry p) f (args @ [BEOA])) } else None)"

definition BGL_PROCEDURE_CALL_strict :: "procedures \<Rightarrow> nat \<Rightarrow> obj list \<Rightarrow> call option" where
  "BGL_PROCEDURE_CALL_strict h f args =
     (if length args \<le> 32
      then do { p \<leftarrow> h f; Some (if VA_PROCEDUREP p then Enter (entry p) f (args @ [BEOA]) else Enter (entry p) f args) }
      else None)"

definition BGL_PROCEDURE_CALL :: "bool \<Rightarrow> procedures \<Rightarrow> nat \<Rightarrow> obj list \<Rightarrow> call option" where
  "BGL_PROCEDURE_CALL strict = (if strict then BGL_PROCEDURE_CALL_strict else BGL_PROCEDURE_CALL_loose)"

text \<open>The list of the optional arguments: \<open>None\<close> when no \<open>BEOA\<close> ends them.\<close>

fun collect :: "obj list \<Rightarrow> obj option" where
  "collect [] = None"
| "collect (x # xs) = (if x = BEOA then Some BNIL else map_option (Pair x) (collect xs))"

definition generic_default :: "procedures \<Rightarrow> nat \<Rightarrow> nat option" where
  "generic_default h f = do { x \<leftarrow> PROCEDURE_REF h f 3; case x of Bproc p \<Rightarrow> Some p | _ \<Rightarrow> None }"

definition generic_entry :: "procedures \<Rightarrow> nat \<Rightarrow> obj list \<Rightarrow> call option" where
  "generic_entry h f args = do { optional \<leftarrow> collect args; p \<leftarrow> generic_default h f; Some (Apply p optional) }"

definition generic_entry1 :: "bool \<Rightarrow> procedures \<Rightarrow> nat \<Rightarrow> obj list \<Rightarrow> call option" where
  "generic_entry1 strict h f args = do {
     p \<leftarrow> generic_default h f;
     case args of a1 # _ \<Rightarrow> BGL_PROCEDURE_CALL strict h p [a1] | _ \<Rightarrow> None }"

definition generic_entry2 :: "bool \<Rightarrow> procedures \<Rightarrow> nat \<Rightarrow> obj list \<Rightarrow> call option" where
  "generic_entry2 strict h f args = do {
     p \<leftarrow> generic_default h f;
     case args of a1 # a2 # _ \<Rightarrow> BGL_PROCEDURE_CALL strict h p [a1, a2] | _ \<Rightarrow> None }"

definition generic_entry3 :: "bool \<Rightarrow> procedures \<Rightarrow> nat \<Rightarrow> obj list \<Rightarrow> call option" where
  "generic_entry3 strict h f args = do {
     p \<leftarrow> generic_default h f;
     case args of a1 # a2 # a3 # _ \<Rightarrow> BGL_PROCEDURE_CALL strict h p [a1, a2, a3] | _ \<Rightarrow> None }"

definition generic_entry4 :: "bool \<Rightarrow> procedures \<Rightarrow> nat \<Rightarrow> obj list \<Rightarrow> call option" where
  "generic_entry4 strict h f args = do {
     p \<leftarrow> generic_default h f;
     case args of a1 # a2 # a3 # a4 # _ \<Rightarrow> BGL_PROCEDURE_CALL strict h p [a1, a2, a3, a4] | _ \<Rightarrow> None }"

definition generic_entry5 :: "bool \<Rightarrow> procedures \<Rightarrow> nat \<Rightarrow> obj list \<Rightarrow> call option" where
  "generic_entry5 strict h f args = do {
     p \<leftarrow> generic_default h f;
     case args of a1 # a2 # a3 # a4 # a5 # _ \<Rightarrow> BGL_PROCEDURE_CALL strict h p [a1, a2, a3, a4, a5] | _ \<Rightarrow> None }"

text \<open>The elements of the array \<open>arg\<close> that a case of a \<open>switch\<close> passes on.\<close>

fun elements :: "obj cells \<Rightarrow> nat list \<Rightarrow> obj list option" where
  "elements arg [] = Some []"
| "elements arg (k # ks) = do { x \<leftarrow> rd arg k; xs \<leftarrow> elements arg ks; Some (x # xs) }"

definition switch :: "nat list list \<Rightarrow> int \<Rightarrow> nat list option" where
  "switch cases i = (if 0 \<le> i \<and> i < int (length cases) then Some (cases ! nat i) else None)"

text \<open>The cases -1 to -17 of \<open>va_generic_entry\<close> and of \<open>bgl_va_stack_entry\<close>.\<close>

definition va_generic_cases :: "nat list list" where
  "va_generic_cases =
     [[],
      [0],
      [0, 1],
      [0, 1, 2],
      [0, 1, 2, 3],
      [0, 1, 2, 3, 4],
      [0, 1, 2, 3, 4, 5],
      [0, 1, 2, 3, 4, 5, 6],
      [0, 1, 2, 3, 4, 5, 6, 7],
      [0, 1, 2, 3, 4, 5, 6, 7, 8],
      [0, 1, 2, 3, 4, 5, 6, 7, 8, 9],
      [0, 1, 2, 3, 4, 5, 6, 7, 8, 9, 10],
      [0, 1, 2, 3, 4, 5, 6, 7, 8, 9, 10, 11],
      [0, 1, 2, 3, 4, 5, 6, 7, 8, 9, 10, 11, 12],
      [0, 1, 2, 3, 4, 5, 6, 7, 8, 9, 10, 11, 12, 13],
      [0, 1, 2, 3, 4, 5, 6, 7, 8, 9, 10, 11, 12, 13, 14],
      [0, 1, 2, 3, 4, 5, 6, 7, 8, 9, 10, 11, 12, 13, 14, 15]]"

definition va_stack_cases :: "nat list list" where
  "va_stack_cases =
     [[],
      [0],
      [0, 1],
      [0, 1, 2],
      [0, 1, 2, 3],
      [0, 1, 2, 3, 4],
      [0, 1, 2, 3, 4, 5],
      [0, 1, 2, 3, 4, 5, 6],
      [0, 1, 2, 3, 4, 5, 6, 7],
      [0, 1, 2, 3, 4, 5, 6, 7, 8],
      [0, 1, 2, 3, 4, 5, 6, 7, 8, 9],
      [0, 1, 2, 3, 4, 5, 6, 7, 8, 9, 10],
      [0, 1, 2, 3, 4, 5, 6, 7, 8, 9, 10, 11],
      [0, 1, 2, 3, 4, 5, 6, 7, 8, 9, 10, 11, 12],
      [0, 1, 2, 3, 4, 5, 6, 7, 8, 9, 10, 11, 12, 13],
      [0, 1, 2, 3, 4, 5, 6, 7, 8, 9, 10, 11, 12, 13, 14],
      [0, 1, 2, 3, 4, 5, 6, 7, 8, 9, 10, 11, 12, 13, 14, 15]]"

text \<open>The required arguments go to a local array of 16 objects.\<close>

definition required :: "int \<Rightarrow> obj list \<Rightarrow> (obj cells \<times> obj list) option" where
  "required require args =
     for_up 0 require (\<lambda>i (arg, argl). case argl of [] \<Rightarrow> None
       | x # argl \<Rightarrow> do { k \<leftarrow> idx i; arg \<leftarrow> wr arg k x; Some (arg, argl) }) (gc_malloc 16, args)"

definition va_generic_entry :: "procedures \<Rightarrow> nat \<Rightarrow> obj list \<Rightarrow> (failure + call) option" where
  "va_generic_entry h prc args = do {
     p \<leftarrow> h prc;
     let require = - arity p - 1;
     (arg, argl) \<leftarrow> required require args;
     optional \<leftarrow> collect argl;
     case switch va_generic_cases require of
       None \<Rightarrow> Some (Inl (C_Failure ''va_generic_entry'' ''too many argument expected'' (arity p)))
     | Some ks \<Rightarrow> do { xs \<leftarrow> elements arg ks; Some (Inr (Enter (va_entry p) prc (xs @ [optional]))) } }"

definition bgl_va_stack_entry :: "procedures \<Rightarrow> nat \<Rightarrow> obj list \<Rightarrow> (failure + call) option" where
  "bgl_va_stack_entry h prc args = do {
     p \<leftarrow> h prc;
     let require = - arity p - 1;
     (arg, argl) \<leftarrow> required require args;
     optional \<leftarrow> collect argl;
     case switch va_stack_cases require of
       None \<Rightarrow> Some (Inl (C_Failure ''va_generic_entry'' ''too many argument expected'' (arity p)))
     | Some ks \<Rightarrow> do { xs \<leftarrow> elements arg ks; Some (Inr (Enter (va_entry p) prc (xs @ [optional]))) } }"

text \<open>The vector of the arguments: a block on the stack, whose size is computed in \<open>int\<close>.\<close>

definition stack_vector :: "int \<Rightarrow> obj cells option" where
  "stack_vector len = do { n \<leftarrow> idx (int32 (VECTOR_SIZE + (len - 1) * 8) div 8 - 1); Some (gc_malloc n) }"

fun count_args :: "obj list \<Rightarrow> nat option" where
  "count_args [] = None"
| "count_args (x # xs) = (if x = BEOA then Some 0 else map_option Suc (count_args xs))"

definition opt_generic_entry :: "procedures \<Rightarrow> nat \<Rightarrow> obj list \<Rightarrow> call option" where
  "opt_generic_entry h prc args = do {
     n \<leftarrow> count_args args;
     let len = int32 (int n);
     m \<leftarrow> stack_vector len;
     m \<leftarrow> for_up 0 len (\<lambda>i m. do { k \<leftarrow> idx i; x \<leftarrow> rd (map Some args) k; wr m k x }) m;
     k \<leftarrow> idx len;
     xs \<leftarrow> rds m 0 k;
     p \<leftarrow> h prc;
     Some (Enter (va_entry p) prc [Vector xs]) }"

section \<open>Entries as strings\<close>

text \<open>The pointer as a number: the addresses of the entries of the runtime are a parameter.\<close>

definition address_of :: "(function_t \<Rightarrow> 64 word) \<Rightarrow> function_t \<Rightarrow> 64 word" where
  "address_of rt e = (case e of NULL \<Rightarrow> 0 | Code a _ \<Rightarrow> a | _ \<Rightarrow> rt e)"

text \<open>The format \<open>%016lx\<close> writes 16 digits and a null character.\<close>

definition bgl_procedure_entry_to_string :: "(function_t \<Rightarrow> 64 word) \<Rightarrow> procedure \<Rightarrow> bgl_string option" where
  "bgl_procedure_entry_to_string rt p = do {
     res \<leftarrow> make_string_sans_fill 17;
     let a = address_of rt (if VA_PROCEDUREP p then va_entry p else entry p);
     m \<leftarrow> blit (char0 res) 0 (c_string (hex 16 (unat a))) 0 (length (hex 16 (unat a)) + 1);
     Some (res\<lparr>char0 := m\<rparr>) }"

text \<open>
  \<open>strtoul(s, 0, 16)\<close> of the C library: white space, a sign, the prefix \<open>0x\<close> and the digits; a number that
  does not fit gives the greatest one.
\<close>

definition hex_digit :: "u8 \<Rightarrow> nat option" where
  "hex_digit c =
     (if 48 \<le> c \<and> c \<le> 57 then Some (unat c - 48)
      else if 97 \<le> c \<and> c \<le> 102 then Some (unat c - 87)
      else if 65 \<le> c \<and> c \<le> 70 then Some (unat c - 55) else None)"

fun strtoul_digits :: "nat \<Rightarrow> u8 list \<Rightarrow> nat" where
  "strtoul_digits acc [] = acc"
| "strtoul_digits acc (c # cs) = (case hex_digit c of None \<Rightarrow> acc | Some d \<Rightarrow> strtoul_digits (acc * 16 + d) cs)"

definition strtoul_number :: "u8 list \<Rightarrow> 64 word" where
  "strtoul_number cs =
     (let cs = (case cs of a # b # d # ds \<Rightarrow> if a = 48 \<and> (b = 120 \<or> b = 88) \<and> hex_digit d \<noteq> None then d # ds else cs | _ \<Rightarrow> cs);
          n = strtoul_digits 0 cs
      in if n < 2 ^ 64 then of_nat n else -1)"

definition strtoul16 :: "u8 list \<Rightarrow> 64 word" where
  "strtoul16 cs =
     (case dropWhile (\<lambda>c. c = 32 \<or> (9 \<le> c \<and> c \<le> 13)) cs of
        [] \<Rightarrow> 0
      | c # ds \<Rightarrow> if c = 45 then - strtoul_number ds else if c = 43 then strtoul_number ds else strtoul_number (c # ds))"

definition bgl_string_to_procedure_entry :: "bgl_string \<Rightarrow> (64 word) option" where
  "bgl_string_to_procedure_entry s = do {
     n \<leftarrow> strlen_from (char0 s) 0;
     cs \<leftarrow> rds (char0 s) 0 n;
     Some (strtoul16 cs) }"

section \<open>The marks of the evaluator\<close>

text \<open>The static variables.\<close>

record eval_marks =
  eval_procedure :: "function_t cells"
  eval_traced_procedure :: "function_t cells"
  eval_4procedure :: function_t
  eval_traced_4procedure :: function_t
  eval_4vaprocedure :: function_t
  eval_traced_4vaprocedure :: function_t

definition eval_index :: "procedure \<Rightarrow> int" where
  "eval_index p = (if arity p \<ge> 0 then arity p else - arity p + 4)"

definition eval_entry :: "procedure \<Rightarrow> function_t" where
  "eval_entry p = (if arity p \<ge> 0 then entry p else va_entry p)"

definition bgl_eval_procedurep :: "eval_marks \<Rightarrow> procedure \<Rightarrow> bool option" where
  "bgl_eval_procedurep m p = do {
     i \<leftarrow> idx (eval_index p);
     a \<leftarrow> rd (eval_procedure m) i;
     if a = eval_entry p then Some True
     else do { b \<leftarrow> rd (eval_traced_procedure m) i; Some (b = eval_entry p) } }"

definition bgl_eval_4procedurep :: "eval_marks \<Rightarrow> procedure \<Rightarrow> bool" where
  "bgl_eval_4procedurep m p \<longleftrightarrow> eval_4procedure m = va_entry p \<or> eval_traced_4procedure m = va_entry p"

definition bgl_eval_4vaprocedurep :: "eval_marks \<Rightarrow> procedure \<Rightarrow> bool" where
  "bgl_eval_4vaprocedurep m p \<longleftrightarrow> eval_4vaprocedure m = va_entry p \<or> eval_traced_4vaprocedure m = va_entry p"

definition bgl_eval_procedure :: "eval_marks \<Rightarrow> procedure \<Rightarrow> eval_marks option" where
  "bgl_eval_procedure m p = do {
     i \<leftarrow> idx (eval_index p); t \<leftarrow> wr (eval_procedure m) i (eval_entry p); Some (m\<lparr>eval_procedure := t\<rparr>) }"

definition bgl_eval_traced_procedure :: "eval_marks \<Rightarrow> procedure \<Rightarrow> eval_marks option" where
  "bgl_eval_traced_procedure m p = do {
     i \<leftarrow> idx (eval_index p); t \<leftarrow> wr (eval_traced_procedure m) i (eval_entry p); Some (m\<lparr>eval_traced_procedure := t\<rparr>) }"

definition bgl_eval_4procedure :: "eval_marks \<Rightarrow> procedure \<Rightarrow> eval_marks" where
  "bgl_eval_4procedure m p = m\<lparr>eval_4procedure := va_entry p\<rparr>"

definition bgl_eval_4vaprocedure :: "eval_marks \<Rightarrow> procedure \<Rightarrow> eval_marks" where
  "bgl_eval_4vaprocedure m p = m\<lparr>eval_4vaprocedure := va_entry p\<rparr>"

definition bgl_eval_traced_4procedure :: "eval_marks \<Rightarrow> procedure \<Rightarrow> eval_marks" where
  "bgl_eval_traced_4procedure m p = m\<lparr>eval_traced_4procedure := va_entry p\<rparr>"

definition bgl_eval_traced_4vaprocedure :: "eval_marks \<Rightarrow> procedure \<Rightarrow> eval_marks" where
  "bgl_eval_traced_4vaprocedure m p = m\<lparr>eval_traced_4vaprocedure := va_entry p\<rparr>"

section \<open>Properties\<close>

lemma header_size: "t < 2 ^ 20 \<Longrightarrow> w < 2 ^ 16 \<Longrightarrow> BGL_HEADER_SIZE (BGL_MAKE_HEADER t w) = w"
  by (rule bit_word_eqI; fastforce simp: header_defs bit_simps dest: small_bits)

lemma header_length:
  assumes "0 \<le> sz" and "sz < 2 ^ 16"
  shows "BGL_HEADER_SIZE (BGL_MAKE_HEADER PROCEDURE_TYPE (word_of_int sz)) = word_of_int sz"
proof (rule header_size)
  have "uint (word_of_int sz :: header_t) = sz" using assms by (simp add: unsigned_of_int take_bit_int_eq_self)
  then show "(word_of_int sz :: header_t) < 2 ^ 16" using assms by (simp add: word_less_def)
qed (simp add: PROCEDURE_TYPE_def)

lemma last_cell: "(replicate (Suc n) x)[n := y] = replicate n x @ [y]"
  by (induction n) auto

lemma copy_env_all: "copy_env (gc_malloc (length xs)) (map Some xs) (length xs) = Some (map Some xs)"
proof -
  have "copy_env (gc_malloc n @ map Some (drop n xs)) (map Some xs) n = Some (map Some xs)" if "n \<le> length xs" for n
    using that
  proof (induction n)
    case (Suc n)
    have "(gc_malloc (Suc n) @ map Some (drop (Suc n) xs))[n := Some (xs ! n)] = gc_malloc n @ map Some (drop n xs)"
      using Suc.prems by (simp add: gc_malloc_def Cons_nth_drop_Suc [symmetric] list_update_append last_cell del: replicate.simps)
    then show ?case using Suc by (simp add: rd_map_Some)
  qed (simp add: gc_malloc_def)
  from this [of "length xs"] show ?thesis by simp
qed

text \<open>Creation and copies: a procedure with fewer than 65535 cells is made, and its header holds their number; one
  with exactly 65535 is made only when it takes a list of arguments; a copy, at a new address, is the same
  procedure.\<close>

theorem procedure_copies:
  assumes "0 \<le> sz"
  shows "(sz < 65535 \<longrightarrow> (\<exists>p. bgl_make_procedure h f e ar sz = Some (Inr (h(f \<mapsto> p))) \<and> arity p = ar \<and>
      unat (PROCEDURE_LENGTH p) = nat sz \<and> length (penv p) = nat sz)) \<and>
    (65535 \<le> sz \<longrightarrow> make_fx_procedure h f e ar sz = Some (Inl (C_Failure ''make-fx-procedure'' ''Environment to large'' sz))) \<and>
    (65535 < sz \<longrightarrow> make_va_procedure h f e ar sz = Some (Inl (C_Failure ''make-va-procedure'' ''Environment to large'' sz))) \<and>
    (\<exists>p. make_va_procedure h f e ar 65535 = Some (Inr (h(f \<mapsto> p))) \<and> unat (PROCEDURE_LENGTH p) = 65535) \<and>
    (h g = Some q \<and> penv q = map Some xs \<and> unat (PROCEDURE_LENGTH q) = length xs \<longrightarrow> bgl_dup_procedure h g f = Some (h(f \<mapsto> q)))"
proof (intro conjI impI)
  have len: "unat (BGL_HEADER_SIZE (BGL_MAKE_HEADER PROCEDURE_TYPE (word_of_int k))) = nat k" if "0 \<le> k" "k < 2 ^ 16" for k
  proof -
    have "unat (word_of_int k :: header_t) = nat k" using that by (simp add: unsigned_of_int take_bit_int_eq_self)
    then show ?thesis using header_length [OF that] by simp
  qed
  have max: "BGL_HEADER_MAX_SIZE = 65535" by (simp add: BGL_HEADER_MAX_SIZE_def header_layout)
  show "\<exists>p. bgl_make_procedure h f e ar sz = Some (Inr (h(f \<mapsto> p))) \<and> arity p = ar \<and>
      unat (PROCEDURE_LENGTH p) = nat sz \<and> length (penv p) = nat sz" if "sz < 65535"
  proof (cases "ar \<ge> 0")
    case True
    then show ?thesis using that assms len [of sz]
      by (intro exI [of _ "BGL_INIT_FX_PROCEDURE (gc_malloc (nat sz)) e ar sz"])
        (simp add: bgl_make_procedure_def make_fx_procedure_def max idx_def BGL_INIT_FX_PROCEDURE_def PROCEDURE_LENGTH_def)
  next
    case False
    then show ?thesis using that assms len [of sz]
      by (intro exI [of _ "\<lparr>pheader = BGL_MAKE_HEADER PROCEDURE_TYPE (word_of_int sz), entry = Va_generic_entry, va_entry = e,
          attr = BUNSPEC, arity = ar, penv = gc_malloc (nat sz)\<rparr>"])
        (simp add: bgl_make_procedure_def make_va_procedure_def max idx_def PROCEDURE_LENGTH_def)
  qed
  show "\<exists>p. make_va_procedure h f e ar 65535 = Some (Inr (h(f \<mapsto> p))) \<and> unat (PROCEDURE_LENGTH p) = 65535"
    using len [of 65535]
    by (intro exI [of _ "\<lparr>pheader = BGL_MAKE_HEADER PROCEDURE_TYPE (word_of_int 65535), entry = Va_generic_entry, va_entry = e,
          attr = BUNSPEC, arity = ar, penv = gc_malloc 65535\<rparr>"])
      (simp add: make_va_procedure_def max PROCEDURE_LENGTH_def)
  show "bgl_dup_procedure h g f = Some (h(f \<mapsto> q))"
    if "h g = Some q \<and> penv q = map Some xs \<and> unat (PROCEDURE_LENGTH q) = length xs"
    using that by (cases q) (simp add: bgl_dup_procedure_def copy_env_all PROCEDURE_LENGTH_def)
qed (simp_all add: make_fx_procedure_def make_va_procedure_def BGL_HEADER_MAX_SIZE_def header_layout)

theorem procedure_copies_witness:
  "make_fx_procedure Map.empty 1 (Code 0 2) 2 70000 = Some (Inl (C_Failure ''make-fx-procedure'' ''Environment to large'' 70000))"
  using procedure_copies [of 70000 Map.empty 1 "Code 0 2" 2 0 undefined "[]"] by simp

lemma hex_digit_letter: "d < 16 \<Longrightarrow> hex_digit (letter d) = Some d"
  by (simp add: letter_def bytes_def hex_digit_def less_Suc_eq eval_nat_numeral) (elim disjE; simp)

lemma strtoul_digits_letters: "\<forall>d \<in> set ds. d < 16 \<Longrightarrow> strtoul_digits a (map letter ds) = foldl (\<lambda>n d. n * 16 + d) a ds"
  by (induction ds arbitrary: a) (simp_all add: hex_digit_letter)

text \<open>The digits, with their leading zeros.\<close>

lemma hex_value:
  obtains ds where "hex n k = map letter ds" and "\<forall>d \<in> set ds. d < 16" and "foldl (\<lambda>n d. n * 16 + d) 0 ds = k"
proof -
  have zeros: "foldl (\<lambda>n d. n * 16 + d) 0 (replicate m 0 @ ds) = foldl (\<lambda>n d. n * 16 + d) (0 :: nat) ds" for m ds
    by (induction m) simp_all
  let ?ds = "replicate (n - length (number_digits 16 k)) 0 @ number_digits 16 k"
  have "hex n k = map letter ?ds" by (simp add: hex_def Let_def letter_def bytes_def)
  moreover have "\<forall>d \<in> set ?ds. d < 16" using number_digits_spec(2) [of 16 _ k] by auto
  moreover have "foldl (\<lambda>n d. n * 16 + d) 0 ?ds = k"
    using number_digits_spec(1) [of 16 k] by (simp only: zeros) (simp add: digits_value_def)
  ultimately show ?thesis using that by blast
qed

lemma letter_class:
  assumes "d < 16"
  shows "letter d \<notin> {9..13} \<union> {32, 43, 45, 88, 120, 0}"
  using assms by (simp add: letter_def bytes_def less_Suc_eq eval_nat_numeral) (elim disjE; simp)

lemma strtoul16_letters:
  assumes "\<forall>d \<in> set ds. d < 16" and "foldl (\<lambda>n d. n * 16 + d) 0 ds = k" and "k < 2 ^ 64" and "ds \<noteq> []"
  shows "strtoul16 (map letter ds) = word_of_nat k"
proof -
  obtain d ds' where ds: "ds = d # ds'" using assms(4) by (cases ds) auto
  have c: "letter e \<noteq> 32 \<and> \<not> (9 \<le> letter e \<and> letter e \<le> 13) \<and> letter e \<noteq> 45 \<and> letter e \<noteq> 43 \<and> letter e \<noteq> 120 \<and> letter e \<noteq> 88"
    if "e \<in> set ds" for e
    using letter_class [of e] that assms(1) by auto
  then have white: "dropWhile (\<lambda>c. c = 32 \<or> (9 \<le> c \<and> c \<le> 13)) (map letter ds) = map letter ds" using c [of d] by (simp add: ds) blast
  have prefix: "(case map letter ds of a # b # d # es \<Rightarrow> if a = 48 \<and> (b = 120 \<or> b = 88) \<and> hex_digit d \<noteq> None then d # es else map letter ds
      | _ \<Rightarrow> map letter ds) = map letter ds"
    using c by (auto simp: ds split: list.split)
  have "strtoul_number (map letter ds) = word_of_nat k"
    unfolding strtoul_number_def Let_def prefix using assms(1-3) by (simp add: strtoul_digits_letters)
  then show ?thesis
    using c white unfolding strtoul16_def by (simp add: ds)
qed

text \<open>The entry of a procedure as a string: the text of the pointer is read back as the pointer. The string has
  seventeen characters, the last of which is a null character.\<close>

theorem procedure_entry_strings:
  "\<exists>s. bgl_procedure_entry_to_string rt p = Some s \<and>
     bgl_string_to_procedure_entry s = Some (address_of rt (if VA_PROCEDUREP p then va_entry p else entry p)) \<and>
     str_length s = 17 \<and> rd (char0 s) 16 = Some 0"
proof -
  define a where "a = address_of rt (if VA_PROCEDUREP p then va_entry p else entry p)"
  have k: "unat a < 16 ^ 16" using unsigned_less [where ?'a = nat, of a] by simp
  obtain ds where ds: "hex 16 (unat a) = map letter ds" "\<forall>d \<in> set ds. d < 16" "foldl (\<lambda>n d. n * 16 + d) 0 ds = unat a"
    using hex_value by metis
  have len: "length ds = 16"
  proof -
    have "length (hex 16 (unat a)) = 16"
      using length_hex [OF k, of 16] by (simp add: hex_def Let_def)
    then show ?thesis using ds(1) by simp
  qed
  obtain c where c: "make_string_sans_fill 17 = Some \<lparr>str_length = 17, char0 = c\<rparr>" "length c = 18"
    by (simp add: make_string_sans_fill_def)
  have m: "blit c 0 (c_string (map letter ds)) 0 17 = Some (c_string (map letter ds) @ drop 17 c)"
    using c(2) len by (simp add: blit_def)
  have "0 \<notin> set (map letter ds)" using letter_class ds(2) by fastforce
  then have "strlen_from (c_string (map letter ds) @ drop 17 c) 0 = Some 16"
    using strlen_from_zero [of 16 "c_string (map letter ds) @ drop 17 c" 0] len
    by (auto simp: mem_simps)
  moreover have "rds (c_string (map letter ds) @ drop 17 c) 0 16 = Some (map letter ds)"
    using len by (simp add: rds_append_left rds_c_string)
  moreover have "strtoul16 (map letter ds) = a"
    using strtoul16_letters [OF ds(2,3)] len unsigned_less [where ?'a = nat, of a] by (cases ds) simp_all
  moreover have "rd (c_string (map letter ds) @ drop 17 c) 16 = Some 0" using len by (simp add: mem_simps)
  ultimately show ?thesis
    using c(1) m len by (simp add: bgl_procedure_entry_to_string_def bgl_string_to_procedure_entry_def a_def [symmetric] ds(1) Let_def)
qed

definition marks_ok :: "eval_marks \<Rightarrow> bool" where
  "marks_ok m \<longleftrightarrow> (\<exists>xs ys. eval_procedure m = map Some xs \<and> length xs = 9 \<and> eval_traced_procedure m = map Some ys \<and> length ys = 9)"

definition no_marks :: eval_marks where
  "no_marks = \<lparr>eval_procedure = replicate 9 (Some NULL), eval_traced_procedure = replicate 9 (Some NULL), eval_4procedure = NULL,
     eval_traced_4procedure = NULL, eval_4vaprocedure = NULL, eval_traced_4vaprocedure = NULL\<rparr>"

lemma eval_index_range: "eval_index p \<ge> 0 \<and> (eval_index p < 9 \<longleftrightarrow> - 4 \<le> arity p \<and> arity p \<le> 8)"
  by (auto simp: eval_index_def)

text \<open>The marks of the evaluator: a procedure of an arity from -4 to 8 that has been marked, traced or not, is
  recognised by its entry, and no call fails; for any other arity marking and testing are outside of the table. The arities -1
  to -4 share their places with 5 to 8: marking a procedure of the one kind erases the mark of the other.\<close>

theorem eval_marks_found:
  assumes "marks_ok m"
  shows "(- 4 \<le> arity p \<and> arity p \<le> 8 \<longrightarrow>
      (\<exists>m'. bgl_eval_procedure m p = Some m' \<and> marks_ok m' \<and> bgl_eval_procedurep m' p = Some True) \<and>
      (\<exists>m'. bgl_eval_traced_procedure m p = Some m' \<and> marks_ok m' \<and> bgl_eval_procedurep m' p = Some True)) \<and>
    (arity p < - 4 \<or> 8 < arity p \<longrightarrow> bgl_eval_procedure m p = None \<and> bgl_eval_procedurep m p = None) \<and>
    (bgl_eval_procedure m p = Some m' \<and> arity p = 5 \<and> arity q = - 1 \<and> va_entry q \<noteq> entry p \<and>
       rd (eval_traced_procedure m) 5 \<noteq> Some (va_entry q) \<longrightarrow> bgl_eval_procedurep m' q = Some False) \<and>
    bgl_eval_4procedurep (bgl_eval_4procedure m p) p \<and> bgl_eval_4procedurep (bgl_eval_traced_4procedure m p) p \<and>
    bgl_eval_4vaprocedurep (bgl_eval_4vaprocedure m p) p \<and> bgl_eval_4vaprocedurep (bgl_eval_traced_4vaprocedure m p) p"
proof -
  obtain xs ys where t: "eval_procedure m = map Some xs" "length xs = 9" "eval_traced_procedure m = map Some ys" "length ys = 9"
    using assms by (auto simp: marks_ok_def)
  have in_range: "\<exists>i. idx (eval_index p) = Some i \<and> i < 9" if "- 4 \<le> arity p \<and> arity p \<le> 8"
    using eval_index_range [of p] that by (auto simp: idx_def)
  have out: "\<exists>i. idx (eval_index p) = Some i \<and> 9 \<le> i" if "arity p < - 4 \<or> 8 < arity p"
    using eval_index_range [of p] that by (intro exI [of _ "nat (eval_index p)"]) (auto simp: idx_def)
  have update: "(map Some zs)[i := Some z] = map Some (zs[i := z])" for zs i and z :: function_t by (simp add: map_update)
  show ?thesis
  proof (intro conjI impI)
    assume "- 4 \<le> arity p \<and> arity p \<le> 8"
    then obtain i where i: "idx (eval_index p) = Some i" "i < 9" using in_range by blast
    show "\<exists>m'. bgl_eval_procedure m p = Some m' \<and> marks_ok m' \<and> bgl_eval_procedurep m' p = Some True"
      using i t by (simp add: bgl_eval_procedure_def bgl_eval_procedurep_def marks_ok_def update rd_map_Some)
    show "\<exists>m'. bgl_eval_traced_procedure m p = Some m' \<and> marks_ok m' \<and> bgl_eval_procedurep m' p = Some True"
      using i t by (simp add: bgl_eval_traced_procedure_def bgl_eval_procedurep_def marks_ok_def update rd_map_Some)
  next
    assume "arity p < - 4 \<or> 8 < arity p"
    then obtain i where i: "idx (eval_index p) = Some i" "9 \<le> i" using out by blast
    show "bgl_eval_procedure m p = None" and "bgl_eval_procedurep m p = None"
      using i t by (simp_all add: bgl_eval_procedure_def bgl_eval_procedurep_def wr_def rd_def)
  next
    assume marked: "bgl_eval_procedure m p = Some m' \<and> arity p = 5 \<and> arity q = - 1 \<and> va_entry q \<noteq> entry p \<and>
      rd (eval_traced_procedure m) 5 \<noteq> Some (va_entry q)"
    then have "m' = m\<lparr>eval_procedure := map Some (xs[5 := entry p])\<rparr>"
      using t by (auto simp: bgl_eval_procedure_def eval_index_def eval_entry_def update)
    then show "bgl_eval_procedurep m' q = Some False"
      using marked t by (auto simp: bgl_eval_procedurep_def eval_index_def eval_entry_def rd_map_Some)
  qed (simp_all add: bgl_eval_4procedurep_def bgl_eval_4procedure_def bgl_eval_traced_4procedure_def bgl_eval_4vaprocedurep_def
      bgl_eval_4vaprocedure_def bgl_eval_traced_4vaprocedure_def)
qed

theorem eval_marks_found_witness:
  "\<exists>m'. bgl_eval_procedure no_marks (BGL_INIT_FX_PROCEDURE [] (Code 64 3) 3 0) = Some m' \<and>
    bgl_eval_procedurep m' (BGL_INIT_FX_PROCEDURE [] (Code 64 3) 3 0) = Some True"
proof -
  have "marks_ok no_marks"
    unfolding marks_ok_def no_marks_def by (intro exI [of _ "replicate 9 NULL"]) simp
  then show ?thesis
    using eval_marks_found [of no_marks "BGL_INIT_FX_PROCEDURE [] (Code 64 3) 3 0"] by (auto simp: BGL_INIT_FX_PROCEDURE_def)
qed

end
