(* ===== verification/Capply.thy ===== *)
theory Capply
  imports Cproc
begin

text \<open>
  Application of a procedure to a list (\<open>runtime/Clib/capply.c\<close>), the execution of the chains of calls through the
  entries of the runtime, and what they come to.
\<close>

section \<open>Apply\<close>

fun CAR :: "obj \<Rightarrow> obj option" where
  "CAR (Pair a d) = Some a"
| "CAR _ = None"

fun CDR :: "obj \<Rightarrow> obj option" where
  "CDR (Pair a d) = Some d"
| "CDR _ = None"

text \<open>The Scheme function \<open>length\<close> on a proper list.\<close>

fun bgl_list_length :: "obj \<Rightarrow> nat option" where
  "bgl_list_length BNIL = Some 0"
| "bgl_list_length (Pair a d) = map_option Suc (bgl_list_length d)"
| "bgl_list_length _ = None"

definition opt_apply :: "procedures \<Rightarrow> nat \<Rightarrow> obj \<Rightarrow> call option" where
  "opt_apply h f args_list = do {
     n \<leftarrow> bgl_list_length args_list;
     let len = int32 (int n);
     m \<leftarrow> stack_vector len;
     (m, args_list) \<leftarrow> for_up 0 len (\<lambda>i (m, l). do { k \<leftarrow> idx i; a \<leftarrow> CAR l; m \<leftarrow> wr m k a; d \<leftarrow> CDR l; Some (m, d) }) (m, args_list);
     k \<leftarrow> idx len;
     xs \<leftarrow> rds m 0 k;
     p \<leftarrow> h f;
     Some (Enter (va_entry p) f [Vector xs]) }"

text \<open>The cases -1 to -50 and 0 to 50 of the two switches.\<close>

definition apply_va_cases_1 :: "nat list list" where
  "apply_va_cases_1 =
     [[],
      [0],
      [0, 1],
      [0, 1, 2],
      [0, 1, 2, 3],
      [0, 1, 2, 3, 4],
      [0, 1, 2, 3, 4, 5],
      [0, 1, 2, 3, 4, 5, 6],
      [0, 1, 2, 3, 4, 5, 6, 7],
      [0, 1, 2, 3, 4, 5, 6, 7, 8],
      [0, 1, 2, 3, 4, 5, 6, 7, 8, 9],
      [0, 1, 2, 3, 4, 5, 6, 7, 8, 9, 10],
      [0, 1, 2, 3, 4, 5, 6, 7, 8, 9, 10, 11],
      [0, 1, 2, 3, 4, 5, 6, 7, 8, 9, 10, 11, 12],
      [0, 1, 2, 3, 4, 5, 6, 7, 8, 9, 10, 11, 12, 13],
      [0, 1, 2, 3, 4, 5, 6, 7, 8, 9, 10, 11, 12, 13, 14],
      [0, 1, 2, 3, 4, 5, 6, 7, 8, 9, 10, 11, 12, 13, 14, 15],
      [0, 1, 2, 3, 4, 5, 6, 7, 8, 9, 10, 11, 12, 13, 14, 15, 16],
      [0, 1, 2, 3, 4, 5, 6, 7, 8, 9, 10, 11, 12, 13, 14, 15, 16, 17],
      [0, 1, 2, 3, 4, 5, 6, 7, 8, 9, 10, 11, 12, 13, 14, 15, 16, 17, 18],
      [0, 1, 2, 3, 4, 5, 6, 7, 8, 9, 10, 11, 12, 13, 14, 15, 16, 17, 18, 19],
      [0, 1, 2, 3, 4, 5, 6, 7, 8, 9, 10, 11, 12, 13, 14, 15, 16, 17, 18, 19, 20],
      [0, 1, 2, 3, 4, 5, 6, 7, 8, 9, 10, 11, 12, 13, 14, 15, 16, 17, 18, 19, 20, 21]]"

definition apply_va_cases_2 :: "nat list list" where
  "apply_va_cases_2 =
     [[0, 1, 2, 3, 4, 5, 6, 7, 8, 9, 10, 11, 12, 13, 14, 15, 16, 17, 18, 19, 20, 21, 22],
      [0, 1, 2, 3, 4, 5, 6, 7, 8, 9, 10, 11, 12, 13, 14, 15, 16, 17, 18, 19, 20, 21, 22, 23],
      [0, 1, 2, 3, 4, 5, 6, 7, 8, 9, 10, 11, 12, 13, 14, 15, 16, 17, 18, 19, 20, 21, 22, 23, 24],
      [0, 1, 2, 3, 4, 5, 6, 7, 8, 9, 10, 11, 12, 13, 14, 15, 16, 17, 18, 19, 20, 21, 22, 23, 24, 25],
      [0, 1, 2, 3, 4, 5, 6, 7, 8, 9, 10, 11, 12, 13, 14, 15, 16, 17, 18, 19, 20, 21, 22, 23, 24, 25, 26],
      [0, 1, 2, 3, 4, 5, 6, 7, 8, 9, 10, 11, 12, 13, 14, 15, 16, 17, 18, 19, 20, 21, 22, 23, 24, 25, 26, 27],
      [0, 1, 2, 3, 4, 5, 6, 7, 8, 9, 10, 11, 12, 13, 14, 15, 16, 17, 18, 19, 20, 21, 22, 23, 24, 25, 26, 27, 28],
      [0, 1, 2, 3, 4, 5, 6, 7, 8, 9, 10, 11, 12, 13, 14, 15, 16, 17, 18, 19, 20, 21, 22, 23, 24, 25, 26, 27, 28, 29],
      [0, 1, 2, 3, 4, 5, 6, 7, 8, 9, 10, 11, 12, 13, 14, 15, 16, 17, 18, 19, 20, 21, 22, 23, 24, 25, 26, 27, 28, 29, 30],
      [0, 1, 2, 3, 4, 5, 6, 7, 8, 9, 10, 11, 12, 13, 14, 15, 16, 17, 18, 19, 20, 21, 22, 23, 24, 25, 26, 27, 28, 29, 30, 31],
      [0, 1, 2, 3, 4, 5, 6, 7, 8, 9, 10, 11, 12, 13, 14, 15, 16, 17, 18, 19, 20, 21, 22, 23, 24, 25, 26, 27, 28, 29, 30, 31, 32],
      [0, 1, 2, 3, 4, 5, 6, 7, 8, 9, 10, 11, 12, 13, 14, 15, 16, 17, 18, 19, 20, 21, 22, 23, 24, 25, 26, 27, 28, 29, 30, 31, 32, 33]]"

definition apply_va_cases_3 :: "nat list list" where
  "apply_va_cases_3 =
     [[0, 1, 2, 3, 4, 5, 6, 7, 8, 9, 10, 11, 12, 13, 14, 15, 16, 17, 18, 19, 20, 21, 22, 23, 24, 25, 26, 27, 28, 29, 30, 31, 32, 33, 34],
      [0, 1, 2, 3, 4, 5, 6, 7, 8, 9, 10, 11, 12, 13, 14, 15, 16, 17, 18, 19, 20, 21, 22, 23, 24, 25, 26, 27, 28, 29, 30, 31, 32, 33, 34, 35],
      [0, 1, 2, 3, 4, 5, 6, 7, 8, 9, 10, 11, 12, 13, 14, 15, 16, 17, 18, 19, 20, 21, 22, 23, 24, 25, 26, 27, 28, 29, 30, 31, 32, 33, 34, 35, 36],
      [0, 1, 2, 3, 4, 5, 6, 7, 8, 9, 10, 11, 12, 13, 14, 15, 16, 17, 18, 19, 20, 21, 22, 23, 24, 25, 26, 27, 28, 29, 30, 31, 32, 33, 34, 35, 36, 37],
      [0, 1, 2, 3, 4, 5, 6, 7, 8, 9, 10, 11, 12, 13, 14, 15, 16, 17, 18, 19, 20, 21, 22, 23, 24, 25, 26, 27, 28, 29, 30, 31, 32, 33, 34, 35, 36, 37, 38],
      [0, 1, 2, 3, 4, 5, 6, 7, 8, 9, 10, 11, 12, 13, 14, 15, 16, 17, 18, 19, 20, 21, 22, 23, 24, 25, 26, 27, 28, 29, 30, 31, 32, 33, 34, 35, 36, 37, 38, 39],
      [0, 1, 2, 3, 4, 5, 6, 7, 8, 9, 10, 11, 12, 13, 14, 15, 16, 17, 18, 19, 20, 21, 22, 23, 24, 25, 26, 27, 28, 29, 30, 31, 32, 33, 34, 35, 36, 37, 38, 39, 40],
      [0, 1, 2, 3, 4, 5, 6, 7, 8, 9, 10, 11, 12, 13, 14, 15, 16, 17, 18, 19, 20, 21, 22, 23, 24, 25, 26, 27, 28, 29, 30, 31, 32, 33, 34, 35, 36, 37, 38, 39, 40, 41],
      [0, 1, 2, 3, 4, 5, 6, 7, 8, 9, 10, 11, 12, 13, 14, 15, 16, 17, 18, 19, 20, 21, 22, 23, 24, 25, 26, 27, 28, 29, 30, 31, 32, 33, 34, 35, 36, 37, 38, 39, 40, 41, 42]]"

definition apply_va_cases_4 :: "nat list list" where
  "apply_va_cases_4 =
     [[0, 1, 2, 3, 4, 5, 6, 7, 8, 9, 10, 11, 12, 13, 14, 15, 16, 17, 18, 19, 20, 21, 22, 23, 24, 25, 26, 27, 28, 29, 30, 31, 32, 33, 34, 35, 36, 37, 38, 39, 40, 41, 42, 43],
      [0, 1, 2, 3, 4, 5, 6, 7, 8, 9, 10, 11, 12, 13, 14, 15, 16, 17, 18, 19, 20, 21, 22, 23, 24, 25, 26, 27, 28, 29, 30, 31, 32, 33, 34, 35, 36, 37, 38, 39, 40, 41, 42, 43, 44],
      [0, 1, 2, 3, 4, 5, 6, 7, 8, 9, 10, 11, 12, 13, 14, 15, 16, 17, 18, 19, 20, 21, 22, 23, 24, 25, 26, 27, 28, 29, 30, 31, 32, 33, 34, 35, 36, 37, 38, 39, 40, 41, 42, 43, 44, 45],
      [0, 1, 2, 3, 4, 5, 6, 7, 8, 9, 10, 11, 12, 13, 14, 15, 16, 17, 18, 19, 20, 21, 22, 23, 24, 25, 26, 27, 28, 29, 30, 31, 32, 33, 34, 35, 36, 37, 38, 39, 40, 41, 42, 43, 44, 45, 46],
      [0, 1, 2, 3, 4, 5, 6, 7, 8, 9, 10, 11, 12, 13, 14, 15, 16, 17, 18, 19, 20, 21, 22, 23, 24, 25, 26, 27, 28, 29, 30, 31, 32, 33, 34, 35, 36, 37, 38, 39, 40, 41, 42, 43, 44, 45, 46, 47],
      [0, 1, 2, 3, 4, 5, 6, 7, 8, 9, 10, 11, 12, 13, 14, 15, 16, 17, 18, 19, 20, 21, 22, 23, 24, 25, 26, 27, 28, 29, 30, 31, 32, 33, 34, 35, 36, 37, 38, 39, 40, 41, 42, 43, 44, 45, 46, 47, 48]]"

definition apply_cases_1 :: "nat list list" where
  "apply_cases_1 =
     [[],
      [0],
      [0, 1],
      [0, 1, 2],
      [0, 1, 2, 3],
      [0, 1, 2, 3, 4],
      [0, 1, 2, 3, 4, 5],
      [0, 1, 2, 3, 4, 5, 6],
      [0, 1, 2, 3, 4, 5, 6, 7],
      [0, 1, 2, 3, 4, 5, 6, 7, 8],
      [0, 1, 2, 3, 4, 5, 6, 7, 8, 9],
      [0, 1, 2, 3, 4, 5, 6, 7, 8, 9, 10],
      [0, 1, 2, 3, 4, 5, 6, 7, 8, 9, 10, 11],
      [0, 1, 2, 3, 4, 5, 6, 7, 8, 9, 10, 11, 12],
      [0, 1, 2, 3, 4, 5, 6, 7, 8, 9, 10, 11, 12, 13],
      [0, 1, 2, 3, 4, 5, 6, 7, 8, 9, 10, 11, 12, 13, 14],
      [0, 1, 2, 3, 4, 5, 6, 7, 8, 9, 10, 11, 12, 13, 14, 15],
      [0, 1, 2, 3, 4, 5, 6, 7, 8, 9, 10, 11, 12, 13, 14, 15, 16],
      [0, 1, 2, 3, 4, 5, 6, 7, 8, 9, 10, 11, 12, 13, 14, 15, 16, 17],
      [0, 1, 2, 3, 4, 5, 6, 7, 8, 9, 10, 11, 12, 13, 14, 15, 16, 17, 18],
      [0, 1, 2, 3, 4, 5, 6, 7, 8, 9, 10, 11, 12, 13, 14, 15, 16, 17, 18, 19],
      [0, 1, 2, 3, 4, 5, 6, 7, 8, 9, 10, 11, 12, 13, 14, 15, 16, 17, 18, 19, 20]]"

definition apply_cases_2 :: "nat list list" where
  "apply_cases_2 =
     [[0, 1, 2, 3, 4, 5, 6, 7, 8, 9, 10, 11, 12, 13, 14, 15, 16, 17, 18, 19, 20, 21],
      [0, 1, 2, 3, 4, 5, 6, 7, 8, 9, 10, 11, 12, 13, 14, 15, 16, 17, 18, 19, 20, 21, 22],
      [0, 1, 2, 3, 4, 5, 6, 7, 8, 9, 10, 11, 12, 13, 14, 15, 16, 17, 18, 19, 20, 21, 22, 23],
      [0, 1, 2, 3, 4, 5, 6, 7, 8, 9, 10, 11, 12, 13, 14, 15, 16, 17, 18, 19, 20, 21, 22, 23, 24],
      [0, 1, 2, 3, 4, 5, 6, 7, 8, 9, 10, 11, 12, 13, 14, 15, 16, 17, 18, 19, 20, 21, 22, 23, 24, 25],
      [0, 1, 2, 3, 4, 5, 6, 7, 8, 9, 10, 11, 12, 13, 14, 15, 16, 17, 18, 19, 20, 21, 22, 23, 24, 25, 26],
      [0, 1, 2, 3, 4, 5, 6, 7, 8, 9, 10, 11, 12, 13, 14, 15, 16, 17, 18, 19, 20, 21, 22, 23, 24, 25, 26, 27],
      [0, 1, 2, 3, 4, 5, 6, 7, 8, 9, 10, 11, 12, 13, 14, 15, 16, 17, 18, 19, 20, 21, 22, 23, 24, 25, 26, 27, 28],
      [0, 1, 2, 3, 4, 5, 6, 7, 8, 9, 10, 11, 12, 13, 14, 15, 16, 17, 18, 19, 20, 21, 22, 23, 24, 25, 26, 27, 28, 29],
      [0, 1, 2, 3, 4, 5, 6, 7, 8, 9, 10, 11, 12, 13, 14, 15, 16, 17, 18, 19, 20, 21, 22, 23, 24, 25, 26, 27, 28, 29, 30],
      [0, 1, 2, 3, 4, 5, 6, 7, 8, 9, 10, 11, 12, 13, 14, 15, 16, 17, 18, 19, 20, 21, 22, 23, 24, 25, 26, 27, 28, 29, 30, 31],
      [0, 1, 2, 3, 4, 5, 6, 7, 8, 9, 10, 11, 12, 13, 14, 15, 16, 17, 18, 19, 20, 21, 22, 23, 24, 25, 26, 27, 28, 29, 30, 31, 32]]"

definition apply_cases_3 :: "nat list list" where
  "apply_cases_3 =
     [[0, 1, 2, 3, 4, 5, 6, 7, 8, 9, 10, 11, 12, 13, 14, 15, 16, 17, 18, 19, 20, 21, 22, 23, 24, 25, 26, 27, 28, 29, 30, 31, 32, 33],
      [0, 1, 2, 3, 4, 5, 6, 7, 8, 9, 10, 11, 12, 13, 14, 15, 16, 17, 18, 19, 20, 21, 22, 23, 24, 25, 26, 27, 28, 29, 30, 31, 32, 33, 34],
      [0, 1, 2, 3, 4, 5, 6, 7, 8, 9, 10, 11, 12, 13, 14, 15, 16, 17, 18, 19, 20, 21, 22, 23, 24, 25, 26, 27, 28, 29, 30, 31, 32, 33, 34, 35],
      [0, 1, 2, 3, 4, 5, 6, 7, 8, 9, 10, 11, 12, 13, 14, 15, 16, 17, 18, 19, 20, 21, 22, 23, 24, 25, 26, 27, 28, 29, 30, 31, 32, 33, 34, 35, 36],
      [0, 1, 2, 3, 4, 5, 6, 7, 8, 9, 10, 11, 12, 13, 14, 15, 16, 17, 18, 19, 20, 21, 22, 23, 24, 25, 26, 27, 28, 29, 30, 31, 32, 33, 34, 35, 36, 37],
      [0, 1, 2, 3, 4, 5, 6, 7, 8, 9, 10, 11, 12, 13, 14, 15, 16, 17, 18, 19, 20, 21, 22, 23, 24, 25, 26, 27, 28, 29, 30, 31, 32, 33, 34, 35, 36, 37, 38],
      [0, 1, 2, 3, 4, 5, 6, 7, 8, 9, 10, 11, 12, 13, 14, 15, 16, 17, 18, 19, 20, 21, 22, 23, 24, 25, 26, 27, 28, 29, 30, 31, 32, 33, 34, 35, 36, 37, 38, 39],
      [0, 1, 2, 3, 4, 5, 6, 7, 8, 9, 10, 11, 12, 13, 14, 15, 16, 17, 18, 19, 20, 21, 22, 23, 24, 25, 26, 27, 28, 29, 30, 31, 32, 33, 34, 35, 36, 37, 38, 39, 40],
      [0, 1, 2, 3, 4, 5, 6, 7, 8, 9, 10, 11, 12, 13, 14, 15, 16, 17, 18, 19, 20, 21, 22, 23, 24, 25, 26, 27, 28, 29, 30, 31, 32, 33, 34, 35, 36, 37, 38, 39, 40, 41]]"

definition apply_cases_4 :: "nat list list" where
  "apply_cases_4 =
     [[0, 1, 2, 3, 4, 5, 6, 7, 8, 9, 10, 11, 12, 13, 14, 15, 16, 17, 18, 19, 20, 21, 22, 23, 24, 25, 26, 27, 28, 29, 30, 31, 32, 33, 34, 35, 36, 37, 38, 39, 40, 41, 42],
      [0, 1, 2, 3, 4, 5, 6, 7, 8, 9, 10, 11, 12, 13, 14, 15, 16, 17, 18, 19, 20, 21, 22, 23, 24, 25, 26, 27, 28, 29, 30, 31, 32, 33, 34, 35, 36, 37, 38, 39, 40, 41, 42, 43],
      [0, 1, 2, 3, 4, 5, 6, 7, 8, 9, 10, 11, 12, 13, 14, 15, 16, 17, 18, 19, 20, 21, 22, 23, 24, 25, 26, 27, 28, 29, 30, 31, 32, 33, 34, 35, 36, 37, 38, 39, 40, 41, 42, 43, 44],
      [0, 1, 2, 3, 4, 5, 6, 7, 8, 9, 10, 11, 12, 13, 14, 15, 16, 17, 18, 19, 20, 21, 22, 23, 24, 25, 26, 27, 28, 29, 30, 31, 32, 33, 34, 35, 36, 37, 38, 39, 40, 41, 42, 43, 44, 45],
      [0, 1, 2, 3, 4, 5, 6, 7, 8, 9, 10, 11, 12, 13, 14, 15, 16, 17, 18, 19, 20, 21, 22, 23, 24, 25, 26, 27, 28, 29, 30, 31, 32, 33, 34, 35, 36, 37, 38, 39, 40, 41, 42, 43, 44, 45, 46],
      [0, 1, 2, 3, 4, 5, 6, 7, 8, 9, 10, 11, 12, 13, 14, 15, 16, 17, 18, 19, 20, 21, 22, 23, 24, 25, 26, 27, 28, 29, 30, 31, 32, 33, 34, 35, 36, 37, 38, 39, 40, 41, 42, 43, 44, 45, 46, 47],
      [0, 1, 2, 3, 4, 5, 6, 7, 8, 9, 10, 11, 12, 13, 14, 15, 16, 17, 18, 19, 20, 21, 22, 23, 24, 25, 26, 27, 28, 29, 30, 31, 32, 33, 34, 35, 36, 37, 38, 39, 40, 41, 42, 43, 44, 45, 46, 47, 48],
      [0, 1, 2, 3, 4, 5, 6, 7, 8, 9, 10, 11, 12, 13, 14, 15, 16, 17, 18, 19, 20, 21, 22, 23, 24, 25, 26, 27, 28, 29, 30, 31, 32, 33, 34, 35, 36, 37, 38, 39, 40, 41, 42, 43, 44, 45, 46, 47, 48, 49]]"

definition apply_va_cases :: "nat list list" where
  "apply_va_cases = apply_va_cases_1 @ apply_va_cases_2 @ apply_va_cases_3 @ apply_va_cases_4"

definition apply_cases :: "nat list list" where
  "apply_cases = apply_cases_1 @ apply_cases_2 @ apply_cases_3 @ apply_cases_4"

text \<open>The array \<open>arg\<close> on the stack.\<close>

definition take_args :: "int \<Rightarrow> obj \<Rightarrow> (obj cells \<times> obj) option" where
  "take_args require args_list = do {
     n \<leftarrow> idx require;
     for_up 0 require (\<lambda>i (arg, runner). do { k \<leftarrow> idx i; a \<leftarrow> CAR runner; arg \<leftarrow> wr arg k a; d \<leftarrow> CDR runner; Some (arg, d) })
       (gc_malloc n, args_list) }"

definition too_many :: "int \<Rightarrow> failure" where
  "too_many k = C_System_Failure BGL_ERROR ''apply''
     (''too many arguments provided ('' @ map (\<lambda>c. char_of (unat c)) (decimal k) @ '') in apply (max 50)'')"

definition c_apply :: "procedures \<Rightarrow> nat \<Rightarrow> obj \<Rightarrow> (failure + call) option" where
  "c_apply h f args_list = do {
     p \<leftarrow> h f;
     if arity p < 0 then
       if OPT_PROCEDUREP p then map_option Inr (opt_apply h f args_list)
       else if va_entry p = NULL then do {
         d \<leftarrow> generic_default h f;
         Some (Inr (Apply d args_list)) }
       else do {
         let require = - arity p - 1;
         (arg, runner) \<leftarrow> take_args require args_list;
         case switch apply_va_cases require of
           None \<Rightarrow> Some (Inl (too_many (- arity p)))
         | Some ks \<Rightarrow> do { xs \<leftarrow> elements arg ks; Some (Inr (Enter (va_entry p) f (xs @ [runner]))) } }
     else do {
       (arg, runner) \<leftarrow> take_args (arity p) args_list;
       case switch apply_cases (arity p) of
         None \<Rightarrow> Some (Inl (too_many (arity p)))
       | Some ks \<Rightarrow> do { xs \<leftarrow> elements arg ks; Some (Inr (Enter (entry p) f xs)) } } }"

section \<open>Execution\<close>

text \<open>
  A chain of calls ends in the code of a compiled procedure: its address, the procedure, the arguments. Compiled code
  reads as many arguments as it has parameters.
\<close>

definition call_step :: "bool \<Rightarrow> procedures \<Rightarrow> call \<Rightarrow> (failure + call) option" where
  "call_step strict h c =
     (case c of
        Apply f l \<Rightarrow> c_apply h f l
      | Enter e f args \<Rightarrow>
          (case e of
             NULL \<Rightarrow> None
           | Code a n \<Rightarrow> None
           | Va_generic_entry \<Rightarrow> va_generic_entry h f args
           | Va_stack_entry \<Rightarrow> bgl_va_stack_entry h f args
           | Opt_generic_entry \<Rightarrow> map_option Inr (opt_generic_entry h f args)
           | Generic_entry \<Rightarrow> map_option Inr (generic_entry h f args)
           | Generic_entry1 \<Rightarrow> map_option Inr (generic_entry1 strict h f args)
           | Generic_entry2 \<Rightarrow> map_option Inr (generic_entry2 strict h f args)
           | Generic_entry3 \<Rightarrow> map_option Inr (generic_entry3 strict h f args)
           | Generic_entry4 \<Rightarrow> map_option Inr (generic_entry4 strict h f args)
           | Generic_entry5 \<Rightarrow> map_option Inr (generic_entry5 strict h f args)))"

partial_function (option) run :: "bool \<Rightarrow> procedures \<Rightarrow> call \<Rightarrow> (failure + 64 word \<times> nat \<times> obj list) option" where
  "run strict h c =
     (case c of
        Enter (Code a n) f args \<Rightarrow> if n \<le> length args then Some (Inr (a, f, take n args)) else None
      | _ \<Rightarrow> do {
          r \<leftarrow> call_step strict h c;
          case r of Inl e \<Rightarrow> Some (Inl e) | Inr c \<Rightarrow> run strict h c })"

section \<open>What a call means\<close>

fun mk_list :: "obj list \<Rightarrow> obj" where
  "mk_list [] = BNIL"
| "mk_list (x # xs) = Pair x (mk_list xs)"

text \<open>
  The meaning of a call on the arguments \<open>args\<close>: the code that runs at the end, its procedure and its arguments.
  \<open>max_fixed\<close>, \<open>max_rest\<close> and \<open>generic_arity\<close> bound the number of parameters.
\<close>

inductive invokes :: "procedures \<Rightarrow> nat \<Rightarrow> nat \<Rightarrow> (int \<Rightarrow> bool) \<Rightarrow> nat \<Rightarrow> obj list \<Rightarrow> 64 word \<times> nat \<times> obj list \<Rightarrow> bool"
  for h max_fixed max_rest generic_arity where
  invokes_fixed: "h f = Some p \<Longrightarrow> arity p = int n \<Longrightarrow> entry p = Code a n \<Longrightarrow> n \<le> max_fixed \<Longrightarrow> length args = n \<Longrightarrow>
    invokes h max_fixed max_rest generic_arity f args (a, f, args)"
| invokes_rest: "h f = Some p \<Longrightarrow> arity p = - int n - 1 \<Longrightarrow> attr p \<noteq> BFALSE \<Longrightarrow> entry p \<in> {Va_generic_entry, Va_stack_entry} \<Longrightarrow>
    va_entry p = Code a (n + 1) \<Longrightarrow> n \<le> max_rest \<Longrightarrow> n \<le> length args \<Longrightarrow>
    invokes h max_fixed max_rest generic_arity f args (a, f, take n args @ [mk_list (drop n args)])"
| invokes_optional: "h f = Some p \<Longrightarrow> arity p < 0 \<Longrightarrow> attr p = BFALSE \<Longrightarrow> entry p = Opt_generic_entry \<Longrightarrow> va_entry p = Code a 1 \<Longrightarrow>
    length args < 2 ^ 28 - 1 \<Longrightarrow> invokes h max_fixed max_rest generic_arity f args (a, f, [Vector args])"
| invokes_generic: "h f = Some p \<Longrightarrow> attr p \<noteq> BFALSE \<Longrightarrow> va_entry p = NULL \<Longrightarrow> generic_default h f = Some d \<Longrightarrow>
    entry p = generic_code (arity p) \<Longrightarrow>
    generic_arity (arity p) \<Longrightarrow> PROCEDURE_CORRECT_ARITYP p (int (length args)) \<Longrightarrow>
    invokes h max_fixed max_rest generic_arity d args r \<Longrightarrow> invokes h max_fixed max_rest generic_arity f args r"

section \<open>The tables\<close>

lemma va_tables: "va_generic_cases = map (\<lambda>n. [0..<n]) [0..<17]" "va_stack_cases = map (\<lambda>n. [0..<n]) [0..<17]"
  by (simp_all add: va_generic_cases_def va_stack_cases_def upt_rec)

lemma apply_va_table: "apply_va_cases = map (\<lambda>n. [0..<n]) [0..<50]"
  by (simp add: apply_va_cases_def apply_va_cases_1_def apply_va_cases_2_def apply_va_cases_3_def apply_va_cases_4_def upt_rec)

lemma apply_table: "apply_cases = map (\<lambda>n. [0..<n]) [0..<51]"
  by (simp add: apply_cases_def apply_cases_1_def apply_cases_2_def apply_cases_3_def apply_cases_4_def upt_rec)

lemma switch_table: "switch (map (\<lambda>n. [0..<n]) [0..<k]) i = (if 0 \<le> i \<and> i < int k then Some [0..<nat i] else None)"
  by (auto simp: switch_def)

lemmas switches = switch_table [of 17, folded va_tables(1)] switch_table [of 17, folded va_tables(2)]
  switch_table [of 50, folded apply_va_table] switch_table [of 51, folded apply_table]

lemma elements_prefix: "elements (map Some xs @ sl) [i..<length xs] = Some (drop i xs)"
proof (induction "length xs - i" arbitrary: i)
  case (Suc d)
  then have "i < length xs" "elements (map Some xs @ sl) [Suc i..<length xs] = Some (drop (Suc i) xs)" by simp_all
  then show ?case by (simp add: upt_conv_Cons Cons_nth_drop_Suc rd_append rd_map_Some)
qed simp

text \<open>The loops that store the first arguments.\<close>

lemma store_loop:
  assumes "\<And>i arg x xs. i < length arg \<Longrightarrow> body (int i) (arg, lst (x # xs)) = Some (arg[i := Some x], lst xs)"
    and "i \<le> n" and "n - i \<le> length xs" and "n \<le> length m"
  shows "for_up (int i) (int n) body (m, lst xs) =
    Some (take i m @ map Some (take (n - i) xs) @ drop n m, lst (drop (n - i) xs))"
  using assms(2-4)
proof (induction "n - i" arbitrary: i m xs)
  case 0
  then show ?case by (subst for_up.simps) simp
next
  case (Suc d)
  then obtain x ys where xs: "xs = x # ys" by (cases xs) auto
  have i: "i < n" using Suc.hyps(2) by simp
  have "for_up (int (Suc i)) (int n) body (m[i := Some x], lst ys) =
      Some (take (Suc i) (m[i := Some x]) @ map Some (take (n - Suc i) ys) @ drop n (m[i := Some x]), lst (drop (n - Suc i) ys))"
    using Suc.hyps(2) Suc.prems xs by (intro Suc.hyps(1)) auto
  moreover have "n - i = Suc (n - Suc i)" using i by simp
  moreover have "take (Suc i) (m[i := Some x]) = take i m @ [Some x]" using i Suc.prems by (simp add: take_Suc_conv_app_nth)
  ultimately show ?case
    using i Suc.prems by (subst for_up.simps) (simp add: xs assms(1) add.commute)
qed

lemma take_args_list: "n \<le> length args \<Longrightarrow> take_args (int n) (mk_list args) = Some (map Some (take n args), mk_list (drop n args))"
  by (simp add: take_args_def, subst store_loop [where i = 0 and lst = mk_list and xs = args and n = n, simplified]) simp_all

lemma required_args:
  "n \<le> length args \<Longrightarrow> n \<le> 16 \<Longrightarrow>
    required (int n) args = Some (map Some (take n args) @ gc_malloc (16 - n), drop n args)"
  by (simp add: required_def, subst store_loop [where i = 0 and lst = "\<lambda>xs. xs" and xs = args and n = n, simplified])
    (simp_all add: gc_malloc_def)

lemma collect_args: "BEOA \<notin> set args \<Longrightarrow> collect (args @ [BEOA]) = Some (mk_list args)"
  by (induction args) auto

lemma count_args_end: "BEOA \<notin> set args \<Longrightarrow> count_args (args @ [BEOA]) = Some (length args)"
  by (induction args) auto

lemma length_mk_list: "bgl_list_length (mk_list args) = Some (length args)"
  by (induction args) auto

lemma stack_vector_small: "n < 2 ^ 28 - 1 \<Longrightarrow> stack_vector (int n) = Some (gc_malloc n)"
proof -
  assume n: "n < 2 ^ 28 - 1"
  have "VECTOR_SIZE + (int n - 1) * 8 = 8 * (int n + 1)" by (simp add: VECTOR_SIZE_def)
  moreover have "int32 (8 * (int n + 1)) = 8 * (int n + 1)" using n by simp
  ultimately show ?thesis by (simp only: stack_vector_def) simp
qed

section \<open>One entry at a time\<close>

lemma va_entries:
  assumes "h f = Some p" and "arity p = - int n - 1" and "n \<le> 16" and "n \<le> length args" and "BEOA \<notin> set args"
  shows "va_generic_entry h f (args @ [BEOA]) = Some (Inr (Enter (va_entry p) f (take n args @ [mk_list (drop n args)])))"
    and "bgl_va_stack_entry h f (args @ [BEOA]) = Some (Inr (Enter (va_entry p) f (take n args @ [mk_list (drop n args)])))"
proof -
  have "BEOA \<notin> set (drop n args)" using assms(5) in_set_dropD by fast
  then have rest: "collect (drop n args @ [BEOA]) = Some (mk_list (drop n args))" by (rule collect_args)
  have req: "required (int n) (args @ [BEOA]) = Some (map Some (take n args) @ gc_malloc (16 - n), drop n args @ [BEOA])"
    using required_args [of n "args @ [BEOA]"] assms(3,4) by simp
  have "elements (map Some (take n args) @ gc_malloc (16 - n)) [0..<n] = Some (take n args)"
    using elements_prefix [of "take n args" "gc_malloc (16 - n)" 0] assms(4) by simp
  then show "va_generic_entry h f (args @ [BEOA]) = Some (Inr (Enter (va_entry p) f (take n args @ [mk_list (drop n args)])))"
    and "bgl_va_stack_entry h f (args @ [BEOA]) = Some (Inr (Enter (va_entry p) f (take n args @ [mk_list (drop n args)])))"
    using assms(1-3) rest req by (simp_all add: va_generic_entry_def bgl_va_stack_entry_def switches Let_def)
qed

lemma opt_entry:
  assumes "h f = Some p" and "length args < 2 ^ 28 - 1" and "BEOA \<notin> set args"
  shows "opt_generic_entry h f (args @ [BEOA]) = Some (Enter (va_entry p) f [Vector args])"
proof -
  let ?n = "length args"
  have len: "int32 (int ?n) = int ?n" using assms(2) by simp
  have "for_up (int 0) (int ?n) (\<lambda>i m. do { k \<leftarrow> idx i; x \<leftarrow> rd (map Some (args @ [BEOA])) k; wr m k x }) (gc_malloc ?n) = Some (map Some args)"
  proof -
    have "for_up (int i) (int ?n) (\<lambda>i m. do { k \<leftarrow> idx i; x \<leftarrow> rd (map Some (args @ [BEOA])) k; wr m k x })
        (map Some (take i args) @ gc_malloc (?n - i)) = Some (map Some args)" if "i \<le> ?n" for i
      using that
    proof (induction "?n - i" arbitrary: i)
      case 0
      then show ?case by (subst for_up.simps) (simp add: gc_malloc_def)
    next
      case (Suc d)
      then have i: "i < ?n" by simp
      have "(map Some (take i args) @ gc_malloc (?n - i))[i := Some (args ! i)] = map Some (take (Suc i) args) @ gc_malloc (?n - Suc i)"
        using i by (simp add: gc_malloc_def list_update_append take_Suc_conv_app_nth Suc_diff_Suc [symmetric])
      moreover have "int i + 1 = int (Suc i)" by simp
      ultimately show ?case
        using Suc.hyps(1) [of "Suc i"] Suc.hyps(2) i
        by (subst for_up.simps) (simp only: idx_int rd_map_Some, simp add: nth_append)
    qed
    from this [of 0] show ?thesis by simp
  qed
  then show ?thesis
    using assms(1,3) by (simp add: opt_generic_entry_def count_args_end len stack_vector_small [OF assms(2)] Let_def rds_map_Some)
qed

lemma opt_applied:
  assumes "h f = Some p" and "length args < 2 ^ 28 - 1"
  shows "opt_apply h f (mk_list args) = Some (Enter (va_entry p) f [Vector args])"
proof -
  have len: "int32 (int (length args)) = int (length args)" using assms(2) by simp
  have "for_up (int 0) (int (length args)) (\<lambda>i (m, l). do { k \<leftarrow> idx i; a \<leftarrow> CAR l; m \<leftarrow> wr m k a; d \<leftarrow> CDR l; Some (m, d) })
      (gc_malloc (length args), mk_list args) = Some (map Some args, BNIL)"
    using store_loop [where i = 0 and lst = mk_list and xs = args and n = "length args" and m = "gc_malloc (length args)"] by simp
  then show ?thesis
    using assms(1) by (simp add: opt_apply_def length_mk_list len stack_vector_small [OF assms(2)] Let_def rds_map_Some)
qed

lemma apply_fixed:
  assumes "h f = Some p" and "arity p = int n" and "n \<le> 50" and "n \<le> length args"
  shows "c_apply h f (mk_list args) = Some (Inr (Enter (entry p) f (take n args)))"
  using assms elements_prefix [of "take n args" "[]" 0] by (simp add: c_apply_def take_args_list switches)

lemma apply_rest:
  assumes "h f = Some p" and "arity p = - int n - 1" and "attr p \<noteq> BFALSE" and "va_entry p \<noteq> NULL" and "n \<le> 49" and "n \<le> length args"
  shows "c_apply h f (mk_list args) = Some (Inr (Enter (va_entry p) f (take n args @ [mk_list (drop n args)])))"
  using assms elements_prefix [of "take n args" "[]" 0] by (simp add: c_apply_def OPT_PROCEDUREP_def take_args_list switches Let_def)

section \<open>Chains\<close>

lemma run_code: "n \<le> length args \<Longrightarrow> run strict h (Enter (Code a n) f args) = Some (Inr (a, f, take n args))"
  by (subst run.simps) simp

lemma run_step:
  assumes "call_step strict h c = Some (Inr c')" and "\<And>a n f args. c \<noteq> Enter (Code a n) f args"
  shows "run strict h c = run strict h c'"
  using assms by (subst run.simps) (auto split: call.splits function_t.splits)

text \<open>The numbers of parameters of the generic functions that can be applied.\<close>

definition plain_arity :: "int \<Rightarrow> bool" where
  "plain_arity k \<longleftrightarrow> k < 0 \<or> (1 \<le> k \<and> k \<le> 5)"

lemma call_entry:
  assumes "h f = Some p" and "length args \<le> 32"
  obtains xs where "BGL_PROCEDURE_CALL strict h f args = Some (Enter (entry p) f xs)" and "xs = args \<or> xs = args @ [BEOA]"
    and "arity p < 0 \<Longrightarrow> xs = args @ [BEOA]"
  using assms by (cases strict; cases "arity p < 0")
    (auto simp: BGL_PROCEDURE_CALL_def BGL_PROCEDURE_CALL_strict_def BGL_PROCEDURE_CALL_loose_def VA_PROCEDUREP_def)

lemma length_cases: "length xs = Suc n \<longleftrightarrow> (\<exists>y ys. xs = y # ys \<and> length ys = n)"
  by (cases xs) auto

text \<open>The entries of generic functions of one to five parameters.\<close>

lemma generic_fixed:
  assumes "generic_default h f = Some d" and "length args = n" and "1 \<le> n" and "n \<le> 5" and "xs = args \<or> xs = args @ [BEOA]"
    and "e = generic_code (int n)"
  shows "call_step strict h (Enter e f xs) = map_option Inr (BGL_PROCEDURE_CALL strict h d args)"
proof -
  have "n = 1 \<or> n = 2 \<or> n = 3 \<or> n = 4 \<or> n = 5" using assms(3,4) by auto
  then show ?thesis
    using assms
    by (elim disjE) (auto simp: call_step_def generic_code_def generic_entry1_def generic_entry2_def generic_entry3_def generic_entry4_def
        generic_entry5_def numeral_eq_Suc length_cases)
qed

lemma run_apply: "c_apply h f l = Some (Inr c) \<Longrightarrow> run strict h (Apply f l) = run strict h c"
  by (rule run_step) (simp_all add: call_step_def)

lemma run_call:
  assumes "h f = Some p" and "length args \<le> 32" and "run strict h (Enter (entry p) f (args @ [BEOA])) = r"
    and "arity p < 0 \<or> run strict h (Enter (entry p) f args) = r"
  shows "\<exists>c. BGL_PROCEDURE_CALL strict h f args = Some c \<and> run strict h c = r"
  using call_entry [of h f p args strict] assms by (metis (full_types))

text \<open>Calls and applications of a procedure come to the same.\<close>

lemma invoked:
  assumes "invokes h 50 m plain_arity f args r" and "m \<le> 49" and "BEOA \<notin> set args"
  shows "run strict h (Apply f (mk_list args)) = Some (Inr r) \<and>
    (length args \<le> 32 \<and> (m \<le> 16 \<or> length args \<le> 16) \<longrightarrow>
      (\<exists>c. BGL_PROCEDURE_CALL strict h f args = Some c \<and> run strict h c = Some (Inr r)))"
  using assms(1,3)
proof (induction rule: invokes.induct)
  case (invokes_fixed f p n a args)
  have "run strict h (Enter (entry p) f xs) = Some (Inr (a, f, args))" if "xs = args \<or> xs = args @ [BEOA]" for xs
    using that invokes_fixed(3,5) by (auto simp: run_code)
  moreover have "c_apply h f (mk_list args) = Some (Inr (Enter (entry p) f args))"
    using invokes_fixed apply_fixed [of h f p n args] by simp
  ultimately show ?case using run_apply [of h f "mk_list args"] run_call [of h f p args strict] invokes_fixed(1) by simp
next
  case (invokes_rest f p n a args)
  let ?xs = "take n args @ [mk_list (drop n args)]"
  have code: "run strict h (Enter (va_entry p) f ?xs) = Some (Inr (a, f, ?xs))"
    using invokes_rest(5,7) by (simp add: run_code)
  have "va_entry p \<noteq> NULL" "n \<le> 49" using invokes_rest(5,6) assms(2) by simp_all
  then have "run strict h (Apply f (mk_list args)) = Some (Inr (a, f, ?xs))"
    using run_apply apply_rest [of h f p n args] invokes_rest(1-3,7) code by simp
  moreover have "\<exists>c. BGL_PROCEDURE_CALL strict h f args = Some c \<and> run strict h c = Some (Inr (a, f, ?xs))"
    if len: "length args \<le> 32" and "m \<le> 16 \<or> length args \<le> 16"
  proof -
    have "n \<le> 16" using that invokes_rest(6,7) by linarith
    note entries = va_entries [of h f p, OF invokes_rest(1,2) this invokes_rest(7,8)]
    have "run strict h (Enter (entry p) f (args @ [BEOA])) = run strict h (Enter (va_entry p) f ?xs)"
      using invokes_rest(4) entries by (intro run_step) (auto simp: call_step_def)
    then show ?thesis using run_call [of h f p args strict] invokes_rest(1,2) len code by simp
  qed
  ultimately show ?case by simp
next
  case (invokes_optional f p a args)
  have code: "run strict h (Enter (va_entry p) f [Vector args]) = Some (Inr (a, f, [Vector args]))"
    using invokes_optional(5) by (simp add: run_code)
  have "c_apply h f (mk_list args) = Some (Inr (Enter (va_entry p) f [Vector args]))"
    using invokes_optional(1-3) opt_applied [of h f p, OF invokes_optional(1,6)] by (simp add: c_apply_def OPT_PROCEDUREP_def)
  then have "run strict h (Apply f (mk_list args)) = Some (Inr (a, f, [Vector args]))" using code by (simp add: run_apply)
  moreover have "\<exists>c. BGL_PROCEDURE_CALL strict h f args = Some c \<and> run strict h c = Some (Inr (a, f, [Vector args]))"
    if len: "length args \<le> 32"
  proof -
    have "run strict h (Enter (entry p) f (args @ [BEOA])) = run strict h (Enter (va_entry p) f [Vector args])"
      using invokes_optional(4) opt_entry [of h f p, OF invokes_optional(1,6,7)] by (intro run_step) (auto simp: call_step_def)
    then show ?thesis using run_call [of h f p args strict] invokes_optional(1,2) len code by simp
  qed
  ultimately show ?case by simp
next
  case (invokes_generic f p d args r)
  note IH = invokes_generic(9) [OF invokes_generic(10)]
  show ?case
  proof (cases "arity p < 0")
    case True
    have "c_apply h f (mk_list args) = Some (Inr (Apply d (mk_list args)))"
      using invokes_generic(1-4) True by (simp add: c_apply_def OPT_PROCEDUREP_def)
    then have "run strict h (Apply f (mk_list args)) = Some (Inr r)" using IH by (simp add: run_apply)
    moreover have "\<exists>c. BGL_PROCEDURE_CALL strict h f args = Some c \<and> run strict h c = Some (Inr r)" if len: "length args \<le> 32"
    proof -
      have "entry p = Generic_entry" using invokes_generic(5) True by (auto simp: generic_code_def)
      then have "run strict h (Enter (entry p) f (args @ [BEOA])) = run strict h (Apply d (mk_list args))"
        using invokes_generic(4,10) by (intro run_step) (auto simp: call_step_def generic_entry_def collect_args)
      then show ?thesis using run_call [of h f p args strict] invokes_generic(1) len True IH by simp
    qed
    ultimately show ?thesis by simp
  next
    case False
    then have k: "arity p = int (length args)" "1 \<le> length args" "length args \<le> 5"
      using invokes_generic(6,7) by (auto simp: plain_arity_def PROCEDURE_CORRECT_ARITYP_def VA_PROCEDUREP_def)
    then obtain c where c: "BGL_PROCEDURE_CALL strict h d args = Some c" "run strict h c = Some (Inr r)" using IH by auto
    have e: "entry p = generic_code (int (length args))"
      using invokes_generic(5) k by simp
    have entered: "run strict h (Enter (entry p) f xs) = Some (Inr r)" if "xs = args \<or> xs = args @ [BEOA]" for xs
    proof -
      have "run strict h (Enter (entry p) f xs) = run strict h c"
        using generic_fixed [OF invokes_generic(4) refl k(2,3) that e] c(1) e k(2,3) by (intro run_step) (auto simp: generic_code_def split: if_splits)
      then show ?thesis using c(2) by simp
    qed
    have "c_apply h f (mk_list args) = Some (Inr (Enter (entry p) f args))"
      using apply_fixed [of h f p, OF invokes_generic(1) k(1)] k(3) by simp
    then have "run strict h (Apply f (mk_list args)) = Some (Inr r)" using entered by (simp add: run_apply)
    moreover have "\<exists>c. BGL_PROCEDURE_CALL strict h f args = Some c \<and> run strict h c = Some (Inr r)"
      using run_call [of h f p args strict] invokes_generic(1) k(3) entered by simp
    ultimately show ?thesis by simp
  qed
qed

section \<open>The procedures of a program\<close>

text \<open>
  The heaps that compiled code makes: procedures with a fixed number of parameters, with a list of further arguments,
  static ones with optional arguments, generic functions, copies, and closures whose cells are set.
\<close>

definition codeless :: "procedure \<Rightarrow> bool" where
  "codeless p \<longleftrightarrow> va_entry p = NULL \<and> (\<forall>a n. entry p \<noteq> Code a n)"

inductive built :: "procedures \<Rightarrow> bool" where
  built_empty: "built Map.empty"
| built_fixed: "built h \<Longrightarrow> h f = None \<Longrightarrow> n \<le> 50 \<Longrightarrow> make_fx_procedure h f (Code a n) (int n) sz = Some (Inr h') \<Longrightarrow> built h'"
| built_rest: "built h \<Longrightarrow> h f = None \<Longrightarrow> n \<le> 49 \<Longrightarrow> make_va_procedure h f (Code a (n + 1)) (- int n - 1) sz = Some (Inr h') \<Longrightarrow> built h'"
| built_optional: "built h \<Longrightarrow> h f = None \<Longrightarrow> ar < 0 \<Longrightarrow>
    built (h(f \<mapsto> \<lparr>pheader = hdr, entry = Opt_generic_entry, va_entry = Code a 1, attr = BFALSE, arity = ar, penv = env\<rparr>))"
| built_generic: "built h \<Longrightarrow> h f = None \<Longrightarrow> h d = Some p \<Longrightarrow> plain_arity (arity p) \<Longrightarrow> bgl_make_generic h f d = Some (Inr h') \<Longrightarrow> built h'"
| built_dup: "built h \<Longrightarrow> h f = None \<Longrightarrow> bgl_dup_procedure h g f = Some h' \<Longrightarrow> built h'"
| built_set: "built h \<Longrightarrow> h f = Some p \<Longrightarrow> i \<noteq> 3 \<or> \<not> codeless p \<Longrightarrow> PROCEDURE_SET h f i x = Some h' \<Longrightarrow> built h'"

definition keeps :: "procedures \<Rightarrow> procedures \<Rightarrow> bool" where
  "keeps h h' \<longleftrightarrow> (\<forall>f p. h f = Some p \<longrightarrow> (\<exists>env. h' f = Some (p\<lparr>penv := env\<rparr>)) \<and>
     (codeless p \<longrightarrow> generic_default h' f = generic_default h f))"

lemma invokes_keeps:
  assumes "invokes h k m g f args r" and "keeps h h'"
  shows "invokes h' k m g f args r"
  using assms(1)
proof (induction rule: invokes.induct)
  case (invokes_fixed f p n a args)
  then obtain env where "h' f = Some (p\<lparr>penv := env\<rparr>)" using assms(2) by (auto simp: keeps_def)
  then show ?case using invokes_fixed by (intro invokes.invokes_fixed [where p = "p\<lparr>penv := env\<rparr>"]) auto
next
  case (invokes_rest f p n a args)
  then obtain env where "h' f = Some (p\<lparr>penv := env\<rparr>)" using assms(2) by (auto simp: keeps_def)
  then show ?case using invokes_rest by (intro invokes.invokes_rest [where p = "p\<lparr>penv := env\<rparr>"]) auto
next
  case (invokes_optional f p a args)
  then obtain env where "h' f = Some (p\<lparr>penv := env\<rparr>)" using assms(2) by (auto simp: keeps_def)
  then show ?case using invokes_optional by (intro invokes.invokes_optional [where p = "p\<lparr>penv := env\<rparr>"]) auto
next
  case (invokes_generic f p d args r)
  have "codeless p" using invokes_generic(3,5) by (auto simp: codeless_def generic_code_def split: if_splits)
  then obtain env where h': "h' f = Some (p\<lparr>penv := env\<rparr>)" "generic_default h' f = Some d"
    using assms(2) invokes_generic(1,4) unfolding keeps_def by fastforce
  show ?case
    by (rule invokes.invokes_generic [OF h'(1) _ _ h'(2)]) (use invokes_generic in \<open>simp_all add: PROCEDURE_CORRECT_ARITYP_def VA_PROCEDUREP_def\<close>)
qed

lemma keeps_new: "h f = None \<Longrightarrow> keeps h (h(f \<mapsto> p))"
proof -
  assume "h f = None"
  then have "generic_default (h(f \<mapsto> p)) g = generic_default h g" if "h g = Some q" for g q
    using that by (auto simp: generic_default_def PROCEDURE_REF_def)
  moreover have "\<exists>env. q = q\<lparr>penv := env\<rparr>" for q :: procedure by (intro exI [of _ "penv q"]) simp
  ultimately show ?thesis using \<open>h f = None\<close> by (auto simp: keeps_def)
qed

lemma keeps_set:
  assumes "PROCEDURE_SET h f i x = Some h'" and "h f = Some p" and "i \<noteq> 3 \<or> \<not> codeless p"
  shows "keeps h h'"
proof -
  obtain n m where h': "idx i = Some n" "wr (penv p) n x = Some m" "h' = h(f \<mapsto> p\<lparr>penv := m\<rparr>)"
    using assms(1,2) by (auto simp: PROCEDURE_SET_def split: Option.bind_splits)
  have "generic_default h' g = generic_default h g" if "h g = Some q" "codeless q" for g q
  proof (cases "g = f")
    case True
    then have "i \<noteq> 3" using that assms(2,3) by simp
    then have "n \<noteq> 3" using h'(1) by (auto simp: idx_def split: if_splits)
    then have "rd m 3 = rd (penv p) 3" using h'(2) by (auto simp: wr_def rd_def split: if_splits)
    then show ?thesis using True h'(3) assms(2) by (simp add: generic_default_def PROCEDURE_REF_def)
  next
    case False
    then show ?thesis using h'(3) by (simp add: generic_default_def PROCEDURE_REF_def)
  qed
  moreover have "\<exists>env. q = q\<lparr>penv := env\<rparr>" for q :: procedure by (intro exI [of _ "penv q"]) simp
  ultimately show ?thesis using h'(3) assms(2) by (auto simp: keeps_def)
qed

text \<open>What each operation adds to the heap.\<close>

lemma make_fx_new: "make_fx_procedure h f e ar sz = Some (Inr h') \<Longrightarrow>
    \<exists>p. h' = h(f \<mapsto> p) \<and> entry p = e \<and> arity p = ar \<and> va_entry p = NULL \<and> attr p = BUNSPEC"
  by (auto simp: make_fx_procedure_def BGL_INIT_FX_PROCEDURE_def split: if_splits Option.bind_splits)

lemma make_va_new: "make_va_procedure h f e ar sz = Some (Inr h') \<Longrightarrow>
    \<exists>p. h' = h(f \<mapsto> p) \<and> entry p = Va_generic_entry \<and> arity p = ar \<and> va_entry p = e \<and> attr p = BUNSPEC"
  by (auto simp: make_va_procedure_def split: if_splits Option.bind_splits)

lemma make_generic_new:
  assumes "bgl_make_generic h f d = Some (Inr h')" and "h d = Some q"
  shows "\<exists>p. h' = h(f \<mapsto> p) \<and> arity p = arity q \<and> va_entry p = NULL \<and> attr p = BUNSPEC \<and> generic_default h' f = Some d \<and>
    entry p = generic_code (arity q)"
proof -
  let ?p = "BGL_INIT_FX_PROCEDURE ((gc_malloc 4)[3 := Some (Bproc d)]) (generic_code (arity q)) (arity q) 4"
  have "make_fx_procedure h f e k 4 = Some (Inr (h(f \<mapsto> BGL_INIT_FX_PROCEDURE (gc_malloc 4) e k 4)))" for e k
    by (simp add: make_fx_procedure_def BGL_HEADER_MAX_SIZE_def header_layout)
  then have "h' = h(f \<mapsto> ?p)"
    using assms by (simp add: bgl_make_generic_def PROCEDURE_SET_def) (simp add: BGL_INIT_FX_PROCEDURE_def)
  then show ?thesis
    by (intro exI [of _ ?p]) (simp add: BGL_INIT_FX_PROCEDURE_def generic_default_def PROCEDURE_REF_def gc_malloc_def rd_def)
qed

lemma copy_env_spec:
  assumes "copy_env dst src n = Some dst'"
  shows "length dst' = length dst \<and> (\<forall>i < length dst. dst' ! i = (if i < n then src ! i else dst ! i)) \<and> n \<le> length src \<and> n \<le> length dst"
  using assms
proof (induction n arbitrary: dst)
  case (Suc n)
  then obtain x where x: "n < length src" "n < length dst" "src ! n = Some x" "copy_env (dst[n := Some x]) src n = Some dst'"
    by (auto simp: rd_def wr_def split: Option.bind_splits if_splits)
  from Suc.IH [OF x(4)] x(1-3) show ?case by (auto simp: nth_list_update less_Suc_eq)
qed simp

definition good :: "procedures \<Rightarrow> nat \<Rightarrow> procedure \<Rightarrow> bool" where
  "good h f p \<longleftrightarrow> (codeless p \<longrightarrow> 3 < unat (PROCEDURE_LENGTH p)) \<and>
     (\<forall>args. PROCEDURE_CORRECT_ARITYP p (int (length args)) \<and> length args < 2 ^ 28 - 1 \<longrightarrow> (\<exists>r. invokes h 50 49 plain_arity f args r))"

lemma good_keeps: "good h f p \<Longrightarrow> keeps h h' \<Longrightarrow> good h' f (p\<lparr>penv := env\<rparr>)"
  unfolding good_def using invokes_keeps
  by (fastforce simp: codeless_def PROCEDURE_LENGTH_def PROCEDURE_CORRECT_ARITYP_def VA_PROCEDUREP_def)

lemma good_new:
  assumes "\<forall>g q. h g = Some q \<longrightarrow> good h g q" and "h f = None" and "h' = h(f \<mapsto> p)" and "good h' f p"
  shows "\<forall>g q. h' g = Some q \<longrightarrow> good h' g q"
proof (intro allI impI)
  fix g q assume g: "h' g = Some q"
  show "good h' g q"
  proof (cases "g = f")
    case True
    then show ?thesis using g assms(3,4) by simp
  next
    case False
    then have "good h g q" using g assms(1,3) by simp
    then show ?thesis using good_keeps [of h g q h' "penv q"] keeps_new [of h f p] assms(2,3) by simp
  qed
qed

lemma goodI:
  assumes "codeless p \<Longrightarrow> 3 < unat (PROCEDURE_LENGTH p)"
    and "\<And>args. PROCEDURE_CORRECT_ARITYP p (int (length args)) \<Longrightarrow> length args < 2 ^ 28 - 1 \<Longrightarrow> \<exists>r. invokes h 50 49 plain_arity f args r"
  shows "good h f p"
  using assms unfolding good_def by blast

lemma good_fixed: "arity p = int n \<Longrightarrow> entry p = Code a n \<Longrightarrow> n \<le> 50 \<Longrightarrow> h f = Some p \<Longrightarrow> good h f p"
  by (rule goodI, simp add: codeless_def, rule exI, rule invokes.invokes_fixed [of h f p n a])
    (auto simp: PROCEDURE_CORRECT_ARITYP_def VA_PROCEDUREP_def)

lemma good_rest: "arity p = - int n - 1 \<Longrightarrow> entry p = Va_generic_entry \<Longrightarrow> va_entry p = Code a (n + 1) \<Longrightarrow> attr p \<noteq> BFALSE \<Longrightarrow> n \<le> 49 \<Longrightarrow>
    h f = Some p \<Longrightarrow> good h f p"
  by (rule goodI, simp add: codeless_def, rule exI, rule invokes.invokes_rest [of h f p n a])
    (auto simp: PROCEDURE_CORRECT_ARITYP_def VA_PROCEDUREP_def)

lemma good_optional: "arity p < 0 \<Longrightarrow> entry p = Opt_generic_entry \<Longrightarrow> va_entry p = Code a 1 \<Longrightarrow> attr p = BFALSE \<Longrightarrow> h f = Some p \<Longrightarrow> good h f p"
  by (rule goodI, simp add: codeless_def, rule exI, rule invokes.invokes_optional [of h f p a]) auto

lemma good_generic:
  assumes "h f = Some p" and "va_entry p = NULL" and "attr p \<noteq> BFALSE" and "generic_default h f = Some d" and "entry p = generic_code (arity p)"
    and "plain_arity (arity p)" and "good h d q" and "arity q = arity p" and "3 < unat (PROCEDURE_LENGTH p)"
  shows "good h f p"
proof -
  have "\<exists>r. invokes h 50 49 plain_arity f args r"
    if fits: "PROCEDURE_CORRECT_ARITYP p (int (length args))" and len: "length args < 2 ^ 28 - 1" for args
  proof -
    have "PROCEDURE_CORRECT_ARITYP q (int (length args))"
      using fits assms(8) by (simp add: PROCEDURE_CORRECT_ARITYP_def VA_PROCEDUREP_def)
    then obtain r where "invokes h 50 49 plain_arity d args r" using assms(7) len unfolding good_def by blast
    then show ?thesis using invokes.invokes_generic [of h f p d] assms(1-6) fits by blast
  qed
  then show ?thesis using assms(9) by (simp add: good_def)
qed

text \<open>A copy behaves like the original.\<close>

lemma good_dup:
  assumes "good h g q" and "h g = Some q" and "h f = None" and "bgl_dup_procedure h g f = Some h'"
  shows "\<exists>p. h' = h(f \<mapsto> p) \<and> good h' f p"
proof -
  let ?n = "unat (PROCEDURE_LENGTH q)"
  obtain env where env: "copy_env (gc_malloc ?n) (penv q) ?n = Some env" and h': "h' = h(f \<mapsto> q\<lparr>penv := env\<rparr>)"
    using assms(2,4) by (auto simp: bgl_dup_procedure_def Let_def split: Option.bind_splits) (cases q, simp)
  note spec = copy_env_spec [OF env]
  have keeps: "keeps h h'" using assms(3) h' keeps_new by simp
  have slot: "generic_default h' f = generic_default h g" if "codeless q"
  proof -
    have "3 < ?n" using that assms(1) by (simp add: good_def)
    then have "rd env 3 = rd (penv q) 3" using spec by (auto simp: rd_def)
    then show ?thesis using h' assms(2) by (simp add: generic_default_def PROCEDURE_REF_def)
  qed
  have f: "h' f = Some (q\<lparr>penv := env\<rparr>)" using h' by simp
  have "\<exists>r. invokes h' 50 49 plain_arity f args r" if "invokes h 50 49 plain_arity g args r" for args r
    using that
  proof (cases rule: invokes.cases)
    case (invokes_fixed p n a)
    then show ?thesis using f assms(2) by (intro exI) (rule invokes.invokes_fixed [of h' f "q\<lparr>penv := env\<rparr>" n a], auto)
  next
    case (invokes_rest p n a)
    then show ?thesis using f assms(2) by (intro exI) (rule invokes.invokes_rest [of h' f "q\<lparr>penv := env\<rparr>" n a], auto)
  next
    case (invokes_optional p a)
    then show ?thesis using f assms(2) by (intro exI) (rule invokes.invokes_optional [of h' f "q\<lparr>penv := env\<rparr>" a], auto)
  next
    case (invokes_generic p d)
    then have "p = q" using assms(2) by simp
    moreover from this have "codeless q" using invokes_generic(3,5) by (auto simp: codeless_def generic_code_def)
    moreover have "invokes h' 50 49 plain_arity d args r" by (rule invokes_keeps [OF invokes_generic(8) keeps])
    ultimately show ?thesis
      using f slot invokes_generic by (intro exI [of _ r]) (rule invokes.invokes_generic [of h' f "q\<lparr>penv := env\<rparr>" d],
        auto simp: PROCEDURE_CORRECT_ARITYP_def VA_PROCEDUREP_def)
  qed
  then have "good h' f (q\<lparr>penv := env\<rparr>)"
    using assms(1) unfolding good_def
    by (fastforce simp: codeless_def PROCEDURE_LENGTH_def PROCEDURE_CORRECT_ARITYP_def VA_PROCEDUREP_def)
  then show ?thesis using h' by blast
qed

lemma set_new:
  assumes "PROCEDURE_SET h f i x = Some h'"
  shows "\<exists>q env. h f = Some q \<and> h' = h(f \<mapsto> q\<lparr>penv := env\<rparr>)"
  using assms by (auto simp: PROCEDURE_SET_def split: Option.bind_splits)

lemma generic_length:
  assumes "bgl_make_generic h f d = Some (Inr h')" and "h' f = Some p"
  shows "PROCEDURE_LENGTH p = 4"
proof -
  have "make_fx_procedure h f e k 4 = Some (Inr (h(f \<mapsto> BGL_INIT_FX_PROCEDURE (gc_malloc 4) e k 4)))" for e k
    by (simp add: make_fx_procedure_def BGL_HEADER_MAX_SIZE_def header_layout)
  then have "pheader p = BGL_MAKE_HEADER PROCEDURE_TYPE 4"
    using assms by (auto simp: bgl_make_generic_def PROCEDURE_SET_def BGL_INIT_FX_PROCEDURE_def split: Option.bind_splits)
  then show ?thesis by (simp add: PROCEDURE_LENGTH_def header_defs PROCEDURE_TYPE_def mask_eq_exp_minus_1)
qed

lemma built_good: "built h \<Longrightarrow> \<forall>f p. h f = Some p \<longrightarrow> good h f p"
proof (induction rule: built.induct)
  case (built_fixed h f n a sz h')
  obtain p where p: "h' = h(f \<mapsto> p)" "entry p = Code a n" "arity p = int n" using make_fx_new [OF built_fixed(4)] by blast
  then have "good h' f p" using good_fixed [of p n a h' f] built_fixed(3) by simp
  then show ?case by (rule good_new [of h f h' p, OF built_fixed(5,2) p(1)])
next
  case (built_rest h f n a sz h')
  obtain p where p: "h' = h(f \<mapsto> p)" "entry p = Va_generic_entry" "arity p = - int n - 1" "va_entry p = Code a (n + 1)" "attr p = BUNSPEC"
    using make_va_new [OF built_rest(4)] by blast
  then have "good h' f p" using good_rest [of p n a h' f] built_rest(3) by simp
  then show ?case by (rule good_new [of h f h' p, OF built_rest(5,2) p(1)])
next
  case (built_optional h f ar hdr a env)
  let ?p = "\<lparr>pheader = hdr, entry = Opt_generic_entry, va_entry = Code a 1, attr = BFALSE, arity = ar, penv = env\<rparr>"
  have "good (h(f \<mapsto> ?p)) f ?p" using good_optional [of ?p a "h(f \<mapsto> ?p)" f] built_optional(3) by simp
  then show ?case by (rule good_new [of h f "h(f \<mapsto> ?p)" ?p, OF built_optional(4,2) refl])
next
  case (built_generic h f d q h')
  obtain p where p: "h' = h(f \<mapsto> p)" "arity p = arity q" "va_entry p = NULL" "attr p = BUNSPEC" "generic_default h' f = Some d"
      "entry p = generic_code (arity q)"
    using make_generic_new [of h f d h' q, OF built_generic(5,3)] by (elim exE conjE)
  have "good h d q" using built_generic(3,6) by simp
  then have under: "good h' d q" using good_keeps [of h d q h' "penv q"] keeps_new [of h f p] built_generic(2) p(1) by simp
  have len: "3 < unat (PROCEDURE_LENGTH p)" using generic_length [of h f d h' p] built_generic(5) p(1) by simp
  have gen: "h' f = Some p" "attr p \<noteq> BFALSE" "entry p = generic_code (arity p)" "plain_arity (arity p)"
    using p(1,2,4,6) built_generic(4) by simp_all
  have "good h' f p" by (rule good_generic [of h' f p d q, OF gen(1) p(3) gen(2) p(5) gen(3,4) under p(2) [symmetric] len])
  then show ?case by (rule good_new [of h f h' p, OF built_generic(6,2) p(1)])
next
  case (built_dup h f g h')
  obtain q where "h g = Some q" using built_dup(3) by (auto simp: bgl_dup_procedure_def split: Option.bind_splits)
  then obtain p where p: "h' = h(f \<mapsto> p)" "good h' f p" using good_dup [of h g q f h'] built_dup by blast
  show ?case by (rule good_new [of h f h' p, OF built_dup(4,2) p])
next
  case (built_set h f p i x h')
  obtain env where h': "h' = h(f \<mapsto> p\<lparr>penv := env\<rparr>)" using set_new [OF built_set(4)] built_set(2) by auto
  have keeps: "keeps h h'" by (rule keeps_set [OF built_set(4,2,3)])
  show ?case
  proof (intro allI impI)
    fix g q assume g: "h' g = Some q"
    show "good h' g q"
    proof (cases "g = f")
      case True
      then show ?thesis using good_keeps [OF _ keeps, of f p env] built_set(2,5) g h' by simp
    next
      case False
      then show ?thesis using good_keeps [OF _ keeps, of g q "penv q"] built_set(5) g h' by simp
    qed
  qed
qed simp

section \<open>Properties\<close>

text \<open>C8: calling procedures: a procedure that compiled code makes with at most fifty parameters (or forty-nine and a
  list of further ones), with optional ones, as a generic function over a procedure that has one to five parameters or
  takes further ones, or as a copy of one of these, whatever its cells hold apart from the default of a generic
  function, called with fewer than 2^28 - 1 arguments in a number that its arity allows, runs its code with these
  arguments: all of them, the required ones and the list of the others, the vector of them, or what the procedure under
  a generic function gets. This is what applying it to the list of the arguments comes to, and calling it with them, in
  both settings of the calls, as long as they are at most sixteen. Beyond these bounds calls can fail, as stated below.\<close>

theorem procedures_called:
  assumes "built h" and "h f = Some p" and "PROCEDURE_CORRECT_ARITYP p (int (length args))" and "length args < 2 ^ 28 - 1"
    and "BEOA \<notin> set args"
  shows "\<exists>r. invokes h 50 49 plain_arity f args r \<and> run strict h (Apply f (mk_list args)) = Some (Inr r) \<and>
    (length args \<le> 16 \<longrightarrow> (\<exists>c. BGL_PROCEDURE_CALL strict h f args = Some c \<and> run strict h c = Some (Inr r)))"
proof -
  have "good h f p" using built_good [OF assms(1)] assms(2) by blast
  then obtain r where "invokes h 50 49 plain_arity f args r" using assms(3,4) unfolding good_def by blast
  then show ?thesis using invoked [of h 49 f args r strict] assms(5) by (intro exI [of _ r]) simp
qed

text \<open>A generic function over a procedure with one required argument and a list of others.\<close>

theorem procedures_called_witness:
  "\<exists>h r. built h \<and> invokes h 50 49 plain_arity 2 [Other 7, Other 8, Other 9] r \<and>
    run True h (Apply 2 (mk_list [Other 7, Other 8, Other 9])) = Some (Inr r)"
proof -
  obtain h1 where h1: "make_va_procedure Map.empty 1 (Code 4096 (1 + 1)) (- int 1 - 1) 0 = Some (Inr h1)"
    by (simp add: make_va_procedure_def BGL_HEADER_MAX_SIZE_def header_layout)
  obtain p1 where p1: "h1 = [1 \<mapsto> p1]" "arity p1 = - int 1 - 1" using make_va_new [OF h1] by blast
  obtain h where h: "bgl_make_generic h1 2 1 = Some (Inr h)"
    using p1(1) by (simp add: bgl_make_generic_def make_fx_procedure_def BGL_HEADER_MAX_SIZE_def header_layout PROCEDURE_SET_def
        BGL_INIT_FX_PROCEDURE_def)
  obtain p where p: "h 2 = Some p" "arity p = - int 1 - 1" using make_generic_new [OF h] p1 by auto
  have "built h1" using built_rest [OF built_empty _ _ h1] by simp
  then have "built h" using built_generic [OF _ _ _ _ h, of p1] p1 by (simp add: plain_arity_def)
  moreover have "PROCEDURE_CORRECT_ARITYP p (int (length [Other 7, Other 8, Other 9]))"
    using p(2) by (simp add: PROCEDURE_CORRECT_ARITYP_def VA_PROCEDUREP_def)
  ultimately show ?thesis
    using procedures_called [of h 2 p "[Other 7, Other 8, Other 9]" True] p(1) by auto
qed

lemma required_overflow: "16 < n \<Longrightarrow> required (int n) args = None"
proof -
  assume n: "16 < n"
  have "for_up (int i) (int n) (\<lambda>i (arg, argl). case argl of [] \<Rightarrow> None
       | x # argl \<Rightarrow> do { k \<leftarrow> idx i; arg \<leftarrow> wr arg k x; Some (arg, argl) }) (m, xs) = None"
    if "i \<le> 16" "length m = 16" for i m and xs :: "obj list"
    using that
  proof (induction "16 - i" arbitrary: i m xs)
    case 0
    then show ?case using n by (subst for_up.simps) (simp add: wr_def split: list.split)
  next
    case (Suc d)
    have "for_up (int (Suc i)) (int n) (\<lambda>i (arg, argl). case argl of [] \<Rightarrow> None
       | x # argl \<Rightarrow> do { k \<leftarrow> idx i; arg \<leftarrow> wr arg k x; Some (arg, argl) }) (m', xs') = None" if "length m' = 16" for m' and xs' :: "obj list"
      using Suc.hyps that by (intro Suc.hyps(1)) simp_all
    then show ?case using Suc.hyps(2) Suc.prems n
      by (subst for_up.simps) (simp add: add.commute split: list.split)
  qed
  from this [of 0 "gc_malloc 16" args] show ?thesis by (simp add: required_def)
qed

lemma collect_none: "BEOA \<notin> set args \<Longrightarrow> collect args = None"
  by (induction args) auto



end
