(* ===== verification/Cmutex.thy ===== *)
theory Cmutex
  imports Prelude
begin

text \<open>
  The mutexes and condition variables of SRFI 18 (\<open>api/srfi18/src/Posix/cmutex.c\<close>, \<open>ccondvar.c\<close>, \<open>cthread.c\<close>): every
  thread keeps the mutexes that it has locked in a doubly linked list, so that they are abandoned when it ends.
\<close>

section \<open>Threads and mutexes\<close>

text \<open>
  Mutexes and threads are named by their addresses. \<open>pmutex\<close> is the mutex of the system, by the thread that owns it;
  of the structure of a thread of SRFI 18 only the list of its mutexes is kept. The structure of a plain \<open>pthread\<close> of
  Bigloo ends before that field. \<open>current\<close> is the field \<open>current_thread\<close> in the dynamic environment of a thread: the
  main thread and those that Bigloo has not made have none.
\<close>

record srfi18mutex =
  pmutex :: "nat option"
  mthread :: "nat option"
  locked :: bool
  mprev :: "nat option"
  mnext :: "nat option"

record mstate =
  mtx :: "nat \<rightharpoonup> srfi18mutex"
  mutexes :: "nat \<rightharpoonup> nat option"
  current :: "nat \<rightharpoonup> nat"

definition upd :: "mstate \<Rightarrow> nat \<Rightarrow> (srfi18mutex \<Rightarrow> srfi18mutex) \<Rightarrow> mstate option" where
  "upd s m f = do { r \<leftarrow> mtx s m; Some (s\<lparr>mtx := (mtx s)(m \<mapsto> f r)\<rparr>) }"

definition set_mutexes :: "mstate \<Rightarrow> nat \<Rightarrow> nat option \<Rightarrow> mstate option" where
  "set_mutexes s t w = do { _ \<leftarrow> mutexes s t; Some (s\<lparr>mutexes := (mutexes s)(t \<mapsto> w)\<rparr>) }"

section \<open>The system\<close>

text \<open>
  \<open>pthread_mutex_lock\<close> returns when the mutex is free; it may fail (\<open>err\<close>) without changing anything. Only the thread
  that owns a mutex may unlock it: POSIX leaves other unlocks of a mutex of the default kind undefined. The calls of
  the system that are not made, or that do not return, are \<open>None\<close>.
\<close>

definition pthread_mutex_lock :: "bool \<Rightarrow> nat \<Rightarrow> mstate \<Rightarrow> nat \<Rightarrow> (int \<times> mstate) option" where
  "pthread_mutex_lock err self s m =
     (if err then Some (1, s)
      else do {
        r \<leftarrow> mtx s m;
        if pmutex r = None then do { s \<leftarrow> upd s m (\<lambda>r. r\<lparr>pmutex := Some self\<rparr>); Some (0, s) } else None })"

definition pthread_mutex_unlock :: "bool \<Rightarrow> nat \<Rightarrow> mstate \<Rightarrow> nat \<Rightarrow> (int \<times> mstate) option" where
  "pthread_mutex_unlock err self s m = do {
     r \<leftarrow> mtx s m;
     if pmutex r \<noteq> Some self then None
     else if err then Some (1, s)
     else do { s \<leftarrow> upd s m (\<lambda>r. r\<lparr>pmutex := None\<rparr>); Some (0, s) } }"

definition bglpth_thread_init :: "mstate \<Rightarrow> nat \<Rightarrow> mstate" where
  "bglpth_thread_init s self = s\<lparr>current := (current s)(self \<mapsto> self)\<rparr>"

definition bglpth_current_pthread :: "mstate \<Rightarrow> nat \<Rightarrow> nat option" where
  "bglpth_current_pthread s self = current s self"

section \<open>Mutexes\<close>

definition register_mutex :: "mstate \<Rightarrow> nat \<Rightarrow> nat \<Rightarrow> mstate option" where
  "register_mutex s m thread = do {
     w \<leftarrow> mutexes s thread;
     s \<leftarrow> (case w of
        None \<Rightarrow> Some s
      | Some f \<Rightarrow> do { s \<leftarrow> upd s m (\<lambda>r. r\<lparr>mnext := Some f\<rparr>); upd s f (\<lambda>r. r\<lparr>mprev := Some m\<rparr>) });
     set_mutexes s thread (Some m) }"

definition unregister_mutex :: "mstate \<Rightarrow> nat \<Rightarrow> mstate option" where
  "unregister_mutex s m = do {
     r \<leftarrow> mtx s m;
     let prev = mprev r;
     let nxt = mnext r;
     s \<leftarrow> (case prev of
        Some p \<Rightarrow> do { s \<leftarrow> upd s m (\<lambda>r. r\<lparr>mprev := None\<rparr>); upd s p (\<lambda>r. r\<lparr>mnext := nxt\<rparr>) }
      | None \<Rightarrow> (case mthread r of Some t \<Rightarrow> set_mutexes s t nxt | None \<Rightarrow> Some s));
     s \<leftarrow> (case nxt of
        Some n \<Rightarrow> do { s \<leftarrow> upd s m (\<lambda>r. r\<lparr>mnext := None\<rparr>); upd s n (\<lambda>r. r\<lparr>mprev := prev\<rparr>) }
      | None \<Rightarrow> Some s);
     upd s m (\<lambda>r. r\<lparr>mthread := None\<rparr>) }"

definition srfi18_mutex_mark_unlocked :: "mstate \<Rightarrow> nat \<Rightarrow> mstate option" where
  "srfi18_mutex_mark_unlocked s m = unregister_mutex s m"

definition srfi18_mutex_mark_locked :: "mstate \<Rightarrow> nat \<Rightarrow> nat option \<Rightarrow> (failure + mstate) option" where
  "srfi18_mutex_mark_locked s mut thread = do {
     r \<leftarrow> mtx s mut;
     if locked r then
       if mthread r \<noteq> thread then Some (Inl (C_Failure ''mutex-lock'' ''mutex illegally locked'' (int mut)))
       else Some (Inr s)
     else if mthread r \<noteq> thread then do {
       s \<leftarrow> upd s mut (\<lambda>r. r\<lparr>mthread := thread\<rparr>);
       s \<leftarrow> (case thread of None \<Rightarrow> Some s | Some t \<Rightarrow> register_mutex s mut t);
       Some (Inr s) }
     else Some (Inr s) }"

datatype mutex_state = Owned nat | Not_owned | Abandoned | Not_abandoned

definition srfi18_mutex_state :: "mstate \<Rightarrow> nat \<Rightarrow> mutex_state option" where
  "srfi18_mutex_state s m = do {
     r \<leftarrow> mtx s m;
     Some (if locked r then (case mthread r of Some t \<Rightarrow> Owned t | None \<Rightarrow> Not_owned)
           else (case mthread r of Some t \<Rightarrow> Abandoned | None \<Rightarrow> Not_abandoned)) }"

definition srfi18_mutex_unlock_sans_thread :: "nat \<Rightarrow> mstate \<Rightarrow> nat \<Rightarrow> mstate option" where
  "srfi18_mutex_unlock_sans_thread self s m = do {
     r \<leftarrow> mtx s m;
     let thread = mthread r;
     s \<leftarrow> srfi18_mutex_mark_unlocked s m;
     s \<leftarrow> upd s m (\<lambda>r. r\<lparr>locked := False\<rparr>);
     s \<leftarrow> upd s m (\<lambda>r. r\<lparr>mthread := thread\<rparr>);
     (_, s) \<leftarrow> pthread_mutex_unlock False self s m;
     Some s }"

partial_function (option) abandon_loop :: "nat \<Rightarrow> mstate \<Rightarrow> nat option \<Rightarrow> mstate option" where
  "abandon_loop self s w =
     (case w of
        None \<Rightarrow> Some s
      | Some m \<Rightarrow> do {
          r \<leftarrow> mtx s m;
          s \<leftarrow> srfi18_mutex_unlock_sans_thread self s m;
          abandon_loop self s (mnext r) })"

definition srfi18_mutexes_abandon :: "nat \<Rightarrow> mstate \<Rightarrow> nat \<Rightarrow> mstate option" where
  "srfi18_mutexes_abandon self s thread = do { w \<leftarrow> mutexes s thread; abandon_loop self s w }"

text \<open>What follows a successful lock.\<close>

definition lock_done :: "nat \<Rightarrow> mstate \<Rightarrow> nat \<Rightarrow> (failure + int \<times> mstate) option" where
  "lock_done self s mut = do {
     r \<leftarrow> srfi18_mutex_mark_locked s mut (bglpth_current_pthread s self);
     case r of
       Inl e \<Rightarrow> Some (Inl e)
     | Inr s \<Rightarrow> do { s \<leftarrow> upd s mut (\<lambda>r. r\<lparr>locked := True\<rparr>); Some (Inr (0, s)) } }"

definition srfi18_mutex_lock :: "bool \<Rightarrow> nat \<Rightarrow> mstate \<Rightarrow> nat \<Rightarrow> (failure + int \<times> mstate) option" where
  "srfi18_mutex_lock err self s m = do {
     (rc, s) \<leftarrow> pthread_mutex_lock err self s m;
     if rc \<noteq> 0 then Some (Inr (1, s)) else lock_done self s m }"

text \<open>The deadline from the time of the day (seconds and microseconds) and a delay in milliseconds.\<close>

definition lock_timeout :: "c_long \<Rightarrow> c_long \<Rightarrow> c_long \<Rightarrow> (c_long \<times> c_long) option" where
  "lock_timeout tv_sec tv_usec ms = do {
     q \<leftarrow> c_div ms 1000;
     r \<leftarrow> c_mod ms 1000;
     Some (tv_sec + q, tv_usec * 1000 + r * 100000) }"

text \<open>\<open>timedlock\<close> is \<open>pthread_mutex_timedlock\<close>, with its deadline: a lock that may also fail when the deadline has passed.\<close>

definition srfi18_mutex_timed_lock ::
  "(c_long \<times> c_long \<Rightarrow> nat \<Rightarrow> mstate \<Rightarrow> nat \<Rightarrow> (int \<times> mstate) option) \<Rightarrow> c_long \<times> c_long \<Rightarrow> nat \<Rightarrow> mstate \<Rightarrow> nat \<Rightarrow> c_long \<Rightarrow>
   (failure + int \<times> mstate) option" where
  "srfi18_mutex_timed_lock timedlock now self s m ms = do {
     timeout \<leftarrow> lock_timeout (fst now) (snd now) ms;
     (rc, s) \<leftarrow> timedlock timeout self s m;
     if rc \<noteq> 0 then Some (Inr (1, s)) else lock_done self s m }"

text \<open>
  Without \<open>pthread_mutex_timedlock\<close>: \<open>busy k\<close> is what the \<open>k\<close>-th trial finds, \<open>s\<close> the state at the last one.
\<close>

function poll :: "(nat \<Rightarrow> bool) \<Rightarrow> nat \<Rightarrow> int \<Rightarrow> bool \<times> nat" where
  "poll busy k ms = (if busy k \<and> ms > 0 then poll busy (k + 1) (ms - 100) else (busy k, k))"
  by pat_completeness auto
termination by (relation "measure (\<lambda>(busy, k, ms). nat ms)") auto

declare poll.simps [simp del]

definition srfi18_mutex_timed_lock_poll :: "(nat \<Rightarrow> bool) \<Rightarrow> nat \<Rightarrow> mstate \<Rightarrow> nat \<Rightarrow> int \<Rightarrow> (failure + int \<times> mstate) option" where
  "srfi18_mutex_timed_lock_poll busy self s m ms =
     (if fst (poll busy 0 ms) then Some (Inr (1, s))
      else do {
        (_, s) \<leftarrow> pthread_mutex_lock False self s m;
        r \<leftarrow> srfi18_mutex_mark_locked s m (bglpth_current_pthread s self);
        case r of Inl e \<Rightarrow> Some (Inl e) | Inr s \<Rightarrow> Some (Inr (0, s)) })"

definition srfi18_mutex_unlock :: "bool \<Rightarrow> nat \<Rightarrow> mstate \<Rightarrow> nat \<Rightarrow> (failure + int \<times> mstate) option" where
  "srfi18_mutex_unlock err self s m = do {
     r \<leftarrow> mtx s m;
     let thread = mthread r;
     s \<leftarrow> srfi18_mutex_mark_unlocked s m;
     s \<leftarrow> upd s m (\<lambda>r. r\<lparr>locked := False\<rparr>);
     (rc, s) \<leftarrow> pthread_mutex_unlock err self s m;
     if rc \<noteq> 0 then do {
       r \<leftarrow> srfi18_mutex_mark_locked s m thread;
       case r of
         Inl e \<Rightarrow> Some (Inl e)
       | Inr s \<Rightarrow> do { s \<leftarrow> upd s m (\<lambda>r. r\<lparr>locked := True\<rparr>); Some (Inr (1, s)) } }
     else Some (Inr (0, s)) }"

definition srfi18_mutex_init :: "mstate \<Rightarrow> nat \<Rightarrow> mstate" where
  "srfi18_mutex_init s m =
     s\<lparr>mtx := (mtx s)(m \<mapsto> \<lparr>pmutex = None, mthread = None, locked = False, mprev = None, mnext = None\<rparr>)\<rparr>"

section \<open>Threads and condition variables\<close>

definition srfi18_thread_new :: "mstate \<Rightarrow> nat \<Rightarrow> mstate" where
  "srfi18_thread_new s t = s\<lparr>mutexes := (mutexes s)(t \<mapsto> None)\<rparr>"

definition srfi18_thread_cleanup :: "mstate \<Rightarrow> nat \<Rightarrow> mstate option" where
  "srfi18_thread_cleanup s arg = srfi18_mutexes_abandon arg s arg"

text \<open>
  Waiting, up to the moment when the system has released the mutex, and from the moment when the thread has it again.
\<close>

definition condvar_wait_begin :: "nat \<Rightarrow> mstate \<Rightarrow> nat \<Rightarrow> (nat option \<times> mstate) option" where
  "condvar_wait_begin self s m = do {
     r \<leftarrow> mtx s m;
     let thread = mthread r;
     s \<leftarrow> upd s m (\<lambda>r. r\<lparr>locked := False\<rparr>);
     s \<leftarrow> srfi18_mutex_mark_unlocked s m;
     (_, s) \<leftarrow> pthread_mutex_unlock False self s m;
     Some (thread, s) }"

definition condvar_wait_end :: "nat \<Rightarrow> mstate \<Rightarrow> nat \<Rightarrow> nat option \<Rightarrow> (failure + mstate) option" where
  "condvar_wait_end self s m thread = do {
     (_, s) \<leftarrow> pthread_mutex_lock False self s m;
     r \<leftarrow> srfi18_mutex_mark_locked s m thread;
     case r of
       Inl e \<Rightarrow> Some (Inl e)
     | Inr s \<Rightarrow> do { s \<leftarrow> upd s m (\<lambda>r. r\<lparr>locked := True\<rparr>); Some (Inr s) } }"

definition condvar_timeout :: "c_long \<Rightarrow> c_long \<Rightarrow> c_long \<Rightarrow> (c_long \<times> c_long) option" where
  "condvar_timeout tv_sec tv_usec ms = do {
     q \<leftarrow> c_div ms 1000;
     r \<leftarrow> c_mod ms 1000;
     Some (tv_sec + q, tv_usec * 1000 + r * 1000000) }"

section \<open>Runs\<close>

text \<open>
  The threads that have ended and those that wait, with the mutex and the thread that the call has saved. Two ghosts:
  the mutexes that a thread abandoned when it ended and that nobody has locked since, and those that a thread has taken
  back, with this thread, because it was terminated while it waited.
\<close>

record sys =
  now :: mstate
  ended :: "nat set"
  waiting :: "nat \<rightharpoonup> nat \<times> nat option"
  orphans :: "nat set"
  lost :: "nat \<rightharpoonup> nat"

definition owns :: "mstate \<Rightarrow> nat \<Rightarrow> nat \<Rightarrow> bool" where
  "owns s t m \<longleftrightarrow> (\<exists>r. mtx s m = Some r \<and> pmutex r = Some t)"

definition active :: "sys \<Rightarrow> nat \<Rightarrow> bool" where
  "active c t \<longleftrightarrow> t \<notin> ended c \<and> waiting c t = None"

text \<open>
  A function of the library is one step, and the steps of the threads come in any order. Threads are made by SRFI 18
  or by \<open>pthread\<close>; all others act without a structure. A thread that \<open>pthread_cancel\<close> terminates ends at its next call
  that may be cancelled: outside of the library (\<open>step_end\<close>, as for a thread that returns), or in
  \<open>pthread_cond_wait\<close>, which takes the mutex back before the handlers of the thread run (\<open>step_cancel\<close>; the cleanup
  procedure of the program is taken to leave the mutexes alone there).
\<close>

inductive step :: "sys \<Rightarrow> nat \<Rightarrow> sys \<Rightarrow> bool" where
  step_thread: "mutexes (now c) t = None \<Longrightarrow> current (now c) t = None \<Longrightarrow> active c t \<Longrightarrow> (\<And>m. \<not> owns (now c) t m) \<Longrightarrow>
    step c u (c\<lparr>now := bglpth_thread_init (srfi18_thread_new (now c) t) t\<rparr>)"
| step_pthread: "mutexes (now c) t = None \<Longrightarrow> current (now c) t = None \<Longrightarrow> active c t \<Longrightarrow> (\<And>m. \<not> owns (now c) t m) \<Longrightarrow>
    step c u (c\<lparr>now := bglpth_thread_init (now c) t\<rparr>)"
| step_mutex: "mtx (now c) m = None \<Longrightarrow> step c u (c\<lparr>now := srfi18_mutex_init (now c) m\<rparr>)"
| step_lock: "active c t \<Longrightarrow> srfi18_mutex_lock err t (now c) m = Some (Inr (k, s)) \<Longrightarrow>
    step c t (c\<lparr>now := s, orphans := if k = 0 then orphans c - {m} else orphans c\<rparr>)"
| step_timed_lock: "active c t \<Longrightarrow>
    srfi18_mutex_timed_lock (\<lambda>_. pthread_mutex_lock err) clock t (now c) m ms = Some (Inr (k, s)) \<Longrightarrow>
    step c t (c\<lparr>now := s, orphans := if k = 0 then orphans c - {m} else orphans c\<rparr>)"
| step_unlock: "active c t \<Longrightarrow> srfi18_mutex_unlock err t (now c) m = Some (Inr (k, s)) \<Longrightarrow>
    step c t (c\<lparr>now := s\<rparr>)"
| step_wait: "active c t \<Longrightarrow> condvar_wait_begin t (now c) m = Some (th, s) \<Longrightarrow>
    step c t (c\<lparr>now := s, waiting := (waiting c)(t \<mapsto> (m, th))\<rparr>)"
| step_resume: "waiting c t = Some (m, th) \<Longrightarrow> condvar_wait_end t (now c) m th = Some (Inr s) \<Longrightarrow>
    step c t (c\<lparr>now := s, waiting := (waiting c)(t := None), orphans := orphans c - {m}\<rparr>)"
| step_end: "active c t \<Longrightarrow> srfi18_thread_cleanup (now c) t = Some s \<Longrightarrow>
    step c t (c\<lparr>now := s, ended := insert t (ended c), orphans := orphans c \<union> {m. owns (now c) t m}\<rparr>)"
| step_cancel: "waiting c t = Some (m, th) \<Longrightarrow> pthread_mutex_lock False t (now c) m = Some (k, s) \<Longrightarrow>
    srfi18_thread_cleanup s t = Some s' \<Longrightarrow>
    step c t (c\<lparr>now := s', ended := insert t (ended c), waiting := (waiting c)(t := None),
      orphans := orphans c \<union> {m. owns (now c) t m}, lost := (lost c)(m \<mapsto> t)\<rparr>)"

definition start :: sys where
  "start = \<lparr>now = \<lparr>mtx = Map.empty, mutexes = Map.empty, current = Map.empty\<rparr>, ended = {}, waiting = Map.empty,
     orphans = {}, lost = Map.empty\<rparr>"

inductive reachable :: "sys \<Rightarrow> bool" where
  reachable_start: "reachable start"
| reachable_step: "reachable c \<Longrightarrow> step c t c' \<Longrightarrow> reachable c'"

section \<open>The lists of the threads\<close>

fun hdo :: "nat list \<Rightarrow> nat option \<Rightarrow> nat option" where
  "hdo [] n = n"
| "hdo (x # xs) n = Some x"

text \<open>A segment of a doubly linked list, between the neighbours \<open>p\<close> and \<open>n\<close>.\<close>

fun dseg :: "(nat \<rightharpoonup> srfi18mutex) \<Rightarrow> nat option \<Rightarrow> nat list \<Rightarrow> nat option \<Rightarrow> bool" where
  "dseg h p [] n = True"
| "dseg h p (x # xs) n = ((\<exists>r. h x = Some r \<and> mprev r = p \<and> mnext r = hdo xs n) \<and> dseg h (Some x) xs n)"

fun lasto :: "nat option \<Rightarrow> nat list \<Rightarrow> nat option" where
  "lasto p [] = p"
| "lasto p (x # xs) = lasto (Some x) xs"

definition core :: "srfi18mutex option \<Rightarrow> (nat option \<times> nat option \<times> bool) option" where
  "core = map_option (\<lambda>r. (pmutex r, mthread r, locked r))"

lemma core_Some [simp]: "core (Some r) = Some (pmutex r, mthread r, locked r)"
  by (simp add: core_def)

lemma core_eq_Some: "core x = Some (p, t, l) \<longleftrightarrow> (\<exists>r. x = Some r \<and> pmutex r = p \<and> mthread r = t \<and> locked r = l)"
  by (auto simp: core_def)

lemma hdo_append: "hdo (xs @ ys) n = hdo xs (hdo ys n)"
  by (cases xs) simp_all

lemma lasto_append: "lasto p (xs @ ys) = lasto (lasto p xs) ys"
  by (induction xs arbitrary: p) simp_all

lemma dseg_append: "dseg h p (xs @ ys) n \<longleftrightarrow> dseg h p xs (hdo ys n) \<and> dseg h (lasto p xs) ys n"
  by (induction xs arbitrary: p) (auto simp: hdo_append)

lemma dseg_cong: "(\<And>x. x \<in> set xs \<Longrightarrow> h' x = h x) \<Longrightarrow> dseg h' p xs n = dseg h p xs n"
  by (induction xs arbitrary: p) auto

lemma dseg_upd [simp]: "x \<notin> set xs \<Longrightarrow> dseg (h(x := v)) p xs n = dseg h p xs n"
  by (rule dseg_cong) auto

lemma dseg_core: "dseg h p xs n \<Longrightarrow> x \<in> set xs \<Longrightarrow> \<exists>r. h x = Some r"
  by (induction xs arbitrary: p) auto

lemma lasto_snoc [simp]: "lasto p (xs @ [x]) = Some x"
  by (simp add: lasto_append)

lemma hdo_snoc: "hdo (xs @ [x]) n = hdo xs (Some x)"
  by (simp add: hdo_append)

text \<open>Writing the next field of the last element, and the previous field of the first one.\<close>

lemma dseg_set_next:
  assumes "dseg h p (xs @ [x]) n" "distinct (xs @ [x])" "h x = Some r"
  shows "dseg (h(x \<mapsto> r\<lparr>mnext := n'\<rparr>)) p (xs @ [x]) n'"
  using assms by (auto simp: dseg_append)

lemma dseg_set_prev:
  assumes "dseg h p (x # xs) n" "x \<notin> set xs" "h x = Some r"
  shows "dseg (h(x \<mapsto> r\<lparr>mprev := p'\<rparr>)) p' (x # xs) n"
  using assms by auto

lemma upd_Some: "mtx s m = Some r \<Longrightarrow> upd s m f = Some (s\<lparr>mtx := (mtx s)(m \<mapsto> f r)\<rparr>)"
  by (simp add: upd_def)

lemma register_spec:
  assumes "mutexes s t = Some (hdo xs None)" "dseg (mtx s) None xs None" "distinct (m # xs)"
    "mtx s m = Some r" "mprev r = None" "mnext r = None"
  shows "\<exists>s'. register_mutex s m t = Some s' \<and> mutexes s' = (mutexes s)(t \<mapsto> Some m) \<and>
    dseg (mtx s') None (m # xs) None \<and> (\<forall>x. core (mtx s' x) = core (mtx s x)) \<and>
    (\<forall>x. x \<notin> set (m # xs) \<longrightarrow> mtx s' x = mtx s x)"
proof (cases xs)
  case Nil
  then show ?thesis
    using assms by (auto simp: register_mutex_def set_mutexes_def)
next
  case (Cons f ys)
  obtain q where q: "mtx s f = Some q"
    using assms(2) by (auto simp: Cons)
  have "f \<noteq> m"
    using assms(3) by (auto simp: Cons)
  then show ?thesis
    using assms q by (auto simp: register_mutex_def set_mutexes_def upd_def Cons)
qed

lemma unregister_spec:
  assumes w: "mutexes s t = Some (hdo (as @ m # bs) None)" and d: "dseg (mtx s) None (as @ m # bs) None"
    and i: "distinct (as @ m # bs)" and m: "mtx s m = Some r" "mthread r = Some t"
  shows "\<exists>s'. unregister_mutex s m = Some s' \<and> mutexes s' = (mutexes s)(t \<mapsto> hdo (as @ bs) None) \<and>
    dseg (mtx s') None (as @ bs) None \<and> mtx s' m = Some (r\<lparr>mthread := None, mprev := None, mnext := None\<rparr>) \<and>
    (\<forall>x. x \<noteq> m \<longrightarrow> core (mtx s' x) = core (mtx s x)) \<and>
    (\<forall>x. x \<notin> set (as @ m # bs) \<longrightarrow> mtx s' x = mtx s x)"
proof -
  have l: "mprev r = lasto None as" "mnext r = hdo bs None"
    using d m by (auto simp: dseg_append)
  show ?thesis
  proof (cases as rule: rev_cases)
    case Nil
    note N = this
    show ?thesis
    proof (cases bs)
      case Nil
      then show ?thesis
        using N m l w by (auto simp: unregister_mutex_def set_mutexes_def upd_def)
    next
      case (Cons n ys)
      obtain q where "mtx s n = Some q"
        using d by (auto simp: dseg_append Cons)
      then show ?thesis
        using N Cons m l w d i by (auto simp: unregister_mutex_def set_mutexes_def upd_def)
    qed
  next
    case (snoc zs p)
    note S = this
    obtain q where q: "mtx s p = Some q"
      using d by (auto simp: dseg_append snoc)
    have h: "hdo (as @ bs) None = hdo (as @ m # bs) None"
      by (cases as) (simp_all add: snoc)
    show ?thesis
    proof (cases bs)
      case Nil
      then show ?thesis
        using S m l w d i q h by (auto simp: unregister_mutex_def set_mutexes_def upd_def dseg_append hdo_append)
    next
      case (Cons n ys)
      obtain v where v: "mtx s n = Some v"
        using d by (auto simp: dseg_append Cons)
      show ?thesis
        using S Cons m l w d i q v h by (auto simp: unregister_mutex_def set_mutexes_def upd_def dseg_append hdo_append)
    qed
  qed
qed

lemma unregister_free:
  assumes "mtx s m = Some r" "mthread r = None" "mprev r = None" "mnext r = None"
  shows "unregister_mutex s m = Some (s\<lparr>mtx := (mtx s)(m \<mapsto> r\<lparr>mthread := None\<rparr>)\<rparr>)"
  using assms by (simp add: unregister_mutex_def upd_def)

section \<open>What holds between the steps\<close>

text \<open>
  \<open>L t\<close> is the list of the thread \<open>t\<close>, \<open>E\<close> the threads that have ended, \<open>F\<close> those whose mutexes are being
  abandoned or have been, \<open>U\<close> the abandoned mutexes. This is for states without lost mutexes. The thread field of a
  mutex is the thread that owns it, when this is one of SRFI 18; \<open>knows\<close> excludes the plain threads of \<open>pthread\<close>.
\<close>

definition owner_field :: "mstate \<Rightarrow> nat \<Rightarrow> nat option" where
  "owner_field s t = (if mutexes s t = None then None else Some t)"

definition knows :: "mstate \<Rightarrow> nat \<Rightarrow> bool" where
  "knows s t \<longleftrightarrow> bglpth_current_pthread s t = owner_field s t"

definition thread_ok :: "mstate \<Rightarrow> (nat \<Rightarrow> nat list) \<Rightarrow> nat \<Rightarrow> bool" where
  "thread_ok s L t \<longleftrightarrow>
     (case mutexes s t of
        None \<Rightarrow> L t = []
      | Some w \<Rightarrow> w = hdo (L t) None \<and> dseg (mtx s) None (L t) None \<and> distinct (L t) \<and> set (L t) = Collect (owns s t))"

definition mutex_ok :: "mstate \<Rightarrow> nat set \<Rightarrow> nat set \<Rightarrow> nat set \<Rightarrow> nat \<Rightarrow> srfi18mutex \<Rightarrow> bool" where
  "mutex_ok s E F U m r \<longleftrightarrow>
     (case pmutex r of
        None \<Rightarrow> \<not> locked r \<and> mprev r = None \<and> mnext r = None \<and> (m \<in> U \<longleftrightarrow> mthread r \<noteq> None) \<and>
          (\<forall>t. mthread r = Some t \<longrightarrow> t \<in> F)
      | Some t \<Rightarrow> locked r \<and> t \<notin> E \<and> mthread r = owner_field s t \<and> m \<notin> U \<and>
          (mutexes s t = None \<longrightarrow> mprev r = None \<and> mnext r = None))"

definition ok :: "mstate \<Rightarrow> (nat \<Rightarrow> nat list) \<Rightarrow> nat set \<Rightarrow> nat set \<Rightarrow> nat set \<Rightarrow> bool" where
  "ok s L E F U \<longleftrightarrow> (\<forall>t. thread_ok s L t) \<and> (\<forall>m r. mtx s m = Some r \<longrightarrow> mutex_ok s E F U m r) \<and> U \<subseteq> dom (mtx s)"

lemma ok_thread: "ok s L E F U \<Longrightarrow> thread_ok s L t"
  by (simp add: ok_def)

lemma ok_mutex: "ok s L E F U \<Longrightarrow> mtx s m = Some r \<Longrightarrow> mutex_ok s E F U m r"
  by (simp add: ok_def)

lemma owns_core: "core (mtx s' x) = core (mtx s x) \<Longrightarrow> owns s' t x = owns s t x"
  by (cases "mtx s x"; cases "mtx s' x") (auto simp: owns_def core_def)

lemma mutex_ok_core:
  assumes o: "mutex_ok s E F U m r" and c: "core (Some r') = core (Some r)"
    and d: "\<And>t. (mutexes s' t = None) = (mutexes s t = None)" and u: "m \<in> U' \<longleftrightarrow> m \<in> U"
    and l: "mprev r' = mprev r \<and> mnext r' = mnext r \<or> (\<exists>t. pmutex r = Some t \<and> mutexes s t \<noteq> None)"
  shows "mutex_ok s' E F U' m r'"
proof -
  have b: "owner_field s' = owner_field s"
    by (simp add: owner_field_def fun_eq_iff d)
  show ?thesis
  proof (cases "pmutex r")
    case None
    then show ?thesis
      using o c u l by (simp add: mutex_ok_def)
  next
    case (Some t)
    then show ?thesis
      using o c u l by (simp add: mutex_ok_def b d) auto
  qed
qed

lemma ok_step:
  assumes ok: "ok s L E F U"
    and dom: "\<And>u. (mutexes s' u = None) = (mutexes s u = None)"
    and frame: "\<And>u. u \<noteq> t \<Longrightarrow> mutexes s' u = mutexes s u \<and> L' u = L u"
    and t: "thread_ok s' L' t"
    and links: "\<And>x. x \<notin> insert m (set (L t)) \<Longrightarrow> mtx s' x = mtx s x"
    and core: "\<And>x. x \<noteq> m \<Longrightarrow> core (mtx s' x) = core (mtx s x)"
    and m: "mtx s m = Some r" "pmutex r = None \<or> pmutex r = Some t"
    and m': "mtx s' m = Some r'" "pmutex r' = None \<or> pmutex r' = Some t" "mutex_ok s' E F U' m r'"
    and U: "\<And>x. x \<noteq> m \<Longrightarrow> (x \<in> U') = (x \<in> U)"
  shows "ok s' L' E F U'"
proof -
  have 1: "thread_ok s' L' u" for u
  proof (cases "u = t")
    case False
    then have f: "mutexes s' u = mutexes s u" "L' u = L u"
      using frame by auto
    have h: "owns s' u x = owns s u x" for x
    proof (cases "x = m")
      case True
      then show ?thesis
        using False m m'(1,2) by (auto simp: owns_def)
    qed (rule owns_core [OF core])
    have o: "thread_ok s L u" "thread_ok s L t"
      using ok by (auto simp: ok_def)
    have "x \<notin> insert m (set (L t))" if "x \<in> set (L u)" "mutexes s u \<noteq> None" for x
      using that o False m by (auto simp: thread_ok_def owns_def split: option.splits)
    then have "dseg (mtx s') None (L u) None = dseg (mtx s) None (L u) None" if "mutexes s u \<noteq> None"
      using that by (intro dseg_cong links) auto
    then show ?thesis
      using o f h by (auto simp: thread_ok_def split: option.splits)
  qed (simp add: t)
  have 2: "mutex_ok s' E F U' x q'" if x: "mtx s' x = Some q'" for x q'
  proof (cases "x = m")
    case True
    then show ?thesis
      using m' x by simp
  next
    case False
    have c: "core (mtx s x) = core (Some q')"
      using core [OF False] x by simp
    then obtain q where q: "mtx s x = Some q"
      by (cases "mtx s x") (simp_all add: core_def)
    have "mprev q' = mprev q \<and> mnext q' = mnext q \<or> (\<exists>t. pmutex q = Some t \<and> mutexes s t \<noteq> None)"
    proof (cases "x \<in> set (L t)")
      case True
      then show ?thesis
        using ok q by (auto simp: ok_def thread_ok_def owns_def split: option.splits dest!: spec [of _ t])
    next
      case F: False
      then show ?thesis
        using links [of x] False x q by simp
    qed
    moreover have "mutex_ok s E F U x q"
      using ok q by (simp add: ok_def)
    moreover have "core (Some q') = core (Some q)"
      using c q by simp
    ultimately show ?thesis
      by (intro mutex_ok_core [of s E F U x q q' s' U', OF _ _ dom U [OF False]])
  qed
  have "U' \<subseteq> dom (mtx s')"
  proof
    fix x assume x: "x \<in> U'"
    show "x \<in> dom (mtx s')"
    proof (cases "x = m")
      case False
      then have "x \<in> dom (mtx s)"
        using x U ok by (auto simp: ok_def)
      then show ?thesis
        using core [OF False] by (cases "mtx s' x") (auto simp: core_def)
    qed (use m' in auto)
  qed
  then show ?thesis
    using 1 2 by (simp add: ok_def)
qed

section \<open>Taking and releasing\<close>

text \<open>The end of every operation that takes a mutex.\<close>

lemma acquire:
  assumes ok: "ok s L E F U" and r: "mtx s m = Some r" "pmutex r = None" and t: "t \<notin> E" "t \<notin> F"
  shows "\<exists>s' s''. srfi18_mutex_mark_locked (s\<lparr>mtx := (mtx s)(m \<mapsto> r\<lparr>pmutex := Some t\<rparr>)\<rparr>) m
      (owner_field s t) = Some (Inr s') \<and> upd s' m (\<lambda>r. r\<lparr>locked := True\<rparr>) = Some s'' \<and>
    ok s'' (L(t := if mutexes s t = None then [] else m # L t)) E F (U - {m}) \<and>
    (\<forall>u. (mutexes s'' u = None) = (mutexes s u = None)) \<and>
    (\<forall>u x. owns s'' u x = (if x = m then u = t else owns s u x))"
proof -
  have f: "\<not> locked r" "mprev r = None" "mnext r = None" "\<And>u. mthread r = Some u \<Longrightarrow> u \<in> F"
    using ok_mutex [OF ok r(1)] r by (auto simp: mutex_ok_def)
  note th = ok_thread [OF ok, of t]
  show ?thesis
  proof (cases "mutexes s t")
    case None
    define s'' where "s'' = s\<lparr>mtx := (mtx s)(m \<mapsto> r\<lparr>pmutex := Some t, mthread := None, locked := True\<rparr>)\<rparr>"
    have "ok s'' (L(t := [])) E F (U - {m})"
      by (rule ok_step [OF ok, where m = m and t = t and r = r])
        (use None r t f th in \<open>auto simp: s''_def thread_ok_def mutex_ok_def owner_field_def\<close>)
    moreover from this have "ok (s\<lparr>mtx := (mtx s)(m \<mapsto> r\<lparr>pmutex := Some t, locked := True\<rparr>)\<rparr>) (L(t := [])) E F (U - {m})"
      if "mthread r = None"
      using that by (cases r) (simp add: s''_def)
    ultimately show ?thesis
      using None r f by (auto simp: srfi18_mutex_mark_locked_def owner_field_def upd_def s''_def owns_def)
  next
    case (Some w)
    let ?s1 = "s\<lparr>mtx := (mtx s)(m \<mapsto> r\<lparr>pmutex := Some t, mthread := Some t\<rparr>)\<rparr>"
    have l: "w = hdo (L t) None" "dseg (mtx s) None (L t) None" "distinct (L t)" "set (L t) = Collect (owns s t)"
      using th Some by (auto simp: thread_ok_def)
    have n: "m \<notin> set (L t)"
      using l(4) r by (simp add: owns_def)
    obtain s' where s': "register_mutex ?s1 m t = Some s'" "mutexes s' = (mutexes s)(t \<mapsto> Some m)"
      "dseg (mtx s') None (m # L t) None" "\<And>x. core (mtx s' x) = core (mtx ?s1 x)"
      "\<And>x. x \<notin> set (m # L t) \<Longrightarrow> mtx s' x = mtx ?s1 x"
      using register_spec [of ?s1 t "L t" m "r\<lparr>pmutex := Some t, mthread := Some t\<rparr>"] Some l n f by auto
    obtain r' where r': "mtx s' m = Some r'" "pmutex r' = Some t" "mthread r' = Some t"
      using s'(4) [of m] by (auto simp: core_eq_Some)
    let ?s2 = "s'\<lparr>mtx := (mtx s')(m \<mapsto> r'\<lparr>locked := True\<rparr>)\<rparr>"
    have h: "owns ?s2 u x = (if x = m then u = t else owns s u x)" for u x
    proof (cases "x = m")
      case False
      then show ?thesis
        using s'(4) [of x] owns_core [of ?s2 x s u] by simp
    qed (use r' in \<open>auto simp: owns_def\<close>)
    have d: "dseg (mtx ?s2) None (m # L t) None"
      using s'(3) n r' by auto
    have c: "set (m # L t) = Collect (owns ?s2 t)"
      using l(4) by (auto simp only: h list.set split: if_splits)
    have t': "thread_ok ?s2 (L(t := m # L t)) t"
      using l(3) n s'(2) d c by (simp add: thread_ok_def)
    have "ok ?s2 (L(t := m # L t)) E F (U - {m})"
    proof (rule ok_step [OF ok, where m = m and t = t and r = r and r' = "r'\<lparr>locked := True\<rparr>"])
      show "core (mtx ?s2 x) = core (mtx s x)" if "x \<noteq> m" for x
        using s'(4) [of x] that by simp
      show "mtx ?s2 x = mtx s x" if "x \<notin> insert m (set (L t))" for x
        using s'(5) [of x] that by simp
    qed (use Some r r' t t' s'(2) in \<open>auto simp: mutex_ok_def owner_field_def\<close>)
    moreover have "srfi18_mutex_mark_locked (s\<lparr>mtx := (mtx s)(m \<mapsto> r\<lparr>pmutex := Some t\<rparr>)\<rparr>) m
        (owner_field s t) = Some (Inr s')"
      using Some f t s'(1) by (auto simp: srfi18_mutex_mark_locked_def owner_field_def upd_def)
    moreover have "upd s' m (\<lambda>r. r\<lparr>locked := True\<rparr>) = Some ?s2"
      using r' by (simp add: upd_def)
    ultimately show ?thesis
      using Some h s'(2) by (intro exI [of _ s'] exI [of _ ?s2]) simp
  qed
qed

text \<open>The beginning of every operation that gives a mutex up: what becomes of its structure and of the lists.\<close>

lemma unregister_held:
  assumes ok: "ok s L E F U" and r: "mtx s m = Some r" "pmutex r = Some t"
  shows "\<exists>s'. unregister_mutex s m = Some s' \<and>
    mtx s' m = Some (r\<lparr>mthread := None, mprev := None, mnext := None\<rparr>) \<and>
    (\<forall>u. (mutexes s' u = None) = (mutexes s u = None)) \<and> (\<forall>u. u \<noteq> t \<longrightarrow> mutexes s' u = mutexes s u) \<and>
    (\<forall>w. mutexes s t = Some w \<longrightarrow>
      mutexes s' t = Some (hdo (remove1 m (L t)) None) \<and> dseg (mtx s') None (remove1 m (L t)) None) \<and>
    (\<forall>x. x \<noteq> m \<longrightarrow> core (mtx s' x) = core (mtx s x)) \<and> (\<forall>x. x \<notin> insert m (set (L t)) \<longrightarrow> mtx s' x = mtx s x)"
proof -
  have f: "mthread r = owner_field s t" "mutexes s t = None \<Longrightarrow> mprev r = None \<and> mnext r = None"
    using ok_mutex [OF ok r(1)] r by (auto simp: mutex_ok_def)
  note th = ok_thread [OF ok, of t]
  show ?thesis
  proof (cases "mutexes s t")
    case None
    then show ?thesis
      using f r by (cases r) (simp add: unregister_free owner_field_def)
  next
    case (Some w)
    have l: "w = hdo (L t) None" "dseg (mtx s) None (L t) None" "distinct (L t)" "m \<in> set (L t)"
      using th Some r by (auto simp: thread_ok_def owns_def)
    obtain as bs where L: "L t = as @ m # bs" "m \<notin> set as"
      using split_list_first [OF l(4)] by auto
    then have e: "remove1 m (L t) = as @ bs" "insert m (set (L t)) = set (L t)"
      by (auto simp: remove1_append)
    have "mthread r = Some t"
      using f(1) Some by (simp add: owner_field_def)
    then obtain s' where s': "unregister_mutex s m = Some s'" "mutexes s' = (mutexes s)(t \<mapsto> hdo (as @ bs) None)"
      "dseg (mtx s') None (as @ bs) None" "mtx s' m = Some (r\<lparr>mthread := None, mprev := None, mnext := None\<rparr>)"
      "\<And>x. x \<noteq> m \<Longrightarrow> core (mtx s' x) = core (mtx s x)" "\<And>x. x \<notin> set (L t) \<Longrightarrow> mtx s' x = mtx s x"
      using unregister_spec [of s t as m bs r] Some l r L(1) by auto
    show ?thesis
      unfolding e by (rule exI [of _ s'], intro conjI allI impI) (simp_all add: s' Some)
  qed
qed

text \<open>The state in which a mutex has been given up.\<close>

definition released :: "mstate \<Rightarrow> nat \<Rightarrow> nat option \<Rightarrow> mstate" where
  "released s1 m th = s1\<lparr>mtx := (mtx s1)(m \<mapsto>
     \<lparr>pmutex = None, mthread = th, locked = False, mprev = None, mnext = None\<rparr>)\<rparr>"

text \<open>A mutex that a thread gives up; \<open>th\<close> is what its thread field becomes.\<close>

lemma release_ok:
  assumes ok: "ok s L E F U" and r: "mtx s m = Some r" "pmutex r = Some t"
    and s1: "unregister_mutex s m = Some s1" and th: "\<And>u. th = Some u \<Longrightarrow> u \<in> F"
  shows "ok (released s1 m th) (L(t := remove1 m (L t))) E F (if th = None then U else insert m U)"
    "\<And>u. (mutexes (released s1 m th) u = None) = (mutexes s u = None)"
    "\<And>u x. owns (released s1 m th) u x = (x \<noteq> m \<and> owns s u x)"
proof -
  define s' where "s' = released s1 m th"
  note s' = s'_def [unfolded released_def]
  define U' where "U' = (if th = None then U else insert m U)"
  note * = unregister_held [OF ok r, unfolded s1 option.inject ex_simps simp_thms, simplified]
  have h: "owns s' u x = (x \<noteq> m \<and> owns s u x)" for u x
    using * s' owns_core [of s' x s u] by (cases "x = m") (auto simp: owns_def)
  have m: "m \<notin> U"
    using ok_mutex [OF ok r(1)] r by (auto simp: mutex_ok_def)
  have t: "thread_ok s' (L(t := remove1 m (L t))) t"
  proof (cases "mutexes s t")
    case None
    then have "mutexes s' t = None" "L t = []"
      using * s' ok_thread [OF ok, of t] by (simp_all add: thread_ok_def)
    then show ?thesis
      by (simp add: thread_ok_def)
  next
    case (Some w)
    then have l: "distinct (L t)" "set (L t) = Collect (owns s t)"
      using ok_thread [OF ok, of t] by (simp_all add: thread_ok_def)
    have d: "mutexes s' t = Some (hdo (remove1 m (L t)) None)" "dseg (mtx s1) None (remove1 m (L t)) None"
      using * s' Some by simp_all
    have n: "m \<notin> set (remove1 m (L t))"
      using l(1) by simp
    have c: "set (remove1 m (L t)) = Collect (owns s' t)"
      using l by (simp only: set_remove1_eq) (auto simp only: h mem_Collect_eq set_diff_eq)
    show ?thesis
      using d n c l(1) dseg_upd [OF n, of "mtx s1"] by (simp add: thread_ok_def s')
  qed
  have "ok s' (L(t := remove1 m (L t))) E F U'"
    by (rule ok_step [OF ok _ _ t, where m = m and r = r]) (use * s' r th m U'_def in \<open>auto simp: mutex_ok_def split: if_splits\<close>)
  then show "ok (released s1 m th) (L(t := remove1 m (L t))) E F (if th = None then U else insert m U)"
    by (simp add: s'_def U'_def)
  show "(mutexes (released s1 m th) u = None) = (mutexes s u = None)" for u
    using * by (simp add: released_def)
  show "owns (released s1 m th) u x = (x \<noteq> m \<and> owns s u x)" for u x
    using h by (simp add: s'_def)
qed

lemma locked_commute:
  "mprev_update f (locked_update g r) = locked_update g (mprev_update f r)"
  "mnext_update f (locked_update g r) = locked_update g (mnext_update f r)"
  "mthread_update h (locked_update g r) = locked_update g (mthread_update h r)"
  by (cases r, simp)+

lemma unregister_locked:
  assumes "unregister_mutex s m = Some s1" "mtx s m = Some r" "mprev r \<noteq> Some m" "mnext r \<noteq> Some m" "mtx s1 m = Some r1"
  shows "unregister_mutex (s\<lparr>mtx := (mtx s)(m \<mapsto> r\<lparr>locked := b\<rparr>)\<rparr>) m =
    Some (s1\<lparr>mtx := (mtx s1)(m \<mapsto> r1\<lparr>locked := b\<rparr>)\<rparr>)"
proof (cases "mprev r"; cases "mnext r")
  fix p n
  assume a: "mprev r = Some p" "mnext r = Some n"
  then obtain q v where "mtx s p = Some q" "mtx s n = Some v" "p \<noteq> m" "n \<noteq> m"
    using assms by (auto simp: unregister_mutex_def upd_def Let_def locked_commute bind_eq_Some_conv split: if_splits)
  then show ?thesis
    using a assms by (cases "p = n") (auto simp: unregister_mutex_def upd_def Let_def locked_commute fun_upd_twist)
qed (use assms in \<open>auto simp: unregister_mutex_def upd_def Let_def locked_commute set_mutexes_def bind_eq_Some_conv fun_upd_twist
  split: option.splits\<close>)

lemma held_links:
  assumes ok: "ok s L E F U" and r: "mtx s m = Some r" "pmutex r = Some t"
  shows "mprev r \<noteq> Some m" "mnext r \<noteq> Some m"
proof -
  have "mprev r \<noteq> Some m \<and> mnext r \<noteq> Some m"
  proof (cases "mutexes s t")
    case None
    then show ?thesis
      using ok_mutex [OF ok r(1)] r by (simp add: mutex_ok_def)
  next
    case (Some w)
    then have l: "dseg (mtx s) None (L t) None" "distinct (L t)" "m \<in> set (L t)"
      using ok_thread [OF ok, of t] r by (auto simp: thread_ok_def owns_def)
    obtain as bs where L: "L t = as @ m # bs"
      using split_list [OF l(3)] by auto
    have "lasto None as \<noteq> Some m"
      using l(2) by (cases as rule: rev_cases) (auto simp: L)
    moreover have "hdo bs None \<noteq> Some m"
      using l(2) by (cases bs) (auto simp: L)
    ultimately show ?thesis
      using l(1) r by (auto simp: L dseg_append)
  qed
  then show "mprev r \<noteq> Some m" "mnext r \<noteq> Some m"
    by simp_all
qed

section \<open>Mutexes that are lost\<close>

text \<open>
  What the operations do does not depend on the mutexes of the system of the other mutexes: \<open>plug p s\<close> is \<open>s\<close> where
  every mutex \<open>m\<close> with \<open>p m = Some t\<close> is in the hands of \<open>t\<close>.
\<close>

definition grip :: "nat option \<Rightarrow> srfi18mutex \<Rightarrow> srfi18mutex" where
  "grip o' r = (case o' of None \<Rightarrow> r | Some t \<Rightarrow> r\<lparr>pmutex := Some t\<rparr>)"

definition plug :: "(nat \<rightharpoonup> nat) \<Rightarrow> mstate \<Rightarrow> mstate" where
  "plug p s = s\<lparr>mtx := \<lambda>m. map_option (grip (p m)) (mtx s m)\<rparr>"

lemma grip_simps [simp]:
  "mthread (grip q r) = mthread r" "locked (grip q r) = locked r" "mprev (grip q r) = mprev r" "mnext (grip q r) = mnext r"
  "grip None r = r" "pmutex (grip (Some t) r) = Some t"
  "(grip q r)\<lparr>mthread := v\<rparr> = grip q (r\<lparr>mthread := v\<rparr>)" "(grip q r)\<lparr>locked := b\<rparr> = grip q (r\<lparr>locked := b\<rparr>)"
  "(grip q r)\<lparr>mprev := v\<rparr> = grip q (r\<lparr>mprev := v\<rparr>)" "(grip q r)\<lparr>mnext := v\<rparr> = grip q (r\<lparr>mnext := v\<rparr>)"
  by (cases r; cases q; simp add: grip_def)+

lemma grip_None: "grip None = id"
  by (rule ext) simp

lemma plug_simps [simp]:
  "mutexes (plug p s) = mutexes s" "current (plug p s) = current s" "mtx (plug p s) m = map_option (grip (p m)) (mtx s m)"
  "plug Map.empty s = s"
  by (simp_all add: plug_def grip_None option.map_id)

text \<open>The parts of an operation, one after the other.\<close>

lemma bind_same: "(\<And>a. f' a = map_option h (f a)) \<Longrightarrow> Option.bind x f' = map_option h (Option.bind x f)"
  by (cases x) simp_all

lemma bind_via:
  "x' = map_option g x \<Longrightarrow> (\<And>a. f' (g a) = map_option h (f a)) \<Longrightarrow> Option.bind x' f' = map_option h (Option.bind x f)"
  by (cases x) simp_all

lemma case_plug:
  "(x = None \<Longrightarrow> a' = map_option h a) \<Longrightarrow> (\<And>v. x = Some v \<Longrightarrow> f' v = map_option h (f v)) \<Longrightarrow>
   (case x of None \<Rightarrow> a' | Some v \<Rightarrow> f' v) = map_option h (case x of None \<Rightarrow> a | Some v \<Rightarrow> f v)"
  by (cases x) simp_all

lemma if_plug:
  "(b \<Longrightarrow> a' = map_option h a) \<Longrightarrow> (\<not> b \<Longrightarrow> c' = map_option h c) \<Longrightarrow> (if b then a' else c') = map_option h (if b then a else c)"
  by simp

lemma sum_plug:
  "(\<And>e. fl' e = map_option h (fl e)) \<Longrightarrow> (\<And>v. fr' (g v) = map_option h (fr v)) \<Longrightarrow>
   (case map_sum id g a of Inl e \<Rightarrow> fl' e | Inr v \<Rightarrow> fr' v) = map_option h (case a of Inl e \<Rightarrow> fl e | Inr v \<Rightarrow> fr v)"
  by (cases a) simp_all

lemma pair_plug:
  "(\<And>k v. f' k (g v) = map_option h (f k v)) \<Longrightarrow>
   (case apsnd g a of (k, v) \<Rightarrow> f' k v) = map_option h (case a of (k, v) \<Rightarrow> f k v)"
  by (cases a) simp

lemma upd_plug:
  assumes "\<And>r. f (grip (p m) r) = grip (p m) (f r)"
  shows "upd (plug p s) m f = map_option (plug p) (upd s m f)"
  using assms by (cases "mtx s m") (auto simp: upd_def plug_def fun_eq_iff)

lemma upd_plug_free: "p m = None \<Longrightarrow> upd (plug p s) m f = map_option (plug p) (upd s m f)"
  by (rule upd_plug) simp

lemma set_mutexes_plug: "set_mutexes (plug p s) t w = map_option (plug p) (set_mutexes s t w)"
  by (cases "mutexes s t") (simp_all add: set_mutexes_def plug_def)

lemma register_plug: "register_mutex (plug p s) m t = map_option (plug p) (register_mutex s m t)"
  unfolding register_mutex_def
  by (simp only: plug_simps grip_simps | rule bind_same case_plug if_plug sum_plug pair_plug | simp add: upd_plug set_mutexes_plug; fail |
      rule bind_via [where g = "plug p"])+

lemma unregister_plug: "unregister_mutex (plug p s) m = map_option (plug p) (unregister_mutex s m)"
  unfolding unregister_mutex_def Let_def
  by (simp only: plug_simps grip_simps | rule bind_same case_plug if_plug sum_plug pair_plug | simp add: upd_plug set_mutexes_plug; fail |
      rule bind_via [where g = "grip (p m)", OF refl] bind_via [where g = "plug p"])+

lemma mark_locked_plug:
  "srfi18_mutex_mark_locked (plug p s) m t = map_option (map_sum id (plug p)) (srfi18_mutex_mark_locked s m t)"
  unfolding srfi18_mutex_mark_locked_def
  by (simp only: plug_simps grip_simps | rule bind_same case_plug if_plug sum_plug pair_plug | simp add: upd_plug register_plug; fail |
      rule bind_via [where g = "grip (p m)", OF refl] bind_via [where g = "plug p"])+

lemma system_plug:
  assumes "p m = None"
  shows "pthread_mutex_lock err t (plug p s) m = map_option (apsnd (plug p)) (pthread_mutex_lock err t s m)"
    "pthread_mutex_unlock err t (plug p s) m = map_option (apsnd (plug p)) (pthread_mutex_unlock err t s m)"
  using assms by (cases "mtx s m"; cases "upd s m (pmutex_update (\<lambda>_. Some t))"; cases "upd s m (pmutex_update (\<lambda>_. None))";
    simp add: pthread_mutex_lock_def pthread_mutex_unlock_def upd_plug_free)+

lemma lock_plug:
  "p m = None \<Longrightarrow> srfi18_mutex_lock err t (plug p s) m = map_option (map_sum id (apsnd (plug p))) (srfi18_mutex_lock err t s m)"
  unfolding srfi18_mutex_lock_def lock_done_def bglpth_current_pthread_def
  by (simp only: plug_simps grip_simps grip_None option.map_id0 id_apply | rule bind_same case_plug if_plug sum_plug pair_plug | simp add: upd_plug_free system_plug mark_locked_plug; fail |
      rule bind_via [where g = "apsnd (plug p)"] bind_via [where g = "map_sum id (plug p)"] bind_via [where g = "plug p"])+

lemma unlock_plug:
  "p m = None \<Longrightarrow> srfi18_mutex_unlock err t (plug p s) m = map_option (map_sum id (apsnd (plug p))) (srfi18_mutex_unlock err t s m)"
  unfolding srfi18_mutex_unlock_def srfi18_mutex_mark_unlocked_def Let_def
  by (simp only: plug_simps grip_simps grip_None option.map_id0 id_apply | rule bind_same case_plug if_plug sum_plug pair_plug | simp add: upd_plug_free system_plug unregister_plug mark_locked_plug; fail |
      rule bind_via [where g = "apsnd (plug p)"] bind_via [where g = "map_sum id (plug p)"] bind_via [where g = "plug p"])+

lemma wait_begin_plug:
  "p m = None \<Longrightarrow> condvar_wait_begin t (plug p s) m = map_option (apsnd (plug p)) (condvar_wait_begin t s m)"
  unfolding condvar_wait_begin_def srfi18_mutex_mark_unlocked_def Let_def
  by (simp only: plug_simps grip_simps grip_None option.map_id0 id_apply | rule bind_same case_plug if_plug sum_plug pair_plug | simp add: upd_plug_free system_plug unregister_plug; fail |
      rule bind_via [where g = "apsnd (plug p)"] bind_via [where g = "plug p"])+

lemma wait_end_plug:
  "p m = None \<Longrightarrow> condvar_wait_end t (plug p s) m th = map_option (map_sum id (plug p)) (condvar_wait_end t s m th)"
  unfolding condvar_wait_end_def
  by (simp only: plug_simps grip_simps grip_None option.map_id0 id_apply | rule bind_same case_plug if_plug sum_plug pair_plug | simp add: upd_plug_free system_plug mark_locked_plug; fail |
      rule bind_via [where g = "apsnd (plug p)"] bind_via [where g = "map_sum id (plug p)"] bind_via [where g = "plug p"])+

lemma sans_thread_plug:
  "p m = None \<Longrightarrow> srfi18_mutex_unlock_sans_thread t (plug p s) m = map_option (plug p) (srfi18_mutex_unlock_sans_thread t s m)"
  unfolding srfi18_mutex_unlock_sans_thread_def srfi18_mutex_mark_unlocked_def Let_def
  by (simp only: plug_simps grip_simps grip_None option.map_id0 id_apply | rule bind_same case_plug if_plug sum_plug pair_plug | simp add: upd_plug_free system_plug unregister_plug; fail |
      rule bind_via [where g = "apsnd (plug p)"] bind_via [where g = "plug p"])+

lemma owns_plug: "owns (plug p s) t m \<longleftrightarrow> (case p m of None \<Rightarrow> owns s t m | Some u \<Rightarrow> u = t \<and> mtx s m \<noteq> None)"
  by (auto simp: owns_def split: option.split)

lemma state_plug: "srfi18_mutex_state (plug p s) m = srfi18_mutex_state s m"
  by (cases "mtx s m") (simp_all add: srfi18_mutex_state_def)

text \<open>What no operation changes.\<close>

definition frame :: "mstate \<Rightarrow> (nat \<rightharpoonup> nat) \<times> nat set" where
  "frame s = (current s, dom (mtx s))"

lemma upd_frame: "upd s m f = Some s' \<Longrightarrow> frame s' = frame s"
  by (auto simp: upd_def frame_def bind_eq_Some_conv split: if_splits)

lemma set_mutexes_frame: "set_mutexes s t w = Some s' \<Longrightarrow> frame s' = frame s"
  by (auto simp: set_mutexes_def frame_def bind_eq_Some_conv)

lemma register_frame: "register_mutex s m t = Some s' \<Longrightarrow> frame s' = frame s"
  by (auto simp: register_mutex_def bind_eq_Some_conv split: option.splits dest!: upd_frame set_mutexes_frame)

lemma unregister_frame: "unregister_mutex s m = Some s' \<Longrightarrow> frame s' = frame s"
  by (auto simp: unregister_mutex_def Let_def bind_eq_Some_conv split: option.splits dest!: upd_frame set_mutexes_frame)

lemma mark_locked_frame: "srfi18_mutex_mark_locked s m t = Some (Inr s') \<Longrightarrow> frame s' = frame s"
  by (auto simp: srfi18_mutex_mark_locked_def bind_eq_Some_conv split: option.splits if_splits dest!: upd_frame register_frame)

lemma system_frame:
  "pthread_mutex_lock err t s m = Some (k, s') \<Longrightarrow> frame s' = frame s"
  "pthread_mutex_unlock err t s m = Some (k, s') \<Longrightarrow> frame s' = frame s"
  by (auto simp: pthread_mutex_lock_def pthread_mutex_unlock_def bind_eq_Some_conv split: if_splits dest!: upd_frame)

lemma no_error: "(case x of Inl e \<Rightarrow> Some (Inl e) | Inr v \<Rightarrow> f v) = Some (Inr w) \<longleftrightarrow> (\<exists>v. x = Inr v \<and> f v = Some (Inr w))"
  by (cases x) simp_all

lemmas frames = upd_frame unregister_frame mark_locked_frame system_frame

lemma lock_frame: "srfi18_mutex_lock err t s m = Some (Inr (k, s')) \<Longrightarrow> frame s' = frame s"
  by (auto simp: srfi18_mutex_lock_def lock_done_def no_error bind_eq_Some_conv split: if_splits dest!: frames)

lemma unlock_frame:
  assumes "srfi18_mutex_unlock err t s m = Some (Inr (k, s'))"
  shows "frame s' = frame s"
proof -
  obtain th s1 s2 j s3 where *: "unregister_mutex s m = Some s1" "upd s1 m (\<lambda>r. r\<lparr>locked := False\<rparr>) = Some s2"
      "pthread_mutex_unlock err t s2 m = Some (j, s3)"
      "s' = s3 \<or> (\<exists>s4. srfi18_mutex_mark_locked s3 m th = Some (Inr s4) \<and> upd s4 m (\<lambda>r. r\<lparr>locked := True\<rparr>) = Some s')"
    using assms by (simp add: srfi18_mutex_unlock_def srfi18_mutex_mark_unlocked_def Let_def bind_eq_Some_conv no_error split: if_splits)
      blast+
  have "frame s3 = frame s"
    using unregister_frame [OF *(1)] upd_frame [OF *(2)] system_frame(2) [OF *(3)] by simp
  then show ?thesis
    using *(4) mark_locked_frame [of s3 m th] upd_frame [of _ m "\<lambda>r. r\<lparr>locked := True\<rparr>" s'] by auto
qed

lemma wait_begin_frame: "condvar_wait_begin t s m = Some (th, s') \<Longrightarrow> frame s' = frame s"
  by (auto simp: condvar_wait_begin_def srfi18_mutex_mark_unlocked_def Let_def bind_eq_Some_conv dest!: frames)

lemma wait_end_frame: "condvar_wait_end t s m th = Some (Inr s') \<Longrightarrow> frame s' = frame s"
  by (auto simp: condvar_wait_end_def no_error bind_eq_Some_conv dest!: frames)

lemma sans_thread_frame: "srfi18_mutex_unlock_sans_thread t s m = Some s' \<Longrightarrow> frame s' = frame s"
  by (auto simp: srfi18_mutex_unlock_sans_thread_def srfi18_mutex_mark_unlocked_def Let_def bind_eq_Some_conv dest!: frames)

text \<open>The system undoes the marks of a mutex only for the thread that holds it.\<close>

lemma upd_owns: "upd s m f = Some s' \<Longrightarrow> (\<And>r. pmutex (f r) = pmutex r) \<Longrightarrow> owns s' = owns s"
  by (auto simp: upd_def owns_def fun_eq_iff bind_eq_Some_conv split: if_splits)

lemma set_mutexes_owns: "set_mutexes s t w = Some s' \<Longrightarrow> owns s' = owns s"
  by (auto simp: set_mutexes_def owns_def fun_eq_iff bind_eq_Some_conv)

lemma unregister_owns: "unregister_mutex s m = Some s' \<Longrightarrow> owns s' = owns s"
  by (auto simp: unregister_mutex_def Let_def bind_eq_Some_conv split: option.splits dest!: upd_owns set_mutexes_owns)

lemma system_owner: "pthread_mutex_unlock err t s m = Some (k, s') \<Longrightarrow> owns s t m"
  by (auto simp: pthread_mutex_unlock_def owns_def bind_eq_Some_conv split: if_splits)

lemma unlock_owner: "srfi18_mutex_unlock err t s m = Some (Inr (k, s')) \<Longrightarrow> owns s t m"
  by (auto simp: srfi18_mutex_unlock_def srfi18_mutex_mark_unlocked_def Let_def no_error bind_eq_Some_conv
      dest!: system_owner upd_owns unregister_owns)

lemma wait_owner: "condvar_wait_begin t s m = Some (th, s') \<Longrightarrow> owns s t m"
  by (auto simp: condvar_wait_begin_def srfi18_mutex_mark_unlocked_def Let_def bind_eq_Some_conv
      dest!: system_owner upd_owns unregister_owns)

section \<open>The operations\<close>

lemma lock_ok:
  assumes ok: "ok s L E F U" and r: "mtx s m = Some r" "pmutex r = None" and t: "t \<notin> E" "t \<notin> F" and k: "knows s t"
  shows "\<exists>s' L'. srfi18_mutex_lock False t s m = Some (Inr (0, s')) \<and> ok s' L' E F (U - {m}) \<and>
    (\<forall>u. (mutexes s' u = None) = (mutexes s u = None)) \<and> (\<forall>u x. owns s' u x = (if x = m then u = t else owns s u x))"
proof -
  obtain s1 s2 where a: "srfi18_mutex_mark_locked (s\<lparr>mtx := (mtx s)(m \<mapsto> r\<lparr>pmutex := Some t\<rparr>)\<rparr>) m
      (owner_field s t) = Some (Inr s1)" "upd s1 m (\<lambda>r. r\<lparr>locked := True\<rparr>) = Some s2"
    and b: "ok s2 (L(t := if mutexes s t = None then [] else m # L t)) E F (U - {m})"
      "\<forall>u. (mutexes s2 u = None) = (mutexes s u = None)" "\<forall>u x. owns s2 u x = (if x = m then u = t else owns s u x)"
    using acquire [OF ok r t] by blast
  have "srfi18_mutex_lock False t s m = Some (Inr (0, s2))"
    using a r k by (simp add: srfi18_mutex_lock_def pthread_mutex_lock_def lock_done_def upd_Some knows_def
        bglpth_current_pthread_def)
  then show ?thesis
    using b by blast
qed

text \<open>A plain thread: the list of its mutexes lies beyond its structure.\<close>

lemma lock_plain:
  assumes "ok s L E F U" "mtx s m = Some r" "pmutex r = None" "t \<notin> F" "current s t = Some t" "mutexes s t = None"
  shows "srfi18_mutex_lock False t s m = None"
  using assms(2-) ok_mutex [OF assms(1,2)]
  by (auto simp: srfi18_mutex_lock_def pthread_mutex_lock_def lock_done_def upd_Some bglpth_current_pthread_def mutex_ok_def
      srfi18_mutex_mark_locked_def register_mutex_def)

lemma wait_end_ok:
  assumes ok: "ok s L E F U" and r: "mtx s m = Some r" "pmutex r = None" and t: "t \<notin> E" "t \<notin> F"
  shows "\<exists>s' L'. condvar_wait_end t s m (owner_field s t) = Some (Inr s') \<and> ok s' L' E F (U - {m}) \<and>
    (\<forall>u. (mutexes s' u = None) = (mutexes s u = None)) \<and> (\<forall>u x. owns s' u x = (if x = m then u = t else owns s u x))"
proof -
  obtain s1 s2 where a: "srfi18_mutex_mark_locked (s\<lparr>mtx := (mtx s)(m \<mapsto> r\<lparr>pmutex := Some t\<rparr>)\<rparr>) m
      (owner_field s t) = Some (Inr s1)" "upd s1 m (\<lambda>r. r\<lparr>locked := True\<rparr>) = Some s2"
    and b: "ok s2 (L(t := if mutexes s t = None then [] else m # L t)) E F (U - {m})"
      "\<forall>u. (mutexes s2 u = None) = (mutexes s u = None)" "\<forall>u x. owns s2 u x = (if x = m then u = t else owns s u x)"
    using acquire [OF ok r t] by blast
  have "condvar_wait_end t s m (owner_field s t) = Some (Inr s2)"
    using a r by (simp add: condvar_wait_end_def pthread_mutex_lock_def upd_Some)
  then show ?thesis
    using b by blast
qed

lemma held_release:
  assumes ok: "ok s L E F U" and h: "owns s t m"
  obtains r s1 where "mtx s m = Some r" "pmutex r = Some t" "mthread r = owner_field s t" "m \<notin> U"
    "unregister_mutex s m = Some s1" "mtx s1 m = Some (r\<lparr>mthread := None, mprev := None, mnext := None\<rparr>)"
proof -
  obtain r where r: "mtx s m = Some r" "pmutex r = Some t"
    using h by (auto simp: owns_def)
  obtain s1 where "unregister_mutex s m = Some s1" "mtx s1 m = Some (r\<lparr>mthread := None, mprev := None, mnext := None\<rparr>)"
    using unregister_held [OF ok r] by blast
  then show thesis
    using that r ok_mutex [OF ok r(1)] by (auto simp: mutex_ok_def)
qed

lemma unlock_ok:
  assumes ok: "ok s L E F U" and h: "owns s t m"
  shows "\<exists>s' L'. srfi18_mutex_unlock False t s m = Some (Inr (0, s')) \<and> ok s' L' E F U \<and>
    (\<forall>u. (mutexes s' u = None) = (mutexes s u = None)) \<and> (\<forall>u x. owns s' u x = (x \<noteq> m \<and> owns s u x)) \<and>
    (\<forall>x. x \<noteq> m \<longrightarrow> core (mtx s' x) = core (mtx s x)) \<and> srfi18_mutex_state s' m = Some Not_abandoned"
proof -
  obtain r s1 where r: "mtx s m = Some r" "pmutex r = Some t" "mthread r = owner_field s t" "m \<notin> U"
    and s1: "unregister_mutex s m = Some s1" "mtx s1 m = Some (r\<lparr>mthread := None, mprev := None, mnext := None\<rparr>)"
    by (rule held_release [OF ok h])
  note * = release_ok [OF ok r(1,2) s1(1), of None, simplified]
  have e: "srfi18_mutex_unlock False t s m = Some (Inr (0, released s1 m None))"
    using r s1 by (cases r)
      (simp add: srfi18_mutex_unlock_def srfi18_mutex_mark_unlocked_def pthread_mutex_unlock_def upd_def released_def)
  have "core (mtx (released s1 m None) x) = core (mtx s x)" if "x \<noteq> m" for x
    using unregister_held [OF ok r(1,2)] s1(1) that by (auto simp: released_def)
  moreover have "srfi18_mutex_state (released s1 m None) m = Some Not_abandoned"
    by (simp add: srfi18_mutex_state_def released_def)
  ultimately show ?thesis
    using e * by blast
qed

lemma unlock_error_ok:
  assumes ok: "ok s L E F U" and h: "owns s t m" and t: "t \<notin> E" "t \<notin> F"
  shows "\<exists>s' L'. srfi18_mutex_unlock True t s m = Some (Inr (1, s')) \<and> ok s' L' E F U \<and>
    (\<forall>u. (mutexes s' u = None) = (mutexes s u = None)) \<and> (\<forall>u x. owns s' u x = owns s u x)"
proof -
  obtain r s1 where r: "mtx s m = Some r" "pmutex r = Some t" "mthread r = owner_field s t" "m \<notin> U"
    and s1: "unregister_mutex s m = Some s1" "mtx s1 m = Some (r\<lparr>mthread := None, mprev := None, mnext := None\<rparr>)"
    by (rule held_release [OF ok h])
  note * = release_ok [OF ok r(1,2) s1(1), of None, simplified]
  let ?r = "\<lparr>pmutex = None, mthread = None, locked = False, mprev = None, mnext = None\<rparr>"
  have c: "owner_field (released s1 m None) t = owner_field s t"
    using *(2) [of t] by (simp add: owner_field_def)
  have m: "mtx (released s1 m None) m = Some ?r"
    by (simp add: released_def)
  obtain s2 s3 where a: "srfi18_mutex_mark_locked ((released s1 m None)\<lparr>mtx := (mtx (released s1 m None))(m \<mapsto>
        ?r\<lparr>pmutex := Some t\<rparr>)\<rparr>) m (owner_field s t) = Some (Inr s2)"
      "upd s2 m (\<lambda>r. r\<lparr>locked := True\<rparr>) = Some s3"
    and b: "ok s3 (L(t := if mutexes (released s1 m None) t = None then [] else m # (L(t := remove1 m (L t))) t)) E F (U - {m})"
      "\<forall>u. (mutexes s3 u = None) = (mutexes (released s1 m None) u = None)"
      "\<forall>u x. owns s3 u x = (if x = m then u = t else owns (released s1 m None) u x)"
    using acquire [OF *(1) m _ t] unfolding c by auto
  have e: "srfi18_mutex_unlock True t s m = Some (Inr (1, s3))"
    using r s1 a by (cases r)
      (simp add: srfi18_mutex_unlock_def srfi18_mutex_mark_unlocked_def pthread_mutex_unlock_def upd_Some released_def)
  have "owns s3 u x = owns s u x" for u x
    using b(3) *(3) r by (auto simp: owns_def)
  then show ?thesis
    using e b(1,2) *(2) r(4) by auto
qed

lemma wait_begin_ok:
  assumes ok: "ok s L E F U" and h: "owns s t m"
  shows "\<exists>s' L'. condvar_wait_begin t s m = Some (owner_field s t, s') \<and> ok s' L' E F U \<and>
    (\<forall>u. (mutexes s' u = None) = (mutexes s u = None)) \<and> (\<forall>u x. owns s' u x = (x \<noteq> m \<and> owns s u x))"
proof -
  obtain r s1 where r: "mtx s m = Some r" "pmutex r = Some t" "mthread r = owner_field s t" "m \<notin> U"
    and s1: "unregister_mutex s m = Some s1" "mtx s1 m = Some (r\<lparr>mthread := None, mprev := None, mnext := None\<rparr>)"
    by (rule held_release [OF ok h])
  note * = release_ok [OF ok r(1,2) s1(1), of None, simplified]
  have "condvar_wait_begin t s m = Some (owner_field s t, released s1 m None)"
    using r s1 unregister_locked [OF s1(1) r(1) held_links [OF ok r(1,2)] s1(2), of False] by (cases r)
      (simp add: condvar_wait_begin_def srfi18_mutex_mark_unlocked_def pthread_mutex_unlock_def upd_def released_def)
  then show ?thesis
    using * by blast
qed

lemma sans_thread_ok:
  assumes ok: "ok s L E F U" and h: "owns s t m" and t: "t \<in> F" "mutexes s t \<noteq> None"
  shows "\<exists>s'. srfi18_mutex_unlock_sans_thread t s m = Some s' \<and> ok s' (L(t := remove1 m (L t))) E F (insert m U) \<and>
    (\<forall>u. (mutexes s' u = None) = (mutexes s u = None)) \<and> (\<forall>u x. owns s' u x = (x \<noteq> m \<and> owns s u x)) \<and>
    (\<forall>x. x \<noteq> m \<longrightarrow> core (mtx s' x) = core (mtx s x)) \<and> srfi18_mutex_state s' m = Some Abandoned"
proof -
  obtain r s1 where r: "mtx s m = Some r" "pmutex r = Some t" "mthread r = owner_field s t" "m \<notin> U"
    and s1: "unregister_mutex s m = Some s1" "mtx s1 m = Some (r\<lparr>mthread := None, mprev := None, mnext := None\<rparr>)"
    by (rule held_release [OF ok h])
  note * = release_ok [OF ok r(1,2) s1(1), of "Some t", simplified]
  have "srfi18_mutex_unlock_sans_thread t s m = Some (released s1 m (Some t))"
    using r s1 t by (cases r)
      (simp add: srfi18_mutex_unlock_sans_thread_def srfi18_mutex_mark_unlocked_def pthread_mutex_unlock_def upd_def
        released_def owner_field_def)
  moreover have "core (mtx (released s1 m (Some t)) x) = core (mtx s x)" if "x \<noteq> m" for x
    using unregister_held [OF ok r(1,2)] s1(1) that by (auto simp: released_def)
  moreover have "srfi18_mutex_state (released s1 m (Some t)) m = Some Abandoned"
    by (simp add: srfi18_mutex_state_def released_def)
  ultimately show ?thesis
    using * t by blast
qed

lemma state_core: "core (mtx s' x) = core (mtx s x) \<Longrightarrow> srfi18_mutex_state s' x = srfi18_mutex_state s x"
  by (cases "mtx s x"; cases "mtx s' x") (auto simp: srfi18_mutex_state_def core_def)

lemma abandon_loop_ok:
  assumes "ok s L E F U" "L t = xs" "t \<in> F" "mutexes s t \<noteq> None"
  shows "\<exists>s' L'. (\<forall>p. dom p \<inter> set xs = {} \<longrightarrow> abandon_loop t (plug p s) (hdo xs None) = Some (plug p s')) \<and>
    frame s' = frame s \<and> ok s' L' E F (U \<union> set xs) \<and>
    (\<forall>u. (mutexes s' u = None) = (mutexes s u = None)) \<and> (\<forall>u x. owns s' u x = (x \<notin> set xs \<and> owns s u x)) \<and>
    (\<forall>x. srfi18_mutex_state s' x = (if x \<in> set xs then Some Abandoned else srfi18_mutex_state s x))"
  using assms
proof (induction xs arbitrary: s L U)
  case Nil
  have "abandon_loop t s None = Some s" for s
    by (subst abandon_loop.simps) simp
  then show ?case
    using Nil by auto
next
  case (Cons m xs)
  note ok = Cons.prems(1)
  obtain w where "mutexes s t = Some w"
    using Cons.prems by auto
  then have l: "dseg (mtx s) None (m # xs) None" "distinct (m # xs)" "owns s t m"
    using ok_thread [OF ok, of t] Cons.prems(2) by (auto simp: thread_ok_def)
  obtain s1 where s1: "srfi18_mutex_unlock_sans_thread t s m = Some s1"
      "ok s1 (L(t := remove1 m (L t))) E F (insert m U)" "\<And>u. (mutexes s1 u = None) = (mutexes s u = None)"
      "\<And>u x. owns s1 u x = (x \<noteq> m \<and> owns s u x)" "\<And>x. x \<noteq> m \<Longrightarrow> core (mtx s1 x) = core (mtx s x)"
      "srfi18_mutex_state s1 m = Some Abandoned"
    using sans_thread_ok [OF ok l(3) Cons.prems(3,4)] by blast
  have e: "(L(t := remove1 m (L t))) t = xs"
    using Cons.prems(2) by simp
  obtain s2 L2 where s2: "\<And>p. dom p \<inter> set xs = {} \<Longrightarrow> abandon_loop t (plug p s1) (hdo xs None) = Some (plug p s2)"
      "frame s2 = frame s1" "ok s2 L2 E F (insert m U \<union> set xs)"
      "\<And>u. (mutexes s2 u = None) = (mutexes s1 u = None)" "\<And>u x. owns s2 u x = (x \<notin> set xs \<and> owns s1 u x)"
      "\<And>x. srfi18_mutex_state s2 x = (if x \<in> set xs then Some Abandoned else srfi18_mutex_state s1 x)"
    using Cons.IH [OF s1(2) e Cons.prems(3)] s1(3) [of t] Cons.prems(4) by blast
  have "abandon_loop t (plug p s) (Some m) = Some (plug p s2)" if "dom p \<inter> set (m # xs) = {}" for p
  proof -
    have "p m = None" "dom p \<inter> set xs = {}"
      using that by auto
    then show ?thesis
      using l(1) s1(1) s2(1) by (subst abandon_loop.simps) (auto simp: sans_thread_plug)
  qed
  moreover have "frame s2 = frame s"
    using s2(2) sans_thread_frame [OF s1(1)] by simp
  moreover have "srfi18_mutex_state s2 x = (if x \<in> set (m # xs) then Some Abandoned else srfi18_mutex_state s x)" for x
    using s2(6) [of x] s1(6) state_core [OF s1(5), of x] by auto
  moreover have "owns s2 u x = (x \<notin> set (m # xs) \<and> owns s u x)" for u x
    using s2(5) s1(4) by auto
  moreover have "insert m U \<union> set xs = U \<union> set (m # xs)"
    by auto
  ultimately show ?case
    using s2(3,4) s1(3) by (intro exI [of _ s2] exI [of _ L2]) simp
qed

lemma ok_ended:
  assumes "ok s L E F U" "\<And>m. \<not> owns s t m" "E \<subseteq> E'" "E' \<subseteq> insert t E" "F \<subseteq> F'"
  shows "ok s L E' F' U"
proof -
  have "mutex_ok s E' F' U m r" if "mtx s m = Some r" for m r
    using ok_mutex [OF assms(1) that] assms(2) [of m] assms(3-5) that
    by (auto simp: mutex_ok_def owns_def split: option.splits)
  then show ?thesis
    using assms(1) by (simp add: ok_def)
qed

lemma mutex_ok_mono: "mutex_ok s E F U m r \<Longrightarrow> F \<subseteq> F' \<Longrightarrow> mutex_ok s E F' U m r"
  by (auto simp: mutex_ok_def split: option.splits)

lemma ok_mono: "ok s L E F U \<Longrightarrow> F \<subseteq> F' \<Longrightarrow> ok s L E F' U"
  unfolding ok_def by (meson mutex_ok_mono)

lemma cleanup_ok:
  assumes ok: "ok s L E E U" and t: "t \<notin> E" "mutexes s t \<noteq> None"
  shows "\<exists>s' L'. (\<forall>p. dom p \<inter> Collect (owns s t) = {} \<longrightarrow> srfi18_thread_cleanup (plug p s) t = Some (plug p s')) \<and>
    frame s' = frame s \<and> ok s' L' (insert t E) (insert t E) (U \<union> Collect (owns s t)) \<and>
    (\<forall>u. (mutexes s' u = None) = (mutexes s u = None)) \<and> (\<forall>u x. owns s' u x = (u \<noteq> t \<and> owns s u x)) \<and>
    (\<forall>x. srfi18_mutex_state s' x = (if owns s t x then Some Abandoned else srfi18_mutex_state s x))"
proof -
  obtain w where w: "mutexes s t = Some w"
    using t by auto
  then have l: "w = hdo (L t) None" "set (L t) = Collect (owns s t)"
    using ok_thread [OF ok, of t] by (auto simp: thread_ok_def)
  have ok': "ok s L E (insert t E) U"
    by (rule ok_mono [OF ok]) auto
  obtain s' L' where s': "\<And>p. dom p \<inter> Collect (owns s t) = {} \<Longrightarrow> abandon_loop t (plug p s) (hdo (L t) None) = Some (plug p s')"
      "frame s' = frame s" "ok s' L' E (insert t E) (U \<union> Collect (owns s t))"
      "\<And>u. (mutexes s' u = None) = (mutexes s u = None)" "\<And>u x. owns s' u x = (\<not> owns s t x \<and> owns s u x)"
      "\<And>x. srfi18_mutex_state s' x = (if owns s t x then Some Abandoned else srfi18_mutex_state s x)"
    using abandon_loop_ok [OF ok' refl, of t] t unfolding l(2) mem_Collect_eq by blast
  have h: "owns s' u x = (u \<noteq> t \<and> owns s u x)" for u x
    using s'(5) by (auto simp: owns_def)
  have "ok s' L' (insert t E) (insert t E) (U \<union> Collect (owns s t))"
    by (rule ok_ended [OF s'(3), of t]) (auto simp: h)
  moreover have "srfi18_thread_cleanup (plug p s) t = Some (plug p s')" if "dom p \<inter> Collect (owns s t) = {}" for p
    using s'(1) [OF that] w l(1) by (simp add: srfi18_thread_cleanup_def srfi18_mutexes_abandon_def)
  ultimately show ?thesis
    using s'(2,4,6) h by blast
qed

lemma thread_new_simps [simp]:
  "mtx (srfi18_thread_new s t) = mtx s" "current (srfi18_thread_new s t) = current s" "mutexes (srfi18_thread_new s t) = (mutexes s)(t \<mapsto> None)"
  "owns (srfi18_thread_new s t) = owns s"
  by (simp_all add: srfi18_thread_new_def owns_def fun_eq_iff)

lemma thread_new_ok:
  assumes ok: "ok s L E F U" and t: "mutexes s t = None" "\<And>m. \<not> owns s t m"
  shows "ok (srfi18_thread_new s t) L E F U"
proof -
  have "thread_ok (srfi18_thread_new s t) L u" for u
    using ok_thread [OF ok, of u] t by (cases "u = t"; cases "mutexes s u") (auto simp: thread_ok_def)
  moreover have "mutex_ok (srfi18_thread_new s t) E F U m r" if m: "mtx s m = Some r" for m r
  proof (cases "pmutex r")
    case (Some u)
    then have "u \<noteq> t"
      using t(2) [of m] m by (auto simp: owns_def)
    then show ?thesis
      using ok_mutex [OF ok m] Some by (simp add: mutex_ok_def owner_field_def)
  qed (use ok_mutex [OF ok m] in \<open>simp add: mutex_ok_def\<close>)
  ultimately show ?thesis
    using ok by (simp add: ok_def)
qed

lemma mutex_init_simps [simp]:
  "mutexes (srfi18_mutex_init s m) = mutexes s" "current (srfi18_mutex_init s m) = current s"
  "mtx (srfi18_mutex_init s m) =
    (mtx s)(m \<mapsto> \<lparr>pmutex = None, mthread = None, locked = False, mprev = None, mnext = None\<rparr>)"
  by (simp_all add: srfi18_mutex_init_def)

lemma mutex_init_ok:
  assumes ok: "ok s L E F U" and m: "mtx s m = None"
  shows "ok (srfi18_mutex_init s m) L E F U" "owns (srfi18_mutex_init s m) = owns s"
proof -
  show h: "owns (srfi18_mutex_init s m) = owns s"
    using m by (auto simp: owns_def fun_eq_iff)
  have U: "m \<notin> U"
    using ok m by (auto simp: ok_def)
  have "thread_ok (srfi18_mutex_init s m) L u" for u
  proof (cases "mutexes s u")
    case (Some w)
    then have "m \<notin> set (L u)"
      using ok_thread [OF ok, of u] m by (auto simp: thread_ok_def owns_def)
    then show ?thesis
      using ok_thread [OF ok, of u] Some h by (simp add: thread_ok_def)
  next
    case None
    then show ?thesis
      using ok_thread [OF ok, of u] by (simp add: thread_ok_def)
  qed
  moreover have "mutex_ok (srfi18_mutex_init s m) E F U x r" if r: "mtx (srfi18_mutex_init s m) x = Some r" for x r
  proof (cases "x = m")
    case True
    then show ?thesis
      using r U by (auto simp: mutex_ok_def)
  next
    case False
    then have "mutex_ok s E F U x r"
      using ok_mutex [OF ok] r by simp
    then show ?thesis
      by (cases "pmutex r") (simp_all add: mutex_ok_def owner_field_def)
  qed
  ultimately show "ok (srfi18_mutex_init s m) L E F U"
    using ok by (auto simp: ok_def)
qed

lemma thread_init_simps [simp]:
  "mtx (bglpth_thread_init s t) = mtx s" "mutexes (bglpth_thread_init s t) = mutexes s"
  "current (bglpth_thread_init s t) = (current s)(t \<mapsto> t)" "owns (bglpth_thread_init s t) = owns s"
  by (simp_all add: bglpth_thread_init_def owns_def fun_eq_iff)

lemma thread_init_ok: "ok s L E F U \<Longrightarrow> ok (bglpth_thread_init s t) L E F U"
  unfolding ok_def thread_ok_def mutex_ok_def owner_field_def thread_init_simps by assumption

section \<open>Every run\<close>

text \<open>
  The state is one without lost mutexes in which the threads that were terminated while they waited hold theirs; a
  lost mutex is in no list and nobody but the thread that has ended holds it.
\<close>

definition plugs :: "sys \<Rightarrow> mstate \<Rightarrow> (nat \<Rightarrow> nat list) \<Rightarrow> bool" where
  "plugs c s L \<longleftrightarrow> now c = plug (lost c) s \<and> ok s L (ended c) (ended c) (orphans c) \<and>
     (\<forall>m u. lost c m = Some u \<longrightarrow> u \<in> ended c \<and> m \<in> dom (mtx s) \<and> (\<forall>t. \<not> owns s t m))"

definition thread_fields :: "sys \<Rightarrow> nat \<Rightarrow> bool" where
  "thread_fields c t \<longleftrightarrow> (knows (now c) t \<or> mutexes (now c) t = None \<and> current (now c) t = Some t) \<and>
     (\<forall>m th. waiting c t = Some (m, th) \<longrightarrow> t \<notin> ended c \<and> th = owner_field (now c) t)"

definition inv :: "sys \<Rightarrow> bool" where
  "inv c \<longleftrightarrow> (\<exists>s L. plugs c s L) \<and> (\<forall>t. thread_fields c t)"

lemma dom_plug: "dom (mtx (plug p s)) = dom (mtx s)"
  by (auto simp: dom_def)

lemma inv_start: "inv start"
proof -
  have "plugs start (now start) (\<lambda>_. [])"
    by (simp add: plugs_def ok_def start_def thread_ok_def)
  then show ?thesis
    by (auto simp: inv_def thread_fields_def start_def knows_def owner_field_def bglpth_current_pthread_def)
qed

text \<open>A step of the thread \<open>t\<close>.\<close>

lemma inv_next:
  assumes i: "inv c" and p: "plugs c' s L" and t: "thread_fields c' t"
    and w: "\<And>u. u \<noteq> t \<Longrightarrow> waiting c' u = waiting c u" and e: "ended c' \<subseteq> insert t (ended c)"
    and n: "\<And>u. u \<noteq> t \<Longrightarrow> (mutexes (now c') u = None) = (mutexes (now c) u = None)"
      "\<And>u. u \<noteq> t \<Longrightarrow> current (now c') u = current (now c) u"
  shows "inv c'"
proof -
  have "thread_fields c' u" for u
  proof (cases "u = t")
    case False
    have "thread_fields c u"
      using i by (simp add: inv_def)
    then show ?thesis
      using False w [OF False] e n [OF False]
      by (auto simp: thread_fields_def knows_def bglpth_current_pthread_def owner_field_def)
  qed (simp add: t)
  then show ?thesis
    using p by (auto simp: inv_def)
qed

lemma fields_same:
  assumes "thread_fields c t" "\<And>u. (mutexes s u = None) = (mutexes (now c) u = None)" "frame s = frame (now c)"
  shows "thread_fields (c\<lparr>now := s, orphans := U\<rparr>) t"
  using assms(1,3) assms(2) [of t]
  by (simp add: thread_fields_def knows_def bglpth_current_pthread_def owner_field_def frame_def)

text \<open>A mutex that somebody who has not ended holds, or nobody, is not lost.\<close>

lemma not_lost:
  assumes "plugs c s L"
  shows "mtx (now c) m = Some r \<Longrightarrow> pmutex r = None \<Longrightarrow> lost c m = None \<and> mtx s m = Some r"
    and "owns (now c) t m \<Longrightarrow> t \<notin> ended c \<Longrightarrow> lost c m = None \<and> owns s t m"
  using assms by (cases "lost c m"; auto simp: plugs_def owns_plug)+

lemma owned: "plugs c s L \<Longrightarrow> owns (now c) u m \<longleftrightarrow> (case lost c m of None \<Rightarrow> owns s u m | Some v \<Rightarrow> v = u)"
  by (auto simp: plugs_def owns_plug split: option.splits)

lemma plugs_inv: "inv c \<Longrightarrow> \<exists>s L. plugs c s L" "inv c \<Longrightarrow> thread_fields c t"
  by (simp_all add: inv_def)

text \<open>What one step leaves of the threads and of the lost mutexes.\<close>

lemma plugs_next:
  assumes "plugs c s L" "ok s' L' E E U" "ended c \<subseteq> E" "frame s' = frame s"
    "\<And>u x. owns s' u x \<Longrightarrow> x \<noteq> m \<Longrightarrow> owns s u x" "lost c m = None"
  shows "plugs (c\<lparr>now := plug (lost c) s', ended := E, orphans := U, waiting := w\<rparr>) s' L'"
  using assms by (fastforce simp: plugs_def frame_def)

lemma run_lock:
  assumes i: "inv c" and a: "active c t" and r: "mtx (now c) m = Some r" "pmutex r = None" and k: "knows (now c) t"
  obtains s s' L' where "srfi18_mutex_lock False t (now c) m = Some (Inr (0, plug (lost c) s'))"
    "plugs (c\<lparr>now := plug (lost c) s', orphans := orphans c - {m}\<rparr>) s' L'"
    "\<And>u. (mutexes s' u = None) = (mutexes (now c) u = None)" "frame (plug (lost c) s') = frame (now c)"
    "owns (plug (lost c) s') t m"
proof -
  obtain s L where p: "plugs c s L"
    using plugs_inv [OF i] by blast
  note f = not_lost(1) [OF p r]
  have c: "now c = plug (lost c) s" and ok: "ok s L (ended c) (ended c) (orphans c)"
    using p by (simp_all add: plugs_def)
  have k': "knows s t"
    using k by (simp add: c knows_def bglpth_current_pthread_def owner_field_def)
  obtain s' L' where s': "srfi18_mutex_lock False t s m = Some (Inr (0, s'))" "ok s' L' (ended c) (ended c) (orphans c - {m})"
      "\<And>u. (mutexes s' u = None) = (mutexes s u = None)" "\<And>u x. owns s' u x = (if x = m then u = t else owns s u x)"
    using lock_ok [OF ok, of m r t] f r a k' by (auto simp: active_def)
  have l: "srfi18_mutex_lock False t (now c) m = Some (Inr (0, plug (lost c) s'))"
    using s'(1) f by (simp add: c lock_plug)
  have "plugs (c\<lparr>now := plug (lost c) s', orphans := orphans c - {m}\<rparr>) s' L'"
    using plugs_next [OF p s'(2) subset_refl lock_frame [OF s'(1)], of m "waiting c"] s'(4) f by (simp split: if_splits)
  then show thesis
    using that l s'(3,4) f lock_frame [OF l] by (simp add: c owns_plug)
qed
lemma run_resume:
  assumes i: "inv c" and w: "waiting c t = Some (m, th)" and r: "mtx (now c) m = Some r" "pmutex r = None"
  obtains s' L' where "condvar_wait_end t (now c) m th = Some (Inr (plug (lost c) s'))"
    "plugs (c\<lparr>now := plug (lost c) s', waiting := (waiting c)(t := None), orphans := orphans c - {m}\<rparr>) s' L'"
    "\<And>u. (mutexes s' u = None) = (mutexes (now c) u = None)" "frame (plug (lost c) s') = frame (now c)"
    "owns (plug (lost c) s') t m"
proof -
  obtain s L where p: "plugs c s L"
    using plugs_inv [OF i] by blast
  note f = not_lost(1) [OF p r]
  have c: "now c = plug (lost c) s" and ok: "ok s L (ended c) (ended c) (orphans c)"
    using p by (simp_all add: plugs_def)
  have t: "t \<notin> ended c" "th = owner_field s t"
    using plugs_inv(2) [OF i, of t] w by (simp_all add: thread_fields_def c owner_field_def)
  obtain s' L' where s': "condvar_wait_end t s m th = Some (Inr s')" "ok s' L' (ended c) (ended c) (orphans c - {m})"
      "\<And>u. (mutexes s' u = None) = (mutexes s u = None)" "\<And>u x. owns s' u x = (if x = m then u = t else owns s u x)"
    using wait_end_ok [OF ok, of m r t] f r t by auto
  have l: "condvar_wait_end t (now c) m th = Some (Inr (plug (lost c) s'))"
    using s'(1) f by (simp add: c wait_end_plug)
  have "c\<lparr>now := v, waiting := w, orphans := U\<rparr> = c\<lparr>now := v, ended := ended c, orphans := U, waiting := w\<rparr>" for v w U
    by simp
  then have "plugs (c\<lparr>now := plug (lost c) s', waiting := (waiting c)(t := None), orphans := orphans c - {m}\<rparr>) s' L'"
    using plugs_next [OF p s'(2) subset_refl wait_end_frame [OF s'(1)], of m "(waiting c)(t := None)"] s'(4) f
    by (simp only: split: if_splits)
  then show thesis
    using that l s'(3,4) f wait_end_frame [OF l] by (simp add: c owns_plug)
qed

lemma run_unlock:
  assumes i: "inv c" and a: "active c t" and u: "srfi18_mutex_unlock err t (now c) m = Some (Inr (k, s1))"
  shows "inv (c\<lparr>now := s1\<rparr>)"
proof -
  obtain s L where p: "plugs c s L"
    using plugs_inv [OF i] by blast
  have c: "now c = plug (lost c) s" and ok: "ok s L (ended c) (ended c) (orphans c)"
    using p by (simp_all add: plugs_def)
  have t: "t \<notin> ended c"
    using a by (simp add: active_def)
  note f = not_lost(2) [OF p unlock_owner [OF u] t]
  obtain j s' L' where s': "srfi18_mutex_unlock err t s m = Some (Inr (j, s'))" "ok s' L' (ended c) (ended c) (orphans c)"
      "\<And>u. (mutexes s' u = None) = (mutexes s u = None)" "\<And>u x. owns s' u x \<Longrightarrow> owns s u x"
    using unlock_ok [OF ok, of t m] unlock_error_ok [OF ok, of t m] f t by (cases err) force+
  have l: "s1 = plug (lost c) s'"
    using u s'(1) f by (simp add: c unlock_plug)
  have q: "plugs (c\<lparr>now := plug (lost c) s'\<rparr>) s' L'"
    using plugs_next [OF p s'(2) subset_refl unlock_frame [OF s'(1)], of m "waiting c"] s'(4) f by simp
  have "thread_fields (c\<lparr>now := s1\<rparr>) t"
    using fields_same [OF plugs_inv(2) [OF i, of t], of s1 "orphans c"] s'(3) unlock_frame [OF u] by (simp add: l c)
  then show ?thesis
    using q s'(3) unlock_frame [OF u] unfolding l
    by (intro inv_next [OF i, of _ s' L' t]) (simp_all add: c frame_def subset_insertI)
qed

lemma run_wait:
  assumes i: "inv c" and a: "active c t" and u: "condvar_wait_begin t (now c) m = Some (th, s1)"
  shows "inv (c\<lparr>now := s1, waiting := (waiting c)(t \<mapsto> (m, th))\<rparr>)"
proof -
  obtain s L where p: "plugs c s L"
    using plugs_inv [OF i] by blast
  have c: "now c = plug (lost c) s" and ok: "ok s L (ended c) (ended c) (orphans c)"
    using p by (simp_all add: plugs_def)
  have t: "t \<notin> ended c"
    using a by (simp add: active_def)
  note f = not_lost(2) [OF p wait_owner [OF u] t]
  obtain s' L' where s': "condvar_wait_begin t s m = Some (owner_field s t, s')" "ok s' L' (ended c) (ended c) (orphans c)"
      "\<And>u. (mutexes s' u = None) = (mutexes s u = None)" "\<And>u x. owns s' u x \<Longrightarrow> owns s u x"
    using wait_begin_ok [OF ok, of t m] f by blast
  have l: "s1 = plug (lost c) s'" "th = owner_field s t"
    using u s'(1) f by (simp_all add: c wait_begin_plug)
  have q: "plugs (c\<lparr>now := plug (lost c) s', waiting := (waiting c)(t \<mapsto> (m, th))\<rparr>) s' L'"
    using plugs_next [OF p s'(2) subset_refl wait_begin_frame [OF s'(1)], of m "(waiting c)(t \<mapsto> (m, th))"] s'(4) f by simp
  have "thread_fields (c\<lparr>now := s1, waiting := (waiting c)(t \<mapsto> (m, th))\<rparr>) t"
    using fields_same [OF plugs_inv(2) [OF i, of t], of s1 "orphans c"] s'(3) [of t] s'(3) wait_begin_frame [OF u] t
    by (simp add: l c thread_fields_def owner_field_def)
  then show ?thesis
    using q s'(3) wait_begin_frame [OF u] unfolding l(1)
    by (intro inv_next [OF i, of _ s' L' t]) (simp_all add: c frame_def subset_insertI)
qed

text \<open>The end of a thread, on its own or in a wait.\<close>

lemma run_end:
  assumes i: "inv c" and t: "t \<notin> ended c" "mutexes (now c) t \<noteq> None"
  obtains s' L' where "srfi18_thread_cleanup (now c) t = Some (plug (lost c) s')"
    "plugs (c\<lparr>now := plug (lost c) s', ended := insert t (ended c), orphans := orphans c \<union> {m. owns (now c) t m}\<rparr>) s' L'"
    "\<And>u. (mutexes s' u = None) = (mutexes (now c) u = None)" "frame (plug (lost c) s') = frame (now c)"
    "\<And>m. srfi18_mutex_state (plug (lost c) s') m = (if owns (now c) t m then Some Abandoned else srfi18_mutex_state (now c) m)"
    "\<And>u m. owns (plug (lost c) s') u m = (u \<noteq> t \<and> owns (now c) u m)"
proof -
  obtain s L where p: "plugs c s L"
    using plugs_inv [OF i] by blast
  have c: "now c = plug (lost c) s" and ok: "ok s L (ended c) (ended c) (orphans c)"
    using p by (simp_all add: plugs_def)
  have o: "owns (now c) t = owns s t"
    using owned [OF p, of t] p t by (auto simp: fun_eq_iff plugs_def split: option.splits)
  obtain s' L' where s': "\<And>q. dom q \<inter> Collect (owns s t) = {} \<Longrightarrow> srfi18_thread_cleanup (plug q s) t = Some (plug q s')"
      "frame s' = frame s" "ok s' L' (insert t (ended c)) (insert t (ended c)) (orphans c \<union> Collect (owns s t))"
      "\<And>u. (mutexes s' u = None) = (mutexes s u = None)" "\<And>u x. owns s' u x = (u \<noteq> t \<and> owns s u x)"
      "\<And>x. srfi18_mutex_state s' x = (if owns s t x then Some Abandoned else srfi18_mutex_state s x)"
    using cleanup_ok [OF ok, of t] t by (auto simp: c)
  have "dom (lost c) \<inter> Collect (owns s t) = {}"
    using p by (auto simp: plugs_def)
  then have l: "srfi18_thread_cleanup (now c) t = Some (plug (lost c) s')"
    using s'(1) by (simp add: c)
  have q: "plugs (c\<lparr>now := plug (lost c) s', ended := insert t (ended c), orphans := orphans c \<union> {m. owns (now c) t m}\<rparr>) s' L'"
    unfolding o using p s'(2,3,5) by (auto simp: plugs_def frame_def)
  have "owns (plug (lost c) s') u m = (u \<noteq> t \<and> owns (now c) u m)" for u m
    using s'(5) p t s'(2) by (auto simp: c owns_plug plugs_def frame_def split: option.splits)
  moreover have "srfi18_mutex_state (plug (lost c) s') m =
      (if owns (now c) t m then Some Abandoned else srfi18_mutex_state (now c) m)" for m
    unfolding o using s'(6) [of m] by (simp add: c state_plug)
  moreover have "frame (plug (lost c) s') = frame (now c)" "(mutexes s' u = None) = (mutexes (now c) u = None)" for u
    using s'(2,4) by (simp_all add: c frame_def dom_plug)
  ultimately show thesis
    using that [OF l q] by blast
qed
lemma run_cancel:
  assumes i: "inv c" and w: "waiting c t = Some (m, th)" and r: "mtx (now c) m = Some r" "pmutex r = None"
    and t: "mutexes (now c) t \<noteq> None"
  obtains s1 s' L' where "pthread_mutex_lock False t (now c) m = Some (0, s1)"
    "srfi18_thread_cleanup s1 t = Some (plug ((lost c)(m \<mapsto> t)) s')"
    "plugs (c\<lparr>now := plug ((lost c)(m \<mapsto> t)) s', ended := insert t (ended c), waiting := (waiting c)(t := None),
      orphans := orphans c \<union> {m. owns (now c) t m}, lost := (lost c)(m \<mapsto> t)\<rparr>) s' L'"
    "\<And>u. (mutexes s' u = None) = (mutexes (now c) u = None)" "frame (plug ((lost c)(m \<mapsto> t)) s') = frame (now c)"
    "\<And>x. srfi18_mutex_state (plug ((lost c)(m \<mapsto> t)) s') x =
      (if owns (now c) t x then Some Abandoned else srfi18_mutex_state (now c) x)"
    "\<And>u x. owns (plug ((lost c)(m \<mapsto> t)) s') u x = (if x = m then u = t else u \<noteq> t \<and> owns (now c) u x)"
proof -
  obtain s L where p: "plugs c s L"
    using plugs_inv [OF i] by blast
  note f = not_lost(1) [OF p r]
  have c: "now c = plug (lost c) s" and ok: "ok s L (ended c) (ended c) (orphans c)"
    using p by (simp_all add: plugs_def)
  have e: "t \<notin> ended c"
    using plugs_inv(2) [OF i, of t] w by (simp add: thread_fields_def)
  have o: "owns (now c) t = owns s t"
    using owned [OF p, of t] p e by (auto simp: fun_eq_iff plugs_def split: option.splits)
  have "(\<lambda>x. map_option (grip (((lost c)(m \<mapsto> t)) x)) (mtx s x)) =
      (\<lambda>x. map_option (grip (lost c x)) (mtx s x))(m \<mapsto> r\<lparr>pmutex := Some t\<rparr>)"
    using f by (auto simp: fun_eq_iff grip_def)
  then have l: "pthread_mutex_lock False t (now c) m = Some (0, plug ((lost c)(m \<mapsto> t)) s)"
    using f r by (simp add: pthread_mutex_lock_def upd_def c plug_def)
  obtain s' L' where s': "\<And>q. dom q \<inter> Collect (owns s t) = {} \<Longrightarrow> srfi18_thread_cleanup (plug q s) t = Some (plug q s')"
      "frame s' = frame s" "ok s' L' (insert t (ended c)) (insert t (ended c)) (orphans c \<union> Collect (owns s t))"
      "\<And>u. (mutexes s' u = None) = (mutexes s u = None)" "\<And>u x. owns s' u x = (u \<noteq> t \<and> owns s u x)"
      "\<And>x. srfi18_mutex_state s' x = (if owns s t x then Some Abandoned else srfi18_mutex_state s x)"
    using cleanup_ok [OF ok, of t] t e by (auto simp: c)
  have free: "\<not> owns s u m" for u
    using f r by (simp add: owns_def)
  have "dom ((lost c)(m \<mapsto> t)) \<inter> Collect (owns s t) = {}"
    using p free by (auto simp: plugs_def)
  then have l': "srfi18_thread_cleanup (plug ((lost c)(m \<mapsto> t)) s) t = Some (plug ((lost c)(m \<mapsto> t)) s')"
    using s'(1) by blast
  have q: "plugs (c\<lparr>now := plug ((lost c)(m \<mapsto> t)) s', ended := insert t (ended c), waiting := (waiting c)(t := None),
      orphans := orphans c \<union> {m. owns (now c) t m}, lost := (lost c)(m \<mapsto> t)\<rparr>) s' L'"
    unfolding o using p s'(2,3,5) f free by (auto simp: plugs_def frame_def)
  have "owns (plug ((lost c)(m \<mapsto> t)) s') u x = (if x = m then u = t else u \<noteq> t \<and> owns (now c) u x)" for u x
    using s'(5) p e s'(2) f by (auto simp: c owns_plug plugs_def frame_def split: option.splits)
  moreover have "srfi18_mutex_state (plug ((lost c)(m \<mapsto> t)) s') x =
      (if owns (now c) t x then Some Abandoned else srfi18_mutex_state (now c) x)" for x
    unfolding o using s'(6) [of x] by (simp add: c state_plug)
  moreover have "frame (plug ((lost c)(m \<mapsto> t)) s') = frame (now c)" "(mutexes s' u = None) = (mutexes (now c) u = None)" for u
    using s'(2,4) by (simp_all add: c frame_def dom_plug)
  ultimately show thesis
    using that [OF l l' q] by blast
qed

text \<open>A timed lock is a lock that may fail.\<close>

lemma timed_lock_eq:
  "srfi18_mutex_timed_lock (\<lambda>_. pthread_mutex_lock err) clock t s m ms = srfi18_mutex_lock err t s m"
  by (simp add: srfi18_mutex_timed_lock_def srfi18_mutex_lock_def lock_timeout_def c_div_def c_mod_def)

lemma lock_free:
  assumes "srfi18_mutex_lock err t s m = Some (Inr (k, s'))" "\<not> err"
  obtains r where "mtx s m = Some r" "pmutex r = None"
  using assms by (auto simp: srfi18_mutex_lock_def pthread_mutex_lock_def bind_eq_Some_conv split: if_splits)

lemma wait_end_free:
  assumes "condvar_wait_end t s m th = Some (Inr s')"
  obtains r where "mtx s m = Some r" "pmutex r = None"
  using assms by (auto simp: condvar_wait_end_def pthread_mutex_lock_def bind_eq_Some_conv split: if_splits)

lemma cleanup_thread: "srfi18_thread_cleanup s t = Some s' \<Longrightarrow> mutexes s t \<noteq> None"
  by (auto simp: srfi18_thread_cleanup_def srfi18_mutexes_abandon_def bind_eq_Some_conv)

lemma plain_undefined:
  assumes i: "inv c" and a: "active c t" and r: "mtx (now c) m = Some r" "pmutex r = None" and k: "\<not> knows (now c) t"
  shows "srfi18_mutex_lock False t (now c) m = None"
proof -
  obtain s L where p: "plugs c s L"
    using plugs_inv [OF i] by blast
  note f = not_lost(1) [OF p r]
  have c: "now c = plug (lost c) s" and ok: "ok s L (ended c) (ended c) (orphans c)"
    using p by (simp_all add: plugs_def)
  have "srfi18_mutex_lock False t s m = None"
    using plugs_inv(2) [OF i, of t] k a f r lock_plain [OF ok, of m r t] by (simp add: thread_fields_def c active_def)
  then show ?thesis
    using f by (simp add: c lock_plug)
qed

lemma inv_lock:
  assumes i: "inv c" and a: "active c t" and l: "srfi18_mutex_lock err t (now c) m = Some (Inr (k, s))"
  shows "inv (c\<lparr>now := s, orphans := if k = 0 then orphans c - {m} else orphans c\<rparr>)"
proof (cases err)
  case True
  then show ?thesis
    using l i by (auto simp: srfi18_mutex_lock_def pthread_mutex_lock_def)
next
  case False
  then obtain r where r: "mtx (now c) m = Some r" "pmutex r = None"
    using lock_free [OF l] by blast
  have n: "knows (now c) t"
    using plain_undefined [OF i a r] l False by auto
  show ?thesis
  proof (rule run_lock [OF i a r n])
    fix s' L'
    assume *: "srfi18_mutex_lock False t (now c) m = Some (Inr (0, plug (lost c) s'))"
      "plugs (c\<lparr>now := plug (lost c) s', orphans := orphans c - {m}\<rparr>) s' L'"
      "\<And>u. (mutexes s' u = None) = (mutexes (now c) u = None)" "frame (plug (lost c) s') = frame (now c)"
    have e: "s = plug (lost c) s'" "k = 0"
      using * l False by simp_all
    show ?thesis
      unfolding e using *(2-4) fields_same [OF plugs_inv(2) [OF i, of t]]
      by (intro inv_next [OF i, of _ s' L' t]) (auto simp: frame_def)
  qed
qed

lemma inv_step:
  assumes st: "step c v c'" and i: "inv c"
  shows "inv c'"
proof -
  obtain s L where p: "plugs c s L"
    using plugs_inv [OF i] by blast
  have c: "now c = plug (lost c) s" and ok: "ok s L (ended c) (ended c) (orphans c)"
    using p by (simp_all add: plugs_def)
  from st show ?thesis
  proof cases
    case (step_thread t)
    have "now c' = plug (lost c) (bglpth_thread_init (srfi18_thread_new s t) t)"
      using step_thread(1) by (simp add: c bglpth_thread_init_def srfi18_thread_new_def plug_def)
    moreover have "\<not> owns s t m" for m
      using step_thread(5) [of m] owned [OF p, of t m] p by (auto simp: plugs_def split: option.splits)
    ultimately have "plugs c' (bglpth_thread_init (srfi18_thread_new s t) t) L"
      using p step_thread thread_new_ok [OF ok, of t] thread_init_ok by (auto simp: plugs_def c)
    then show ?thesis
      by (rule inv_next [OF i, of _ _ L t])
        (use step_thread in \<open>auto simp: thread_fields_def knows_def owner_field_def bglpth_current_pthread_def bglpth_thread_init_def
          srfi18_thread_new_def active_def\<close>)
  next
    case (step_pthread t)
    have "now c' = plug (lost c) (bglpth_thread_init s t)"
      using step_pthread(1) by (simp add: c bglpth_thread_init_def plug_def)
    then have "plugs c' (bglpth_thread_init s t) L"
      using p step_pthread thread_init_ok [OF ok] by (auto simp: plugs_def)
    then show ?thesis
      by (rule inv_next [OF i, of _ _ L t])
        (use step_pthread in \<open>auto simp: thread_fields_def bglpth_thread_init_def active_def\<close>)
  next
    case (step_mutex m)
    have m: "mtx s m = None" "lost c m = None"
      using step_mutex(2) p by (cases "lost c m"; force simp: c plugs_def)+
    have "mtx (now c') x = mtx (plug (lost c) (srfi18_mutex_init s m)) x" for x
      using step_mutex(1) m by (simp add: c)
    then have "now c' = plug (lost c) (srfi18_mutex_init s m)"
      using step_mutex(1) by (intro mstate.equality ext) (simp_all add: c)
    then have "plugs c' (srfi18_mutex_init s m) L"
      using p step_mutex(1) m mutex_init_ok [OF ok m(1)] by (auto simp: plugs_def)
    then show ?thesis
      using plugs_inv(2) [OF i, of v] step_mutex(1)
      by (intro inv_next [OF i, of _ _ L v])
        (simp_all add: thread_fields_def knows_def owner_field_def bglpth_current_pthread_def subset_insertI srfi18_mutex_init_def)
  next
    case (step_lock err m k s1)
    then show ?thesis
      using inv_lock [OF i] by simp
  next
    case (step_timed_lock err clock m ms k s1)
    then show ?thesis
      using inv_lock [OF i] by (simp add: timed_lock_eq)
  next
    case (step_unlock err m k s1)
    then show ?thesis
      using run_unlock [OF i] by simp
  next
    case (step_wait m th s1)
    then show ?thesis
      using run_wait [OF i] by simp
  next
    case (step_resume m th s1)
    obtain r where r: "mtx (now c) m = Some r" "pmutex r = None"
      using wait_end_free [OF step_resume(3)] by blast
    show ?thesis
    proof (rule run_resume [OF i step_resume(2) r])
      fix s' L'
      assume *: "condvar_wait_end v (now c) m th = Some (Inr (plug (lost c) s'))"
        "plugs (c\<lparr>now := plug (lost c) s', waiting := (waiting c)(v := None), orphans := orphans c - {m}\<rparr>) s' L'"
        "\<And>u. (mutexes s' u = None) = (mutexes (now c) u = None)" "frame (plug (lost c) s') = frame (now c)"
      have e: "s1 = plug (lost c) s'"
        using * step_resume(3) by simp
      show ?thesis
        unfolding step_resume(1) e using *(2-4) fields_same [OF plugs_inv(2) [OF i, of v], of "plug (lost c) s'"]
        by (intro inv_next [OF i, of _ s' L' v]) (auto simp: frame_def thread_fields_def)
    qed
  next
    case (step_end s1)
    have t: "v \<notin> ended c"
      using step_end(2) by (simp add: active_def)
    show ?thesis
    proof (rule run_end [OF i t cleanup_thread [OF step_end(3)]])
      fix s' L'
      assume *: "srfi18_thread_cleanup (now c) v = Some (plug (lost c) s')"
        "plugs (c\<lparr>now := plug (lost c) s', ended := insert v (ended c), orphans := orphans c \<union> {m. owns (now c) v m}\<rparr>) s' L'"
        "\<And>u. (mutexes s' u = None) = (mutexes (now c) u = None)" "frame (plug (lost c) s') = frame (now c)"
      have e: "s1 = plug (lost c) s'"
        using * step_end(3) by simp
      show ?thesis
        unfolding step_end(1) e using *(2-4) fields_same [OF plugs_inv(2) [OF i, of v], of "plug (lost c) s'"] step_end(2)
        by (intro inv_next [OF i, of _ s' L' v]) (auto simp: frame_def thread_fields_def active_def)
    qed
  next
    case (step_cancel m th k s1 s2)
    obtain r where r: "mtx (now c) m = Some r" "pmutex r = None"
      using step_cancel(3) by (auto simp: pthread_mutex_lock_def bind_eq_Some_conv split: if_splits)
    have t: "mutexes (now c) v \<noteq> None"
      using cleanup_thread [OF step_cancel(4)] step_cancel(3) r by (auto simp: pthread_mutex_lock_def upd_Some)
    show ?thesis
    proof (rule run_cancel [OF i step_cancel(2) r t])
      fix s3 s' L'
      let ?p = "(lost c)(m \<mapsto> v)"
      assume *: "pthread_mutex_lock False v (now c) m = Some (0, s3)" "srfi18_thread_cleanup s3 v = Some (plug ?p s')"
        "plugs (c\<lparr>now := plug ?p s', ended := insert v (ended c), waiting := (waiting c)(v := None),
          orphans := orphans c \<union> {m. owns (now c) v m}, lost := ?p\<rparr>) s' L'"
        "\<And>u. (mutexes s' u = None) = (mutexes (now c) u = None)" "frame (plug ?p s') = frame (now c)"
      have e: "s2 = plug ?p s'"
        using * step_cancel(3,4) by simp
      show ?thesis
        unfolding step_cancel(1) e using *(3-5) fields_same [OF plugs_inv(2) [OF i, of v], of "plug ?p s'"]
        by (intro inv_next [OF i, of _ s' L' v]) (auto simp: frame_def thread_fields_def)
    qed
  qed
qed

lemma inv_reachable: "reachable c \<Longrightarrow> inv c"
  by (induction rule: reachable.induct) (auto intro: inv_start inv_step)

lemma held_state:
  assumes "plugs c s L" "owns (now c) t m" "t \<notin> ended c"
  shows "srfi18_mutex_state (now c) m = Some (case owner_field (now c) t of Some u \<Rightarrow> Owned u | None \<Rightarrow> Not_owned)"
proof -
  obtain r where "mtx s m = Some r" "pmutex r = Some t"
    using not_lost(2) [OF assms] by (auto simp: owns_def)
  then show ?thesis
    using assms(1) ok_mutex [of s L "ended c" "ended c" "orphans c" m r]
    by (auto simp: plugs_def state_plug mutex_ok_def srfi18_mutex_state_def owner_field_def)
qed

lemma free_state:
  assumes "plugs c s L" "mtx (now c) m = Some r" "pmutex r = None"
  shows "srfi18_mutex_state (now c) m = Some (if m \<in> orphans c then Abandoned else Not_abandoned)"
  using assms(1,3) not_lost(1) [OF assms] ok_mutex [of s L "ended c" "ended c" "orphans c" m r]
  by (auto simp: plugs_def state_plug mutex_ok_def srfi18_mutex_state_def split: option.splits)

text \<open>A run: the thread 1 and the mutexes 2 and 3 are made, and the thread locks 2 and 3 and waits with 3.\<close>

definition made :: sys where
  "made = start\<lparr>now := srfi18_mutex_init (srfi18_mutex_init (bglpth_thread_init (srfi18_thread_new (now start) 1) 1) 2) 3\<rparr>"

definition locks :: "sys \<Rightarrow> nat \<Rightarrow> sys" where
  "locks c m = (case srfi18_mutex_lock False 1 (now c) m of
     Some (Inr (_, s)) \<Rightarrow> c\<lparr>now := s, orphans := orphans c - {m}\<rparr>
   | _ \<Rightarrow> c)"

definition waits :: "sys \<Rightarrow> nat \<Rightarrow> sys" where
  "waits c m = (case condvar_wait_begin 1 (now c) m of
     Some (th, s) \<Rightarrow> c\<lparr>now := s, waiting := (waiting c)(1 \<mapsto> (m, th))\<rparr>
   | None \<Rightarrow> c)"

lemma reachable_made: "reachable made"
proof -
  let ?c1 = "start\<lparr>now := bglpth_thread_init (srfi18_thread_new (now start) 1) 1\<rparr>"
  let ?c2 = "?c1\<lparr>now := srfi18_mutex_init (now ?c1) 2\<rparr>"
  let ?c3 = "?c2\<lparr>now := srfi18_mutex_init (now ?c2) 3\<rparr>"
  have "step start 0 ?c1"
    by (rule step_thread) (auto simp: start_def active_def owns_def)
  moreover have "step ?c1 0 ?c2" "step ?c2 0 ?c3"
    by (rule step_mutex, simp add: start_def)+
  ultimately have "reachable ?c3"
    using reachable_start reachable_step by blast
  then show ?thesis
    by (simp add: made_def)
qed

lemma poll_trials: "snd (poll busy k ms) \<le> k + nat ((ms + 99) div 100)"
proof (induction busy k ms rule: poll.induct)
  case (1 busy k ms)
  show ?case
  proof (cases "busy k \<and> ms > 0")
    case True
    have "(ms + 99) div 100 = (ms - 100 + 99) div 100 + 1"
      using div_mult_self4 [of 100 1 "ms - 1"] by simp
    moreover have "0 \<le> (ms - 100 + 99) div 100"
      using True by (simp add: pos_imp_zdiv_nonneg_iff)
    ultimately show ?thesis
      using 1 True by (subst poll.simps) (simp add: nat_add_distrib)
  qed (subst poll.simps, auto)
qed

lemmas lock_defs = srfi18_mutex_lock_def pthread_mutex_lock_def lock_done_def upd_def bglpth_current_pthread_def
  srfi18_mutex_mark_locked_def register_mutex_def set_mutexes_def

lemmas wait_defs = condvar_wait_begin_def srfi18_mutex_mark_unlocked_def unregister_mutex_def pthread_mutex_unlock_def Let_def

lemma step_locks: "active c 1 \<Longrightarrow> \<exists>s. srfi18_mutex_lock False 1 (now c) m = Some (Inr (0, s)) \<Longrightarrow> step c 1 (locks c m)"
  using step_lock [of c 1 False m 0] by (auto simp: locks_def)

lemma step_waits: "active c 1 \<Longrightarrow> \<exists>r. condvar_wait_begin 1 (now c) m = Some r \<Longrightarrow> step c 1 (waits c m)"
  using step_wait [of c 1 m] by (auto simp: waits_def)

lemma locks_made:
  "step made 1 (locks made 2)" "step (locks made 2) 1 (locks (locks made 2) 3)"
  by (rule step_locks; simp add: locks_def lock_defs made_def start_def active_def)+

lemma waits_made: "step (locks (locks made 2) 3) 1 (waits (locks (locks made 2) 3) 3)"
  by (rule step_waits; simp add: locks_def lock_defs wait_defs made_def start_def active_def)

text \<open>The last state of the run.\<close>

lemma now_waits:
  "now (waits (locks (locks made 2) 3) 3) = \<lparr>mtx =
     [2 \<mapsto> \<lparr>pmutex = Some 1, mthread = Some 1, locked = True, mprev = None, mnext = None\<rparr>,
      3 \<mapsto> \<lparr>pmutex = None, mthread = None, locked = False, mprev = None, mnext = None\<rparr>],
     mutexes = [1 \<mapsto> Some 2], current = [1 \<mapsto> 1]\<rparr>"
  by (simp add: waits_def locks_def lock_defs wait_defs made_def start_def srfi18_mutex_init_def srfi18_thread_new_def
      bglpth_thread_init_def fun_upd_twist)

lemma waiting_waits: "waiting (waits (locks (locks made 2) 3) 3) 1 = Some (3, Some 1)"
  by (simp add: waits_def locks_def lock_defs wait_defs made_def start_def srfi18_mutex_init_def srfi18_thread_new_def
      bglpth_thread_init_def)

lemma reachable_locks:
  "reachable (locks made 2)" "reachable (locks (locks made 2) 3)" "reachable (waits (locks (locks made 2) 3) 3)"
  using locks_made waits_made reachable_made reachable_step by blast+

text \<open>The variant with trials does not mark the mutex as locked: the thread holds it, and its state is that of an abandoned one.\<close>

lemma poll_marks:
  "\<exists>s. srfi18_mutex_timed_lock_poll (\<lambda>_. False) 1 (now made) 2 0 = Some (Inr (0, s)) \<and> owns s 1 2 \<and>
    srfi18_mutex_state s 2 = Some Abandoned"
  by (simp add: srfi18_mutex_timed_lock_poll_def poll.simps lock_defs made_def start_def owns_def srfi18_mutex_state_def)

section \<open>Theorems\<close>

text \<open>C2: In every run, the list of a thread is properly linked and holds exactly the mutexes that the thread holds, each
  once, except for the mutex that a thread has taken back because it was terminated while it waited: such a mutex is in
  no list, and a thread that has ended holds it. In a run, threads lock (also with the deadline of
  \<open>pthread_mutex_timedlock\<close>), unlock, wait, end and are terminated, one function of the library after the other. POSIX leaves it undefined when a thread unlocks a mutex that
  it does not hold, and no run goes on from there; nor from the lock of a plain \<open>pthread\<close>, which is undefined too.\<close>

theorem mutexes_registered:
  assumes "reachable c" "mutexes (now c) t = Some w"
  shows "\<exists>xs. w = hdo xs None \<and> dseg (mtx (now c)) None xs None \<and> distinct xs \<and>
    set xs = {m. owns (now c) t m} - dom (lost c) \<and> dom (lost c) \<subseteq> {m. \<exists>u \<in> ended c. owns (now c) u m}"
proof -
  obtain s L where p: "plugs c s L"
    using plugs_inv(1) [OF inv_reachable [OF assms(1)]] by blast
  have l: "w = hdo (L t) None" "dseg (mtx s) None (L t) None" "distinct (L t)" "set (L t) = Collect (owns s t)"
    using p assms(2) ok_thread [of s L "ended c" "ended c" "orphans c" t] by (auto simp: plugs_def thread_ok_def)
  have "lost c x = None" if "x \<in> set (L t)" for x
    using p l(4) that by (cases "lost c x") (auto simp: plugs_def)
  then have "dseg (mtx (now c)) None (L t) None"
    using p l(2) dseg_cong [of "L t" "mtx (now c)" "mtx s"] by (auto simp: plugs_def grip_None option.map_id0)
  moreover have "set (L t) = {m. owns (now c) t m} - dom (lost c)"
    using p l(4) owned [OF p, of t] by (auto simp: plugs_def split: option.splits)
  moreover have "dom (lost c) \<subseteq> {m. \<exists>u \<in> ended c. owns (now c) u m}"
    using p owned [OF p] by (auto simp: plugs_def)
  ultimately show ?thesis
    using l(1,3) by blast
qed

theorem mutexes_registered_witness:
  "mutexes (now (locks (locks made 2) 3)) 1 = Some (Some 3) \<and> owns (now (locks (locks made 2) 3)) 1 2 \<and>
   (\<exists>xs. Some 3 = hdo xs None \<and> dseg (mtx (now (locks (locks made 2) 3))) None xs None \<and> distinct xs \<and>
     set xs = {m. owns (now (locks (locks made 2) 3)) 1 m})"
proof -
  have "mutexes (now (locks (locks made 2) 3)) 1 = Some (Some 3)" "owns (now (locks (locks made 2) 3)) 1 2"
    "lost (locks (locks made 2) 3) = Map.empty"
    by (simp_all add: locks_def lock_defs made_def start_def owns_def)
  with mutexes_registered [OF reachable_locks(2), of 1 "Some 3"] show ?thesis
    by auto
qed

text \<open>C11: In every run (of the same kind) a thread that takes a free mutex, by a lock, with a deadline or not, or at the end of a
  wait, gets it without the error of an illegal lock: it then holds the mutex, and the state of the mutex is the thread,
  or not-owned for a thread that has no structure. Before, the state tells whether the mutex has been abandoned. A lock
  by a plain \<open>pthread\<close> has no defined result: it is registered in a structure that has no list of mutexes.\<close>

theorem mutex_taken:
  assumes r: "reachable c" "mtx (now c) m = Some r" "pmutex r = None"
  shows "srfi18_mutex_state (now c) m = Some (if m \<in> orphans c then Abandoned else Not_abandoned) \<and>
    (active c t \<and> (bglpth_current_pthread (now c) t = None \<or> mutexes (now c) t \<noteq> None) \<longrightarrow>
      (\<exists>s. srfi18_mutex_lock False t (now c) m = Some (Inr (0, s)) \<and>
        srfi18_mutex_timed_lock (\<lambda>_. pthread_mutex_lock False) clock t (now c) m ms = Some (Inr (0, s)) \<and> owns s t m \<and>
        srfi18_mutex_state s m = Some (case bglpth_current_pthread (now c) t of Some u \<Rightarrow> Owned u | None \<Rightarrow> Not_owned))) \<and>
    (active c t \<and> bglpth_current_pthread (now c) t \<noteq> None \<and> mutexes (now c) t = None \<longrightarrow>
      srfi18_mutex_lock False t (now c) m = None) \<and>
    (waiting c t = Some (m, th) \<longrightarrow> (\<exists>s. condvar_wait_end t (now c) m th = Some (Inr s) \<and> owns s t m \<and>
      srfi18_mutex_state s m = Some (case th of Some u \<Rightarrow> Owned u | None \<Rightarrow> Not_owned)))"
proof (intro conjI impI)
  note i = inv_reachable [OF r(1)]
  note f = plugs_inv(2) [OF i, of t, unfolded thread_fields_def]
  show "srfi18_mutex_state (now c) m = Some (if m \<in> orphans c then Abandoned else Not_abandoned)"
    using plugs_inv(1) [OF i] free_state r(2,3) by blast
  show "\<exists>s. srfi18_mutex_lock False t (now c) m = Some (Inr (0, s)) \<and>
      srfi18_mutex_timed_lock (\<lambda>_. pthread_mutex_lock False) clock t (now c) m ms = Some (Inr (0, s)) \<and> owns s t m \<and>
      srfi18_mutex_state s m = Some (case bglpth_current_pthread (now c) t of Some u \<Rightarrow> Owned u | None \<Rightarrow> Not_owned)"
    if a: "active c t \<and> (bglpth_current_pthread (now c) t = None \<or> mutexes (now c) t \<noteq> None)"
  proof -
    have k: "knows (now c) t"
      using f a by (auto simp: bglpth_current_pthread_def)
    show ?thesis
    proof (rule run_lock [OF i conjunct1 [OF a] r(2,3) k])
      fix s' L'
      let ?s = "plug (lost c) s'"
      assume *: "srfi18_mutex_lock False t (now c) m = Some (Inr (0, ?s))"
        "plugs (c\<lparr>now := ?s, orphans := orphans c - {m}\<rparr>) s' L'"
        "\<And>u. (mutexes s' u = None) = (mutexes (now c) u = None)" "owns ?s t m"
      have "owner_field ?s t = bglpth_current_pthread (now c) t"
        using k *(3) [of t] by (simp add: knows_def owner_field_def)
      then show ?thesis
        using *(1,4) held_state [OF *(2), of t m] a by (auto simp: timed_lock_eq active_def)
    qed
  qed
  show "srfi18_mutex_lock False t (now c) m = None"
    if a: "active c t \<and> bglpth_current_pthread (now c) t \<noteq> None \<and> mutexes (now c) t = None"
    using plain_undefined [OF i _ r(2,3), of t] a by (simp add: knows_def owner_field_def)
  show "\<exists>s. condvar_wait_end t (now c) m th = Some (Inr s) \<and> owns s t m \<and>
      srfi18_mutex_state s m = Some (case th of Some u \<Rightarrow> Owned u | None \<Rightarrow> Not_owned)"
    if w: "waiting c t = Some (m, th)"
  proof (rule run_resume [OF i w r(2,3)])
    fix s' L'
    let ?s = "plug (lost c) s'"
    assume *: "condvar_wait_end t (now c) m th = Some (Inr ?s)"
      "plugs (c\<lparr>now := ?s, waiting := (waiting c)(t := None), orphans := orphans c - {m}\<rparr>) s' L'"
      "\<And>u. (mutexes s' u = None) = (mutexes (now c) u = None)" "owns ?s t m"
    have "owner_field ?s t = th" "t \<notin> ended c"
      using f w *(3) [of t] by (simp_all add: owner_field_def)
    then show ?thesis
      using *(1,4) held_state [OF *(2), of t m] by auto
  qed
qed

theorem mutex_taken_witness:
  "srfi18_mutex_state (now made) 2 = Some Not_abandoned \<and>
   (\<exists>s. srfi18_mutex_lock False 1 (now made) 2 = Some (Inr (0, s)) \<and> owns s 1 2 \<and>
     srfi18_mutex_state s 2 = Some (Owned 1))"
proof -
  obtain r where r: "mtx (now made) 2 = Some r" "pmutex r = None"
    by (auto simp: made_def start_def)
  have "active made 1" "2 \<notin> orphans made" "bglpth_current_pthread (now made) 1 = Some 1" "mutexes (now made) 1 \<noteq> None"
    by (simp_all add: made_def start_def active_def bglpth_current_pthread_def)
  with mutex_taken [OF reachable_made r, where t = 1 and clock = "(0, 0)" and ms = 0 and th = None] show ?thesis
    by auto
qed

text \<open>C12: When a thread of a run (of the same kind) ends, on its own or because it is terminated outside of a wait, exactly the
  mutexes that it holds are unlocked and marked as abandoned; the states and the holders of the others do not change.
  When it is terminated in a wait, as soon as the mutex of the wait is free, the same happens to the mutexes that it
  held, but it takes the mutex of the wait, which stays in its hands with the state that it had, free.\<close>

theorem mutexes_abandoned:
  assumes "reachable c" "mutexes (now c) t \<noteq> None"
  shows "(active c t \<longrightarrow> (\<exists>s. srfi18_thread_cleanup (now c) t = Some s \<and>
      (\<forall>x. srfi18_mutex_state s x = (if owns (now c) t x then Some Abandoned else srfi18_mutex_state (now c) x)) \<and>
      (\<forall>u x. owns s u x = (u \<noteq> t \<and> owns (now c) u x)))) \<and>
    (waiting c t = Some (m, th) \<and> mtx (now c) m = Some r \<and> pmutex r = None \<longrightarrow>
      (\<exists>s' s. pthread_mutex_lock False t (now c) m = Some (0, s') \<and> srfi18_thread_cleanup s' t = Some s \<and>
        (\<forall>x. srfi18_mutex_state s x = (if owns (now c) t x then Some Abandoned else srfi18_mutex_state (now c) x)) \<and>
        (\<forall>u x. owns s u x = (if x = m then u = t else u \<noteq> t \<and> owns (now c) u x))))"
proof (intro conjI impI)
  note i = inv_reachable [OF assms(1)]
  show "\<exists>s. srfi18_thread_cleanup (now c) t = Some s \<and>
      (\<forall>x. srfi18_mutex_state s x = (if owns (now c) t x then Some Abandoned else srfi18_mutex_state (now c) x)) \<and>
      (\<forall>u x. owns s u x = (u \<noteq> t \<and> owns (now c) u x))"
    if "active c t"
    using run_end [OF i _ assms(2)] that unfolding active_def by metis
  show "\<exists>s' s. pthread_mutex_lock False t (now c) m = Some (0, s') \<and> srfi18_thread_cleanup s' t = Some s \<and>
      (\<forall>x. srfi18_mutex_state s x = (if owns (now c) t x then Some Abandoned else srfi18_mutex_state (now c) x)) \<and>
      (\<forall>u x. owns s u x = (if x = m then u = t else u \<noteq> t \<and> owns (now c) u x))"
    if w: "waiting c t = Some (m, th) \<and> mtx (now c) m = Some r \<and> pmutex r = None"
    using run_cancel [OF i conjunct1 [OF w] _ _ assms(2), of r] w by metis
qed

text \<open>The thread 1 holds 2 and waits with 3: it is terminated.\<close>

theorem mutexes_abandoned_witness:
  "\<exists>s' s. pthread_mutex_lock False 1 (now (waits (locks (locks made 2) 3) 3)) 3 = Some (0, s') \<and>
    srfi18_thread_cleanup s' 1 = Some s \<and> srfi18_mutex_state s 2 = Some Abandoned \<and> \<not> owns s 1 2 \<and>
    srfi18_mutex_state s 3 = Some Not_abandoned \<and> owns s 1 3"
proof -
  let ?c = "waits (locks (locks made 2) 3) 3"
  let ?r = "\<lparr>pmutex = None, mthread = None, locked = False, mprev = None, mnext = None\<rparr>"
  have "waiting ?c 1 = Some (3, Some 1) \<and> mtx (now ?c) 3 = Some ?r \<and> pmutex ?r = None"
    using waiting_waits by (simp add: now_waits)
  moreover have m: "mutexes (now ?c) 1 \<noteq> None"
    by (simp add: now_waits)
  ultimately obtain s' s where s: "pthread_mutex_lock False 1 (now ?c) 3 = Some (0, s')" "srfi18_thread_cleanup s' 1 = Some s"
      "\<And>x. srfi18_mutex_state s x = (if owns (now ?c) 1 x then Some Abandoned else srfi18_mutex_state (now ?c) x)"
      "\<And>u x. owns s u x = (if x = 3 then u = 1 else u \<noteq> 1 \<and> owns (now ?c) u x)"
    using mutexes_abandoned [OF reachable_locks(3) m, of 3 "Some 1" ?r] by blast
  moreover have "owns (now ?c) 1 2" "\<not> owns (now ?c) 1 3" "srfi18_mutex_state (now ?c) 3 = Some Not_abandoned"
    by (simp_all add: now_waits owns_def srfi18_mutex_state_def)
  ultimately show ?thesis
    by (intro exI [of _ s'] exI [of _ s]) simp
qed

lemma timeouts:
  assumes "0 \<le> sint ms"
  shows "lock_timeout sec usec ms = Some (word_of_int (sint sec + sint ms div 1000),
      word_of_int (sint usec * 1000 + sint ms mod 1000 * 100000))"
    "condvar_timeout sec usec ms = Some (word_of_int (sint sec + sint ms div 1000),
      word_of_int (sint usec * 1000 + sint ms mod 1000 * 1000000))"
proof -
  have "c_div ms 1000 = Some (word_of_int (sint ms div 1000))" "c_mod ms 1000 = Some (word_of_int (sint ms mod 1000))"
    using assms by (auto simp: c_div_def c_mod_def sgn_if)
  then show "lock_timeout sec usec ms = Some (word_of_int (sint sec + sint ms div 1000),
      word_of_int (sint usec * 1000 + sint ms mod 1000 * 100000))"
    "condvar_timeout sec usec ms = Some (word_of_int (sint sec + sint ms div 1000),
      word_of_int (sint usec * 1000 + sint ms mod 1000 * 1000000))"
    by (simp_all add: lock_timeout_def condvar_timeout_def)
qed

text \<open>C40: The deadlines in nanoseconds: of a wait, exactly the delay from now; of a lock, too early by 900 microseconds for
  every millisecond beyond the last second of the delay. The nanoseconds of a deadline may exceed those of one second,
  for a wait as soon as the milliseconds and the microseconds of the clock add up to a second.
\<close>

theorem deadlines:
  assumes "0 \<le> sint ms" "0 \<le> sint sec" "sint sec < 2 ^ 61" "0 \<le> sint usec" "sint usec < 1000000"
  shows "\<exists>s n n'. lock_timeout sec usec ms = Some (s, n) \<and> condvar_timeout sec usec ms = Some (s, n') \<and>
    sint s * 1000000000 + sint n' = sint sec * 1000000000 + sint usec * 1000 + sint ms * 1000000 \<and>
    sint n = sint n' - sint ms mod 1000 * 900000 \<and> 0 \<le> sint n \<and> sint n' < 2000000000 \<and>
    (sint n' < 1000000000 \<longleftrightarrow> sint usec + sint ms mod 1000 * 1000 < 1000000)"
proof -
  define q r where "q = sint ms div 1000" and "r = sint ms mod 1000"
  have b: "0 \<le> r" "r < 1000" "0 \<le> q" "q < 2 ^ 62"
    using assms(1) sint_lt [of ms] by (simp_all add: pos_imp_zdiv_nonneg_iff q_def r_def)
  have e: "sint ms = q * 1000 + r"
    by (simp add: q_def r_def)
  have "sint (word_of_int (sint sec + q) :: c_long) = sint sec + q"
    "sint (word_of_int (sint usec * 1000 + r * 100000) :: c_long) = sint usec * 1000 + r * 100000"
    "sint (word_of_int (sint usec * 1000 + r * 1000000) :: c_long) = sint usec * 1000 + r * 1000000"
    by (rule sint_word_of_int_in; use assms b in simp)+
  moreover have "sint usec * 1000 + r * 1000000 < 2000000000"
    "sint usec * 1000 + r * 1000000 < 1000000000 \<longleftrightarrow> sint usec + r * 1000 < 1000000"
    using assms b by linarith+
  ultimately show ?thesis
    using assms(4) b unfolding timeouts [OF assms(1)] q_def [symmetric] r_def [symmetric] e
    by auto
qed

theorem deadlines_witness:
  "\<exists>s n n'. lock_timeout 10 999000 1999 = Some (s, n) \<and> condvar_timeout 10 999000 1999 = Some (s, n') \<and>
    sint s = 11 \<and> sint n = 1098900000 \<and> sint n' = 1998000000"
  using deadlines [of 1999 10 999000] by (simp add: lock_timeout_def condvar_timeout_def c_div_def c_mod_def)

end
