(* ===== verification/Spec2Isabelle.thy ===== *)
theory Spec2Isabelle
  imports Fixnum Hash Bstring Strcmp Strnum Ucs2tab Ucs2 Utf8 Escape Intern Gensym Bigarith Safearith Ports Rgctok Cwriter Cvector Cobject Cbinary Capply Cmutex
begin

text \<open>
  A verification library for the C runtime of Bigloo, \<open>src/runtime/Clib\<close> and \<open>src/runtime/Include\<close>.
  Compiled Scheme programs call these functions for what is not inlined: integers and bignums, strings, Unicode,
  symbols, ports and the buffers of the regular grammars that read from them.

  \<^bold>\<open>How the code is modelled.\<close> A function of the C code is a definition of the same name. Where the code touches
  memory, the definition returns an \<open>option\<close>, and \<open>None\<close> stands for every undefined behaviour: an access outside
  of a block, a read of a cell that has not been written since its allocation, overlapping arguments of
  \<open>memcpy\<close>, a division that traps, and an overflow of signed arithmetic where a test of the code or the size of a block
  depends on its result. So an equation \<open>f x = Some y\<close> also says that the call is memory safe. A
  loop that C may run for ever is a \<open>partial_function\<close>, where \<open>None\<close> is also the value of a call that does not
  return. Scheme exceptions are the left of a sum (\<open>failure\<close>, theory \<open>Prelude\<close>). Structures are records;
  mutable state is passed explicitly; a function that mutex locks protect is one step. Machine integers are words
  where they wrap, and \<open>int\<close> with \<open>int32\<close> at the conversions to \<open>int\<close> where they are lengths and
  offsets: a length of the type \<open>long\<close> that the code stores in an \<open>int\<close> or passes to a parameter of this type is
  narrowed, and the properties bound it (2^31 bytes) or state what happens beyond. The generic arithmetic of
  \<open>Safearith\<close> has a parameter \<open>wrapv\<close>: whether the compiler lets signed arithmetic wrap, which no build file asks
  for. The target has 64 bits, little-endian, signed characters, and three tag bits with integer tag 0.
  No bound or fuel is chosen anywhere: every loop is a total function with a measure, or a
  \<open>partial_function\<close> whose return is a theorem.

  \<^bold>\<open>Parts.\<close>
  \<^item> \<open>Prelude\<close>: blocks of cells and the functions of \<open>string.h\<close>, counted loops, errors; the collections
    \<open>mem_simps\<close> and \<open>bstr\<close>.
  \<^item> \<open>Fixnum\<close> (\<open>bigloo.h\<close>, \<open>bigloo_int.h\<close>, \<open>coverflow.c\<close>, \<open>autoconf/signbit\<close>): tagging and
    the overflow tests, exact on 61 bits; the tests for products and what is wrong with them.
  \<^item> \<open>Hash\<close> (\<open>chash.c\<close>): the table hash, the hash of the symbol tables, string hashing.
  \<^item> \<open>Bstring\<close>, \<open>Strcmp\<close>, \<open>Strnum\<close>, \<open>Escape\<close> (\<open>cstring.c\<close>): construction and copying, the
    comparisons (locale \<open>string_order\<close>, interpreted four times), the printing of integers, escape sequences in both
    directions.
  \<^item> \<open>Ucs2tab\<close> (\<open>cucs2.c\<close>), \<open>Ucs2\<close> and \<open>Utf8\<close> (\<open>cunicode.c\<close>): the complete character tables,
    UCS-2 strings, and the conversions to and from UTF-8 against a specification by code points.
  \<^item> \<open>Intern\<close> and \<open>Gensym\<close> (\<open>csymbol.c\<close>, \<open>cdsssl.c\<close>): the symbol and keyword tables. The record
    \<open>globals\<close> holds the tables, the counter and a store of objects by address, because a claim depends on which
    object a name maps to. Locale \<open>interning\<close> is the contract of interning, interpreted for both tables.
  \<^item> \<open>Bignum\<close>, \<open>Gmpref\<close>, \<open>Bigarith\<close> and \<open>Safearith\<close> (\<open>cbignum.c\<close>): bignums over blocks of
    limbs. The functions of GMP are a parameter (record \<open>gmp\<close>) with their documented behaviour as the
    hypothesis \<open>gmp_ok\<close>, which \<open>Gmpref\<close> shows an implementation to satisfy. \<open>denotes\<close> relates a bignum to
    an integer, and each operation refines the one on integers.
  \<^item> \<open>Iport\<close> (\<open>cports.c\<close>), \<open>Rgc\<close>, \<open>Iodev\<close>, \<open>Ports\<close> and \<open>Rgctok\<close> (\<open>crgc.c\<close>): input ports,
    the buffer with its cursors, and the tokens read from it. The function of the field \<open>sysread\<close> is an
    argument; locales \<open>input_device\<close> and \<open>signalling_device\<close> are its contract, and mapped files, strings,
    procedures and files over the system call \<open>read\<close> are the interpretations. \<open>device_fails\<close> says that a failure
    is one that the device has reported to a read, after others: an operation on an open port raises nothing else. \<open>holds\<close> and \<open>port_ok\<close> are
    the invariants of the buffer and its device.
  \<^item> \<open>Oport\<close>, \<open>Ostream\<close>, \<open>Oports\<close> (\<open>cports.c\<close>) and \<open>Cwriter\<close> (\<open>cwriter.c\<close>): output ports,
    flushing and printing. The function of the field \<open>syswrite\<close> is an argument; locale \<open>output_device\<close> is its
    contract, \<open>output_stream\<close> what the writing operations and the printers rest on, and files over the system
    call \<open>write\<close> and string ports are the interpretations. A failure that is raised on an open port satisfies
    \<open>write_fails\<close>: the device has refused a write of the operation. The properties are about ports without flush hook;
    the definitions run the hook.
  \<^item> \<open>Cvector\<close> (\<open>cvector.c\<close>, \<open>cstruct.c\<close>, \<open>csrfi4.c\<close>): vectors, structures, their filling and sorting, with a
    predicate that may have effects and raise. \<open>Cobject\<close> (\<open>cobject.c\<close>, headers in \<open>bigloo.h\<close>, and the registration
    of classes in \<open>Llib/object.scm\<close>): the layout of objects and the instance tests. \<open>Cbinary\<close> (\<open>cbinary.c\<close>):
    binary ports over a model of the streams of the C library; the serialiser is a parameter, and so is \<open>mem\<close>, the sizes
    that \<open>malloc\<close> can serve. Elsewhere an allocation that asks for a possible size succeeds.
  \<^item> \<open>Cproc\<close> (\<open>ccontrol.c\<close>, macros of \<open>bigloo.h\<close>) and \<open>Capply\<close> (\<open>capply.c\<close>): procedures, generic functions, calls
    and application. Every C function of these files ends with a call, which is its value; \<open>run\<close> executes the chain
    until compiled code is reached, which is opaque, and \<open>invokes\<close> says what it should be reached with. The cases of
    the switches are transcribed one by one.
  \<^item> \<open>Cmutex\<close> (\<open>api/srfi18/src/Posix\<close>): the mutexes of SRFI 18, the lists in which a thread keeps those that it
    holds, their abandonment when it ends, waits and deadlines. \<open>step\<close> is one call of one thread, a wait two of
    them; \<open>reachable\<close> are the states of all interleavings of such steps, and \<open>inv\<close> what holds in them. Threads end on
    their own or are terminated, also while they wait; unlocks by a thread that does not hold the mutex, and locks by
    threads of the \<open>pthread\<close> library, are undefined and end a run. \<open>plug\<close> separates the mutexes that terminated
    waiters have taken with them from the others.

  \<^bold>\<open>What the lemmas show.\<close> Per operation, an equation or a specification on well-formed arguments
  (\<open>str_rep\<close>, \<open>denotes\<close>, \<open>holds\<close>, the well-formedness of the tables); then the properties, each under its
  number. Several state what the code does where it departs from what it means to do, and the manifest lists
  these as findings.

  \<^bold>\<open>Not modelled.\<close> Floating point; the fallback of bignums without GMP and their random numbers; opening
  files; timeouts, pipes, gzip ports and close hooks; sockets, processes, threads, dynamic loading and
  the other wrappers of system calls; continuations and the debugger, which depend on the stack of the compiled code; the
  garbage collector; the bindings under \<open>src/api\<close>, whose C code calls foreign libraries; the compiler, which is
  written in Scheme.
\<close>

end
